(* ===== verification/Kernel_Base.thy ===== *)
theory Kernel_Base
  imports Main "HOL-Library.Word"
begin

text \<open>
  Shared ground of the development: the machine integers of \<^verbatim>\<open>lib/stdint.h\<close>, the machine state
  every component works on, the error values that stand for a panic or a fault, and the generic
  lemmas the component theories use.

  The machine state is an extensible record.  A component that owns further state extends it
  (\<open>record pgmachine = machine + ...\<close>) and the operations of the lower components work on the
  larger state as they are, because they are written over \<open>'z machine_scheme\<close>.

  Memory is split by access width, as the code accesses it: \<open>mem\<close> holds the 32-bit words (link
  fields of list elements, arena headers, descriptors), \<open>bytes\<close> the objects the code reads and
  writes byte by byte (bitmaps, strings, buffers).
\<close>

unbundle bit_operations_syntax

section \<open>Machine integers\<close>

type_synonym u8 = "8 word"
type_synonym u16 = "16 word"
type_synonym u32 = "32 word"
type_synonym u64 = "64 word"
type_synonym addr = "32 word"

abbreviation NULL :: addr where
  "NULL \<equiv> 0"

definition PG_SIZE :: u32 where
  "PG_SIZE = 4096"

text \<open>\<open>DIV_ROUND_UP\<close> of \<^verbatim>\<open>lib/math.h\<close> on unsigned operands: the sum wraps.\<close>

definition DIV_ROUND_UP :: "u32 \<Rightarrow> u32 \<Rightarrow> u32" where
  "DIV_ROUND_UP X STEP = (X + STEP - 1) div STEP"

section \<open>Errors as values\<close>

text \<open>
  \<open>Panic\<close> is a failed \<open>ASSERT\<close> or a call of \<open>PANIC\<close> (\<^verbatim>\<open>panic_spin\<close> disables interrupts and
  never returns); \<open>PageFault\<close> an access the MMU refuses; \<open>NullDeref\<close> an access through a null
  pointer; \<open>Diverge\<close> a loop of the code that does not end; \<open>WouldBlock\<close> a lock found taken at a point
  where the model runs a call straight through; \<open>Overrun\<close> a write past the end of an array.
\<close>

datatype error =
    Panic string
  | PageFault addr
  | NullDeref
  | Diverge
  | WouldBlock addr
  | Overrun addr

type_synonym 'a result = "error + 'a"

fun bind_r :: "'a result \<Rightarrow> ('a \<Rightarrow> 'b result) \<Rightarrow> 'b result" where
  "bind_r (Inl e) f = Inl e"
| "bind_r (Inr x) f = f x"

text \<open>The statement \<open>ASSERT(c); rest\<close>.\<close>

definition ASSERT :: "bool \<Rightarrow> string \<Rightarrow> 'a result \<Rightarrow> 'a result" where
  "ASSERT c msg rest = (if c then rest else Inl (Panic msg))"

text \<open>The value of a loop that may not end, as a result.\<close>

definition loop_r :: "'a option \<Rightarrow> 'a result" where
  "loop_r m = (case m of None \<Rightarrow> Inl Diverge | Some x \<Rightarrow> Inr x)"

named_theorems err_simps "rules that evaluate the error plumbing"

lemma bind_r_eq_Inr: "bind_r m f = Inr y \<longleftrightarrow> (\<exists>x. m = Inr x \<and> f x = Inr y)"
  by (cases m) auto

lemma bind_r_eq_Inl: "bind_r m f = Inl e \<longleftrightarrow> m = Inl e \<or> (\<exists>x. m = Inr x \<and> f x = Inl e)"
  by (cases m) auto

lemma bind_r_assoc: "bind_r (bind_r m f) g = bind_r m (\<lambda>x. bind_r (f x) g)"
  by (cases m) auto

lemma ASSERT_True [simp]: "ASSERT True msg r = r"
  by (simp add: ASSERT_def)

lemma ASSERT_False [simp]: "ASSERT False msg r = Inl (Panic msg)"
  by (simp add: ASSERT_def)

lemma ASSERT_eq_Inr: "ASSERT c msg r = Inr y \<longleftrightarrow> c \<and> r = Inr y"
  by (simp add: ASSERT_def)

lemma loop_r_Some [simp]: "loop_r (Some x) = Inr x"
  by (simp add: loop_r_def)

lemma loop_r_None [simp]: "loop_r None = Inl Diverge"
  by (simp add: loop_r_def)

lemma loop_r_eq_Inr: "loop_r m = Inr y \<longleftrightarrow> m = Some y"
  by (cases m) auto

lemmas [err_simps] = bind_r_eq_Inr bind_r_eq_Inl ASSERT_eq_Inr loop_r_eq_Inr

section \<open>The machine state\<close>

record machine =
  eflags :: u32
  mem :: "addr \<Rightarrow> u32"
  bytes :: "addr \<Rightarrow> u8"

definition wr :: "addr \<Rightarrow> u32 \<Rightarrow> 'z machine_scheme \<Rightarrow> 'z machine_scheme" where
  "wr a v s = s\<lparr>mem := (mem s)(a := v)\<rparr>"

definition wrb :: "addr \<Rightarrow> u8 \<Rightarrow> 'z machine_scheme \<Rightarrow> 'z machine_scheme" where
  "wrb a v s = s\<lparr>bytes := (bytes s)(a := v)\<rparr>"

text \<open>A machine with interrupts off and clear memory, for concrete runs.\<close>

definition zero_machine :: machine where
  "zero_machine = \<lparr>eflags = 2, mem = (\<lambda>_. 0), bytes = (\<lambda>_. 0)\<rparr>"

named_theorems mem_simps "rules that push reads of the state through its updates"

lemma wr_sel [simp]:
  "mem (wr a v s) = (mem s)(a := v)"
  "bytes (wr a v s) = bytes s"
  "eflags (wr a v s) = eflags s"
  "machine.more (wr a v s) = machine.more s"
  by (simp_all add: wr_def)

lemma wrb_sel [simp]:
  "mem (wrb a v s) = mem s"
  "bytes (wrb a v s) = (bytes s)(a := v)"
  "eflags (wrb a v s) = eflags s"
  "machine.more (wrb a v s) = machine.more s"
  by (simp_all add: wrb_def)

lemmas [mem_simps] = wr_sel wrb_sel

section \<open>Word lemmas\<close>

named_theorems word_facts "facts that move word arithmetic to the natural numbers"

lemma unat_u32: "unat (x :: u32) < 2 ^ 32" "unat (x :: u32) \<le> 2 ^ 32"
  "unat (x :: u32) < 4294967296" "unat (x :: u32) \<le> 4294967296"
proof -
  have "unat x < 2 ^ LENGTH(32)" by (rule unsigned_less)
  then show "unat x < 2 ^ 32" "unat x \<le> 2 ^ 32" "unat x < 4294967296" "unat x \<le> 4294967296"
    by simp_all
qed

lemma unat_add_lt:
  fixes a b :: "'a::len word"
  assumes "unat a + unat b < 2 ^ LENGTH('a)"
  shows "unat (a + b) = unat a + unat b"
  using assms by (simp add: unat_word_ariths)

lemma unat_Suc_lt:
  fixes i n :: "'a::len word"
  assumes "i < n"
  shows "unat (i + 1) = Suc (unat i)"
proof -
  have "unat i < unat n" using assms by (simp add: word_less_nat_alt)
  moreover have "unat n < 2 ^ LENGTH('a)" by (rule unsigned_less)
  ultimately have "unat i + 1 < 2 ^ LENGTH('a)" by linarith
  then show ?thesis by (simp add: unat_word_ariths)
qed

lemma unat_of_nat_lt:
  assumes "n < 2 ^ LENGTH('a)"
  shows "unat (of_nat n :: 'a::len word) = n"
  using assms by (simp add: unat_of_nat take_bit_nat_eq_self_iff)

lemma of_nat_word_inj:
  assumes "m < 2 ^ LENGTH('a)" and "n < 2 ^ LENGTH('a)"
  shows "(of_nat m :: 'a::len word) = of_nat n \<longleftrightarrow> m = n"
  using assms by (metis unat_of_nat_lt)

lemmas [word_facts] = unat_add_lt unat_Suc_lt unat_of_nat_lt word_less_nat_alt word_le_nat_alt

section \<open>Blocks of addresses\<close>

text \<open>\<open>in_block a n x\<close>: the address \<open>x\<close> is one of the \<open>n\<close> addresses from \<open>a\<close> on (modulo \<open>2 ^ 32\<close>).\<close>

definition in_block :: "addr \<Rightarrow> nat \<Rightarrow> addr \<Rightarrow> bool" where
  "in_block a n x = (unat (x - a) < n)"

lemma in_block_0 [simp]: "\<not> in_block a 0 x"
  by (simp add: in_block_def)

lemma in_block_Suc: "in_block a (Suc n) x \<longleftrightarrow> x = a \<or> in_block (a + 1) n x"
proof (cases "x = a")
  case False
  then have "x - a \<noteq> 0" by simp
  then have "unat (x - a - 1) = unat (x - a) - 1" and "unat (x - a) \<noteq> 0"
    using unat_minus_one by (blast, simp add: unat_eq_0)
  moreover have eq: "x - (a + 1) = x - a - 1" by simp
  ultimately show ?thesis using False unfolding in_block_def eq by simp linarith
qed (simp add: in_block_def)

lemma in_block_self: "in_block a n a \<longleftrightarrow> 0 < n"
  by (simp add: in_block_def)

lemma not_in_block_Suc:
  assumes "n < 2 ^ 32"
  shows "\<not> in_block (a + 1) n a"
proof -
  have "unat (a - (a + 1)) = 2 ^ 32 - 1"
    by (simp add: unsigned_minus_1_eq_mask mask_eq_exp_minus_1)
  with assms show ?thesis by (simp add: in_block_def)
qed

lemma in_block_mono: "in_block a n x \<Longrightarrow> n \<le> k \<Longrightarrow> in_block a k x"
  by (simp add: in_block_def)

lemma in_block_offset:
  assumes "i < n" and "n \<le> 2 ^ 32"
  shows "in_block a n (a + of_nat i)"
  using assms by (simp add: in_block_def unat_of_nat_lt)

definition disjoint_blocks :: "addr \<Rightarrow> nat \<Rightarrow> addr \<Rightarrow> nat \<Rightarrow> bool" where
  "disjoint_blocks a n b k = (\<forall>x. \<not> (in_block a n x \<and> in_block b k x))"

lemma disjoint_blocks_sym: "disjoint_blocks a n b k \<longleftrightarrow> disjoint_blocks b k a n"
  by (auto simp: disjoint_blocks_def)

text \<open>Two blocks that lie apart in the unwrapped address order are disjoint.\<close>

lemma in_block_unat:
  assumes "unat a + n \<le> 2 ^ 32"
  shows "in_block a n x \<longleftrightarrow> unat a \<le> unat x \<and> unat x < unat a + n"
proof (cases "unat a \<le> unat x")
  case True
  then have "unat (x - a) = unat x - unat a"
    by (simp add: unat_sub word_le_nat_alt)
  with True show ?thesis by (auto simp: in_block_def)
next
  case False
  then have "unat (x - a) = 2 ^ 32 + unat x - unat a"
    by (simp add: unat_sub_if_size word_size)
  with False assms show ?thesis by (auto simp: in_block_def)
qed

lemma disjoint_blocks_unat:
  assumes "unat a + n \<le> unat b" and "unat b + k \<le> 2 ^ 32"
  shows "disjoint_blocks a n b k"
  using assms by (auto simp: disjoint_blocks_def in_block_unat)

end
