(* ===== verification/Interrupt.thy ===== *)
theory Interrupt
  imports Kernel_Base
begin

text \<open>
  Interrupt control of \<^verbatim>\<open>kernel/interrupt.c\<close>: the interrupt flag of \<^verbatim>\<open>EFLAGS\<close> and the four
  operations every critical section of the kernel is built from.
\<close>

section \<open>The interrupt flag\<close>

definition EFLAGS_IF :: u32 where
  "EFLAGS_IF = 0x00000200"

datatype intr_status = INTR_OFF | INTR_ON

text \<open>The instructions \<^verbatim>\<open>sti\<close> and \<^verbatim>\<open>cli\<close>.\<close>

definition sti :: "'z machine_scheme \<Rightarrow> 'z machine_scheme" where
  "sti s = s\<lparr>eflags := eflags s OR EFLAGS_IF\<rparr>"

definition cli :: "'z machine_scheme \<Rightarrow> 'z machine_scheme" where
  "cli s = s\<lparr>eflags := eflags s AND NOT EFLAGS_IF\<rparr>"

definition intr_get_status :: "'z machine_scheme \<Rightarrow> intr_status" where
  "intr_get_status s = (if EFLAGS_IF AND eflags s \<noteq> 0 then INTR_ON else INTR_OFF)"

definition intr_enable :: "'z machine_scheme \<Rightarrow> intr_status \<times> 'z machine_scheme" where
  "intr_enable s =
     (if INTR_ON = intr_get_status s then (INTR_ON, s) else (INTR_OFF, sti s))"

definition intr_disable :: "'z machine_scheme \<Rightarrow> intr_status \<times> 'z machine_scheme" where
  "intr_disable s =
     (if INTR_ON = intr_get_status s then (INTR_ON, cli s) else (INTR_OFF, s))"

definition intr_set_status :: "intr_status \<Rightarrow> 'z machine_scheme \<Rightarrow> intr_status \<times> 'z machine_scheme" where
  "intr_set_status status s = (if status = INTR_ON then intr_enable s else intr_disable s)"

section \<open>Facts\<close>

lemma EFLAGS_IF_exp: "EFLAGS_IF = 2 ^ 9"
  by (simp add: EFLAGS_IF_def)

lemma bit_EFLAGS_IF: "bit EFLAGS_IF n \<longleftrightarrow> n = 9"
  unfolding EFLAGS_IF_exp by (auto simp: bit_exp_iff simp del: power_numeral)

lemma intr_get_status_bit: "intr_get_status s = (if bit (eflags s) 9 then INTR_ON else INTR_OFF)"
proof -
  have "EFLAGS_IF AND eflags s \<noteq> 0 \<longleftrightarrow> bit (eflags s) 9"
    using and_exp_eq_0_iff_not_bit [of "eflags s" 9]
    by (simp add: EFLAGS_IF_exp and.commute del: power_numeral)
  then show ?thesis by (simp add: intr_get_status_def)
qed

lemma sti_sel [simp]:
  "mem (sti s) = mem s" "bytes (sti s) = bytes s" "machine.more (sti s) = machine.more s"
  by (simp_all add: sti_def)

lemma cli_sel [simp]:
  "mem (cli s) = mem s" "bytes (cli s) = bytes s" "machine.more (cli s) = machine.more s"
  by (simp_all add: cli_def)

lemma intr_get_status_sti [simp]: "intr_get_status (sti s) = INTR_ON"
  by (simp add: intr_get_status_bit sti_def bit_or_iff bit_EFLAGS_IF)

lemma intr_get_status_cli [simp]: "intr_get_status (cli s) = INTR_OFF"
  by (simp add: intr_get_status_bit cli_def bit_and_iff bit_not_iff bit_EFLAGS_IF)

lemma sti_cli_eflags:
  assumes "intr_get_status s = INTR_ON"
  shows "eflags (sti (cli s)) = eflags s"
proof (rule bit_word_eqI)
  fix n assume "n < LENGTH(32)"
  then show "bit (eflags (sti (cli s))) n = bit (eflags s) n"
    using assms
    by (auto simp: sti_def cli_def bit_or_iff bit_and_iff bit_not_iff bit_EFLAGS_IF
        intr_get_status_bit split: if_splits)
qed

lemma intr_disable_sel [simp]:
  "mem (snd (intr_disable s)) = mem s"
  "bytes (snd (intr_disable s)) = bytes s"
  "machine.more (snd (intr_disable s)) = machine.more s"
  by (simp_all add: intr_disable_def)

lemma intr_enable_sel [simp]:
  "mem (snd (intr_enable s)) = mem s"
  "bytes (snd (intr_enable s)) = bytes s"
  "machine.more (snd (intr_enable s)) = machine.more s"
  by (simp_all add: intr_enable_def)

lemma intr_set_status_sel [simp]:
  "mem (snd (intr_set_status st s)) = mem s"
  "bytes (snd (intr_set_status st s)) = bytes s"
  "machine.more (snd (intr_set_status st s)) = machine.more s"
  by (simp_all add: intr_set_status_def)

lemma intr_disable_off: "intr_get_status (snd (intr_disable s)) = INTR_OFF"
  by (cases "intr_get_status s") (auto simp: intr_disable_def)

lemma fst_intr_disable [simp]: "fst (intr_disable s) = intr_get_status s"
  by (cases "intr_get_status s") (auto simp: intr_disable_def)

lemma intr_get_status_set: "intr_get_status (snd (intr_set_status st s)) = st"
  by (cases st; cases "intr_get_status s")
    (auto simp: intr_set_status_def intr_enable_def intr_disable_def)

lemma intr_status_eflags_cong:
  "eflags s = eflags t \<Longrightarrow> intr_get_status s = intr_get_status t"
  by (simp add: intr_get_status_def)

text \<open>
  A critical section (\<open>old = intr_disable(); ...; intr_set_status(old)\<close>) whose body leaves
  \<^verbatim>\<open>EFLAGS\<close> alone gives back exactly the flags it found.
\<close>

lemma intr_bracket_eflags:
  assumes "eflags t = eflags (snd (intr_disable s))"
  shows "eflags (snd (intr_set_status (fst (intr_disable s)) t)) = eflags s"
proof (cases "intr_get_status s")
  case INTR_OFF
  then have "intr_get_status t = INTR_OFF"
    using assms intr_status_eflags_cong [OF assms] intr_disable_off by metis
  with INTR_OFF assms show ?thesis
    by (simp add: intr_disable_def intr_set_status_def)
next
  case INTR_ON
  then have e: "eflags t = eflags (cli s)" using assms by (simp add: intr_disable_def)
  then have "intr_get_status t = INTR_OFF"
    using intr_status_eflags_cong intr_get_status_cli by metis
  moreover have "eflags (sti t) = eflags (sti (cli s))" by (simp add: sti_def e)
  ultimately show ?thesis
    using INTR_ON by (simp add: intr_set_status_def intr_enable_def sti_cli_eflags)
qed

end
