(* ===== verification/Linked_List.thy ===== *)
theory Linked_List
  imports Interrupt
begin

text \<open>
  The intrusive doubly linked list of \<^verbatim>\<open>lib/kernel/list.c\<close>.  A \<^verbatim>\<open>list_elem\<close> at address \<open>e\<close> is two
  words, \<open>prev\<close> at \<open>e\<close> and \<open>next\<close> at \<open>e + 4\<close>; a \<^verbatim>\<open>list\<close> at address \<open>p\<close> is its two sentinels,
  \<open>head\<close> at \<open>p\<close> and \<open>tail\<close> at \<open>p + 8\<close>.  The operations are the pointer writes of the source, in
  their order, inside the interrupt bracket the source has.  The loops follow \<open>next\<close> pointers and
  need not end on a corrupted list, so they are partial functions into \<open>option\<close>.

  The second half gives the list its meaning: \<open>dlist s p xs\<close> says that the memory of \<open>s\<close> holds a
  well-formed list at \<open>p\<close> whose elements are \<open>xs\<close>.  Every operation is shown to implement the
  operation on sequences it stands for and to change no word outside the nodes it relinks.  The
  contract clients use is the locale \<open>sequence_list\<close>, interpreted on the operations.
\<close>

section \<open>Layout\<close>

definition le_prev :: "'z machine_scheme \<Rightarrow> addr \<Rightarrow> addr" where
  "le_prev s e = mem s e"

definition le_next :: "'z machine_scheme \<Rightarrow> addr \<Rightarrow> addr" where
  "le_next s e = mem s (e + 4)"

definition set_prev :: "addr \<Rightarrow> addr \<Rightarrow> 'z machine_scheme \<Rightarrow> 'z machine_scheme" where
  "set_prev e v s = wr e v s"

definition set_next :: "addr \<Rightarrow> addr \<Rightarrow> 'z machine_scheme \<Rightarrow> 'z machine_scheme" where
  "set_next e v s = wr (e + 4) v s"

definition list_head :: "addr \<Rightarrow> addr" where
  "list_head plist = plist"

definition list_tail :: "addr \<Rightarrow> addr" where
  "list_tail plist = plist + 8"

text \<open>The macro \<open>elem2entry\<close>: from the address of a member to that of the structure around it.\<close>

definition elem2entry :: "u32 \<Rightarrow> addr \<Rightarrow> addr" where
  "elem2entry member_offset elem_ptr = elem_ptr - member_offset"

section \<open>The operations\<close>

definition list_init :: "addr \<Rightarrow> 'z machine_scheme \<Rightarrow> 'z machine_scheme" where
  "list_init plist s =
     (let s = set_prev (list_head plist) NULL s;
          s = set_next (list_head plist) (list_tail plist) s;
          s = set_prev (list_tail plist) (list_head plist) s
      in set_next (list_tail plist) NULL s)"

definition list_insert_before :: "addr \<Rightarrow> addr \<Rightarrow> 'z machine_scheme \<Rightarrow> 'z machine_scheme" where
  "list_insert_before before elem s =
     (let (old_status, s) = intr_disable s;
          s = set_next (le_prev s before) elem s;
          s = set_prev elem (le_prev s before) s;
          s = set_next elem before s;
          s = set_prev before elem s
      in snd (intr_set_status old_status s))"

definition list_push :: "addr \<Rightarrow> addr \<Rightarrow> 'z machine_scheme \<Rightarrow> 'z machine_scheme" where
  "list_push plist elem s = list_insert_before (le_next s (list_head plist)) elem s"

definition list_append :: "addr \<Rightarrow> addr \<Rightarrow> 'z machine_scheme \<Rightarrow> 'z machine_scheme" where
  "list_append plist elem s = list_insert_before (list_tail plist) elem s"

definition list_remove :: "addr \<Rightarrow> 'z machine_scheme \<Rightarrow> 'z machine_scheme" where
  "list_remove pelem s =
     (let (old_status, s) = intr_disable s;
          s = set_next (le_prev s pelem) (le_next s pelem) s;
          s = set_prev (le_next s pelem) (le_prev s pelem) s
      in snd (intr_set_status old_status s))"

definition list_pop :: "addr \<Rightarrow> 'z machine_scheme \<Rightarrow> addr \<times> 'z machine_scheme" where
  "list_pop plist s = (let elem = le_next s (list_head plist) in (elem, list_remove elem s))"

definition list_empty :: "addr \<Rightarrow> 'z machine_scheme \<Rightarrow> bool" where
  "list_empty plist s = (le_next s (list_head plist) = list_tail plist)"

partial_function (option) elem_find_loop :: "'z machine_scheme \<Rightarrow> addr \<Rightarrow> addr \<Rightarrow> addr \<Rightarrow> bool option" where
  "elem_find_loop s tail obj_elem elem =
     (if elem = tail then Some False
      else if elem = obj_elem then Some True
      else elem_find_loop s tail obj_elem (le_next s elem))"

definition elem_find :: "addr \<Rightarrow> addr \<Rightarrow> 'z machine_scheme \<Rightarrow> bool option" where
  "elem_find plist obj_elem s =
     elem_find_loop s (list_tail plist) obj_elem (le_next s (list_head plist))"

text \<open>The callback of \<open>list_traversal\<close> may change the state (it prints, for example).\<close>

partial_function (option) list_traversal_loop ::
  "(addr \<Rightarrow> u32 \<Rightarrow> 'z machine_scheme \<Rightarrow> bool \<times> 'z machine_scheme) \<Rightarrow> u32 \<Rightarrow> addr \<Rightarrow> addr \<Rightarrow>
     'z machine_scheme \<Rightarrow> (addr \<times> 'z machine_scheme) option" where
  "list_traversal_loop func arg tail elem s =
     (if elem = tail then Some (NULL, s)
      else case func elem arg s of (found, s) \<Rightarrow>
        if found then Some (elem, s)
        else list_traversal_loop func arg tail (le_next s elem) s)"

definition list_traversal ::
  "addr \<Rightarrow> (addr \<Rightarrow> u32 \<Rightarrow> 'z machine_scheme \<Rightarrow> bool \<times> 'z machine_scheme) \<Rightarrow> u32 \<Rightarrow>
     'z machine_scheme \<Rightarrow> (addr \<times> 'z machine_scheme) option" where
  "list_traversal plist func arg s =
     (let elem = le_next s (list_head plist)
      in if list_empty plist s then Some (NULL, s)
         else list_traversal_loop func arg (list_tail plist) elem s)"

partial_function (option) list_len_loop :: "'z machine_scheme \<Rightarrow> addr \<Rightarrow> u32 \<Rightarrow> addr \<Rightarrow> u32 option" where
  "list_len_loop s tail n elem =
     (if elem = tail then Some n else list_len_loop s tail (n + 1) (le_next s elem))"

definition list_len :: "addr \<Rightarrow> 'z machine_scheme \<Rightarrow> u32 option" where
  "list_len plist s = list_len_loop s (list_tail plist) 0 (le_next s (list_head plist))"

section \<open>Effects on memory\<close>

lemmas list_layout = le_prev_def le_next_def set_prev_def set_next_def list_head_def list_tail_def

lemma list_init_mem:
  "mem (list_init p s) = (mem s)(p := NULL, p + 4 := p + 8, p + 8 := p, p + 12 := NULL)"
  by (simp add: list_init_def list_layout Let_def add.assoc)

lemma list_insert_before_mem:
  assumes "mem s b + 4 \<noteq> b"
  shows "mem (list_insert_before b e s) =
    (mem s)(mem s b + 4 := e, e := mem s b, e + 4 := b, b := e)"
  using assms
  by (auto simp: list_insert_before_def list_layout Let_def split: prod.splits
      dest: arg_cong [where f = "\<lambda>x. mem (snd x)"])

lemma list_remove_mem:
  assumes "mem s e + 4 \<noteq> e"
  shows "mem (list_remove e s) =
    (let s1 = (mem s)(mem s e + 4 := mem s (e + 4)) in s1(s1 (e + 4) := mem s e))"
  using assms
  by (auto simp: list_remove_def list_layout Let_def split: prod.splits
      dest: arg_cong [where f = "\<lambda>x. mem (snd x)"])


lemma list_op_frame [simp]:
  "bytes (list_init p s) = bytes s"
  "machine.more (list_init p s) = machine.more s"
  "eflags (list_init p s) = eflags s"
  "bytes (list_insert_before b e s) = bytes s"
  "machine.more (list_insert_before b e s) = machine.more s"
  "bytes (list_remove e s) = bytes s"
  "machine.more (list_remove e s) = machine.more s"
  by (simp_all add: list_init_def list_insert_before_def list_remove_def list_layout Let_def
      split_beta)

lemma list_op_eflags [simp]:
  "eflags (list_insert_before b e s) = eflags s"
  "eflags (list_remove e s) = eflags s"
  unfolding list_insert_before_def list_remove_def Let_def split_beta list_layout
  by (rule intr_bracket_eflags, simp)+

lemma list_push_append_frame [simp]:
  "bytes (list_push p e s) = bytes s"
  "machine.more (list_push p e s) = machine.more s"
  "eflags (list_push p e s) = eflags s"
  "bytes (list_append p e s) = bytes s"
  "machine.more (list_append p e s) = machine.more s"
  "eflags (list_append p e s) = eflags s"
  "bytes (snd (list_pop p s)) = bytes s"
  "machine.more (snd (list_pop p s)) = machine.more s"
  "eflags (snd (list_pop p s)) = eflags s"
  by (simp_all add: list_push_def list_append_def list_pop_def Let_def)

section \<open>Chains of nodes\<close>

text \<open>\<open>linked m ws\<close>: consecutive nodes of \<open>ws\<close> point to each other.\<close>

fun linked :: "(addr \<Rightarrow> u32) \<Rightarrow> addr list \<Rightarrow> bool" where
  "linked m [] = True"
| "linked m [a] = True"
| "linked m (a # b # ws) = (m (a + 4) = b \<and> m b = a \<and> linked m (b # ws))"

text \<open>Nodes of eight bytes each that do not overlap.\<close>

definition spaced :: "addr set \<Rightarrow> bool" where
  "spaced A = (\<forall>a\<in>A. \<forall>b\<in>A. a \<noteq> b + 4)"

definition nodes :: "addr \<Rightarrow> addr list \<Rightarrow> addr list" where
  "nodes p xs = p # xs @ [p + 8]"

definition words_of :: "addr set \<Rightarrow> addr set" where
  "words_of A = A \<union> (\<lambda>a. a + 4) ` A"

definition dlist :: "(addr \<Rightarrow> u32) \<Rightarrow> addr \<Rightarrow> addr list \<Rightarrow> bool" where
  "dlist m p xs = (distinct (nodes p xs) \<and> spaced (set (nodes p xs)) \<and> linked m (nodes p xs))"

lemma spacedD: "spaced A \<Longrightarrow> a \<in> A \<Longrightarrow> b \<in> A \<Longrightarrow> a \<noteq> b + 4"
  by (simp add: spaced_def)

lemma in_set_tlD: "x \<in> set (tl ws) \<Longrightarrow> x \<in> set ws"
  by (cases ws) auto

lemma spaced_mono: "spaced B \<Longrightarrow> A \<subseteq> B \<Longrightarrow> spaced A"
  by (auto simp: spaced_def)

lemma linked_append:
  "linked m (xs @ a # ys) \<longleftrightarrow> linked m (xs @ [a]) \<and> linked m (a # ys)"
proof (induction xs)
  case Nil
  then show ?case by simp
next
  case (Cons x xs)
  then show ?case by (cases xs) auto
qed

lemma linked_cong:
  assumes "\<And>x. x \<in> set (butlast ws) \<Longrightarrow> m' (x + 4) = m (x + 4)"
    and "\<And>x. x \<in> set (tl ws) \<Longrightarrow> m' x = m x"
  shows "linked m' ws = linked m ws"
  using assms
proof (induction ws rule: induct_list012)
  case (3 a b ws)
  have "linked m' (b # ws) = linked m (b # ws)"
    using "3.prems" by (intro "3.IH"(2)) auto
  with "3.prems" show ?case by auto
qed auto

lemma linked_frame:
  assumes "\<And>x. x \<in> words_of (set ws) \<Longrightarrow> m' x = m x"
  shows "linked m' ws = linked m ws"
  by (rule linked_cong) (use assms in \<open>auto simp: words_of_def dest: in_set_butlastD in_set_tlD\<close>)

lemma dlist_frame:
  assumes "\<And>x. x \<in> words_of (set (nodes p xs)) \<Longrightarrow> m' x = m x"
  shows "dlist m' p xs = dlist m p xs"
  using linked_frame [OF assms] by (simp add: dlist_def)

lemma linked_next:
  assumes "linked m (us @ a # b # vs)"
  shows "m (a + 4) = b" and "m b = a"
  using assms by (simp_all add: linked_append [of m us a "b # vs"])

text \<open>Linking \<open>e\<close> in between two neighbours.\<close>

lemma linked_insert:
  assumes lnk: "linked m (us @ a # b # vs)"
    and dist: "distinct (us @ a # e # b # vs)"
    and sp: "spaced (set (us @ a # e # b # vs))"
    and m': "m' = m(a + 4 := e, e := a, e + 4 := b, b := e)"
  shows "linked m' (us @ a # e # b # vs)"
proof -
  have l1: "linked m (us @ [a])" and l2: "linked m (b # vs)"
    using lnk linked_append [of m us a "b # vs"] by auto
  let ?W = "set (us @ a # e # b # vs)"
  have ne: "a + 4 \<notin> ?W" "e + 4 \<notin> ?W" "b + 4 \<notin> ?W" "\<forall>y\<in>?W. y + 4 \<notin> ?W"
    using sp by (auto simp only: spaced_def set_append list.set)
  have "linked m' (us @ [a])"
    using l1 by (subst linked_cong [where m = m])
      (use dist ne in \<open>auto simp: m' dest!: in_set_tlD\<close>)
  moreover have "linked m' (b # vs)"
    using l2 by (subst linked_cong [where m = m])
      (use dist ne in \<open>auto simp: m' dest: in_set_butlastD split: if_splits\<close>)
  moreover have "m' (a + 4) = e \<and> m' e = a \<and> m' (e + 4) = b \<and> m' b = e"
    using dist ne by (auto simp: m')
  ultimately show ?thesis
    by (simp add: linked_append [of m' us a "e # b # vs"])
qed

text \<open>Unlinking \<open>e\<close> from between its neighbours.\<close>

lemma linked_delete:
  assumes lnk: "linked m (us @ a # e # b # vs)"
    and dist: "distinct (us @ a # e # b # vs)"
    and sp: "spaced (set (us @ a # e # b # vs))"
    and m': "m' = m(a + 4 := b, b := a)"
  shows "linked m' (us @ a # b # vs)"
proof -
  have l1: "linked m (us @ [a])" and l2: "linked m (b # vs)"
    using lnk linked_append [of m us a "e # b # vs"] by auto
  let ?W = "set (us @ a # e # b # vs)"
  have ne: "a + 4 \<notin> ?W" "e + 4 \<notin> ?W" "b + 4 \<notin> ?W" "\<forall>y\<in>?W. y + 4 \<notin> ?W"
    using sp by (auto simp only: spaced_def set_append list.set)
  have "linked m' (us @ [a])"
    using l1 by (subst linked_cong [where m = m])
      (use dist ne in \<open>auto simp: m' dest!: in_set_tlD\<close>)
  moreover have "linked m' (b # vs)"
    using l2 by (subst linked_cong [where m = m])
      (use dist ne in \<open>auto simp: m' dest: in_set_butlastD split: if_splits\<close>)
  moreover have "m' (a + 4) = b \<and> m' b = a"
    using dist ne by (auto simp: m')
  ultimately show ?thesis
    by (simp add: linked_append [of m' us a "b # vs"])
qed

section \<open>The operations on well-formed lists\<close>

text \<open>A node that can be linked into the list: not a node of it and not overlapping one.\<close>

definition fresh_node :: "addr \<Rightarrow> addr list \<Rightarrow> addr \<Rightarrow> bool" where
  "fresh_node p xs e = (e \<notin> set (nodes p xs) \<and> spaced (insert e (set (nodes p xs))))"

lemma set_nodes: "set (nodes p xs) = insert p (insert (p + 8) (set xs))"
  by (auto simp: nodes_def)

lemma nodes_split:
  obtains ws a where "nodes p (us @ vs) = ws @ a # vs @ [p + 8]" and "p # us = ws @ [a]"
proof (cases "p # us" rule: rev_cases)
  case (snoc ws a)
  then have "nodes p (us @ vs) = (ws @ [a]) @ vs @ [p + 8]"
    by (simp add: nodes_def flip: append_Cons)
  with snoc show ?thesis using that by simp
qed simp

lemma list_init_dlist: "dlist (mem (list_init p s)) p []"
  by (auto simp: dlist_def nodes_def spaced_def list_init_mem)

lemma dlist_insert_before:
  assumes d: "dlist (mem s) p (us @ vs)"
    and b: "b = hd (vs @ [p + 8])"
    and e: "fresh_node p (us @ vs) e"
  shows "dlist (mem (list_insert_before b e s)) p (us @ e # vs)"
    and "x \<notin> words_of (insert e (set (nodes p (us @ vs)))) \<Longrightarrow>
           mem (list_insert_before b e s) x = mem s x"
proof -
  obtain ws a where n: "nodes p (us @ vs) = ws @ a # vs @ [p + 8]" and pu: "p # us = ws @ [a]"
    by (rule nodes_split)
  obtain vs' where v: "vs @ [p + 8] = b # vs'"
    using b by (cases "vs @ [p + 8]") auto
  have n': "nodes p (us @ vs) = ws @ a # b # vs'" using n v by simp
  have "nodes p (us @ e # vs) = (p # us) @ e # vs @ [p + 8]" by (simp add: nodes_def)
  then have n'': "nodes p (us @ e # vs) = ws @ a # e # b # vs'" by (simp only: pu v) simp
  have l: "linked (mem s) (ws @ a # b # vs')" using d n' by (simp add: dlist_def)
  have dist: "distinct (ws @ a # e # b # vs')" and sp: "spaced (set (ws @ a # e # b # vs'))"
    using d e n' by (auto simp: dlist_def fresh_node_def insert_commute)
  have pb: "mem s b = a" using linked_next(2) [OF l] .
  have "a + 4 \<noteq> b" using sp by (auto simp: spaced_def)
  then have m: "mem (list_insert_before b e s) = (mem s)(a + 4 := e, e := a, e + 4 := b, b := e)"
    using list_insert_before_mem [of s b e] pb by simp
  show "dlist (mem (list_insert_before b e s)) p (us @ e # vs)"
    using linked_insert [OF l dist sp m] dist sp by (simp add: dlist_def n'')
  show "mem (list_insert_before b e s) x = mem s x"
    if "x \<notin> words_of (insert e (set (nodes p (us @ vs))))"
    using that by (auto simp: m n' words_of_def)
qed

lemma dlist_next_head: "dlist m p xs \<Longrightarrow> m (p + 4) = hd (xs @ [p + 8])"
  by (cases xs) (auto simp: dlist_def nodes_def)

lemma list_append_dlist:
  assumes "dlist (mem s) p xs" and "fresh_node p xs e"
  shows "dlist (mem (list_append p e s)) p (xs @ [e])"
    and "x \<notin> words_of (insert e (set (nodes p xs))) \<Longrightarrow> mem (list_append p e s) x = mem s x"
  using dlist_insert_before [of s p xs "[]" "p + 8" e] assms
  by (simp_all add: list_append_def list_tail_def)

lemma list_push_dlist:
  assumes "dlist (mem s) p xs" and "fresh_node p xs e"
  shows "dlist (mem (list_push p e s)) p (e # xs)"
    and "x \<notin> words_of (insert e (set (nodes p xs))) \<Longrightarrow> mem (list_push p e s) x = mem s x"
  using dlist_insert_before [of s p "[]" xs "hd (xs @ [p + 8])" e] assms
    dlist_next_head [OF assms(1)]
  by (simp_all add: list_push_def list_head_def le_next_def)

lemma list_remove_dlist:
  assumes d: "dlist (mem s) p (us @ e # vs)"
  shows "dlist (mem (list_remove e s)) p (us @ vs)"
    and "x \<notin> words_of (set (nodes p (us @ vs))) \<Longrightarrow> mem (list_remove e s) x = mem s x"
proof -
  obtain ws a where n: "nodes p (us @ e # vs) = ws @ a # (e # vs) @ [p + 8]"
    and pu: "p # us = ws @ [a]"
    by (rule nodes_split)
  obtain b vs' where v: "vs @ [p + 8] = b # vs'"
    by (cases "vs @ [p + 8]") auto
  have n': "nodes p (us @ e # vs) = ws @ a # e # b # vs'" using n v by simp
  have "nodes p (us @ vs) = (p # us) @ vs @ [p + 8]" by (simp add: nodes_def)
  then have n'': "nodes p (us @ vs) = ws @ a # b # vs'" by (simp only: pu v) simp
  have l: "linked (mem s) (ws @ a # e # b # vs')"
    and dist: "distinct (ws @ a # e # b # vs')" and sp: "spaced (set (ws @ a # e # b # vs'))"
    using d n' by (simp_all add: dlist_def)
  have links: "mem s e = a" "mem s (e + 4) = b"
    using linked_next [of "mem s" ws a e] linked_next [of "mem s" "ws @ [a]" e b] l by auto
  have "a + 4 \<noteq> e" "a + 4 \<noteq> e + 4" using sp dist by (auto simp: spaced_def)
  then have m: "mem (list_remove e s) = (mem s)(a + 4 := b, b := a)"
    using list_remove_mem [of s e] links by simp
  have "spaced (set (ws @ a # b # vs'))" using sp by (rule spaced_mono) auto
  then show "dlist (mem (list_remove e s)) p (us @ vs)"
    using linked_delete [OF l dist sp m] dist by (simp add: dlist_def n'')
  show "mem (list_remove e s) x = mem s x" if "x \<notin> words_of (set (nodes p (us @ vs)))"
    using that by (auto simp: m n'' words_of_def)
qed

lemma list_pop_dlist:
  assumes "dlist (mem s) p (x # xs)"
  shows "fst (list_pop p s) = x"
    and "dlist (mem (snd (list_pop p s))) p xs"
    and "y \<notin> words_of (set (nodes p xs)) \<Longrightarrow> mem (snd (list_pop p s)) y = mem s y"
  using list_remove_dlist [of s p "[]" x xs] dlist_next_head [OF assms] assms
  by (simp_all add: list_pop_def le_next_def list_head_def)

lemma list_empty_dlist:
  assumes "dlist (mem s) p xs"
  shows "list_empty p s \<longleftrightarrow> xs = []"
  using dlist_next_head [OF assms] assms
  by (cases xs) (auto simp: list_empty_def le_next_def list_head_def list_tail_def dlist_def nodes_def)

lemma elem_find_loop_linked:
  assumes "linked (mem s) (a # xs @ [t])" and "t \<notin> set xs"
  shows "elem_find_loop s t e (mem s (a + 4)) = Some (e \<in> set xs)"
  using assms
proof (induction xs arbitrary: a)
  case Nil
  then show ?case by (simp add: elem_find_loop.simps)
next
  case (Cons x xs)
  then have "elem_find_loop s t e (mem s (x + 4)) = Some (e \<in> set xs)"
    by (cases xs) auto
  with Cons.prems show ?case
    by (auto simp: elem_find_loop.simps [of s t e x] le_next_def)
qed

lemma elem_find_dlist:
  assumes "dlist (mem s) p xs"
  shows "elem_find p e s = Some (e \<in> set xs)"
  using elem_find_loop_linked [of s p xs "p + 8" e] assms
  by (auto simp: elem_find_def le_next_def list_head_def list_tail_def dlist_def nodes_def)

lemma list_len_loop_linked:
  assumes "linked (mem s) (a # xs @ [t])" and "t \<notin> set xs"
  shows "list_len_loop s t n (mem s (a + 4)) = Some (n + of_nat (length xs))"
  using assms
proof (induction xs arbitrary: a n)
  case Nil
  then show ?case by (simp add: list_len_loop.simps)
next
  case (Cons x xs)
  then have "list_len_loop s t (n + 1) (mem s (x + 4)) = Some (n + 1 + of_nat (length xs))"
    by (cases xs) auto
  with Cons.prems show ?case
    by (auto simp: list_len_loop.simps [of s t n x] le_next_def)
qed

lemma list_len_dlist:
  assumes "dlist (mem s) p xs"
  shows "list_len p s = Some (of_nat (length xs))"
  using list_len_loop_linked [of s p xs "p + 8" 0] assms
  by (auto simp: list_len_def le_next_def list_head_def list_tail_def dlist_def nodes_def)

lemma list_traversal_loop_linked:
  assumes pure: "\<And>e. func e arg s = (P e, s)"
    and "linked (mem s) (a # xs @ [t])" and "t \<notin> set xs"
  shows "list_traversal_loop func arg t (mem s (a + 4)) s =
    Some (case find P xs of None \<Rightarrow> NULL | Some e \<Rightarrow> e, s)"
  using assms(2,3)
proof (induction xs arbitrary: a)
  case Nil
  then show ?case by (simp add: list_traversal_loop.simps)
next
  case (Cons x xs)
  then have "list_traversal_loop func arg t (mem s (x + 4)) s =
      Some (case find P xs of None \<Rightarrow> NULL | Some e \<Rightarrow> e, s)"
    by (cases xs) auto
  with Cons.prems show ?case
    by (auto simp: list_traversal_loop.simps [of func arg t x] le_next_def pure)
qed

lemma list_traversal_dlist:
  assumes pure: "\<And>e. func e arg s = (P e, s)" and d: "dlist (mem s) p xs"
  shows "list_traversal p func arg s = Some (case find P xs of None \<Rightarrow> NULL | Some e \<Rightarrow> e, s)"
proof (cases "xs = []")
  case True
  with d show ?thesis by (simp add: list_traversal_def list_empty_dlist)
next
  case False
  with d show ?thesis
    using list_traversal_loop_linked [of func arg s P p xs "p + 8", OF pure]
    by (simp add: list_traversal_def list_empty_dlist le_next_def list_head_def list_tail_def
        dlist_def nodes_def)
qed

section \<open>The contract clients rely on\<close>

text \<open>
  What the scheduler, the semaphores and the allocator need of the list: a representation
  predicate, and for each operation its effect on the represented sequence.
\<close>

fun repeat_op :: "('s \<Rightarrow> 'e \<times> 's) \<Rightarrow> nat \<Rightarrow> 's \<Rightarrow> 'e list \<times> 's" where
  "repeat_op f 0 s = ([], s)"
| "repeat_op f (Suc n) s = (let (e, s) = f s; (es, s) = repeat_op f n s in (e # es, s))"

locale sequence_list =
  fixes rep :: "'s \<Rightarrow> addr \<Rightarrow> addr list \<Rightarrow> bool"
    and linkable :: "addr \<Rightarrow> addr list \<Rightarrow> addr \<Rightarrow> bool"
    and init :: "addr \<Rightarrow> 's \<Rightarrow> 's"
    and push :: "addr \<Rightarrow> addr \<Rightarrow> 's \<Rightarrow> 's"
    and append :: "addr \<Rightarrow> addr \<Rightarrow> 's \<Rightarrow> 's"
    and pop :: "addr \<Rightarrow> 's \<Rightarrow> addr \<times> 's"
    and remove :: "addr \<Rightarrow> 's \<Rightarrow> 's"
    and is_empty :: "addr \<Rightarrow> 's \<Rightarrow> bool"
    and contains :: "addr \<Rightarrow> addr \<Rightarrow> 's \<Rightarrow> bool option"
  assumes rep_init: "rep (init p s) p []"
    and rep_push: "rep s p xs \<Longrightarrow> linkable p xs e \<Longrightarrow> rep (push p e s) p (e # xs)"
    and rep_append: "rep s p xs \<Longrightarrow> linkable p xs e \<Longrightarrow> rep (append p e s) p (xs @ [e])"
    and rep_pop: "rep s p (x # xs) \<Longrightarrow> fst (pop p s) = x \<and> rep (snd (pop p s)) p xs"
    and rep_remove: "rep s p (us @ e # vs) \<Longrightarrow> rep (remove e s) p (us @ vs)"
    and rep_is_empty: "rep s p xs \<Longrightarrow> is_empty p s \<longleftrightarrow> xs = []"
    and rep_contains: "rep s p xs \<Longrightarrow> contains p e s = Some (e \<in> set xs)"
begin

text \<open>Elements come out in the order they were appended.\<close>

lemma fifo:
  assumes "rep s p xs"
    and "\<And>k. k < length es \<Longrightarrow> linkable p (xs @ take k es) (es ! k)"
  shows "rep (fold (append p) es s) p (xs @ es)"
  using assms
proof (induction es rule: rev_induct)
  case (snoc e es)
  have "rep (fold (append p) es s) p (xs @ es)"
  proof (rule snoc.IH [OF snoc.prems(1)])
    fix k assume "k < length es"
    then show "linkable p (xs @ take k es) (es ! k)"
      using snoc.prems(2) [of k] by (simp add: nth_append)
  qed
  moreover have "linkable p (xs @ es) e"
    using snoc.prems(2) [of "length es"] by simp
  ultimately show ?case using rep_append by fastforce
qed simp

lemma drain:
  assumes "rep s p (es @ xs)"
  shows "fst (repeat_op (pop p) (length es) s) = es \<and> rep (snd (repeat_op (pop p) (length es) s)) p xs"
  using assms
proof (induction es arbitrary: s)
  case (Cons e es)
  then have "fst (pop p s) = e" and "rep (snd (pop p s)) p (es @ xs)"
    using rep_pop by auto
  with Cons.IH show ?case by (simp add: split_beta Let_def)
qed simp

lemma append_all_drain:
  assumes "rep s p []"
    and "\<And>k. k < length es \<Longrightarrow> linkable p (take k es) (es ! k)"
  shows "fst (repeat_op (pop p) (length es) (fold (append p) es s)) = es"
proof -
  have "rep (fold (append p) es s) p (es @ [])"
    using fifo [of s p "[]" es] assms by simp
  then show ?thesis using drain by blast
qed

text \<open>An element that is appended and then removed leaves the sequence as it was.\<close>

lemma append_remove:
  assumes "rep s p xs" and "linkable p xs e"
  shows "rep (remove e (append p e s)) p xs"
  using rep_remove [of "append p e s" p xs e "[]"] rep_append [OF assms] by simp

end

interpretation kl: sequence_list "\<lambda>s. dlist (mem s)" fresh_node list_init list_push list_append
  list_pop list_remove list_empty elem_find
  by unfold_locales
    (simp_all add: list_init_dlist list_push_dlist list_append_dlist list_pop_dlist
      list_remove_dlist list_empty_dlist elem_find_dlist)

section \<open>Properties\<close>

text \<open>C31. Inserting a node (\<open>list_push\<close> at the front, \<open>list_append\<close> at the back) into a well-formed list
  gives the well-formed list of the extended sequence, restores the interrupt flag, and writes no
  word outside the nodes of the list and the new node.\<close>

theorem list_insert_refines:
  assumes "dlist (mem s) p xs" and "fresh_node p xs e"
  shows "dlist (mem (list_push p e s)) p (e # xs) \<and> dlist (mem (list_append p e s)) p (xs @ [e]) \<and>
    eflags (list_push p e s) = eflags s \<and> eflags (list_append p e s) = eflags s \<and>
    (\<forall>x. x \<notin> words_of (insert e (set (nodes p xs))) \<longrightarrow>
       mem (list_push p e s) x = mem s x \<and> mem (list_append p e s) x = mem s x)"
  using list_push_dlist [OF assms] list_append_dlist [OF assms] by simp

text \<open>A list of two nodes for concrete runs.\<close>

definition sample_list :: machine where
  "sample_list = list_append 0x1000 0x3000 (list_append 0x1000 0x2000 (list_init 0x1000 zero_machine))"

lemma sample_list: "dlist (mem sample_list) 0x1000 [0x2000, 0x3000]"
proof -
  have "dlist (mem (list_append 0x1000 0x2000 (list_init 0x1000 zero_machine))) 0x1000 ([] @ [0x2000])"
    by (rule list_append_dlist) (simp_all add: list_init_dlist fresh_node_def nodes_def spaced_def)
  then have "dlist (mem sample_list) 0x1000 (([] @ [0x2000]) @ [0x3000])"
    unfolding sample_list_def
    by (rule list_append_dlist) (simp add: fresh_node_def nodes_def spaced_def)
  then show ?thesis by simp
qed

theorem list_insert_refines_witness:
  "dlist (mem (list_push 0x1000 0x4000 sample_list)) 0x1000 [0x4000, 0x2000, 0x3000]"
  using list_insert_refines [OF sample_list, of "0x4000"]
  by (simp add: fresh_node_def nodes_def spaced_def)

text \<open>C32. Unlinking a node with \<open>list_remove\<close>, or the first one with \<open>list_pop\<close>, deletes exactly that
  element from the sequence, whatever its neighbours are (sentinels included), restores the
  interrupt flag, and writes no word outside the remaining nodes.\<close>

theorem list_remove_refines:
  assumes "dlist (mem s) p (us @ e # vs)"
  shows "dlist (mem (list_remove e s)) p (us @ vs) \<and> eflags (list_remove e s) = eflags s \<and>
    (us = [] \<longrightarrow> list_pop p s = (e, list_remove e s)) \<and>
    (\<forall>x. x \<notin> words_of (set (nodes p (us @ vs))) \<longrightarrow> mem (list_remove e s) x = mem s x)"
  using list_remove_dlist [OF assms] dlist_next_head [OF assms]
  by (simp add: list_pop_def le_next_def list_head_def)

theorem list_remove_refines_witness:
  "dlist (mem (list_remove 0x2000 sample_list)) 0x1000 [0x3000]"
  using list_remove_refines [of sample_list "0x1000" "[]" "0x2000" "[0x3000]"] sample_list by simp

text \<open>The list is a FIFO queue: any number of nodes appended to an empty list are popped in the order
  they were appended.\<close>

theorem list_fifo:
  assumes "dlist (mem s) p []"
    and "\<And>k. k < length es \<Longrightarrow> fresh_node p (take k es) (es ! k)"
  shows "fst (repeat_op (list_pop p) (length es) (fold (list_append p) es s)) = es"
  using assms by (rule kl.append_all_drain)

theorem list_fifo_witness:
  "fst (repeat_op (list_pop 0x1000) 3
     (fold (list_append 0x1000) [0x4000, 0x2000, 0x3000] (list_init 0x1000 zero_machine))) =
   [0x4000, 0x2000, 0x3000]"
proof -
  have "fresh_node 0x1000 (take k [0x4000, 0x2000, 0x3000]) ([0x4000, 0x2000, 0x3000] ! k)"
    if "k < length [0x4000 :: addr, 0x2000, 0x3000]" for k
    using that by (auto simp: fresh_node_def nodes_def spaced_def less_Suc_eq)
  from list_fifo [OF list_init_dlist [of _ zero_machine] this] show ?thesis
    by (simp add: numeral_3_eq_3)
qed

text \<open>C40. On a well-formed list the three traversals end: \<open>elem_find\<close> says whether the element is in the
  sequence, \<open>list_len\<close> is its length (modulo \<open>2 ^ 32\<close>), and \<open>list_traversal\<close> with a callback that
  leaves the state alone returns the first element the callback accepts, or \<open>NULL\<close>.\<close>

theorem list_search_total:
  assumes "dlist (mem s) p xs" and "\<And>e. func e arg s = (P e, s)"
  shows "elem_find p e s = Some (e \<in> set xs) \<and> list_len p s = Some (of_nat (length xs)) \<and>
    list_traversal p func arg s = Some (case find P xs of None \<Rightarrow> NULL | Some x \<Rightarrow> x, s)"
  using elem_find_dlist [OF assms(1)] list_len_dlist [OF assms(1)]
    list_traversal_dlist [where func = func and P = P, OF assms(2) assms(1)] by blast

theorem list_search_total_witness:
  "list_len 0x1000 sample_list = Some 2 \<and>
   list_traversal 0x1000 (\<lambda>e a s. (e = a, s)) 0x3000 sample_list = Some (0x3000, sample_list)"
  using list_search_total [where func = "\<lambda>e a s. (e = a, s)" and P = "\<lambda>e. e = 0x3000"
      and arg = "0x3000", OF sample_list]
  by simp

end
