(* ===== verification/Queues.thy ===== *)
theory Queues
  imports Linked_List
begin

text \<open>
  Several lists in one memory.  The kernel threads the same PCB node (\<open>general_tag\<close>) through the ready
  list and the waiter lists of semaphores, so what matters is that moving a node between two of them
  disturbs no third one.  \<open>queues m H q\<close> says that every head in \<open>H\<close> carries a well-formed list with
  the contents \<open>q\<close>, that no node is in two of them and that nodes do not overlap.

  The list operations are first brought to a normal form: an update of word memory and nothing else
  (the interrupt flag they clear is restored), so that reads of any other part of the state pass
  through them.
\<close>

section \<open>Normal forms of the interrupt and list operations\<close>

definition if_status :: "u32 \<Rightarrow> intr_status" where
  "if_status f = (if bit f 9 then INTR_ON else INTR_OFF)"

definition with_if :: "intr_status \<Rightarrow> u32 \<Rightarrow> u32" where
  "with_if st f = (if st = INTR_ON then set_bit 9 f else unset_bit 9 f)"

lemma if_status_with_if [simp]: "if_status (with_if st f) = st"
  by (cases st) (simp_all add: if_status_def with_if_def bit_simps)

lemma with_if_with_if [simp]: "with_if st (with_if st' f) = with_if st f"
  by (cases st; cases st'; rule bit_word_eqI) (auto simp: with_if_def bit_simps)

lemma with_if_same [simp]: "with_if (if_status f) f = f"
  by (rule bit_word_eqI) (auto simp: with_if_def if_status_def bit_simps)

lemma with_if_id: "if_status f = st \<Longrightarrow> with_if st f = f"
  using with_if_same by blast

lemma intr_get_status_norm: "intr_get_status s = if_status (eflags s)"
  by (simp add: intr_get_status_bit if_status_def)

lemma sti_cli_norm:
  "sti s = s\<lparr>eflags := with_if INTR_ON (eflags s)\<rparr>"
  "cli s = s\<lparr>eflags := with_if INTR_OFF (eflags s)\<rparr>"
  by (auto simp: sti_def cli_def with_if_def intro!: arg_cong [where f = "\<lambda>x. s\<lparr>eflags := x\<rparr>"]
      bit_word_eqI simp: bit_simps bit_EFLAGS_IF)

lemma intr_norm:
  "intr_disable s = (if_status (eflags s), s\<lparr>eflags := with_if INTR_OFF (eflags s)\<rparr>)"
  "intr_enable s = (if_status (eflags s), s\<lparr>eflags := with_if INTR_ON (eflags s)\<rparr>)"
  "intr_set_status st s = (if_status (eflags s), s\<lparr>eflags := with_if st (eflags s)\<rparr>)"
proof -
  show a: "intr_disable s = (if_status (eflags s), s\<lparr>eflags := with_if INTR_OFF (eflags s)\<rparr>)"
    by (cases "if_status (eflags s)")
      (simp_all add: intr_disable_def intr_get_status_norm sti_cli_norm with_if_id)
  show b: "intr_enable s = (if_status (eflags s), s\<lparr>eflags := with_if INTR_ON (eflags s)\<rparr>)"
    by (cases "if_status (eflags s)")
      (simp_all add: intr_enable_def intr_get_status_norm sti_cli_norm with_if_id)
  show "intr_set_status st s = (if_status (eflags s), s\<lparr>eflags := with_if st (eflags s)\<rparr>)"
    by (cases st) (simp_all add: intr_set_status_def a b)
qed

text \<open>The list operations on the memory alone.\<close>

definition insert_m :: "addr \<Rightarrow> addr \<Rightarrow> (addr \<Rightarrow> u32) \<Rightarrow> addr \<Rightarrow> u32" where
  "insert_m b e m =
     (let m = m(m b + 4 := e); m = m(e := m b); m = m(e + 4 := b) in m(b := e))"

definition remove_m :: "addr \<Rightarrow> (addr \<Rightarrow> u32) \<Rightarrow> addr \<Rightarrow> u32" where
  "remove_m e m = (let m = m(m e + 4 := m (e + 4)) in m(m (e + 4) := m e))"

definition append_m :: "addr \<Rightarrow> addr \<Rightarrow> (addr \<Rightarrow> u32) \<Rightarrow> addr \<Rightarrow> u32" where
  "append_m p e m = insert_m (p + 8) e m"

definition push_m :: "addr \<Rightarrow> addr \<Rightarrow> (addr \<Rightarrow> u32) \<Rightarrow> addr \<Rightarrow> u32" where
  "push_m p e m = insert_m (m (p + 4)) e m"

lemma list_norm:
  "list_insert_before b e s = s\<lparr>mem := insert_m b e (mem s)\<rparr>"
  "list_append p e s = s\<lparr>mem := append_m p e (mem s)\<rparr>"
  "list_push p e s = s\<lparr>mem := push_m p e (mem s)\<rparr>"
  "list_remove e s = s\<lparr>mem := remove_m e (mem s)\<rparr>"
  "list_pop p s = (mem s (p + 4), s\<lparr>mem := remove_m (mem s (p + 4)) (mem s)\<rparr>)"
  "list_empty p s \<longleftrightarrow> mem s (p + 4) = p + 8"
  by (simp_all add: list_insert_before_def list_append_def list_push_def list_remove_def list_pop_def
      list_empty_def intr_norm list_layout wr_def insert_m_def append_m_def push_m_def remove_m_def Let_def)

section \<open>Families of lists\<close>

definition all_nodes :: "addr set \<Rightarrow> (addr \<Rightarrow> addr list) \<Rightarrow> addr set" where
  "all_nodes H q = (\<Union>h\<in>H. set (nodes h (q h)))"

definition queues :: "(addr \<Rightarrow> u32) \<Rightarrow> addr set \<Rightarrow> (addr \<Rightarrow> addr list) \<Rightarrow> bool" where
  "queues m H q =
     ((\<forall>h\<in>H. dlist m h (q h)) \<and>
      (\<forall>h\<in>H. \<forall>k\<in>H. h \<noteq> k \<longrightarrow> set (nodes h (q h)) \<inter> set (nodes k (q k)) = {}) \<and>
      spaced (all_nodes H q))"

lemma queuesD:
  assumes "queues m H q" and "h \<in> H"
  shows "dlist m h (q h)" and "set (nodes h (q h)) \<subseteq> all_nodes H q"
    and "k \<in> H \<Longrightarrow> h \<noteq> k \<Longrightarrow> set (nodes h (q h)) \<inter> set (nodes k (q k)) = {}"
  using assms by (auto simp: queues_def all_nodes_def)

lemma words_of_disjoint:
  assumes "A \<inter> B = {}" and "spaced (A \<union> B)"
  shows "words_of A \<inter> words_of B = {}"
proof -
  have "x + 4 \<noteq> y" if "x \<in> A \<union> B" "y \<in> A \<union> B" for x y
    using assms(2) that by (metis spacedD)
  with assms(1) show ?thesis by (fastforce simp: words_of_def)
qed

text \<open>An update of one list that stays within the words of its nodes (and of one new node) keeps the rest.\<close>

lemma queues_update:
  assumes qs: "queues m H q" and h: "h \<in> H"
    and d: "dlist m' h xs"
    and e: "set (nodes h xs) \<subseteq> insert e (set (nodes h (q h)))"
    and en: "e \<in> set (nodes h (q h)) \<or> e \<notin> all_nodes H q"
    and sp: "spaced (insert e (all_nodes H q))"
    and fr: "\<And>x. x \<notin> words_of (insert e (set (nodes h (q h)))) \<Longrightarrow> m' x = m x"
  shows "queues m' H (q(h := xs))"
proof -
  let ?q = "q(h := xs)" and ?N = "insert e (set (nodes h (q h)))"
  have dj: "?N \<inter> set (nodes k (q k)) = {}" if "k \<in> H" "k \<noteq> h" for k
    using queuesD(2,3) [OF qs h] queuesD(2) [OF qs that(1)] queuesD(3) [OF qs that(1) h] that en
    by (auto 4 3)
  have "dlist m' k (?q k)" if k: "k \<in> H" for k
  proof (cases "k = h")
    case False
    have "spaced (?N \<union> set (nodes k (q k)))"
      using queuesD(2) [OF qs h] queuesD(2) [OF qs k] by (intro spaced_mono [OF sp]) auto
    from words_of_disjoint [OF dj [OF k False] this]
    have "dlist m' k (q k) = dlist m k (q k)" using fr by (intro dlist_frame) auto
    with False queuesD(1) [OF qs k] show ?thesis by simp
  qed (simp add: d)
  moreover have "set (nodes k (?q k)) \<inter> set (nodes j (?q j)) = {}" if "k \<in> H" "j \<in> H" "k \<noteq> j" for k j
    using that e dj [OF that(1)] dj [OF that(2)] queuesD(3) [OF qs that(1,2)] by auto
  moreover have "all_nodes H ?q \<subseteq> insert e (all_nodes H q)"
    using e queuesD(2) [OF qs h] by (auto simp: all_nodes_def split: if_splits)
  ultimately show ?thesis
    using spaced_mono [OF sp] by (auto simp: queues_def)
qed

definition linkable :: "addr set \<Rightarrow> (addr \<Rightarrow> addr list) \<Rightarrow> addr \<Rightarrow> bool" where
  "linkable H q e = (e \<notin> all_nodes H q \<and> spaced (insert e (all_nodes H q)))"

lemma linkable_fresh:
  assumes "queues m H q" and "h \<in> H" and "linkable H q e"
  shows "fresh_node h (q h) e"
  using assms queuesD(2) [OF assms(1,2)]
  by (auto simp: linkable_def fresh_node_def intro: spaced_mono)

lemma set_nodes_insert:
  "set (nodes h (xs @ [e])) = insert e (set (nodes h xs))"
  "set (nodes h (e # xs)) = insert e (set (nodes h xs))"
  by (auto simp: set_nodes)

lemma queues_append:
  assumes qs: "queues m H q" and h: "h \<in> H" and e: "linkable H q e"
  shows "queues (append_m h e m) H (q(h := q h @ [e]))"
proof (rule queues_update [OF qs h, where e = e])
  let ?s = "zero_machine\<lparr>mem := m\<rparr>"
  have d: "dlist (mem ?s) h (q h)" using queuesD(1) [OF qs h] by simp
  note f = list_append_dlist [OF d linkable_fresh [OF qs h e]]
  show "dlist (append_m h e m) h (q h @ [e])" using f(1) by (simp add: list_norm)
  show "append_m h e m x = m x" if "x \<notin> words_of (insert e (set (nodes h (q h))))" for x
    using f(2) [OF that] by (simp add: list_norm)
qed (use e in \<open>auto simp: set_nodes_insert linkable_def\<close>)

lemma queues_push:
  assumes qs: "queues m H q" and h: "h \<in> H" and e: "linkable H q e"
  shows "queues (push_m h e m) H (q(h := e # q h))"
proof (rule queues_update [OF qs h, where e = e])
  let ?s = "zero_machine\<lparr>mem := m\<rparr>"
  have d: "dlist (mem ?s) h (q h)" using queuesD(1) [OF qs h] by simp
  note f = list_push_dlist [OF d linkable_fresh [OF qs h e]]
  show "dlist (push_m h e m) h (e # q h)" using f(1) by (simp add: list_norm)
  show "push_m h e m x = m x" if "x \<notin> words_of (insert e (set (nodes h (q h))))" for x
    using f(2) [OF that] by (simp add: list_norm)
qed (use e in \<open>auto simp: set_nodes_insert linkable_def\<close>)

lemma words_of_mono: "A \<subseteq> B \<Longrightarrow> words_of A \<subseteq> words_of B"
  by (auto simp: words_of_def)

lemma queues_remove:
  assumes qs: "queues m H q" and h: "h \<in> H" and e: "q h = us @ e # vs"
  shows "queues (remove_m e m) H (q(h := us @ vs))"
proof (rule queues_update [OF qs h, where e = e])
  let ?s = "zero_machine\<lparr>mem := m\<rparr>"
  have "dlist (mem ?s) h (us @ e # vs)" using queuesD(1) [OF qs h] e by simp
  note f = list_remove_dlist [OF this]
  show "dlist (remove_m e m) h (us @ vs)" using f(1) by (simp add: list_norm)
  show "remove_m e m x = m x" if "x \<notin> words_of (insert e (set (nodes h (q h))))" for x
  proof -
    have "x \<notin> words_of (set (nodes h (us @ vs)))"
      using that words_of_mono [of "set (nodes h (us @ vs))" "insert e (set (nodes h (q h)))"]
      by (auto simp: e set_nodes)
    then show ?thesis using f(2) by (simp add: list_norm)
  qed
  have "e \<in> all_nodes H q" using queuesD(2) [OF qs h] e by (auto simp: set_nodes)
  then show "spaced (insert e (all_nodes H q))" using qs by (simp add: insert_absorb queues_def)
qed (auto simp: e set_nodes)

lemma queues_pop:
  assumes qs: "queues m H q" and h: "h \<in> H" and e: "q h = e # xs"
  shows "m (h + 4) = e" and "queues (remove_m e m) H (q(h := xs))"
  using queues_remove [OF qs h, of "[]" e xs] dlist_next_head [OF queuesD(1) [OF qs h]] e by simp_all

lemma queues_tests:
  assumes qs: "queues (mem s) H q" and h: "h \<in> H"
  shows "elem_find h e s = Some (e \<in> set (q h))" and "mem s (h + 4) = h + 8 \<longleftrightarrow> q h = []"
  using elem_find_dlist [OF queuesD(1) [OF qs h]] list_empty_dlist [OF queuesD(1) [OF qs h]]
  by (simp_all add: list_norm)

end
