(* ===== verification/Kstring.thy ===== *)
theory Kstring
  imports Kernel_Base
begin

text \<open>
  The memory and string routines of \<^verbatim>\<open>lib/string.c\<close> over byte memory.  The loops over a byte count
  recurse on the count; the loops that look for the terminating zero need not end (a buffer without
  one), so they are partial functions into \<open>option\<close>.  Plain \<open>char\<close> is signed, as on the i586 target the
  kernel is built for: comparisons of \<open>char\<close> values are signed.
\<close>

section \<open>Byte blocks\<close>

fun memset_loop :: "nat \<Rightarrow> addr \<Rightarrow> u8 \<Rightarrow> 'z machine_scheme \<Rightarrow> 'z machine_scheme" where
  "memset_loop 0 dst value s = s"
| "memset_loop (Suc n) dst value s = memset_loop n (dst + 1) value (wrb dst value s)"

definition memset :: "addr \<Rightarrow> u8 \<Rightarrow> u32 \<Rightarrow> 'z machine_scheme \<Rightarrow> 'z machine_scheme result" where
  "memset dst value sz s =
     ASSERT (dst \<noteq> NULL) ''dst_ != NULL'' (Inr (memset_loop (unat sz) dst value s))"

fun memcpy_loop :: "nat \<Rightarrow> addr \<Rightarrow> addr \<Rightarrow> 'z machine_scheme \<Rightarrow> 'z machine_scheme" where
  "memcpy_loop 0 dst src s = s"
| "memcpy_loop (Suc n) dst src s = memcpy_loop n (dst + 1) (src + 1) (wrb dst (bytes s src) s)"

definition memcpy :: "addr \<Rightarrow> addr \<Rightarrow> u32 \<Rightarrow> 'z machine_scheme \<Rightarrow> 'z machine_scheme result" where
  "memcpy dst src sz s =
     ASSERT (src \<noteq> NULL \<and> dst \<noteq> NULL) ''src_ != NULL && dst_ != NULL''
       (Inr (memcpy_loop (unat sz) dst src s))"

fun memcmp_loop :: "nat \<Rightarrow> addr \<Rightarrow> addr \<Rightarrow> 'z machine_scheme \<Rightarrow> int" where
  "memcmp_loop 0 a b s = 0"
| "memcmp_loop (Suc n) a b s =
     (if bytes s a \<noteq> bytes s b then (if sint (bytes s a) > sint (bytes s b) then 1 else -1)
      else memcmp_loop n (a + 1) (b + 1) s)"

definition memcmp :: "addr \<Rightarrow> addr \<Rightarrow> u32 \<Rightarrow> 'z machine_scheme \<Rightarrow> int result" where
  "memcmp a b sz s =
     ASSERT (a \<noteq> NULL \<or> b \<noteq> NULL) ''a != NULL || b != NULL'' (Inr (memcmp_loop (unat sz) a b s))"

section \<open>Strings\<close>

partial_function (option) strcpy_loop ::
  "addr \<Rightarrow> addr \<Rightarrow> 'z machine_scheme \<Rightarrow> 'z machine_scheme option" where
  "strcpy_loop dst src s =
     (let c = bytes s src; s = wrb dst c s
      in if c \<noteq> 0 then strcpy_loop (dst + 1) (src + 1) s else Some s)"

definition strcpy :: "addr \<Rightarrow> addr \<Rightarrow> 'z machine_scheme \<Rightarrow> (addr \<times> 'z machine_scheme) result" where
  "strcpy dst src s =
     ASSERT (dst \<noteq> NULL \<and> src \<noteq> NULL) ''dst_ != NULL && src_ != NULL''
       (bind_r (loop_r (strcpy_loop dst src s)) (\<lambda>s. Inr (dst, s)))"

text \<open>\<open>while(*p++);\<close> leaves \<open>p\<close> one past the terminating zero.\<close>

partial_function (option) strlen_loop :: "'z machine_scheme \<Rightarrow> addr \<Rightarrow> addr option" where
  "strlen_loop s p = (if bytes s p \<noteq> 0 then strlen_loop s (p + 1) else Some (p + 1))"

definition strlen :: "addr \<Rightarrow> 'z machine_scheme \<Rightarrow> u32 result" where
  "strlen str s =
     ASSERT (str \<noteq> NULL) ''str != NULL''
       (bind_r (loop_r (strlen_loop s str)) (\<lambda>p. Inr (p - str - 1)))"

partial_function (option) strcmp_loop :: "'z machine_scheme \<Rightarrow> addr \<Rightarrow> addr \<Rightarrow> int option" where
  "strcmp_loop s a b =
     (if bytes s a \<noteq> 0 \<and> bytes s a = bytes s b then strcmp_loop s (a + 1) (b + 1)
      else Some (if sint (bytes s a) < sint (bytes s b) then -1
                 else if sint (bytes s a) > sint (bytes s b) then 1 else 0))"

definition strcmp :: "addr \<Rightarrow> addr \<Rightarrow> 'z machine_scheme \<Rightarrow> int result" where
  "strcmp a b s =
     ASSERT (a \<noteq> NULL \<and> b \<noteq> NULL) ''a != NULL && b != NULL'' (loop_r (strcmp_loop s a b))"

text \<open>
  In the searches the string's \<open>char\<close> is sign-extended and the unsigned \<open>ch\<close> is not, so the
  comparison is one of integers.
\<close>

partial_function (option) strchr_loop :: "'z machine_scheme \<Rightarrow> u8 \<Rightarrow> addr \<Rightarrow> addr option" where
  "strchr_loop s ch str =
     (if bytes s str \<noteq> 0
      then if sint (bytes s str) = uint ch then Some str else strchr_loop s ch (str + 1)
      else Some NULL)"

definition strchr :: "addr \<Rightarrow> u8 \<Rightarrow> 'z machine_scheme \<Rightarrow> addr result" where
  "strchr str ch s = ASSERT (str \<noteq> NULL) ''str != NULL'' (loop_r (strchr_loop s ch str))"

partial_function (option) strrchr_loop :: "'z machine_scheme \<Rightarrow> u8 \<Rightarrow> addr \<Rightarrow> addr \<Rightarrow> addr option" where
  "strrchr_loop s ch last_char str =
     (if bytes s str \<noteq> 0
      then strrchr_loop s ch (if sint (bytes s str) = uint ch then str else last_char) (str + 1)
      else Some last_char)"

definition strrchr :: "addr \<Rightarrow> u8 \<Rightarrow> 'z machine_scheme \<Rightarrow> addr result" where
  "strrchr str ch s = ASSERT (str \<noteq> NULL) ''str != NULL'' (loop_r (strrchr_loop s ch NULL str))"

text \<open>
  \<open>while(str++);\<close> of \<open>strcat\<close> tests the pointer, not the character: it counts the pointer up until it
  wraps to zero.
\<close>

function strcat_skip :: "addr \<Rightarrow> addr" where
  "strcat_skip str = (if str \<noteq> 0 then strcat_skip (str + 1) else str + 1)"
  by pat_completeness auto
termination
proof (relation "measure (\<lambda>str. if str = 0 then 0 else 2 ^ 32 - unat str)")
  fix str :: addr assume "str \<noteq> 0"
  moreover have "unat str < 2 ^ 32" using unsigned_less [of str] by simp
  moreover have "unat (str + 1) = Suc (unat str)" if "str + 1 \<noteq> 0"
    using unatSuc [of str] that by (simp add: add.commute)
  ultimately show "(str + 1, str) \<in> measure (\<lambda>str. if str = 0 then 0 else 2 ^ 32 - unat str)"
    by auto
qed simp

declare strcat_skip.simps [simp del]

definition strcat :: "addr \<Rightarrow> addr \<Rightarrow> 'z machine_scheme \<Rightarrow> (addr \<times> 'z machine_scheme) result" where
  "strcat dst src s =
     ASSERT (dst \<noteq> NULL \<and> src \<noteq> NULL) ''dst_ !=NULL && src_ != NULL''
       (let str = strcat_skip dst - 1
        in bind_r (loop_r (strcpy_loop str src s)) (\<lambda>s. Inr (dst, s)))"

partial_function (option) strchrs_loop :: "'z machine_scheme \<Rightarrow> u8 \<Rightarrow> u32 \<Rightarrow> addr \<Rightarrow> u32 option" where
  "strchrs_loop s ch ch_cnt p =
     (if bytes s p \<noteq> 0
      then strchrs_loop s ch (if sint (bytes s p) = uint ch then ch_cnt + 1 else ch_cnt) (p + 1)
      else Some ch_cnt)"

definition strchrs :: "addr \<Rightarrow> u8 \<Rightarrow> 'z machine_scheme \<Rightarrow> u32 result" where
  "strchrs str ch s = ASSERT (str \<noteq> NULL) ''str != NULL'' (loop_r (strchrs_loop s ch 0 str))"

section \<open>Blocks: correctness\<close>

lemma memset_loop_frame [simp]:
  "mem (memset_loop n d v s) = mem s" "eflags (memset_loop n d v s) = eflags s"
  "machine.more (memset_loop n d v s) = machine.more s"
  by (induction n arbitrary: d s) auto

lemma memcpy_loop_frame [simp]:
  "mem (memcpy_loop n d a s) = mem s" "eflags (memcpy_loop n d a s) = eflags s"
  "machine.more (memcpy_loop n d a s) = machine.more s"
  by (induction n arbitrary: d a s) auto

lemma memset_loop_bytes:
  assumes "n \<le> 2 ^ 32"
  shows "bytes (memset_loop n dst v s) x = (if in_block dst n x then v else bytes s x)"
  using assms
proof (induction n arbitrary: dst s)
  case (Suc n)
  then show ?case by (simp add: in_block_Suc)
qed simp

lemma memcpy_loop_bytes:
  assumes "n \<le> 2 ^ 32" and "disjoint_blocks dst n src n"
  shows "bytes (memcpy_loop n dst src s) x =
    (if in_block dst n x then bytes s (src + (x - dst)) else bytes s x)"
  using assms
proof (induction n arbitrary: dst src s)
  case (Suc n)
  let ?s = "wrb dst (bytes s src) s"
  have d: "disjoint_blocks (dst + 1) n (src + 1) n"
    using Suc.prems(2) by (auto simp: disjoint_blocks_def in_block_Suc)
  have IH: "bytes (memcpy_loop n (dst + 1) (src + 1) ?s) x =
      (if in_block (dst + 1) n x then bytes ?s (src + 1 + (x - (dst + 1))) else bytes ?s x)"
    using Suc.IH [OF _ d] Suc.prems(1) by simp
  have e: "src + 1 + (x - (dst + 1)) = src + (x - dst)" by simp
  have "src + (x - dst) \<noteq> dst" if "in_block (dst + 1) n x"
  proof
    assume "src + (x - dst) = dst"
    then have "unat (dst - src) = unat (x - dst)" by (metis add_diff_cancel_left')
    moreover have "in_block dst (Suc n) x" using that by (simp add: in_block_Suc)
    ultimately have "in_block src (Suc n) dst" by (simp add: in_block_def)
    moreover have "in_block dst (Suc n) dst" by (simp add: in_block_self)
    ultimately show False using Suc.prems(2) by (auto simp: disjoint_blocks_def)
  qed
  moreover have "\<not> in_block (dst + 1) n dst" using Suc.prems(1) by (simp add: not_in_block_Suc)
  ultimately show ?case unfolding memcpy_loop.simps IH e by (auto simp: in_block_Suc)
qed simp

lemma memcmp_loop_zero:
  "memcmp_loop n a b s = 0 \<longleftrightarrow> (\<forall>i<n. bytes s (a + of_nat i) = bytes s (b + of_nat i))"
proof (induction n arbitrary: a b)
  case (Suc n)
  then show ?case
    by (auto simp: less_Suc_eq_0_disj algebra_simps)
qed simp

section \<open>Strings: correctness\<close>

text \<open>\<open>cstr b a xs\<close>: at \<open>a\<close> stands the zero-terminated string of the characters \<open>xs\<close>.\<close>

fun cstr :: "(addr \<Rightarrow> u8) \<Rightarrow> addr \<Rightarrow> u8 list \<Rightarrow> bool" where
  "cstr b a [] = (b a = 0)"
| "cstr b a (x # xs) = (x \<noteq> 0 \<and> b a = x \<and> cstr b (a + 1) xs)"

lemma cstr_cong:
  assumes "\<And>x. in_block a (Suc (length xs)) x \<Longrightarrow> b' x = b x"
  shows "cstr b' a xs = cstr b a xs"
  using assms
proof (induction xs arbitrary: a)
  case (Cons x xs)
  have "cstr b' (a + 1) xs = cstr b (a + 1) xs"
    by (rule Cons.IH) (use Cons.prems in \<open>simp add: in_block_Suc [of a]\<close>)
  moreover have "b' a = b a" using Cons.prems by (simp add: in_block_self)
  ultimately show ?case by simp
qed (simp add: in_block_self)

lemma strlen_loop_cstr:
  "cstr (bytes s) a xs \<Longrightarrow> strlen_loop s a = Some (a + of_nat (length xs) + 1)"
  by (induction xs arbitrary: a) (simp_all add: strlen_loop.simps algebra_simps)

lemma strlen_cstr:
  assumes "cstr (bytes s) a xs" and "a \<noteq> NULL"
  shows "strlen a s = Inr (of_nat (length xs))"
  using assms strlen_loop_cstr [OF assms(1)] by (simp add: strlen_def)

lemma strcpy_loop_memcpy:
  assumes "cstr (bytes s) src xs"
    and "length xs < 2 ^ 32"
    and "disjoint_blocks dst (Suc (length xs)) src (Suc (length xs))"
  shows "strcpy_loop dst src s = Some (memcpy_loop (Suc (length xs)) dst src s)"
  using assms
proof (induction xs arbitrary: dst src s)
  case Nil
  then show ?case by (simp add: strcpy_loop.simps)
next
  case (Cons x xs)
  let ?s = "wrb dst x s"
  have d: "disjoint_blocks (dst + 1) (Suc (length xs)) (src + 1) (Suc (length xs))"
    using Cons.prems(3) by (auto simp: disjoint_blocks_def in_block_Suc [of _ "Suc _"])
  have "\<not> in_block (src + 1) (Suc (length xs)) dst"
    using Cons.prems(3) by (auto simp: disjoint_blocks_def in_block_Suc [of _ "Suc _"])
  then have "cstr (bytes ?s) (src + 1) xs"
    using Cons.prems(1) by (subst cstr_cong [where b = "bytes s"]) auto
  then have "strcpy_loop (dst + 1) (src + 1) ?s =
      Some (memcpy_loop (Suc (length xs)) (dst + 1) (src + 1) ?s)"
    by (rule Cons.IH [OF _ _ d]) (use Cons.prems(2) in simp)
  with Cons.prems(1) show ?case
    by (subst strcpy_loop.simps) (simp add: Let_def memcpy_loop.simps(2) [of "Suc (length xs)"]
        del: memcpy_loop.simps)
qed

lemma cstr_copy:
  assumes "cstr b src xs"
    and "\<And>x. in_block dst (Suc (length xs)) x \<Longrightarrow> b' x = b (src + (x - dst))"
  shows "cstr b' dst xs"
  using assms
proof (induction xs arbitrary: dst src)
  case Nil
  then show ?case by (simp add: in_block_self)
next
  case (Cons x xs)
  have "cstr b' (dst + 1) xs"
  proof (rule Cons.IH [of "src + 1"])
    fix y assume "in_block (dst + 1) (Suc (length xs)) y"
    then have "b' y = b (src + (y - dst))"
      using Cons.prems(2) by (simp add: in_block_Suc [of dst])
    then show "b' y = b (src + 1 + (y - (dst + 1)))" by simp
  qed (use Cons.prems in simp)
  moreover have "b' dst = b src" using Cons.prems(2) [of dst] by (simp add: in_block_self)
  ultimately show ?case using Cons.prems by simp
qed

lemma sint_nonzero: "c \<noteq> 0 \<Longrightarrow> \<not> sint (c :: u8) < 0 \<Longrightarrow> 0 < sint c"
  by (metis linorder_neqE_linordered_idom signed_0 signed_word_eqI)

lemma strcmp_loop_zero:
  assumes "cstr (bytes s) a xs" and "cstr (bytes s) b ys"
  shows "\<exists>r. strcmp_loop s a b = Some r \<and> (r = 0 \<longleftrightarrow> xs = ys)"
  using assms
proof (induction xs arbitrary: a b ys)
  case Nil
  then show ?case
    by (cases ys) (auto simp: strcmp_loop.simps [of s a b] sint_nonzero)
next
  case (Cons x xs)
  show ?case
  proof (cases ys)
    case Nil
    with Cons.prems show ?thesis
      by (auto simp: strcmp_loop.simps [of s a b] sint_nonzero)
  next
    case (Cons y ys')
    show ?thesis
    proof (cases "x = y")
      case True
      with Cons Cons.prems Cons.IH [of "a + 1" "b + 1" ys'] show ?thesis
        by (simp add: strcmp_loop.simps [of s a b])
    next
      case False
      then have "sint x \<noteq> sint y" using signed_word_eqI by blast
      with False Cons Cons.prems show ?thesis
        by (auto simp: strcmp_loop.simps [of s a b])
    qed
  qed
qed

lemma char_eq_unsigned: "sint (c :: u8) = uint ch \<longleftrightarrow> c = ch \<and> \<not> bit ch 7"
proof -
  have u: "uint c < 256" "0 \<le> uint ch" "take_bit 8 (uint c) = uint c"
    using unsigned_less [of c] by (simp_all add: take_bit_int_eq_self_iff)
  then have s: "sint c = uint c - 256 * of_bool (bit c 7)"
    by (simp add: sint_uint signed_take_bit_eq_take_bit_minus bit_uint_iff)
  have "uint c = uint ch \<longleftrightarrow> c = ch" using unsigned_word_eqI by auto
  moreover have "uint c - 256 \<noteq> uint ch" using u(1,2) by linarith
  ultimately show ?thesis unfolding s by (cases "bit c 7") auto
qed

text \<open>The searches see only characters below 128.\<close>

lemma strchr_loop_cstr:
  assumes "cstr (bytes s) a xs"
  shows "strchr_loop s ch a =
    Some (if ch \<in> set xs \<and> \<not> bit ch 7 then a + of_nat (length (takeWhile (\<lambda>c. c \<noteq> ch) xs)) else NULL)"
  using assms
  by (induction xs arbitrary: a)
    (auto simp: strchr_loop.simps [of s ch] char_eq_unsigned algebra_simps)

lemma strchrs_loop_cstr:
  assumes "cstr (bytes s) a xs"
  shows "strchrs_loop s ch n a = Some (n + (if bit ch 7 then 0 else of_nat (count_list xs ch)))"
  using assms
  by (induction xs arbitrary: a n)
    (auto simp: strchrs_loop.simps [of s ch] char_eq_unsigned algebra_simps)

lemma strcat_skip_eq: "strcat_skip str = 1"
  by (induction str rule: strcat_skip.induct) (simp add: strcat_skip.simps)

section \<open>Properties\<close>

text \<open>\<open>memcpy\<close> between disjoint blocks makes the destination equal to the source, so that \<open>memcmp\<close> of
  the two returns 0 afterwards, and leaves every byte outside the destination as it was.\<close>

theorem memcpy_memcmp:
  assumes "dst \<noteq> NULL" and "src \<noteq> NULL"
    and d: "disjoint_blocks dst (unat n) src (unat n)"
  shows "\<exists>s'. memcpy dst src n s = Inr s' \<and> memcmp dst src n s' = Inr 0 \<and>
    (\<forall>x. \<not> in_block dst (unat n) x \<longrightarrow> bytes s' x = bytes s x)"
proof -
  let ?s = "memcpy_loop (unat n) dst src s"
  note b = memcpy_loop_bytes [OF unat_u32(2) d]
  have "bytes ?s (dst + of_nat i) = bytes ?s (src + of_nat i)" if "i < unat n" for i
  proof -
    have "in_block dst (unat n) (dst + of_nat i)" "in_block src (unat n) (src + of_nat i)"
      using that unat_u32(2) [of n] by (simp_all add: in_block_offset)
    with d show ?thesis by (auto simp: b disjoint_blocks_def)
  qed
  then have "memcmp_loop (unat n) dst src ?s = 0" by (simp add: memcmp_loop_zero)
  with assms(1,2) show ?thesis by (simp add: memcpy_def memcmp_def b)
qed

theorem memcpy_memcmp_witness:
  "\<exists>s'. memcpy 0x2000 0x1000 16 (wrb 0x1003 7 zero_machine) = Inr s' \<and> memcmp 0x2000 0x1000 16 s' = Inr 0"
proof -
  have "disjoint_blocks 0x2000 (unat (16 :: u32)) 0x1000 (unat (16 :: u32))"
    by (subst disjoint_blocks_sym, rule disjoint_blocks_unat) simp_all
  from memcpy_memcmp [OF _ _ this, of "wrb 0x1003 7 zero_machine"] show ?thesis by auto
qed

text \<open>\<open>strcpy\<close> ends on every zero-terminated source that does not overlap the destination: the
  destination then holds the same string, \<open>strlen\<close> of it is its length, \<open>strcmp\<close> of the two is 0, and
  no byte outside the destination has changed.\<close>

theorem strcpy_roundtrip:
  assumes str: "cstr (bytes s) src xs" and "dst \<noteq> NULL" and "src \<noteq> NULL"
    and len: "length xs < 2 ^ 32 - 1"
    and d: "disjoint_blocks dst (Suc (length xs)) src (Suc (length xs))"
  shows "\<exists>s'. strcpy dst src s = Inr (dst, s') \<and> cstr (bytes s') dst xs \<and> cstr (bytes s') src xs \<and>
    strlen dst s' = Inr (of_nat (length xs)) \<and> strcmp dst src s' = Inr 0 \<and>
    (\<forall>x. \<not> in_block dst (Suc (length xs)) x \<longrightarrow> bytes s' x = bytes s x)"
proof -
  let ?s = "memcpy_loop (Suc (length xs)) dst src s"
  have b: "bytes ?s x =
      (if in_block dst (Suc (length xs)) x then bytes s (src + (x - dst)) else bytes s x)" for x
    by (rule memcpy_loop_bytes [OF _ d]) (use len in simp)
  have dst: "cstr (bytes ?s) dst xs" by (rule cstr_copy [OF str]) (simp only: b if_True)
  have src: "cstr (bytes ?s) src xs"
    using str by (subst cstr_cong [where b = "bytes s"]) (use d in \<open>auto simp: b disjoint_blocks_def simp del: memcpy_loop.simps\<close>)
  have "strcpy_loop dst src s = Some ?s"
    by (rule strcpy_loop_memcpy [OF str _ d]) (use len in simp)
  moreover obtain r where "strcmp_loop ?s dst src = Some r" "r = 0"
    using strcmp_loop_zero [OF dst src] by auto
  ultimately show ?thesis
    using assms(2,3) dst src strlen_cstr [OF dst assms(2)]
    by (simp add: strcpy_def strcmp_def b del: memcpy_loop.simps)
qed

theorem strcpy_roundtrip_witness:
  "\<exists>s'. strcpy 0x2000 0x1000 (wrb 0x1001 98 (wrb 0x1000 97 zero_machine)) = Inr (0x2000, s') \<and>
     cstr (bytes s') 0x2000 [97, 98] \<and> strlen 0x2000 s' = Inr 2"
proof -
  have "disjoint_blocks 0x2000 (Suc (length [97 :: u8, 98])) 0x1000 (Suc (length [97 :: u8, 98]))"
    by (subst disjoint_blocks_sym, rule disjoint_blocks_unat) simp_all
  from strcpy_roundtrip [OF _ _ _ _ this, of "wrb 0x1001 98 (wrb 0x1000 97 zero_machine)"]
  show ?thesis by (auto simp: zero_machine_def)
qed

text \<open>\<open>strchr\<close> and \<open>strchrs\<close> end on every zero-terminated string.  For a character below 128 they
  return the address of its first occurrence (or \<open>NULL\<close>) and the number of its occurrences; for a
  character from 128 on, which \<open>*str\<close> never equals because \<open>char\<close> is signed, they find none.\<close>

theorem strchr_strchrs_spec:
  assumes "cstr (bytes s) str xs" and "str \<noteq> NULL"
  shows "strchr str ch s = Inr (if ch \<in> set xs \<and> \<not> bit ch 7
      then str + of_nat (length (takeWhile (\<lambda>c. c \<noteq> ch) xs)) else NULL) \<and>
    strchrs str ch s = Inr (if bit ch 7 then 0 else of_nat (count_list xs ch))"
  using assms(2) strchr_loop_cstr [OF assms(1), of ch] strchrs_loop_cstr [OF assms(1), of ch 0]
  by (simp add: strchr_def strchrs_def)

theorem strchr_strchrs_spec_witness:
  "strchr 0x1000 98 (wrb 0x1001 98 (wrb 0x1000 97 zero_machine)) = Inr 0x1001 \<and>
   strchrs 0x1000 200 (wrb 0x1000 200 zero_machine) = Inr 0"
  using strchr_strchrs_spec [of "wrb 0x1001 98 (wrb 0x1000 97 zero_machine)" "0x1000" "[97, 98]" 98]
    strchr_strchrs_spec [of "wrb 0x1000 200 zero_machine" "0x1000" "[200]" 200]
  by (simp add: zero_machine_def bit_numeral_rec)

end
