(* ===== verification/Bitmap.thy ===== *)
theory Bitmap
  imports Kstring
begin

text \<open>
  The allocation bitmaps of \<^verbatim>\<open>lib/kernel/bitmap.c\<close>.  A \<^verbatim>\<open>bitmap\<close> is a length in bytes and a pointer
  to its bytes; the bytes themselves are in byte memory, so that a bitmap next to another one in
  memory is really next to it.  Indices are the 32-bit words of the source; the \<open>int\<close> result of
  \<open>bitmap_scan\<close> is a 32-bit word whose value \<open>-1\<close> means failure.
\<close>

section \<open>The operations\<close>

record bitmap =
  btmp_bytes_len :: u32
  bits :: addr

definition bitmap_init :: "bitmap \<Rightarrow> 'z machine_scheme \<Rightarrow> 'z machine_scheme result" where
  "bitmap_init btmp s = memset (bits btmp) 0 (btmp_bytes_len btmp) s"

definition bitmap_scan_test :: "bitmap \<Rightarrow> u32 \<Rightarrow> 'z machine_scheme \<Rightarrow> bool" where
  "bitmap_scan_test btmp bit_idx s =
     (let byte_idx = bit_idx div 8;
          bit_odd = bit_idx mod 8
      in (ucast (bytes s (bits btmp + byte_idx)) :: u32) AND push_bit (unat bit_odd) 1 \<noteq> 0)"

text \<open>The three loops of \<open>bitmap_scan\<close>: full bytes, set bits of the first byte with a free one, and the
  search for a run.\<close>

function scan_full_bytes :: "bitmap \<Rightarrow> 'z machine_scheme \<Rightarrow> u32 \<Rightarrow> u32" where
  "scan_full_bytes btmp s idx_byte =
     (if 0xFF = bytes s (bits btmp + idx_byte) \<and> idx_byte < btmp_bytes_len btmp
      then scan_full_bytes btmp s (idx_byte + 1) else idx_byte)"
  by pat_completeness auto
termination
proof (relation "measure (\<lambda>(btmp, s, i). unat (btmp_bytes_len btmp) - unat i)")
  fix btmp :: bitmap and s :: "'z machine_scheme" and i :: u32
  assume "0xFF = bytes s (bits btmp + i) \<and> i < btmp_bytes_len btmp"
  then have "unat (i + 1) = Suc (unat i)" "unat i < unat (btmp_bytes_len btmp)"
    by (auto simp: unat_Suc_lt word_less_nat_alt)
  then show "((btmp, s, i + 1), (btmp, s, i)) \<in> measure (\<lambda>(btmp, s, i). unat (btmp_bytes_len btmp) - unat i)"
    by simp
qed simp

declare scan_full_bytes.simps [simp del]

lemma byte_mask_zero: "8 \<le> n \<Longrightarrow> (ucast (2 ^ n :: u32) :: u8) = 0"
  by (rule bit_word_eqI) (simp add: bit_simps)

function scan_set_bits :: "u8 \<Rightarrow> nat \<Rightarrow> nat" where
  "scan_set_bits byte idx_bit =
     (if (ucast (push_bit idx_bit (1::u32)) :: u8) AND byte \<noteq> 0
      then scan_set_bits byte (Suc idx_bit) else idx_bit)"
  by pat_completeness auto
termination
proof (relation "measure (\<lambda>(byte, i). 8 - i)")
  fix byte :: u8 and i
  assume "(ucast (push_bit i (1::u32)) :: u8) AND byte \<noteq> 0"
  then have "i < 8" using byte_mask_zero [of i] by (cases "8 \<le> i") auto
  then show "((byte, Suc i), (byte, i)) \<in> measure (\<lambda>(byte, i). 8 - i)" by simp
qed simp

declare scan_set_bits.simps [simp del]

fun scan_run :: "bitmap \<Rightarrow> 'z machine_scheme \<Rightarrow> u32 \<Rightarrow> u32 \<Rightarrow> nat \<Rightarrow> u32 \<Rightarrow> u32 \<Rightarrow> u32" where
  "scan_run btmp s cnt bit_idx_start 0 next_bit count = bit_idx_start"
| "scan_run btmp s cnt bit_idx_start (Suc bit_left) next_bit count =
     (let count = (if \<not> bitmap_scan_test btmp next_bit s then count + 1 else 0)
      in if cnt = count then next_bit - cnt + 1
         else scan_run btmp s cnt bit_idx_start bit_left (next_bit + 1) count)"

definition bitmap_scan :: "bitmap \<Rightarrow> u32 \<Rightarrow> 'z machine_scheme \<Rightarrow> u32 result" where
  "bitmap_scan btmp cnt s =
     (let idx_byte = scan_full_bytes btmp s 0
      in ASSERT (idx_byte \<le> btmp_bytes_len btmp) ''idx_byte <= btmp->btmp_bytes_len''
        (if idx_byte = btmp_bytes_len btmp then Inr (-1)
         else
           let idx_bit = scan_set_bits (bytes s (bits btmp + idx_byte)) 0;
               bit_idx_start = idx_byte * 8 + of_nat idx_bit
           in if cnt = 1 then Inr bit_idx_start
              else Inr (scan_run btmp s cnt bit_idx_start
                          (unat (btmp_bytes_len btmp * 8 - bit_idx_start)) (bit_idx_start + 1) 1)))"

definition bitmap_set :: "bitmap \<Rightarrow> u32 \<Rightarrow> u8 \<Rightarrow> 'z machine_scheme \<Rightarrow> 'z machine_scheme result" where
  "bitmap_set btmp bit_idx value s =
     ASSERT (value = 0 \<or> value = 1) ''(value==0) || (value==1)''
       (let byte_idx = bit_idx div 8;
            idx_odd = bit_idx mod 8;
            a = bits btmp + byte_idx;
            mask = push_bit (unat idx_odd) (1::u32)
        in if value \<noteq> 0
           then Inr (wrb a (ucast ((ucast (bytes s a) :: u32) OR mask)) s)
           else Inr (wrb a (ucast ((ucast (bytes s a) :: u32) AND NOT mask)) s))"

section \<open>Meaning\<close>

text \<open>\<open>used s b i\<close>: bit \<open>i\<close> of the bitmap is set.  \<open>bm_bits b\<close>: the number of bits it manages.\<close>

definition used :: "'z machine_scheme \<Rightarrow> bitmap \<Rightarrow> nat \<Rightarrow> bool" where
  "used s b i = bit (bytes s (bits b + of_nat (i div 8))) (i mod 8)"

definition bm_bits :: "bitmap \<Rightarrow> nat" where
  "bm_bits b = 8 * unat (btmp_bytes_len b)"

text \<open>Small enough for the \<open>int\<close> index arithmetic of the source.\<close>

definition bm_ok :: "bitmap \<Rightarrow> bool" where
  "bm_ok b = (bm_bits b < 2 ^ 31)"

definition free_run :: "'z machine_scheme \<Rightarrow> bitmap \<Rightarrow> nat \<Rightarrow> nat \<Rightarrow> bool" where
  "free_run s b cnt j = (\<forall>k. j \<le> k \<and> k < j + cnt \<longrightarrow> \<not> used s b k)"

lemma unat_div_8: "unat (i div 8 :: u32) = unat i div 8"
  by (simp add: unat_div)

lemma unat_mod_8: "unat (i mod 8 :: u32) = unat i mod 8"
  by (simp add: unat_mod)

lemma and_single_bit:
  assumes "n < 8"
  shows "(ucast (c :: u8) :: u32) AND 2 ^ n = 0 \<longleftrightarrow> \<not> bit c n"
  using assms by (simp add: and_exp_eq_0_iff_not_bit bit_ucast_iff)

lemma bitmap_scan_test_used: "bitmap_scan_test b i s = used s b (unat i)"
proof -
  have "bits b + i div 8 = bits b + of_nat (unat i div 8)"
    by (simp flip: unat_div_8)
  then show ?thesis
    by (simp add: bitmap_scan_test_def used_def Let_def and_single_bit unat_mod_8)
qed

lemma scan_full_bytes_spec:
  assumes "i \<le> btmp_bytes_len b"
  shows "i \<le> scan_full_bytes b s i \<and> scan_full_bytes b s i \<le> btmp_bytes_len b \<and>
    (\<forall>j. unat i \<le> j \<and> j < unat (scan_full_bytes b s i) \<longrightarrow> bytes s (bits b + of_nat j) = 0xFF) \<and>
    (scan_full_bytes b s i < btmp_bytes_len b \<longrightarrow> bytes s (bits b + scan_full_bytes b s i) \<noteq> 0xFF)"
  using assms
proof (induction b s i rule: scan_full_bytes.induct)
  case (1 b s i)
  show ?case
  proof (cases "0xFF = bytes s (bits b + i) \<and> i < btmp_bytes_len b")
    case True
    then have i1: "unat (i + 1) = Suc (unat i)" by (blast intro: unat_Suc_lt)
    then have le: "i + 1 \<le> btmp_bytes_len b" using True by (simp add: word_le_nat_alt word_less_nat_alt)
    let ?r = "scan_full_bytes b s (i + 1)"
    from "1.IH" [OF True le] have IH: "i + 1 \<le> ?r" "?r \<le> btmp_bytes_len b"
      "\<forall>j. unat (i + 1) \<le> j \<and> j < unat ?r \<longrightarrow> bytes s (bits b + of_nat j) = 0xFF"
      "?r < btmp_bytes_len b \<longrightarrow> bytes s (bits b + ?r) \<noteq> 0xFF"
      by auto
    have "bytes s (bits b + of_nat j) = 0xFF" if "unat i \<le> j" "j < unat ?r" for j
      using that IH(3) i1 True by (cases "j = unat i") auto
    moreover have "i \<le> ?r" using IH(1) i1 by (simp add: word_le_nat_alt)
    ultimately show ?thesis using True IH by (simp add: scan_full_bytes.simps [of b s i])
  next
    case False
    then show ?thesis using "1.prems" by (auto simp: scan_full_bytes.simps [of b s i])
  qed
qed

lemma scan_set_bits_spec:
  "i \<le> scan_set_bits c i \<and> (\<forall>k. i \<le> k \<and> k < scan_set_bits c i \<longrightarrow> k < 8 \<and> bit c k) \<and>
   \<not> (scan_set_bits c i < 8 \<and> bit c (scan_set_bits c i))"
proof (induction c i rule: scan_set_bits.induct)
  case (1 c i)
  have mask: "(ucast (2 ^ i :: u32) :: u8) AND c \<noteq> 0 \<longleftrightarrow> i < 8 \<and> bit c i"
  proof (cases "i < 8")
    case True
    then have "(ucast (2 ^ i :: u32) :: u8) = 2 ^ i"
      by (intro bit_word_eqI) (auto simp: bit_simps)
    then show ?thesis using True by (simp add: and.commute and_exp_eq_0_iff_not_bit)
  qed (simp add: byte_mask_zero)
  show ?case
  proof (cases "i < 8 \<and> bit c i")
    case True
    with mask "1.IH" have IH: "Suc i \<le> scan_set_bits c (Suc i)"
      "\<forall>k. Suc i \<le> k \<and> k < scan_set_bits c (Suc i) \<longrightarrow> k < 8 \<and> bit c k"
      "\<not> (scan_set_bits c (Suc i) < 8 \<and> bit c (scan_set_bits c (Suc i)))"
      by auto
    have "k < 8 \<and> bit c k" if "i \<le> k" "k < scan_set_bits c (Suc i)" for k
      using that IH(2) True by (cases "k = i") auto
    with True IH mask show ?thesis by (simp add: scan_set_bits.simps [of c i])
  next
    case False
    with mask show ?thesis by (auto simp: scan_set_bits.simps [of c i])
  qed
qed

lemma scan_set_bits_lt:
  assumes "c \<noteq> 0xFF"
  shows "scan_set_bits c 0 < 8" and "\<not> bit c (scan_set_bits c 0)"
    and "k < scan_set_bits c 0 \<Longrightarrow> bit c k"
proof -
  have "scan_set_bits c 0 < 8"
  proof (rule ccontr)
    assume "\<not> scan_set_bits c 0 < 8"
    then have all: "\<forall>k<8. bit c k" using scan_set_bits_spec [of 0 c] by auto
    have "c = mask 8" using all by (intro bit_word_eqI) (simp add: bit_mask_iff)
    with assms show False by (simp add: mask_eq_exp_minus_1)
  qed
  then show "scan_set_bits c 0 < 8" "\<not> bit c (scan_set_bits c 0)"
    and "k < scan_set_bits c 0 \<Longrightarrow> bit c k"
    using scan_set_bits_spec [of 0 c] by auto
qed

section \<open>The first free bit\<close>

text \<open>Where the byte and bit loops of \<open>bitmap_scan\<close> end.\<close>

lemma used_in_byte: "k < 8 \<Longrightarrow> used s b (8 * j + k) = bit (bytes s (bits b + of_nat j)) k"
  by (simp add: used_def)

lemma full_bytes_used:
  assumes "\<forall>j. j < n \<longrightarrow> bytes s (bits b + of_nat j) = 0xFF" and "i < 8 * n"
  shows "used s b i"
proof -
  have "bytes s (bits b + of_nat (i div 8)) = 0xFF" using assms by simp
  also have "(0xFF :: u8) = mask 8" by (simp add: mask_eq_exp_minus_1)
  finally show ?thesis by (simp add: used_def bit_mask_iff)
qed

definition first_free :: "bitmap \<Rightarrow> 'z machine_scheme \<Rightarrow> nat" where
  "first_free b s =
     (let i = scan_full_bytes b s 0 in 8 * unat i + scan_set_bits (bytes s (bits b + i)) 0)"

lemma scan_full_bytes_full:
  assumes "scan_full_bytes b s 0 = btmp_bytes_len b" and "i < bm_bits b"
  shows "used s b i"
  using scan_full_bytes_spec [of 0 b s] assms
  by (intro full_bytes_used [of "unat (btmp_bytes_len b)"]) (auto simp: bm_bits_def)

lemma first_free_spec:
  assumes "scan_full_bytes b s 0 \<noteq> btmp_bytes_len b"
  shows "first_free b s < bm_bits b" and "\<not> used s b (first_free b s)"
    and "i < first_free b s \<Longrightarrow> used s b i"
proof -
  let ?i = "scan_full_bytes b s 0"
  let ?c = "bytes s (bits b + ?i)"
  have sp: "?i < btmp_bytes_len b" "?c \<noteq> 0xFF"
    "\<forall>j. j < unat ?i \<longrightarrow> bytes s (bits b + of_nat j) = 0xFF"
    using scan_full_bytes_spec [of 0 b s] assms by auto
  note bit = scan_set_bits_lt [OF sp(2)]
  show "first_free b s < bm_bits b"
    using sp(1) bit(1) by (simp add: first_free_def bm_bits_def Let_def word_less_nat_alt)
  show "\<not> used s b (first_free b s)"
    using bit(1,2) by (simp add: first_free_def Let_def used_in_byte)
  show "used s b i" if "i < first_free b s"
  proof (cases "i < 8 * unat ?i")
    case True
    then show ?thesis using sp(3) by (rule full_bytes_used [rotated])
  next
    case False
    then obtain k where i: "i = 8 * unat ?i + k" using le_Suc_ex [of "8 * unat ?i" i] by (auto simp: not_less)
    then have "k < scan_set_bits ?c 0" using that by (simp add: first_free_def Let_def)
    then show ?thesis using bit by (simp add: i used_in_byte)
  qed
qed

lemma bitmap_scan_start:
  assumes "bm_ok b"
  shows "bitmap_scan b cnt s =
    (if scan_full_bytes b s 0 = btmp_bytes_len b then Inr (-1)
     else if cnt = 1 then Inr (of_nat (first_free b s))
     else Inr (scan_run b s cnt (of_nat (first_free b s)) (bm_bits b - first_free b s)
                 (of_nat (Suc (first_free b s))) 1))"
proof (cases "scan_full_bytes b s 0 = btmp_bytes_len b")
  case True
  then show ?thesis by (simp add: bitmap_scan_def)
next
  case False
  let ?i = "scan_full_bytes b s 0"
  have le: "?i \<le> btmp_bytes_len b" using scan_full_bytes_spec [of 0 b s] by simp
  have st: "?i * 8 + of_nat (scan_set_bits (bytes s (bits b + ?i)) 0) = (of_nat (first_free b s) :: u32)"
    by (simp add: first_free_def Let_def mult.commute)
  have lt: "first_free b s < bm_bits b" using first_free_spec(1) [OF False] .
  have big: "bm_bits b < 2 ^ 32" using assms by (simp add: bm_ok_def)
  have "unat (btmp_bytes_len b * 8 - of_nat (first_free b s)) = bm_bits b - first_free b s"
  proof -
    have "btmp_bytes_len b * 8 = (of_nat (bm_bits b) :: u32)" by (simp add: bm_bits_def mult.commute)
    then have "btmp_bytes_len b * 8 - of_nat (first_free b s) = (of_nat (bm_bits b - first_free b s) :: u32)"
      using lt by (simp add: of_nat_diff)
    then show ?thesis using big by (simp add: unat_of_nat_lt)
  qed
  with False le show ?thesis unfolding bitmap_scan_def Let_def st by (simp add: add.commute)
qed

section \<open>The search for a run\<close>

text \<open>The run loop over natural numbers, with \<open>None\<close> where the source leaves the loop without a hit.\<close>

fun run_search :: "(nat \<Rightarrow> bool) \<Rightarrow> nat \<Rightarrow> nat \<Rightarrow> nat \<Rightarrow> nat \<Rightarrow> nat option" where
  "run_search P cnt 0 nxt count = None"
| "run_search P cnt (Suc n) nxt count =
     (let count = (if P nxt then Suc count else 0)
      in if cnt = count then Some (Suc nxt - cnt) else run_search P cnt n (Suc nxt) count)"

lemma scan_run_search:
  assumes "nxt + n < 2 ^ 32" and "count \<le> nxt" and "0 < cnt" and "cnt < 2 ^ 32"
  shows "scan_run b s (of_nat cnt) st n (of_nat nxt) (of_nat count) =
    (case run_search (\<lambda>i. \<not> used s b i) cnt n nxt count of None \<Rightarrow> st | Some j \<Rightarrow> of_nat j)"
  using assms
proof (induction n arbitrary: nxt count)
  case (Suc n)
  let ?c = "if \<not> used s b nxt then Suc count else 0"
  have t: "bitmap_scan_test b (of_nat nxt) s = used s b nxt"
    using Suc.prems by (simp add: bitmap_scan_test_used unat_of_nat_lt)
  have "(of_nat cnt :: u32) = of_nat ?c \<longleftrightarrow> cnt = ?c"
    by (rule of_nat_word_inj) (use Suc.prems in auto)
  moreover have "scan_run b s (of_nat cnt) st n (of_nat (Suc nxt)) (of_nat ?c) =
    (case run_search (\<lambda>i. \<not> used s b i) cnt n (Suc nxt) ?c of None \<Rightarrow> st | Some j \<Rightarrow> of_nat j)"
    using Suc.prems by (intro Suc.IH) auto
  ultimately show ?case
    using t Suc.prems
    by (auto simp: Let_def of_nat_diff algebra_simps split: if_splits)
qed simp

definition run_at :: "(nat \<Rightarrow> bool) \<Rightarrow> nat \<Rightarrow> nat \<Rightarrow> bool" where
  "run_at P cnt j = (\<forall>k. j \<le> k \<and> k < j + cnt \<longrightarrow> P k)"

lemma run_search_spec:
  assumes "count < cnt" and "lo + count \<le> nxt"
    and "\<forall>k. nxt - count \<le> k \<and> k < nxt \<longrightarrow> P k"
    and "nxt - count = lo \<or> \<not> P (nxt - count - 1)"
    and "\<forall>j. lo \<le> j \<and> j + cnt \<le> nxt \<longrightarrow> \<not> run_at P cnt j"
  shows "case run_search P cnt n nxt count of
      None \<Rightarrow> \<forall>j. lo \<le> j \<and> j + cnt \<le> nxt + n \<longrightarrow> \<not> run_at P cnt j
    | Some j \<Rightarrow> run_at P cnt j \<and> lo \<le> j \<and> j + cnt \<le> nxt + n \<and>
        (\<forall>j'. lo \<le> j' \<and> j' < j \<longrightarrow> \<not> run_at P cnt j')"
  using assms
proof (induction n arbitrary: nxt count)
  case (Suc n)
  note pr = Suc.prems
  show ?case
  proof (cases "P nxt")
    case False
    have "\<not> run_at P cnt j" if "lo \<le> j" "j + cnt \<le> Suc nxt" for j
    proof (cases "j + cnt \<le> nxt")
      case True
      then show ?thesis using pr(5) that by simp
    next
      case False
      then have "j \<le> nxt" "nxt < j + cnt" using that pr(1) by auto
      then show ?thesis using \<open>\<not> P nxt\<close> by (auto simp: run_at_def)
    qed
    then have "case run_search P cnt n (Suc nxt) 0 of
        None \<Rightarrow> \<forall>j. lo \<le> j \<and> j + cnt \<le> Suc nxt + n \<longrightarrow> \<not> run_at P cnt j
      | Some j \<Rightarrow> run_at P cnt j \<and> lo \<le> j \<and> j + cnt \<le> Suc nxt + n \<and>
          (\<forall>j'. lo \<le> j' \<and> j' < j \<longrightarrow> \<not> run_at P cnt j')"
      using pr False by (intro Suc.IH) auto
    then show ?thesis using False pr(1) by (simp split: option.splits)
  next
    case True
    have early: "\<not> run_at P cnt j" if "lo \<le> j" "j + cnt \<le> Suc nxt" "j < nxt - count" for j
    proof
      assume r: "run_at P cnt j"
      have "\<not> P (nxt - count - 1)" using pr(4) that by auto
      moreover have "j \<le> nxt - count - 1" using that by simp
      ultimately have "j + cnt \<le> nxt - count - 1"
        using r unfolding run_at_def by (meson not_le)
      then have "j + cnt \<le> nxt" by simp
      then show False using pr(5) that(1) r by blast
    qed
    show ?thesis
    proof (cases "cnt = Suc count")
      case hit: True
      have "run_at P cnt (nxt - count)"
        using pr(2,3) True hit by (auto simp: run_at_def less_Suc_eq)
      moreover have "\<not> run_at P cnt j'" if "lo \<le> j'" "j' < nxt - count" for j'
        using early [OF that(1) _ that(2)] that hit pr(2) by simp
      ultimately show ?thesis using True hit pr(2) by (simp add: Let_def)
    next
      case miss: False
      have "\<not> run_at P cnt j" if "lo \<le> j" "j + cnt \<le> Suc nxt" for j
        using early [OF that] that miss pr(1) by linarith
      moreover have "\<forall>k. Suc nxt - Suc count \<le> k \<and> k < Suc nxt \<longrightarrow> P k"
        using pr(3) True by (auto simp: less_Suc_eq)
      ultimately have "case run_search P cnt n (Suc nxt) (Suc count) of
          None \<Rightarrow> \<forall>j. lo \<le> j \<and> j + cnt \<le> Suc nxt + n \<longrightarrow> \<not> run_at P cnt j
        | Some j \<Rightarrow> run_at P cnt j \<and> lo \<le> j \<and> j + cnt \<le> Suc nxt + n \<and>
            (\<forall>j'. lo \<le> j' \<and> j' < j \<longrightarrow> \<not> run_at P cnt j')"
        using pr miss by (intro Suc.IH) auto
      then show ?thesis using True miss by (simp split: option.splits)
    qed
  qed
qed simp

section \<open>What a scan returns\<close>

lemma free_run_run_at: "free_run s b cnt j = run_at (\<lambda>i. \<not> used s b i) cnt j"
  by (simp add: free_run_def run_at_def)

lemma full_iff:
  "scan_full_bytes b s 0 = btmp_bytes_len b \<longleftrightarrow> (\<forall>i<bm_bits b. used s b i)"
  using scan_full_bytes_full first_free_spec(1,2) by blast

lemma first_free_Least:
  assumes "\<exists>i<bm_bits b. \<not> used s b i"
  shows "first_free b s = (LEAST i. \<not> used s b i)"
proof -
  have "scan_full_bytes b s 0 \<noteq> btmp_bytes_len b" using assms full_iff by blast
  note ff = first_free_spec [OF this]
  show ?thesis
    by (rule Least_equality [symmetric]) (use ff in \<open>auto simp: not_less [symmetric]\<close>)
qed

lemma scan_one:
  assumes "bm_ok b"
  shows "bitmap_scan b 1 s =
    (if \<forall>i<bm_bits b. used s b i then Inr (-1) else Inr (of_nat (LEAST i. \<not> used s b i)))"
  using bitmap_scan_start [OF assms, of 1 s] full_iff [of b s] first_free_Least [of b s] by auto

lemma Least_free_lt:
  assumes "\<exists>i<bm_bits b. \<not> used s b i"
  shows "(LEAST i. \<not> used s b i) < bm_bits b" and "\<not> used s b (LEAST i. \<not> used s b i)"
proof -
  obtain i where i: "i < bm_bits b" "\<not> used s b i" using assms by blast
  show "(LEAST i. \<not> used s b i) < bm_bits b"
    using Least_le [of "\<lambda>i. \<not> used s b i", OF i(2)] i(1) by simp
  show "\<not> used s b (LEAST i. \<not> used s b i)"
    using LeastI [of "\<lambda>i. \<not> used s b i", OF i(2)] .
qed

text \<open>The run loop looks at the bits up to and including index \<open>bm_bits b\<close>, one past the last.\<close>

lemma scan_many:
  assumes ok: "bm_ok b" and cnt: "2 \<le> unat cnt" and some: "\<exists>i<bm_bits b. \<not> used s b i"
  shows "bitmap_scan b cnt s =
    Inr (if \<exists>j. j + unat cnt \<le> bm_bits b + 1 \<and> free_run s b (unat cnt) j
         then of_nat (LEAST j. free_run s b (unat cnt) j)
         else of_nat (LEAST i. \<not> used s b i))"
proof -
  let ?P = "\<lambda>i. \<not> used s b i" and ?f = "first_free b s" and ?N = "bm_bits b" and ?c = "unat cnt"
  have nf: "scan_full_bytes b s 0 \<noteq> btmp_bytes_len b" using some full_iff by blast
  note ff = first_free_spec [OF nf]
  have N: "?N < 2 ^ 31" using ok by (simp add: bm_ok_def)
  have cnt1: "cnt \<noteq> 1" using cnt by auto
  let ?rs = "run_search ?P ?c (?N - ?f) (Suc ?f) 1"
  have "bitmap_scan b cnt s =
      Inr (scan_run b s (of_nat ?c) (of_nat ?f) (?N - ?f) (of_nat (Suc ?f)) (of_nat 1))"
    using bitmap_scan_start [OF ok, of cnt s] nf cnt1 by simp
  also have "\<dots> = Inr (case ?rs of None \<Rightarrow> of_nat ?f | Some j \<Rightarrow> of_nat j)"
  proof -
    have "?c < 2 ^ 32" by (rule unat_u32)
    then show ?thesis using ff(1) N cnt by (subst scan_run_search) auto
  qed
  finally have scan: "bitmap_scan b cnt s = Inr (case ?rs of None \<Rightarrow> of_nat ?f | Some j \<Rightarrow> of_nat j)" .
  have "case ?rs of
      None \<Rightarrow> \<forall>j. ?f \<le> j \<and> j + ?c \<le> Suc ?f + (?N - ?f) \<longrightarrow> \<not> run_at ?P ?c j
    | Some j \<Rightarrow> run_at ?P ?c j \<and> ?f \<le> j \<and> j + ?c \<le> Suc ?f + (?N - ?f) \<and>
        (\<forall>j'. ?f \<le> j' \<and> j' < j \<longrightarrow> \<not> run_at ?P ?c j')"
    using cnt ff(2) by (intro run_search_spec) (auto simp: less_Suc_eq)
  then have spec: "case ?rs of
      None \<Rightarrow> \<forall>j. ?f \<le> j \<and> j + ?c \<le> ?N + 1 \<longrightarrow> \<not> run_at ?P ?c j
    | Some j \<Rightarrow> run_at ?P ?c j \<and> j + ?c \<le> ?N + 1 \<and> (\<forall>j'. ?f \<le> j' \<and> j' < j \<longrightarrow> \<not> run_at ?P ?c j')"
    using ff(1) by (auto split: option.splits)
  have low: "?f \<le> j" if "run_at ?P ?c j" for j
  proof (rule ccontr)
    assume "\<not> ?f \<le> j"
    then have "used s b j" using ff(3) by simp
    moreover have "\<not> used s b j" using that cnt unfolding run_at_def by auto
    ultimately show False by blast
  qed
  show ?thesis
  proof (cases ?rs)
    case None
    then have "\<not> (\<exists>j. j + ?c \<le> ?N + 1 \<and> free_run s b ?c j)"
      using spec low by (auto simp: free_run_run_at)
    then show ?thesis using scan None first_free_Least [OF some] by auto
  next
    case (Some j)
    then have j: "run_at ?P ?c j" "j + ?c \<le> ?N + 1" "\<And>j'. j' < j \<Longrightarrow> \<not> run_at ?P ?c j'"
      using spec low by auto
    then have least: "(LEAST j. free_run s b ?c j) = j"
      unfolding free_run_run_at by (intro Least_equality) (auto simp: not_less [symmetric])
    have "\<exists>j. j + ?c \<le> ?N + 1 \<and> free_run s b ?c j"
      using j(1,2) unfolding free_run_run_at by blast
    then show ?thesis unfolding scan Some least by (simp only: option.case if_True)
  qed
qed

section \<open>What setting a bit does\<close>

lemma bitmap_set_eq:
  assumes "v = 0 \<or> v = 1"
  shows "bitmap_set b i v s =
    Inr (wrb (bits b + i div 8)
      (if v = 1 then ucast ((ucast (bytes s (bits b + i div 8)) :: u32) OR 2 ^ (unat i mod 8))
       else ucast ((ucast (bytes s (bits b + i div 8)) :: u32) AND NOT (2 ^ (unat i mod 8)))) s)"
  using assms by (auto simp: bitmap_set_def Let_def unat_mod_8)

lemma bitmap_set_bit:
  assumes v: "v = 0 \<or> v = 1" and "bitmap_set b i v s = Inr s'" and "k < 8"
  shows "bit (bytes s' (bits b + i div 8)) k =
    (if k = unat i mod 8 then v = 1 else bit (bytes s (bits b + i div 8)) k)"
  using assms by (auto simp: bitmap_set_eq [OF v] bit_simps)

lemma bitmap_set_used:
  assumes v: "v = 0 \<or> v = 1" and s': "bitmap_set b i v s = Inr s'" and j: "j < 2 ^ 32"
  shows "used s' b j = (if j = unat i then v = 1 else used s b j)"
proof -
  have ia: "i div 8 = of_nat (unat i div 8)" by (simp flip: unat_div_8)
  have inj: "bits b + of_nat (j div 8) = bits b + i div 8 \<longleftrightarrow> j div 8 = unat i div 8"
    using j unat_u32(1) [of i] unfolding ia
    by (subst add_left_cancel, subst of_nat_word_inj) auto
  show ?thesis
  proof (cases "j div 8 = unat i div 8")
    case True
    then have "j = unat i \<longleftrightarrow> j mod 8 = unat i mod 8" by (metis div_mult_mod_eq)
    with True inj bitmap_set_bit [OF v s', of "j mod 8"] show ?thesis by (simp add: used_def)
  next
    case False
    with inj s' show ?thesis by (auto simp: used_def bitmap_set_eq [OF v])
  qed
qed

lemma bitmap_set_frame:
  assumes "bitmap_set b i v s = Inr s'"
  shows "mem s' = mem s" "eflags s' = eflags s" "machine.more s' = machine.more s"
    "x \<noteq> bits b + i div 8 \<Longrightarrow> bytes s' x = bytes s x"
  using assms by (auto simp: bitmap_set_def Let_def ASSERT_eq_Inr split: if_splits)

lemma bitmap_set_total: "v = 0 \<or> v = 1 \<Longrightarrow> \<exists>s'. bitmap_set b i v s = Inr s'"
  by (auto simp: bitmap_set_eq)

text \<open>Bitmaps that do not share bytes do not disturb each other.\<close>

definition bm_disjoint :: "bitmap \<Rightarrow> bitmap \<Rightarrow> bool" where
  "bm_disjoint b c =
     disjoint_blocks (bits b) (unat (btmp_bytes_len b)) (bits c) (unat (btmp_bytes_len c))"

lemma bm_disjoint_sym: "bm_disjoint b c = bm_disjoint c b"
  by (simp add: bm_disjoint_def disjoint_blocks_sym [of "bits b"])

lemma used_byte_in_block:
  assumes "j < bm_bits c"
  shows "in_block (bits c) (unat (btmp_bytes_len c)) (bits c + of_nat (j div 8))"
  using assms by (intro in_block_offset) (auto simp: bm_bits_def unat_u32)

text \<open>The bytes of a bitmap; setting a bit writes no other byte.\<close>

definition bm_bytes :: "bitmap \<Rightarrow> addr set" where
  "bm_bytes b = {x. in_block (bits b) (unat (btmp_bytes_len b)) x}"

lemma bitmap_set_outside:
  assumes "bitmap_set b i v s = Inr s'" "unat i < bm_bits b" "x \<notin> bm_bytes b"
  shows "bytes s' x = bytes s x"
proof -
  have "i div 8 = of_nat (unat i div 8)" by (simp flip: unat_div_8)
  then have "x \<noteq> bits b + i div 8" using used_byte_in_block [OF assms(2)] assms(3) by (auto simp: bm_bytes_def)
  then show ?thesis by (rule bitmap_set_frame(4) [OF assms(1)])
qed

lemma bitmap_set_other:
  assumes "bitmap_set b i v s = Inr s'" and "unat i < bm_bits b" and "bm_disjoint b c" and "j < bm_bits c"
  shows "used s' c j = used s c j"
proof -
  have ia: "i div 8 = of_nat (unat i div 8)" by (simp flip: unat_div_8)
  have "bits c + of_nat (j div 8) \<noteq> bits b + i div 8"
    using used_byte_in_block [OF assms(2)] used_byte_in_block [OF assms(4)] assms(3)
    by (auto simp: bm_disjoint_def disjoint_blocks_def ia)
  then show ?thesis using bitmap_set_frame(4) [OF assms(1)] by (simp add: used_def)
qed

lemma bitmap_init_used:
  assumes "bitmap_init b s = Inr s'" and "i < bm_bits b"
  shows "\<not> used s' b i"
proof -
  have "s' = memset_loop (unat (btmp_bytes_len b)) (bits b) 0 s"
    using assms(1) by (simp add: bitmap_init_def memset_def ASSERT_eq_Inr)
  then show ?thesis
    using used_byte_in_block [OF assms(2)] by (simp add: used_def memset_loop_bytes unat_u32)
qed

lemma bitmap_init_other:
  assumes "bitmap_init b s = Inr s'" and "bm_disjoint b c" and "j < bm_bits c"
  shows "used s' c j = used s c j"
proof -
  have "s' = memset_loop (unat (btmp_bytes_len b)) (bits b) 0 s"
    using assms(1) by (simp add: bitmap_init_def memset_def ASSERT_eq_Inr)
  moreover have "\<not> in_block (bits b) (unat (btmp_bytes_len b)) (bits c + of_nat (j div 8))"
    using used_byte_in_block [OF assms(3)] assms(2) by (auto simp: bm_disjoint_def disjoint_blocks_def)
  ultimately show ?thesis by (simp add: used_def memset_loop_bytes unat_u32)
qed

lemma bitmap_init_frame:
  assumes "bitmap_init b s = Inr s'"
  shows "mem s' = mem s" "eflags s' = eflags s" "machine.more s' = machine.more s"
  using assms by (auto simp: bitmap_init_def memset_def ASSERT_eq_Inr)

section \<open>The contract clients rely on\<close>

text \<open>
  What the page pools and the address pools need of a bitmap: a finite row of slots, each taken or
  free; \<open>scan\<close> finds the lowest free slot or reports that there is none, \<open>mark\<close> changes one slot.
\<close>

locale slot_row =
  fixes ok :: "'b \<Rightarrow> bool"
    and slots :: "'b \<Rightarrow> nat"
    and taken :: "'s \<Rightarrow> 'b \<Rightarrow> nat \<Rightarrow> bool"
    and scan :: "'b \<Rightarrow> 's \<Rightarrow> u32 result"
    and mark :: "'b \<Rightarrow> u32 \<Rightarrow> bool \<Rightarrow> 's \<Rightarrow> 's result"
  assumes slots_lt: "ok b \<Longrightarrow> slots b < 2 ^ 31"
    and scan_full: "ok b \<Longrightarrow> \<forall>i < slots b. taken s b i \<Longrightarrow> scan b s = Inr (-1)"
    and scan_free: "ok b \<Longrightarrow> \<exists>i < slots b. \<not> taken s b i \<Longrightarrow>
      \<exists>i. scan b s = Inr (of_nat i) \<and> i < slots b \<and> \<not> taken s b i \<and> (\<forall>j<i. taken s b j)"
    and mark_total: "\<exists>s'. mark b i v s = Inr s'"
    and mark_taken: "ok b \<Longrightarrow> mark b i v s = Inr s' \<Longrightarrow> j < slots b \<Longrightarrow>
      taken s' b j = (if j = unat i then v else taken s b j)"
begin

definition free_slots :: "'s \<Rightarrow> 'b \<Rightarrow> nat set" where
  "free_slots s b = {i. i < slots b \<and> \<not> taken s b i}"

lemma finite_free_slots: "finite (free_slots s b)"
  unfolding free_slots_def by (rule finite_subset [of _ "{..< slots b}"]) auto

lemma free_slots_mark:
  assumes "ok b" and "mark b i v s = Inr s'"
  shows "free_slots s' b =
    (if v then free_slots s b - {unat i} else free_slots s b \<union> ({unat i} \<inter> {..< slots b}))"
  using mark_taken [OF assms] by (auto simp: free_slots_def split: if_splits)

text \<open>Taking the slot the scan found uses up exactly one free slot; releasing it gives it back.\<close>

lemma take_slot:
  assumes ok: "ok b" and ne: "free_slots s b \<noteq> {}"
  shows "\<exists>i s'. scan b s = Inr i \<and> i \<noteq> -1 \<and> mark b i True s = Inr s' \<and> unat i \<in> free_slots s b \<and>
    free_slots s' b = free_slots s b - {unat i} \<and>
    Suc (card (free_slots s' b)) = card (free_slots s b)"
proof -
  obtain n where n: "scan b s = Inr (of_nat n)" "n < slots b" "\<not> taken s b n"
    using scan_free [OF ok] ne by (fastforce simp: free_slots_def)
  have lt: "n < 2 ^ 31" using slots_lt [OF ok] n(2) by simp
  then have un: "unat (of_nat n :: u32) = n" by (simp add: unat_of_nat_lt)
  have ne1: "(of_nat n :: u32) \<noteq> -1"
  proof
    assume "(of_nat n :: u32) = -1"
    then have "unat (of_nat n :: u32) = unat (-1 :: u32)" by simp
    with un lt show False by (simp add: unsigned_minus_1_eq_mask mask_eq_exp_minus_1)
  qed
  obtain s' where s': "mark b (of_nat n) True s = Inr s'" using mark_total by blast
  have mem: "n \<in> free_slots s b" using n by (simp add: free_slots_def)
  have eq: "free_slots s' b = free_slots s b - {n}" using free_slots_mark [OF ok s'] un by simp
  with mem have "Suc (card (free_slots s' b)) = card (free_slots s b)"
    using card_Suc_Diff1 [OF finite_free_slots mem] by simp
  with n(1) ne1 s' mem eq un show ?thesis by auto
qed

lemma take_release:
  assumes ok: "ok b" and "unat i \<in> free_slots s b"
    and "mark b i True s = Inr s'" and "mark b i False s' = Inr s''"
  shows "free_slots s'' b = free_slots s b"
  using free_slots_mark [OF ok assms(3)] free_slots_mark [OF ok assms(4)] assms(2)
  by (auto simp: free_slots_def)

end

text \<open>The bitmap as such a row: a one-slot scan, and a mark with value 1 or 0.\<close>

definition bm_scan1 :: "bitmap \<Rightarrow> 'z machine_scheme \<Rightarrow> u32 result" where
  "bm_scan1 b s = bitmap_scan b 1 s"

definition bm_mark :: "bitmap \<Rightarrow> u32 \<Rightarrow> bool \<Rightarrow> 'z machine_scheme \<Rightarrow> 'z machine_scheme result" where
  "bm_mark b i v s = bitmap_set b i (if v then 1 else 0) s"

lemma bm_mark_used:
  assumes "bm_ok b" and "bm_mark b i v s = Inr s'" and "j < bm_bits b"
  shows "used s' b j = (if j = unat i then v else used s b j)"
proof -
  have "used s' b j = (if j = unat i then (if v then 1 else 0 :: u8) = 1 else used s b j)"
    by (rule bitmap_set_used) (use assms in \<open>auto simp: bm_mark_def bm_ok_def\<close>)
  then show ?thesis by simp
qed

interpretation bm: slot_row bm_ok bm_bits used bm_scan1 bm_mark
proof unfold_locales
  fix b :: bitmap and s :: "'a machine_scheme"
  assume ok: "bm_ok b" and fr: "\<exists>i<bm_bits b. \<not> used s b i"
  let ?i = "LEAST i. \<not> used s b i"
  have "bm_scan1 b s = Inr (of_nat ?i)" using fr by (auto simp: bm_scan1_def scan_one [OF ok])
  moreover have "\<forall>j<?i. used s b j" using not_less_Least by blast
  ultimately show "\<exists>i. bm_scan1 b s = Inr (of_nat i) \<and> i < bm_bits b \<and> \<not> used s b i \<and>
      (\<forall>j<i. used s b j)"
    using Least_free_lt [OF fr] by blast
next
  show "\<exists>s'. bm_mark b i v s = Inr s'" for b i v and s :: "'a machine_scheme"
    by (simp add: bm_mark_def bitmap_set_total)
qed (auto simp: bm_ok_def bm_scan1_def scan_one bm_mark_used)

text \<open>A scan for any number of bits finds a run when there is one.\<close>

lemma scan_run_found:
  assumes "bm_ok b" and "1 \<le> unat cnt" and "j + unat cnt \<le> bm_bits b" and "free_run s b (unat cnt) j"
  shows "\<exists>k\<le>j. bitmap_scan b cnt s = Inr (of_nat k) \<and> free_run s b (unat cnt) k \<and>
    (\<forall>i<k. \<not> free_run s b (unat cnt) i)"
proof -
  let ?k = "LEAST j. free_run s b (unat cnt) j"
  have "j < bm_bits b" "\<not> used s b j" using assms(2-4) by (auto simp: free_run_def)
  then have some: "\<exists>i<bm_bits b. \<not> used s b i" by blast
  have one: "free_run s b 1 i = (\<not> used s b i)" for i
    unfolding free_run_def by (metis One_nat_def Suc_leI add.right_neutral add_Suc_right le_antisym lessI less_Suc_eq_le order_refl)
  have "bitmap_scan b cnt s = Inr (of_nat ?k)"
  proof (cases "cnt = 1")
    case True
    then show ?thesis using scan_one [OF assms(1), of s] some one by auto
  next
    case False
    have "unat cnt \<noteq> 1" using False by (metis unat_1 word_unat_eq_iff)
    moreover have "\<exists>j. j + unat cnt \<le> bm_bits b + 1 \<and> free_run s b (unat cnt) j"
      using assms(3,4) by (intro exI [of _ j]) simp
    ultimately show ?thesis using scan_many [OF assms(1) _ some, of cnt] assms(2) by simp
  qed
  moreover have "?k \<le> j" and "free_run s b (unat cnt) ?k"
    using assms(4) by (rule Least_le, rule LeastI)
  moreover have "\<forall>i<?k. \<not> free_run s b (unat cnt) i" using not_less_Least by blast
  ultimately show ?thesis by blast
qed

section \<open>Properties\<close>

text \<open>A one-slot \<open>bitmap_scan\<close> returns the lowest free bit of the bitmap, and \<open>-1\<close> exactly when every
  bit it manages is set; it never panics and never reads as free a bit past the end.\<close>

theorem bitmap_scan_one:
  assumes "bm_ok b"
  shows "bitmap_scan b 1 s =
    Inr (if \<forall>i<bm_bits b. used s b i then -1 else of_nat (LEAST i. \<not> used s b i)) \<and>
    ((\<exists>i<bm_bits b. \<not> used s b i) \<longrightarrow> (LEAST i. \<not> used s b i) < bm_bits b)"
  using scan_one [OF assms, of s] Least_free_lt(1) [of b s] by auto

definition sample_bitmap :: bitmap where
  "sample_bitmap = \<lparr>btmp_bytes_len = 2, bits = 0x1000\<rparr>"

lemma sample_bitmap_ok: "bm_ok sample_bitmap" "bm_bits sample_bitmap = 16"
  by (simp_all add: bm_ok_def bm_bits_def sample_bitmap_def)

theorem bitmap_scan_one_witness:
  "bitmap_scan sample_bitmap 1 (wrb 0x1000 7 zero_machine) = Inr 3"
proof -
  let ?s = "wrb 0x1000 7 zero_machine"
  have u: "used ?s sample_bitmap 0" "used ?s sample_bitmap 1" "used ?s sample_bitmap 2"
    "\<not> used ?s sample_bitmap 3"
    by (simp_all add: used_def sample_bitmap_def bit_numeral_rec)
  have "\<not> (\<forall>i<bm_bits sample_bitmap. used ?s sample_bitmap i)"
    using u(4) by (auto simp: sample_bitmap_ok intro!: exI [of _ 3])
  moreover have "(LEAST i. \<not> used ?s sample_bitmap i) = 3"
  proof (rule Least_equality)
    show "\<not> used ?s sample_bitmap 3" by (rule u(4))
    show "3 \<le> i" if "\<not> used ?s sample_bitmap i" for i
    proof (rule ccontr)
      assume "\<not> 3 \<le> i"
      then have "i = 0 \<or> i = 1 \<or> i = 2" by arith
      with that u show False by metis
    qed
  qed
  ultimately show ?thesis using bitmap_scan_one [OF sample_bitmap_ok(1), of ?s] by simp
qed

text \<open>C30. When the bitmap has a run of \<open>cnt\<close> free bits, \<open>bitmap_scan\<close> for \<open>cnt\<close> bits returns the start of
  the lowest one, and that run lies inside the bitmap.\<close>

theorem bitmap_scan_run:
  assumes "bm_ok b" and "2 \<le> unat cnt"
    and "j + unat cnt \<le> bm_bits b" and "free_run s b (unat cnt) j"
  shows "\<exists>k. bitmap_scan b cnt s = Inr (of_nat k) \<and> k + unat cnt \<le> bm_bits b \<and>
    free_run s b (unat cnt) k \<and> (\<forall>i<k. \<not> free_run s b (unat cnt) i)"
proof -
  have "1 \<le> unat cnt" using assms(2) by simp
  from scan_run_found [OF assms(1) this assms(3,4)] assms(3) show ?thesis by fastforce
qed

theorem bitmap_scan_run_witness:
  "\<exists>k. bitmap_scan sample_bitmap 4 (wrb 0x1000 0xA5 zero_machine) = Inr (of_nat k) \<and> k + 4 \<le> 16"
proof -
  have "free_run (wrb 0x1000 0xA5 zero_machine) sample_bitmap 4 8"
  proof -
    have "k div 8 = 1" if "8 \<le> k" "k < 12" for k :: nat using that by simp
    then show ?thesis by (auto simp: free_run_def used_def sample_bitmap_def zero_machine_def)
  qed
  with bitmap_scan_run [OF sample_bitmap_ok(1), of 4 8] show ?thesis
    by (auto simp: sample_bitmap_ok)
qed

text \<open>When no run of \<open>cnt \<ge> 2\<close> bits is free but some bit is, \<open>bitmap_scan\<close> does not report failure:
  it returns the index of a single free bit, because \<open>bit_idx_start\<close> still holds the first free bit when
  the run loop ends without success.\<close>

theorem bitmap_scan_run_missing:
  assumes "bm_ok b" and "2 \<le> unat cnt" and "\<exists>i<bm_bits b. \<not> used s b i"
    and "\<nexists>j. j + unat cnt \<le> bm_bits b \<and> free_run s b (unat cnt) j"
  shows "\<exists>i. bitmap_scan b cnt s = Inr (of_nat i) \<and> i < bm_bits b \<and> \<not> used s b i"
proof (cases "\<exists>j. j + unat cnt \<le> bm_bits b + 1 \<and> free_run s b (unat cnt) j")
  case True
  let ?k = "LEAST j. free_run s b (unat cnt) j"
  obtain j where j: "j + unat cnt \<le> bm_bits b + 1" "free_run s b (unat cnt) j" using True by blast
  have "?k \<le> j" and "free_run s b (unat cnt) ?k"
    using j(2) by (rule Least_le, rule LeastI)
  have "?k < bm_bits b" using \<open>?k \<le> j\<close> j(1) assms(2) by linarith
  moreover have "\<not> used s b ?k"
  proof -
    have "?k \<le> ?k \<and> ?k < ?k + unat cnt" using assms(2) by linarith
    with \<open>free_run s b (unat cnt) ?k\<close> show ?thesis unfolding free_run_def by blast
  qed
  moreover have "bitmap_scan b cnt s = Inr (of_nat ?k)"
    by (simp only: scan_many [OF assms(1-3)] True if_True)
  ultimately show ?thesis by blast
next
  case False
  then have "bitmap_scan b cnt s = Inr (of_nat (LEAST i. \<not> used s b i))"
    by (simp only: scan_many [OF assms(1-3)] if_False)
  then show ?thesis using Least_free_lt [OF assms(3)] by blast
qed

theorem bitmap_scan_run_missing_witness:
  "\<exists>i. bitmap_scan sample_bitmap 3 (wrb 0x1001 0x55 (wrb 0x1000 0x55 zero_machine)) = Inr (of_nat i) \<and> i < 16"
proof -
  let ?s = "wrb 0x1001 0x55 (wrb 0x1000 0x55 zero_machine)"
  have u: "used ?s sample_bitmap 0" "used ?s sample_bitmap 2" "used ?s sample_bitmap 4"
    "used ?s sample_bitmap 6" "used ?s sample_bitmap 8" "used ?s sample_bitmap 10"
    "used ?s sample_bitmap 12" "used ?s sample_bitmap 14"
    by (simp_all add: used_def sample_bitmap_def bit_numeral_rec)
  have "\<not> free_run ?s sample_bitmap 3 j" if "j + 3 \<le> 16" for j
  proof -
    have "\<exists>k \<in> {0, 2, 4, 6, 8, 10, 12, 14}. j \<le> k \<and> k < j + 3" using that by simp arith
    then show ?thesis using u unfolding free_run_def by blast
  qed
  moreover have "\<not> used ?s sample_bitmap 1"
    by (simp add: used_def sample_bitmap_def bit_numeral_rec)
  then have "\<exists>i<16. \<not> used ?s sample_bitmap i" by (intro exI [of _ 1]) simp
  ultimately show ?thesis
    using bitmap_scan_run_missing [OF sample_bitmap_ok(1), of 3 ?s]
    by (auto simp: sample_bitmap_ok)
qed

text \<open>Scanning for a free bit and setting it, as every pool does, takes exactly one bit: it was free
  before, the number of free bits drops by one, and clearing it again restores the bitmap's free set.\<close>

theorem bitmap_take_one:
  assumes "bm_ok b" and "bm.free_slots s b \<noteq> {}"
  shows "\<exists>i s'. bm_scan1 b s = Inr i \<and> i \<noteq> -1 \<and> bm_mark b i True s = Inr s' \<and>
    unat i \<in> bm.free_slots s b \<and> bm.free_slots s' b = bm.free_slots s b - {unat i} \<and>
    Suc (card (bm.free_slots s' b)) = card (bm.free_slots s b)"
  using assms by (rule bm.take_slot)

theorem bitmap_take_one_witness:
  "\<exists>i s'. bm_scan1 sample_bitmap zero_machine = Inr i \<and> bm_mark sample_bitmap i True zero_machine = Inr s' \<and>
     Suc (card (bm.free_slots s' sample_bitmap)) = card (bm.free_slots zero_machine sample_bitmap)"
proof -
  have "0 \<in> bm.free_slots zero_machine sample_bitmap"
    by (simp add: bm.free_slots_def sample_bitmap_ok used_def zero_machine_def)
  then have "bm.free_slots zero_machine sample_bitmap \<noteq> {}" by blast
  from bitmap_take_one [OF sample_bitmap_ok(1) this] show ?thesis by blast
qed

end
