(* ===== verification/Paging.thy ===== *)
theory Paging
  imports Kernel_Base
begin

text \<open>
  Paging: the part of \<^verbatim>\<open>kernel/memory.c\<close> that edits page tables, over a model of the two-level walk
  the i386 MMU does.  The kernel never knows where a page table lies physically; it reaches the
  entries of an address through the last entry of the page directory, which points to the directory
  itself.  \<open>pte_ptr\<close> and \<open>pde_ptr\<close> compute those addresses, and every access to an entry goes through
  the walk (\<open>vread\<close>, \<open>vwrite\<close>), so that an entry whose table is absent faults.
\<close>

section \<open>The MMU\<close>

record pgmachine = machine +
  cr3 :: addr
  pmem :: "addr \<Rightarrow> u32"

definition PDE_IDX :: "addr \<Rightarrow> u32" where
  "PDE_IDX addr = drop_bit 22 (addr AND 0xffc00000)"

definition PTE_IDX :: "addr \<Rightarrow> u32" where
  "PTE_IDX addr = drop_bit 12 (addr AND 0x003ff000)"

definition frame_of :: "u32 \<Rightarrow> addr" where
  "frame_of e = e AND 0xfffff000"

definition present :: "u32 \<Rightarrow> bool" where
  "present e = (e AND 0x00000001 \<noteq> 0)"

definition page_walk :: "'z pgmachine_scheme \<Rightarrow> addr \<Rightarrow> addr option" where
  "page_walk s va =
     (let pde = pmem s (frame_of (cr3 s) + PDE_IDX va * 4)
      in if present pde
         then let pte = pmem s (frame_of pde + PTE_IDX va * 4)
              in if present pte then Some (frame_of pte + (va AND 0x00000fff)) else None
         else None)"

definition vread :: "addr \<Rightarrow> 'z pgmachine_scheme \<Rightarrow> u32 result" where
  "vread va s = (case page_walk s va of None \<Rightarrow> Inl (PageFault va) | Some pa \<Rightarrow> Inr (pmem s pa))"

definition pwr :: "addr \<Rightarrow> u32 \<Rightarrow> 'z pgmachine_scheme \<Rightarrow> 'z pgmachine_scheme" where
  "pwr pa v s = s\<lparr>pmem := (pmem s)(pa := v)\<rparr>"

definition vwrite :: "addr \<Rightarrow> u32 \<Rightarrow> 'z pgmachine_scheme \<Rightarrow> 'z pgmachine_scheme result" where
  "vwrite va v s =
     (case page_walk s va of None \<Rightarrow> Inl (PageFault va) | Some pa \<Rightarrow> Inr (pwr pa v s))"

section \<open>The operations\<close>

definition PG_P_1 :: u32 where "PG_P_1 = 1"
definition PG_P_0 :: u32 where "PG_P_0 = 0"
definition PG_RW_W :: u32 where "PG_RW_W = 2"
definition PG_US_U :: u32 where "PG_US_U = 4"

definition pte_ptr :: "addr \<Rightarrow> addr" where
  "pte_ptr vaddr = 0xffc00000 + drop_bit 10 (vaddr AND 0xffc00000) + PTE_IDX vaddr * 4"

definition pde_ptr :: "addr \<Rightarrow> addr" where
  "pde_ptr vaddr = 0xfffff000 + PDE_IDX vaddr * 4"

definition addr_v2p :: "addr \<Rightarrow> 'z pgmachine_scheme \<Rightarrow> addr result" where
  "addr_v2p vaddr s =
     bind_r (vread (pte_ptr vaddr) s) (\<lambda>pte. Inr ((pte AND 0xfffff000) + (vaddr AND 0x00000fff)))"

text \<open>\<open>*pte &= PG_P_0\<close>, with \<open>PG_P_0 = 0\<close>: the whole entry becomes zero.\<close>

definition page_table_pte_remove :: "addr \<Rightarrow> 'z pgmachine_scheme \<Rightarrow> 'z pgmachine_scheme result" where
  "page_table_pte_remove vaddr s =
     bind_r (vread (pte_ptr vaddr) s) (\<lambda>pte. vwrite (pte_ptr vaddr) (pte AND PG_P_0) s)"

section \<open>Address arithmetic\<close>

lemma mask_consts:
  "(0xffc00000 :: u32) = NOT (mask 22)" "(0x003ff000 :: u32) = push_bit 12 (mask 10)"
  "(0xfffff000 :: u32) = NOT (mask 12)" "(0x00000fff :: u32) = mask 12"
  by (simp_all add: mask_eq_exp_minus_1)

lemma unat_PDE_IDX: "unat (PDE_IDX v) = unat v div 2 ^ 22"
proof -
  have "PDE_IDX v = drop_bit 22 v"
    unfolding PDE_IDX_def mask_consts(1)
    by (rule bit_word_eqI) (auto simp: bit_simps dest: bit_imp_le_length)
  then show ?thesis by (simp add: drop_bit_eq_div unat_div)
qed

lemma unat_PTE_IDX: "unat (PTE_IDX v) = unat v div 2 ^ 12 mod 2 ^ 10"
proof -
  have "PTE_IDX v = take_bit 10 (drop_bit 12 v)"
    unfolding PTE_IDX_def mask_consts(2) by (rule bit_word_eqI) (auto simp: bit_simps)
  then show ?thesis by (simp add: drop_bit_eq_div take_bit_eq_mod unat_div unat_mod)
qed

lemma unat_offset: "unat (v AND 0x00000fff :: u32) = unat v mod 2 ^ 12"
  unfolding mask_consts(4) by (simp add: take_bit_eq_mod unat_mod flip: take_bit_eq_mask)

lemma unat_frame_of: "unat (frame_of v) = unat v div 2 ^ 12 * 2 ^ 12"
proof -
  have "frame_of v = push_bit 12 (drop_bit 12 v)"
    unfolding frame_of_def mask_consts(3) by (rule bit_word_eqI) (auto simp: bit_simps)
  moreover have "unat v div 4096 * 4096 < 2 ^ 32" using unat_u32(1) [of v] by linarith
  ultimately show ?thesis
    by (simp add: drop_bit_eq_div push_bit_eq_mult unat_word_ariths(2) unat_div)
qed

lemma unat_dir_shift: "unat (drop_bit 10 (v AND 0xffc00000 :: u32)) = unat v div 2 ^ 22 * 2 ^ 12"
proof -
  have "drop_bit 10 (v AND 0xffc00000) = push_bit 12 (drop_bit 22 v)"
    unfolding mask_consts(1)
    by (rule bit_word_eqI) (auto simp: bit_simps dest: bit_imp_le_length)
  moreover have "unat v div 4194304 * 4096 < 2 ^ 32" using unat_u32(1) [of v] by linarith
  ultimately show ?thesis
    by (simp add: drop_bit_eq_div push_bit_eq_mult unat_word_ariths(2) unat_div)
qed

lemma unat_mult_4: "unat (x :: u32) < 2 ^ 30 \<Longrightarrow> unat (x * 4) = unat x * 4"
  by (simp add: unat_word_ariths(2))

lemma PDE_IDX_lt: "unat (PDE_IDX v) < 1024"
  using unat_u32(1) [of v] by (simp add: unat_PDE_IDX)

lemma PTE_IDX_lt: "unat (PTE_IDX v) < 1024"
  by (simp add: unat_PTE_IDX)

lemma unat_pte_ptr:
  "unat (pte_ptr v) = 0xffc00000 + unat v div 2 ^ 22 * 2 ^ 12 + unat v div 2 ^ 12 mod 2 ^ 10 * 4"
proof -
  have d: "unat v div 2 ^ 22 < 1024" using PDE_IDX_lt [of v] by (simp add: unat_PDE_IDX)
  have m: "unat v div 2 ^ 12 mod 2 ^ 10 < (1024 :: nat)" by simp
  have a: "unat (0xffc00000 + drop_bit 10 (v AND 0xffc00000) :: u32) = 0xffc00000 + unat v div 2 ^ 22 * 2 ^ 12"
    unfolding unat_dir_shift [symmetric] using d
    by (intro unat_add_lt [THEN trans]) (simp_all only: unat_dir_shift, simp_all)
  have b: "unat (PTE_IDX v * 4) = unat v div 2 ^ 12 mod 2 ^ 10 * 4"
    using PTE_IDX_lt [of v] by (subst unat_mult_4) (simp_all add: unat_PTE_IDX)
  show ?thesis unfolding pte_ptr_def using d m
    by (subst unat_add_lt) (simp_all only: a b, simp)
qed

lemma unat_pde_ptr: "unat (pde_ptr v) = 0xfffff000 + unat v div 2 ^ 22 * 4"
proof -
  have d: "unat v div 2 ^ 22 < 1024" using PDE_IDX_lt [of v] by (simp add: unat_PDE_IDX)
  have b: "unat (PDE_IDX v * 4) = unat v div 2 ^ 22 * 4"
    using PDE_IDX_lt [of v] by (subst unat_mult_4) (simp_all add: unat_PDE_IDX)
  show ?thesis unfolding pde_ptr_def using d
    by (subst unat_add_lt) (simp_all only: b, simp_all)
qed

lemma unat_eqI: "unat x = unat y \<Longrightarrow> x = (y :: 'a::len word)"
  by (rule unsigned_word_eqI)

text \<open>What the walk sees of the two pointers.\<close>

lemma table_address_nat:
  fixes d t :: nat
  assumes "d < 1024" and "t < 1024"
  shows "(0xffc00000 + d * 2 ^ 12 + t * 4) div 2 ^ 22 = 1023"
    "(0xffc00000 + d * 2 ^ 12 + t * 4) div 2 ^ 12 mod 2 ^ 10 = d"
    "(0xffc00000 + d * 2 ^ 12 + t * 4) mod 2 ^ 12 = t * 4"
    "(0xfffff000 + d * 4) div 2 ^ 22 = 1023"
    "(0xfffff000 + d * 4) div 2 ^ 12 mod 2 ^ 10 = 1023"
    "(0xfffff000 + d * 4) mod 2 ^ 12 = d * 4"
proof -
  have a: "(0xffc00000 + d * 2 ^ 12 + t * 4) div 2 ^ 12 = 1023 * 1024 + d"
    and b: "(0xfffff000 + d * 4) div 2 ^ 12 = (1048575 :: nat)" using assms by simp_all
  show "(0xffc00000 + d * 2 ^ 12 + t * 4) div 2 ^ 12 mod 2 ^ 10 = d"
    using mod_mult_self3 [of 1023 1024 d] assms(1) by (simp only: a) simp
  show "(0xfffff000 + d * 4) div 2 ^ 12 mod 2 ^ 10 = 1023"
    unfolding b by simp
  have m: "(k * 4096 + r) mod 4096 = r" if "r < 4096" for k r :: nat using that by simp
  show "(0xffc00000 + d * 2 ^ 12 + t * 4) mod 2 ^ 12 = t * 4"
    using m [of "t * 4" "1047552 + d"] assms(2) by (simp add: distrib_right)
  show "(0xfffff000 + d * 4) mod 2 ^ 12 = d * 4"
    using m [of "d * 4" 1048575] assms(1) by simp
qed (use assms in simp_all)

lemma pte_ptr_fields:
  "PDE_IDX (pte_ptr v) = 1023" "PTE_IDX (pte_ptr v) = PDE_IDX v"
  "pte_ptr v AND 0x00000fff = PTE_IDX v * 4"
proof -
  have d: "unat v div 2 ^ 22 < 1024" and t: "unat v div 2 ^ 12 mod 2 ^ 10 < 1024"
    using PDE_IDX_lt [of v] by (simp_all add: unat_PDE_IDX)
  note N = table_address_nat [OF d t]
  show "PDE_IDX (pte_ptr v) = 1023"
    by (intro unat_eqI) (simp only: unat_PDE_IDX unat_pte_ptr N, simp)
  show "PTE_IDX (pte_ptr v) = PDE_IDX v"
    by (intro unat_eqI) (simp only: unat_PTE_IDX unat_PDE_IDX unat_pte_ptr N)
  have "unat (PTE_IDX v * 4) = unat v div 2 ^ 12 mod 2 ^ 10 * 4"
    using PTE_IDX_lt [of v] by (subst unat_mult_4) (simp_all add: unat_PTE_IDX)
  then show "pte_ptr v AND 0x00000fff = PTE_IDX v * 4"
    by (intro unat_eqI) (simp only: unat_offset unat_pte_ptr N)
qed

lemma pde_ptr_fields:
  "PDE_IDX (pde_ptr v) = 1023" "PTE_IDX (pde_ptr v) = 1023"
  "pde_ptr v AND 0x00000fff = PDE_IDX v * 4"
proof -
  have d: "unat v div 2 ^ 22 < 1024" using PDE_IDX_lt [of v] by (simp add: unat_PDE_IDX)
  note N = table_address_nat [OF d d]
  show "PDE_IDX (pde_ptr v) = 1023"
    by (intro unat_eqI) (simp only: unat_PDE_IDX unat_pde_ptr N, simp)
  show "PTE_IDX (pde_ptr v) = 1023"
    by (intro unat_eqI) (simp only: unat_PTE_IDX unat_pde_ptr N, simp)
  have "unat (PDE_IDX v * 4) = unat v div 2 ^ 22 * 4"
    using PDE_IDX_lt [of v] by (subst unat_mult_4) (simp_all add: unat_PDE_IDX)
  then show "pde_ptr v AND 0x00000fff = PDE_IDX v * 4"
    by (intro unat_eqI) (simp only: unat_offset unat_pde_ptr N)
qed

section \<open>The self map\<close>

text \<open>
  The page directory is page aligned and its last entry points to the directory itself
  (\<^verbatim>\<open>boot/loader.S\<close> and \<open>create_page_dir\<close> set it up so).
\<close>

definition selfmap :: "'z pgmachine_scheme \<Rightarrow> bool" where
  "selfmap s = (present (pmem s (frame_of (cr3 s) + 4092)) \<and>
                frame_of (pmem s (frame_of (cr3 s) + 4092)) = frame_of (cr3 s))"

definition pde_pa :: "'z pgmachine_scheme \<Rightarrow> addr \<Rightarrow> addr" where
  "pde_pa s va = frame_of (cr3 s) + PDE_IDX va * 4"

definition pte_pa :: "'z pgmachine_scheme \<Rightarrow> addr \<Rightarrow> addr" where
  "pte_pa s va = frame_of (pmem s (pde_pa s va)) + PTE_IDX va * 4"

lemma page_walk_pa:
  "page_walk s va =
     (if present (pmem s (pde_pa s va)) \<and> present (pmem s (pte_pa s va))
      then Some (frame_of (pmem s (pte_pa s va)) + (va AND 0x00000fff)) else None)"
  by (simp add: page_walk_def pde_pa_def pte_pa_def Let_def)

lemma walk_pde_ptr:
  assumes "selfmap s"
  shows "page_walk s (pde_ptr va) = Some (pde_pa s va)"
  using assms by (simp add: page_walk_def selfmap_def pde_ptr_fields pde_pa_def Let_def)

lemma walk_pte_ptr:
  assumes "selfmap s"
  shows "page_walk s (pte_ptr va) =
    (if present (pmem s (pde_pa s va)) then Some (pte_pa s va) else None)"
  using assms by (simp add: page_walk_def selfmap_def pte_ptr_fields pde_pa_def pte_pa_def Let_def)

lemma vread_pde:
  assumes "selfmap s"
  shows "vread (pde_ptr va) s = Inr (pmem s (pde_pa s va))"
    "vwrite (pde_ptr va) v s = Inr (pwr (pde_pa s va) v s)"
  by (simp_all add: vread_def vwrite_def walk_pde_ptr [OF assms])

lemma vread_pte:
  assumes "selfmap s" and "present (pmem s (pde_pa s va))"
  shows "vread (pte_ptr va) s = Inr (pmem s (pte_pa s va))"
    "vwrite (pte_ptr va) v s = Inr (pwr (pte_pa s va) v s)"
  using assms by (simp_all add: vread_def vwrite_def walk_pte_ptr)

lemma vread_pte_absent:
  assumes "selfmap s" and "\<not> present (pmem s (pde_pa s va))"
  shows "vread (pte_ptr va) s = Inl (PageFault (pte_ptr va))"
  using assms by (simp add: vread_def walk_pte_ptr)

text \<open>\<open>addr_v2p\<close> agrees with the walk of the MMU on every mapped address.\<close>

lemma addr_v2p_walk:
  assumes "selfmap s" and "page_walk s va = Some pa"
  shows "addr_v2p va s = Inr pa"
  using assms by (auto simp: addr_v2p_def vread_pte page_walk_pa frame_of_def split: if_splits)

lemma addr_v2p_fault:
  assumes "selfmap s" and "\<not> present (pmem s (pde_pa s va))"
  shows "addr_v2p va s = Inl (PageFault (pte_ptr va))"
  using assms by (simp add: addr_v2p_def vread_pte_absent)

lemma pwr_sel [simp]:
  "pmem (pwr a v s) = (pmem s)(a := v)" "cr3 (pwr a v s) = cr3 s"
  "mem (pwr a v s) = mem s" "bytes (pwr a v s) = bytes s" "eflags (pwr a v s) = eflags s"
  "pgmachine.more (pwr a v s) = pgmachine.more s"
  by (simp_all add: pwr_def)

lemma page_table_pte_remove_eq:
  assumes "selfmap s" and "present (pmem s (pde_pa s va))"
  shows "page_table_pte_remove va s = Inr (pwr (pte_pa s va) 0 s)"
  using assms by (simp add: page_table_pte_remove_def vread_pte PG_P_0_def)

end
