(* ===== verification/Stdio.thy ===== *)
theory Stdio
  imports Kstring
begin

text \<open>
  Formatted output of \<^verbatim>\<open>lib/stdio.c\<close>: \<open>itoa\<close> and \<open>vsprintf\<close> over byte memory.  The argument list is a
  pointer into word memory, as \<open>va_arg\<close> walks it; the format and the strings are in byte memory.  The
  loop over the format need not end, so it is a partial function; a panic is an \<open>Inl\<close> value of its
  result.

  \<open>render\<close> is what formatting means, on sequences of characters.  \<open>Fmt_Props\<close> shows that \<open>itoa\<close> writes the
  digits of the number and that \<open>vsprintf\<close> writes what \<open>render\<close> gives.
\<close>

section \<open>The operations\<close>

partial_function (option) itoa ::
  "u32 \<Rightarrow> addr \<Rightarrow> u8 \<Rightarrow> 'z machine_scheme \<Rightarrow> (addr \<times> 'z machine_scheme) option" where
  "itoa value buf_ptr base s =
     (if base = 0 then None
      else let m = value mod ucast base;
               i = value div ucast base
           in Option.bind (if i \<noteq> 0 then itoa i buf_ptr base s else Some (buf_ptr, s)) (\<lambda>(buf_ptr, s).
                Some (buf_ptr + 1,
                  wrb buf_ptr (if m < 10 then ucast (m + 48) else ucast (m - 10 + 65)) s)))"

text \<open>\<open>va_arg(ap, t)\<close>: the list pointer moves to the next word, which is the argument.\<close>

definition va_arg :: "addr \<Rightarrow> 'z machine_scheme \<Rightarrow> u32 \<times> addr" where
  "va_arg ap s = (mem s (ap + 4), ap + 4)"

text \<open>The three integer conversions.\<close>

definition fmt_int :: "u8 \<Rightarrow> u32 \<Rightarrow> addr \<Rightarrow> 'z machine_scheme \<Rightarrow> (addr \<times> 'z machine_scheme) option" where
  "fmt_int c arg_int buf_ptr s =
     (if c = 100 then
        (if sint arg_int < 0 then itoa (0 - arg_int) (buf_ptr + 1) 10 (wrb buf_ptr 45 s)
         else itoa arg_int buf_ptr 10 s)
      else if c = 117 then itoa arg_int buf_ptr 10 s
      else itoa arg_int buf_ptr 16 s)"

partial_function (option) vsprintf_loop ::
  "addr \<Rightarrow> addr \<Rightarrow> addr \<Rightarrow> 'z machine_scheme \<Rightarrow> (addr \<times> 'z machine_scheme) result option" where
  "vsprintf_loop buf_ptr index_ptr ap s =
     (let index_char = bytes s index_ptr
      in if index_char = 0 then Some (Inr (buf_ptr, s))
         else if index_char \<noteq> 37 then
           vsprintf_loop (buf_ptr + 1) (index_ptr + 1) ap (wrb buf_ptr index_char s)
         else
           let index_ptr = index_ptr + 1;
               index_char = bytes s index_ptr
           in if index_char = 115 then
                (case va_arg ap s of (arg_str, ap) \<Rightarrow>
                 case strcpy buf_ptr arg_str s of
                   Inl e \<Rightarrow> Some (Inl e)
                 | Inr (_, s) \<Rightarrow>
                   (case strlen arg_str s of
                      Inl e \<Rightarrow> Some (Inl e)
                    | Inr n \<Rightarrow> vsprintf_loop (buf_ptr + n) (index_ptr + 1) ap s))
              else if index_char = 99 then
                (case va_arg ap s of (arg, ap) \<Rightarrow>
                   vsprintf_loop (buf_ptr + 1) (index_ptr + 1) ap (wrb buf_ptr (ucast arg) s))
              else if index_char = 100 \<or> index_char = 117 \<or> index_char = 120 then
                (case va_arg ap s of (arg_int, ap) \<Rightarrow>
                 case fmt_int index_char arg_int buf_ptr s of
                   None \<Rightarrow> None
                 | Some (buf_ptr, s) \<Rightarrow> vsprintf_loop buf_ptr (index_ptr + 1) ap s)
              else if index_char = 111 \<or> index_char = 102 then
                Some (Inl (Panic ''kernel can't print float number''))
              else vsprintf_loop buf_ptr index_ptr ap s)"

definition vsprintf ::
  "addr \<Rightarrow> addr \<Rightarrow> addr \<Rightarrow> 'z machine_scheme \<Rightarrow> (u32 \<times> 'z machine_scheme) result" where
  "vsprintf str format ap s =
     bind_r (bind_r (loop_r (vsprintf_loop str format ap s)) (\<lambda>r. r)) (\<lambda>(_, s).
     bind_r (strlen str s) (\<lambda>n. Inr (n, s)))"

text \<open>\<open>va_start(args, format)\<close> points the list at the stack slot of \<open>format\<close>.\<close>

definition sprintf ::
  "addr \<Rightarrow> addr \<Rightarrow> addr \<Rightarrow> 'z machine_scheme \<Rightarrow> (u32 \<times> 'z machine_scheme) result" where
  "sprintf buf format format_slot s = vsprintf buf format format_slot s"

section \<open>What formatting means\<close>

fun digits :: "nat \<Rightarrow> nat \<Rightarrow> u8 list" where
  "digits base n =
     (if base < 2 \<or> n < base then [if n < 10 then of_nat (n + 48) else of_nat (n + 55)]
      else digits base (n div base) @
             [if n mod base < 10 then of_nat (n mod base + 48) else of_nat (n mod base + 55)])"

declare digits.simps [simp del]

definition conv :: "(addr \<Rightarrow> u8 list) \<Rightarrow> u8 \<Rightarrow> u32 \<Rightarrow> u8 list" where
  "conv strs c a =
     (if c = 115 then strs a
      else if c = 99 then [ucast a]
      else if c = 100 then (if sint a < 0 then 45 # digits 10 (unat (- a)) else digits 10 (unat a))
      else if c = 117 then digits 10 (unat a)
      else digits 16 (unat a))"

fun render :: "(addr \<Rightarrow> u8 list) \<Rightarrow> u8 list \<Rightarrow> u32 list \<Rightarrow> u8 list option" where
  "render strs [] args = Some []"
| "render strs (c # fmt) args =
     (if c \<noteq> 37 then map_option (Cons c) (render strs fmt args)
      else case fmt of
             [] \<Rightarrow> Some []
           | d # fmt' \<Rightarrow>
               if d = 115 \<or> d = 99 \<or> d = 100 \<or> d = 117 \<or> d = 120 then
                 (case args of
                    [] \<Rightarrow> None
                  | a # args' \<Rightarrow> map_option (append (conv strs d a)) (render strs fmt' args'))
               else if d = 111 \<or> d = 102 then None
               else render strs fmt args)"

text \<open>Characters of a literal.\<close>

definition newline :: string where
  "newline = [CHR 0x0A]"

definition bytes_of :: "string \<Rightarrow> u8 list" where
  "bytes_of str = map of_char str"

end
