(* ===== verification/Task.thy ===== *)
theory Task
  imports Queues Bitmap Paging Stdio
begin

text \<open>
  Tasks: the process control block of \<^verbatim>\<open>thread/thread.h\<close>, the kernel state the thread code works on,
  and the small operations below the scheduler: \<open>running_thread\<close>, \<open>process_active\<close> with
  \<open>page_dir_activate\<close> and \<open>update_tss_esp0\<close>, and \<open>switch_to\<close> as its C caller sees it.

  A PCB is one page.  Its scalar fields are the record \<open>task\<close>, kept in a typed heap \<open>tasks\<close> indexed by
  the address of the PCB; its two list nodes and its block descriptors are in word memory at the
  offsets of the C structure (\<open>general_tag\<close> at 36, \<open>all_list_tag\<close> at 44, \<open>u_block_desc\<close> at 68).
  Semaphores and locks are split the same way: their scalars in typed heaps, their lists of waiters in
  word memory.  The addresses of the kernel's global lists and locks are fields of the state that
  nothing changes.

  A thread that was switched away from is inside \<open>schedule\<close>, called from a known place.  What it still
  has to do when it runs again is its stack of frames, the innermost first.
\<close>

section \<open>The structures\<close>

type_synonym pid_t = "16 word"

datatype task_status =
    TASK_RUNNING
  | TASK_READY
  | TASK_BLOCKED
  | TASK_WAITING
  | TASK_HANGING
  | TASK_DIED

record virtual_addr =
  vaddr_bitmap :: bitmap
  vaddr_start :: addr

record task =
  self_kstack :: addr
  pid :: pid_t
  status :: task_status
  tname :: "u8 list"
  priority :: u8
  ticks :: u8
  elapsed_ticks :: u32
  pgdir :: addr
  userprog_vaddr :: virtual_addr
  stack_magic :: u32

text \<open>Where a thread continues when it runs again, or inside a call it has not finished.\<close>

datatype frame =
    F_start addr addr
  | F_iret u32
  | F_set_status intr_status
  | F_sema_down addr
  | F_sema_loop addr intr_status
  | F_lock addr
  | F_sema_up addr

record kernel = pgmachine +
  esp :: addr
  tasks :: "addr \<Rightarrow> task"
  sema_value :: "addr \<Rightarrow> u8"
  lock_holder :: "addr \<Rightarrow> addr"
  lock_repeat :: "addr \<Rightarrow> u32"
  thread_ready_list :: addr
  thread_all_list :: addr
  pid_lock :: addr
  console_lock :: addr
  idle_thread :: addr
  main_thread :: addr
  thread_tag :: addr
  next_pid :: pid_t
  total_ticks :: u32
  tss_esp0 :: addr
  screen :: "u8 list"
  frames :: "addr \<Rightarrow> frame list"

text \<open>Member addresses of the structures.\<close>

definition general_tag :: "addr \<Rightarrow> addr" where
  "general_tag pthread = pthread + 36"

definition all_list_tag :: "addr \<Rightarrow> addr" where
  "all_list_tag pthread = pthread + 44"

definition u_block_desc :: "addr \<Rightarrow> addr" where
  "u_block_desc pthread = pthread + 68"

definition waiters :: "addr \<Rightarrow> addr" where
  "waiters psema = psema + 4"

definition lock_semaphore :: "addr \<Rightarrow> addr" where
  "lock_semaphore plock = plock + 4"

section \<open>Updates of the typed heaps\<close>

definition upd_task :: "addr \<Rightarrow> (task \<Rightarrow> task) \<Rightarrow> 'z kernel_scheme \<Rightarrow> 'z kernel_scheme" where
  "upd_task t f s = s\<lparr>tasks := (tasks s)(t := f (tasks s t))\<rparr>"

definition set_status :: "addr \<Rightarrow> task_status \<Rightarrow> 'z kernel_scheme \<Rightarrow> 'z kernel_scheme" where
  "set_status t st = upd_task t (status_update (\<lambda>_. st))"

definition set_value :: "addr \<Rightarrow> u8 \<Rightarrow> 'z kernel_scheme \<Rightarrow> 'z kernel_scheme" where
  "set_value p v s = s\<lparr>sema_value := (sema_value s)(p := v)\<rparr>"

definition set_lock :: "addr \<Rightarrow> addr \<Rightarrow> u32 \<Rightarrow> 'z kernel_scheme \<Rightarrow> 'z kernel_scheme" where
  "set_lock l h n s =
     s\<lparr>lock_holder := (lock_holder s)(l := h), lock_repeat := (lock_repeat s)(l := n)\<rparr>"

section \<open>Operations\<close>

definition running_thread :: "'z kernel_scheme \<Rightarrow> addr" where
  "running_thread s = esp s AND 0xfffff000"

definition push_frames :: "frame list \<Rightarrow> 'z kernel_scheme \<Rightarrow> 'z kernel_scheme" where
  "push_frames fs s =
     s\<lparr>frames := (frames s)(running_thread s := fs @ frames s (running_thread s))\<rparr>"

definition page_dir_activate :: "addr \<Rightarrow> 'z kernel_scheme \<Rightarrow> 'z kernel_scheme result" where
  "page_dir_activate p_thread s =
     bind_r (if pgdir (tasks s p_thread) \<noteq> NULL then addr_v2p (pgdir (tasks s p_thread)) s
             else Inr 0x100000)
       (\<lambda>pagedir_phy_addr. Inr (s\<lparr>cr3 := pagedir_phy_addr\<rparr>))"

definition update_tss_esp0 :: "addr \<Rightarrow> 'z kernel_scheme \<Rightarrow> 'z kernel_scheme" where
  "update_tss_esp0 pthread s = s\<lparr>tss_esp0 := pthread + PG_SIZE\<rparr>"

definition process_active :: "addr \<Rightarrow> 'z kernel_scheme \<Rightarrow> 'z kernel_scheme result" where
  "process_active p_thread s =
     ASSERT (p_thread \<noteq> NULL) ''p_thread != NULL''
       (bind_r (page_dir_activate p_thread s) (\<lambda>s.
          Inr (if pgdir (tasks s p_thread) \<noteq> NULL then update_tss_esp0 p_thread s else s)))"

text \<open>
  \<open>switch_to\<close> as its C caller sees it: the stack pointer goes into the old PCB and comes from the new
  one.  The instructions themselves are in \<^verbatim>\<open>thread/switch.S\<close>.
\<close>

definition switch_to :: "addr \<Rightarrow> addr \<Rightarrow> 'z kernel_scheme \<Rightarrow> 'z kernel_scheme" where
  "switch_to cur nxt s =
     (let s = upd_task cur (self_kstack_update (\<lambda>_. esp s)) s
      in s\<lparr>esp := self_kstack (tasks s nxt)\<rparr>)"

lemmas task_upds = upd_task_def set_status_def set_value_def set_lock_def

end
