(* ===== verification/Sync.thy ===== *)
theory Sync
  imports Task
begin

text \<open>
  Synchronisation, the parts that never block: \<open>thread_unblock\<close> of \<^verbatim>\<open>thread/thread.c\<close>, the
  initialisers, \<open>sema_up\<close> and \<open>lock_release\<close> of \<^verbatim>\<open>thread/sync.c\<close>, and the console output of
  \<^verbatim>\<open>device/console.c\<close> and \<^verbatim>\<open>lib/kernel/stdio-kernel.c\<close>.

  \<open>lock_acquire\<close> and \<open>lock_release\<close> come in two pieces, the code before and after the semaphore
  operation, because a timer interrupt can fall in between; \<open>lock_acquire_now\<close> runs the pieces straight
  through and gives \<open>WouldBlock\<close> where \<open>sema_down\<close> would put the thread to sleep.
\<close>

section \<open>The operations\<close>

definition is_blocked :: "task_status \<Rightarrow> bool" where
  "is_blocked st = (st = TASK_BLOCKED \<or> st = TASK_WAITING \<or> st = TASK_HANGING)"

text \<open>The statement \<open>ASSERT(!elem_find(plist, elem)); rest\<close>.\<close>

definition assert_absent :: "addr \<Rightarrow> addr \<Rightarrow> 'z machine_scheme \<Rightarrow> 'a result \<Rightarrow> 'a result" where
  "assert_absent plist elem s rest =
     bind_r (loop_r (elem_find plist elem s)) (\<lambda>found. ASSERT (\<not> found) ''!elem_find'' rest)"

definition thread_unblock :: "addr \<Rightarrow> 'z kernel_scheme \<Rightarrow> 'z kernel_scheme result" where
  "thread_unblock pthread s =
     (if pthread = NULL then Inl NullDeref
      else
        let (old_status, s) = intr_disable s
        in ASSERT (is_blocked (status (tasks s pthread))) ''thread_unblock''
          (if status (tasks s pthread) \<noteq> TASK_READY then
             assert_absent (thread_ready_list s) (general_tag pthread) s
               (let s = list_push (thread_ready_list s) (general_tag pthread) s;
                    s = set_status pthread TASK_READY s
                in Inr (snd (intr_set_status old_status s)))
           else Inr (snd (intr_set_status old_status s))))"

definition sema_init :: "addr \<Rightarrow> u8 \<Rightarrow> 'z kernel_scheme \<Rightarrow> 'z kernel_scheme" where
  "sema_init psema value s = list_init (waiters psema) (set_value psema value s)"

definition lock_init :: "addr \<Rightarrow> 'z kernel_scheme \<Rightarrow> 'z kernel_scheme" where
  "lock_init plock s = sema_init (lock_semaphore plock) 1 (set_lock plock NULL 0 s)"

text \<open>The body of \<open>sema_up\<close>'s \<open>if\<close>: the first waiter is taken off the list and woken.\<close>

definition sema_wake :: "addr \<Rightarrow> 'z kernel_scheme \<Rightarrow> 'z kernel_scheme result" where
  "sema_wake psema s =
     (if \<not> list_empty (waiters psema) s
      then let (elem, s) = list_pop (waiters psema) s
           in thread_unblock (elem2entry 36 elem) s
      else Inr s)"

definition sema_up :: "addr \<Rightarrow> 'z kernel_scheme \<Rightarrow> 'z kernel_scheme result" where
  "sema_up psema s =
     (let (old_status, s) = intr_disable s
      in ASSERT (sema_value s psema = 0) ''psema->value == 0''
        (bind_r (sema_wake psema s)
          (\<lambda>s. let s = set_value psema (sema_value s psema + 1) s
               in ASSERT (sema_value s psema = 1) ''psema->value == 1''
                    (Inr (snd (intr_set_status old_status s))))))"

text \<open>\<open>lock_release\<close> up to the call of \<open>sema_up\<close>; the flag says whether that call follows.\<close>

definition lock_release_enter :: "addr \<Rightarrow> 'z kernel_scheme \<Rightarrow> (bool \<times> 'z kernel_scheme) result" where
  "lock_release_enter plock s =
     ASSERT (lock_holder s plock = running_thread s) ''plock->holder == running_thread()''
       (if lock_repeat s plock > 1
        then Inr (False, set_lock plock (lock_holder s plock) (lock_repeat s plock - 1) s)
        else ASSERT (lock_repeat s plock = 1) ''plock->holder_repeat_nr == 1''
               (Inr (True, set_lock plock NULL 0 s)))"

definition lock_release :: "addr \<Rightarrow> 'z kernel_scheme \<Rightarrow> 'z kernel_scheme result" where
  "lock_release plock s =
     bind_r (lock_release_enter plock s) (\<lambda>(up, s).
       if up then sema_up (lock_semaphore plock) s else Inr s)"

text \<open>\<open>lock_acquire\<close> up to the call of \<open>sema_down\<close>, and after it.\<close>

definition lock_acquire_enter :: "addr \<Rightarrow> 'z kernel_scheme \<Rightarrow> bool \<times> 'z kernel_scheme" where
  "lock_acquire_enter plock s =
     (if lock_holder s plock \<noteq> running_thread s then (True, s)
      else (False, set_lock plock (lock_holder s plock) (lock_repeat s plock + 1) s))"

definition lock_acquire_tail :: "addr \<Rightarrow> 'z kernel_scheme \<Rightarrow> 'z kernel_scheme result" where
  "lock_acquire_tail plock s =
     ASSERT (lock_repeat s plock = 0) ''plock->holder_repeat_nr == 0''
       (Inr (set_lock plock (running_thread s) 1 s))"

text \<open>The end of \<open>sema_down\<close>, once the value is not zero.\<close>

definition sema_take :: "addr \<Rightarrow> intr_status \<Rightarrow> 'z kernel_scheme \<Rightarrow> 'z kernel_scheme result" where
  "sema_take psema old_status s =
     (let s = set_value psema (sema_value s psema - 1) s
      in ASSERT (sema_value s psema = 0) ''psema->value == 0''
           (Inr (snd (intr_set_status old_status s))))"

definition sema_down_now :: "addr \<Rightarrow> 'z kernel_scheme \<Rightarrow> 'z kernel_scheme result" where
  "sema_down_now psema s =
     (let (old_status, s) = intr_disable s
      in if sema_value s psema = 0 then Inl (WouldBlock psema) else sema_take psema old_status s)"

definition lock_acquire_now :: "addr \<Rightarrow> 'z kernel_scheme \<Rightarrow> 'z kernel_scheme result" where
  "lock_acquire_now plock s =
     (let (down, s) = lock_acquire_enter plock s
      in if down
         then bind_r (sema_down_now (lock_semaphore plock) s) (lock_acquire_tail plock)
         else Inr s)"

section \<open>Console output\<close>

definition put_str :: "u8 list \<Rightarrow> 'z kernel_scheme \<Rightarrow> 'z kernel_scheme" where
  "put_str str s = s\<lparr>screen := screen s @ str\<rparr>"

abbreviation put_line :: "string \<Rightarrow> 'z kernel_scheme \<Rightarrow> 'z kernel_scheme" where
  "put_line msg \<equiv> put_str (bytes_of (msg @ newline))"

definition put_char :: "u8 \<Rightarrow> 'z kernel_scheme \<Rightarrow> 'z kernel_scheme" where
  "put_char char_asci s = s\<lparr>screen := screen s @ [char_asci]\<rparr>"

text \<open>The digits of \<open>put_int\<close>: base 16, capital letters, no leading zeros.\<close>

definition hex_digit :: "u32 \<Rightarrow> u8" where
  "hex_digit d = (if d > 9 then ucast (d - 10 + 65) else ucast (d + 48))"

fun hex_fill :: "nat \<Rightarrow> u32 \<Rightarrow> u8 list \<Rightarrow> u8 list" where
  "hex_fill 0 eax acc = acc"
| "hex_fill (Suc ecx) eax acc = hex_fill ecx (drop_bit 4 eax) (hex_digit (eax AND 0xf) # acc)"

definition put_int :: "u32 \<Rightarrow> 'z kernel_scheme \<Rightarrow> 'z kernel_scheme" where
  "put_int num s =
     (let put_int_buffer = hex_fill 8 num []; rest = dropWhile (\<lambda>c. c = 48) put_int_buffer
      in put_str (if rest = [] then [48] else rest) s)"

definition console_init :: "'z kernel_scheme \<Rightarrow> 'z kernel_scheme" where
  "console_init s = lock_init (console_lock s) s"

definition console_acquire :: "'z kernel_scheme \<Rightarrow> 'z kernel_scheme result" where
  "console_acquire s = lock_acquire_now (console_lock s) s"

definition console_release :: "'z kernel_scheme \<Rightarrow> 'z kernel_scheme result" where
  "console_release s = lock_release (console_lock s) s"

definition console_put_str :: "u8 list \<Rightarrow> 'z kernel_scheme \<Rightarrow> 'z kernel_scheme result" where
  "console_put_str str s =
     bind_r (console_acquire s) (\<lambda>s. console_release (put_str str s))"

definition console_put_char :: "u8 \<Rightarrow> 'z kernel_scheme \<Rightarrow> 'z kernel_scheme result" where
  "console_put_char char_ascii s =
     bind_r (console_acquire s) (\<lambda>s. console_release (put_char char_ascii s))"

definition console_put_int :: "u32 \<Rightarrow> 'z kernel_scheme \<Rightarrow> 'z kernel_scheme result" where
  "console_put_int num s =
     bind_r (console_acquire s) (\<lambda>s. console_release (put_int num s))"

text \<open>\<open>printk\<close> formats into a local buffer of zeros and prints it.\<close>

definition printk :: "string \<Rightarrow> (addr \<Rightarrow> u8 list) \<Rightarrow> u32 list \<Rightarrow> 'z kernel_scheme \<Rightarrow> 'z kernel_scheme result" where
  "printk format strs args s =
     (case render strs (bytes_of format) args of
        None \<Rightarrow> Inl (Panic ''kernel can't print float number'')
      | Some buf \<Rightarrow> console_put_str buf s)"

end
