(* ===== verification/Memory.thy ===== *)
theory Memory
  imports Sync
begin

text \<open>
  Page allocation of \<^verbatim>\<open>kernel/memory.c\<close>: the two physical pools, the virtual address pools, and the
  operations that map and unmap pages.  Bitmaps are in byte memory, page tables in physical memory
  behind the walk of \<open>Paging\<close>, so that every access to an entry of an absent table faults.

  The contents of mapped pages are the virtual views \<open>mem\<close> and \<open>bytes\<close>.  \<open>memset_mem\<close> is \<open>memset\<close> on
  such pages: it faults when a page it touches is not mapped, and otherwise fills both views and the physical words
  behind them.  Locks
  are taken with \<open>lock_acquire_now\<close>, so that a contended pool lock is the value \<open>WouldBlock\<close>.
\<close>

section \<open>State\<close>

datatype pool_flags = PF_KERNEL | PF_USER

record pool =
  pool_bitmap :: bitmap
  phy_addr_start :: addr
  pool_size :: u32
  pool_lock :: addr

record kmem = kernel +
  kernel_pool :: pool
  user_pool :: pool
  kernel_vaddr :: virtual_addr
  k_block_descs :: addr

definition MEM_BITMAP_BASE :: addr where "MEM_BITMAP_BASE = 0xc009a000"
definition K_HEAP_STACK :: addr where "K_HEAP_STACK = 0xc0100000"

section \<open>Initialisation of the pools\<close>

text \<open>The messages of \<open>mem_pool_init\<close> on where the pools are.\<close>

definition mem_pool_report :: "'z kmem_scheme \<Rightarrow> 'z kmem_scheme" where
  "mem_pool_report s =
     (let s = put_str (bytes_of ''       kernel_pool_bitmap_start:'') s;
          s = put_int (bits (pool_bitmap (kernel_pool s))) s;
          s = put_str (bytes_of ''   kernel_pool_phy_addr_start:'') s;
          s = put_int (phy_addr_start (kernel_pool s)) s;
          s = put_char 10 s;
          s = put_str (bytes_of ''       user_pool_bitmap_start:'') s;
          s = put_int (bits (pool_bitmap (user_pool s))) s;
          s = put_str (bytes_of ''   user_pool_phy_addr_start:'') s;
          s = put_int (phy_addr_start (user_pool s)) s
      in put_char 10 s)"

definition mem_pool_init :: "u32 \<Rightarrow> 'z kmem_scheme \<Rightarrow> 'z kmem_scheme result" where
  "mem_pool_init all_mem s =
     (let s = put_line ''   mem_pool_init start'' s;
          page_table_size = PG_SIZE * 256;
          used_mem = page_table_size + 0x100000;
          free_mem = all_mem - used_mem;
          all_free_pages = (ucast (free_mem div PG_SIZE) :: u16);
          kernel_free_pages = all_free_pages div 2;
          user_free_pages = all_free_pages - kernel_free_pages;
          kbm_length = (ucast (kernel_free_pages div 8) :: u32);
          ubm_length = (ucast (user_free_pages div 8) :: u32);
          kp_start = used_mem;
          up_start = used_mem + ucast kernel_free_pages * PG_SIZE;
          s = s\<lparr>kernel_pool := \<lparr>pool_bitmap = \<lparr>btmp_bytes_len = kbm_length, bits = MEM_BITMAP_BASE\<rparr>,
                   phy_addr_start = kp_start, pool_size = ucast kernel_free_pages * PG_SIZE,
                   pool_lock = pool_lock (kernel_pool s)\<rparr>,
                 user_pool := \<lparr>pool_bitmap = \<lparr>btmp_bytes_len = ubm_length, bits = MEM_BITMAP_BASE + kbm_length\<rparr>,
                   phy_addr_start = up_start, pool_size = ucast user_free_pages * PG_SIZE,
                   pool_lock = pool_lock (user_pool s)\<rparr>\<rparr>;
          s = mem_pool_report s
      in bind_r (bitmap_init (pool_bitmap (kernel_pool s)) s) (\<lambda>s.
         bind_r (bitmap_init (pool_bitmap (user_pool s)) s) (\<lambda>s.
         let s = s\<lparr>kernel_vaddr := \<lparr>vaddr_bitmap = \<lparr>btmp_bytes_len = kbm_length,
                       bits = MEM_BITMAP_BASE + kbm_length + ubm_length\<rparr>,
                     vaddr_start = K_HEAP_STACK\<rparr>\<rparr>
         in bind_r (bitmap_init (vaddr_bitmap (kernel_vaddr s)) s) (\<lambda>s.
              Inr (put_line ''   mem_pool_init done'' s)))))"

section \<open>Virtual addresses\<close>

text \<open>\<open>while(cnt < pg_cnt) bitmap_set(btmp, bit_idx_start + cnt++, value)\<close>\<close>

fun set_bits :: "bitmap \<Rightarrow> u32 \<Rightarrow> nat \<Rightarrow> u8 \<Rightarrow> 'z machine_scheme \<Rightarrow> 'z machine_scheme result" where
  "set_bits btmp bit_idx 0 value s = Inr s"
| "set_bits btmp bit_idx (Suc n) value s =
     bind_r (bitmap_set btmp bit_idx value s) (set_bits btmp (bit_idx + 1) n value)"

definition vaddr_get :: "pool_flags \<Rightarrow> u32 \<Rightarrow> 'z kmem_scheme \<Rightarrow> (addr \<times> 'z kmem_scheme) result" where
  "vaddr_get pf pg_cnt s =
     (if pf = PF_KERNEL then
        bind_r (bitmap_scan (vaddr_bitmap (kernel_vaddr s)) pg_cnt s) (\<lambda>bit_idx_start.
          if bit_idx_start = -1 then Inr (NULL, s)
          else bind_r (set_bits (vaddr_bitmap (kernel_vaddr s)) bit_idx_start (unat pg_cnt) 1 s) (\<lambda>s.
            Inr (vaddr_start (kernel_vaddr s) + bit_idx_start * PG_SIZE, s)))
      else
        let cur = running_thread s;
            va = userprog_vaddr (tasks s cur)
        in bind_r (bitmap_scan (vaddr_bitmap va) pg_cnt s) (\<lambda>bit_idx_start.
          if bit_idx_start = -1 then Inr (NULL, s)
          else bind_r (set_bits (vaddr_bitmap va) bit_idx_start (unat pg_cnt) 1 s) (\<lambda>s.
            let vaddr = vaddr_start va + bit_idx_start * PG_SIZE
            in ASSERT (vaddr < 0xc0000000 - PG_SIZE) ''vaddr_start < (0xc0000000 - PG_SIZE)''
                 (Inr (vaddr, s)))))"

section \<open>Physical pages and page tables\<close>

definition palloc :: "pool \<Rightarrow> 'z kmem_scheme \<Rightarrow> (addr \<times> 'z kmem_scheme) result" where
  "palloc m_pool s =
     bind_r (bitmap_scan (pool_bitmap m_pool) 1 s) (\<lambda>bit_idx.
       if bit_idx = -1 then Inr (NULL, s)
       else bind_r (bitmap_set (pool_bitmap m_pool) bit_idx 1 s) (\<lambda>s.
         Inr (bit_idx * PG_SIZE + phy_addr_start m_pool, s)))"

text \<open>\<open>memset\<close> of one page through the MMU, as 1024 words.\<close>

fun vfill :: "nat \<Rightarrow> addr \<Rightarrow> u32 \<Rightarrow> 'z pgmachine_scheme \<Rightarrow> 'z pgmachine_scheme result" where
  "vfill 0 va v s = Inr s"
| "vfill (Suc n) va v s = bind_r (vwrite va v s) (vfill n (va + 4) v)"

definition page_table_add :: "addr \<Rightarrow> addr \<Rightarrow> 'z kmem_scheme \<Rightarrow> 'z kmem_scheme result" where
  "page_table_add vaddr page_phyaddr s =
     (let pte = pte_ptr vaddr;
          pde = pde_ptr vaddr;
          entry = page_phyaddr OR PG_US_U OR PG_RW_W OR PG_P_1
      in bind_r (vread pde s) (\<lambda>pde_val.
         if present pde_val then
           bind_r (vread pte s) (\<lambda>pte_val.
             ASSERT (\<not> present pte_val) ''!(*pte & 0x00000001)'' (vwrite pte entry s))
         else
           bind_r (palloc (kernel_pool s) s) (\<lambda>(pde_phyaddr, s).
           bind_r (vwrite pde (pde_phyaddr OR PG_US_U OR PG_RW_W OR PG_P_1) s) (\<lambda>s.
           bind_r (vfill 1024 (pte AND 0xfffff000) 0 s) (\<lambda>s.
           bind_r (vread pte s) (\<lambda>pte_val.
             ASSERT (\<not> present pte_val) ''!(*pte & 0x00000001)'' (vwrite pte entry s)))))))"

fun map_pages :: "pool_flags \<Rightarrow> nat \<Rightarrow> addr \<Rightarrow> 'z kmem_scheme \<Rightarrow> (bool \<times> 'z kmem_scheme) result" where
  "map_pages pf 0 vaddr s = Inr (True, s)"
| "map_pages pf (Suc cnt) vaddr s =
     bind_r (palloc (if pf = PF_KERNEL then kernel_pool s else user_pool s) s) (\<lambda>(page_phyaddr, s).
       if page_phyaddr = NULL then Inr (False, s)
       else bind_r (page_table_add vaddr page_phyaddr s) (map_pages pf cnt (vaddr + PG_SIZE)))"

definition malloc_pages :: "pool_flags \<Rightarrow> u32 \<Rightarrow> 'z kmem_scheme \<Rightarrow> (addr \<times> 'z kmem_scheme) result" where
  "malloc_pages pf pg_cnt s =
     ASSERT (pg_cnt > 0 \<and> pg_cnt < 57600) ''pg_cnt > 0 && pg_cnt < 57600''
       (bind_r (vaddr_get pf pg_cnt s) (\<lambda>(vaddr_start, s).
          if vaddr_start = NULL then Inr (NULL, s)
          else bind_r (map_pages pf (unat pg_cnt) vaddr_start s) (\<lambda>(ok, s).
            Inr (if ok then vaddr_start else NULL, s))))"

section \<open>Contents of mapped pages\<close>

definition touched :: "addr \<Rightarrow> u32 \<Rightarrow> addr list" where
  "touched a n =
     (if n = 0 then [] else map (\<lambda>i. a + of_nat (i * 4096)) [0..<(unat n + 4095) div 4096] @ [a + n - 1])"

fun fill_words :: "'z pgmachine_scheme \<Rightarrow> addr \<Rightarrow> u32 \<Rightarrow> nat \<Rightarrow> addr \<Rightarrow> u32" where
  "fill_words s dst w 0 = pmem s"
| "fill_words s dst w (Suc i) =
     (case page_walk s (dst + of_nat (i * 4)) of
        None \<Rightarrow> fill_words s dst w i
      | Some pa \<Rightarrow> (fill_words s dst w i)(pa := w))"

definition memset_mem :: "addr \<Rightarrow> u8 \<Rightarrow> u32 \<Rightarrow> 'z pgmachine_scheme \<Rightarrow> 'z pgmachine_scheme result" where
  "memset_mem dst value n s =
     ASSERT (dst \<noteq> NULL) ''dst_ != NULL''
       (case find (\<lambda>a. page_walk s a = None) (touched dst n) of
          Some a \<Rightarrow> Inl (PageFault a)
        | None \<Rightarrow> Inr (s\<lparr>mem := (\<lambda>x. if in_block dst (unat n) x then ucast value * 0x01010101 else mem s x),
                       bytes := (\<lambda>x. if in_block dst (unat n) x then value else bytes s x),
                       pmem := fill_words s dst (ucast value * 0x01010101) (unat n div 4)\<rparr>))"

definition get_kernel_pages :: "u32 \<Rightarrow> 'z kmem_scheme \<Rightarrow> (addr \<times> 'z kmem_scheme) result" where
  "get_kernel_pages pg_cnt s =
     bind_r (malloc_pages PF_KERNEL pg_cnt s) (\<lambda>(vaddr, s).
       if vaddr \<noteq> NULL
       then bind_r (memset_mem vaddr 0 (pg_cnt * PG_SIZE) s) (\<lambda>s. Inr (vaddr, s))
       else Inr (vaddr, s))"

definition get_user_pages :: "u32 \<Rightarrow> 'z kmem_scheme \<Rightarrow> (addr \<times> 'z kmem_scheme) result" where
  "get_user_pages pg_cnt s =
     bind_r (lock_acquire_now (pool_lock (user_pool s)) s) (\<lambda>s.
     bind_r (malloc_pages PF_USER pg_cnt s) (\<lambda>(vaddr, s).
     bind_r (memset_mem vaddr 0 (pg_cnt * PG_SIZE) s) (\<lambda>s.
     bind_r (lock_release (pool_lock (user_pool s)) s) (\<lambda>s.
     Inr (vaddr, s)))))"

definition get_a_page :: "pool_flags \<Rightarrow> addr \<Rightarrow> 'z kmem_scheme \<Rightarrow> (addr \<times> 'z kmem_scheme) result" where
  "get_a_page pf vaddr s =
     (let mem_pool = (\<lambda>s. if pf = PF_KERNEL then kernel_pool s else user_pool s)
      in bind_r (lock_acquire_now (pool_lock (mem_pool s)) s) (\<lambda>s.
         let cur = running_thread s;
             va = userprog_vaddr (tasks s cur)
         in bind_r
           (if pgdir (tasks s cur) \<noteq> NULL \<and> pf = PF_USER then
              let bit_idx = (vaddr - vaddr_start va) div PG_SIZE
              in ASSERT (0 < sint bit_idx) ''bit_idx > 0'' (bitmap_set (vaddr_bitmap va) bit_idx 1 s)
            else if pgdir (tasks s cur) = NULL \<and> pf = PF_KERNEL then
              let bit_idx = (vaddr - vaddr_start (kernel_vaddr s)) div PG_SIZE
              in ASSERT (0 < sint bit_idx) ''bit_idx > 0''
                   (bitmap_set (vaddr_bitmap (kernel_vaddr s)) bit_idx 1 s)
            else Inl (Panic ''get_a_page:not allow kernel alloc userspace or user alloc kernelspace by get_a_page.''))
           (\<lambda>s. bind_r (palloc (mem_pool s) s) (\<lambda>(page_phyaddr, s).
              if page_phyaddr = NULL then Inr (NULL, s)
              else bind_r (page_table_add vaddr page_phyaddr s) (\<lambda>s.
                   bind_r (lock_release (pool_lock (mem_pool s)) s) (\<lambda>s. Inr (vaddr, s)))))))"

section \<open>Giving pages back\<close>

definition pfree :: "addr \<Rightarrow> 'z kmem_scheme \<Rightarrow> 'z kmem_scheme result" where
  "pfree pg_phy_addr s =
     (if pg_phy_addr \<ge> phy_addr_start (user_pool s)
      then bitmap_set (pool_bitmap (user_pool s)) ((pg_phy_addr - phy_addr_start (user_pool s)) div PG_SIZE) 0 s
      else bitmap_set (pool_bitmap (kernel_pool s)) ((pg_phy_addr - phy_addr_start (kernel_pool s)) div PG_SIZE) 0 s)"

definition vaddr_remove :: "pool_flags \<Rightarrow> addr \<Rightarrow> u32 \<Rightarrow> 'z kmem_scheme \<Rightarrow> 'z kmem_scheme result" where
  "vaddr_remove pf vaddr pg_cnt s =
     (let va = (if pf = PF_KERNEL then kernel_vaddr s else userprog_vaddr (tasks s (running_thread s)))
      in set_bits (vaddr_bitmap va) ((vaddr - vaddr_start va) div PG_SIZE) (unat pg_cnt) 0 s)"

fun free_pages :: "bool \<Rightarrow> nat \<Rightarrow> addr \<Rightarrow> 'z kmem_scheme \<Rightarrow> 'z kmem_scheme result" where
  "free_pages user 0 vaddr s = Inr s"
| "free_pages user (Suc cnt) vaddr s =
     bind_r (addr_v2p vaddr s) (\<lambda>pg_phy_addr.
       ASSERT (pg_phy_addr mod PG_SIZE = 0 \<and>
               (if user then pg_phy_addr > phy_addr_start (user_pool s)
                else pg_phy_addr \<ge> phy_addr_start (kernel_pool s) \<and> pg_phy_addr < phy_addr_start (user_pool s)))
         ''pg_phy_addr''
         (bind_r (pfree pg_phy_addr s) (\<lambda>s.
          bind_r (page_table_pte_remove vaddr s) (free_pages user cnt (vaddr + PG_SIZE)))))"

definition mfree_page :: "pool_flags \<Rightarrow> addr \<Rightarrow> u32 \<Rightarrow> 'z kmem_scheme \<Rightarrow> 'z kmem_scheme result" where
  "mfree_page pf vaddr pg_cnt s =
     ASSERT (pg_cnt \<ge> 1 \<and> vaddr mod PG_SIZE = 0) ''pg_cnt >= 1 && vaddr % PG_SIZE == 0''
       (bind_r (addr_v2p vaddr s) (\<lambda>pg_phy_addr.
          ASSERT (pg_phy_addr mod PG_SIZE = 0 \<and> pg_phy_addr \<ge> 0x102000) ''pg_phy_addr >= 0x102000''
            (bind_r (free_pages (pg_phy_addr \<ge> phy_addr_start (user_pool s)) (unat pg_cnt) vaddr s)
               (vaddr_remove pf vaddr pg_cnt))))"

end
