(* ===== verification/Mem_Inv.thy ===== *)
theory Mem_Inv
  imports Memory
begin

text \<open>
  The invariant of the page allocator and what each operation does under it.

  Physical memory is split three ways: the page directory and the page tables (\<open>tables\<close>), the frames
  that translated addresses lead to (\<open>data\<close>), and the frames a pool still has to give (\<open>free_frames\<close>).
  \<open>mm_inv\<close> says that these never overlap, that distinct page-table slots lead to distinct pool frames,
  and that the directory maps itself, which is how the code reaches the tables.
\<close>

section \<open>Frames of a pool\<close>

definition frame_at :: "pool \<Rightarrow> nat \<Rightarrow> addr" where
  "frame_at p i = of_nat i * PG_SIZE + phy_addr_start p"

definition pool_ok :: "pool \<Rightarrow> bool" where
  "pool_ok p = (bm_ok (pool_bitmap p) \<and> 0 < unat (phy_addr_start p) \<and> frame_of (phy_addr_start p) = phy_addr_start p \<and>
     unat (phy_addr_start p) + bm_bits (pool_bitmap p) * 4096 \<le> 2 ^ 32)"

definition pool_frames :: "pool \<Rightarrow> addr set" where
  "pool_frames p = frame_at p ` {..<bm_bits (pool_bitmap p)}"

definition free_frames :: "'z machine_scheme \<Rightarrow> pool \<Rightarrow> addr set" where
  "free_frames s p = frame_at p ` bm.free_slots s (pool_bitmap p)"

lemma unat_frame_at:
  assumes "pool_ok p" and "i < bm_bits (pool_bitmap p)"
  shows "unat (frame_at p i) = i * 4096 + unat (phy_addr_start p)"
proof -
  have b: "i * 4096 + unat (phy_addr_start p) < 2 ^ 32" using assms by (auto simp: pool_ok_def)
  then have "unat (of_nat i * PG_SIZE) = i * 4096"
    by (simp add: PG_SIZE_def unat_word_ariths(2) unat_of_nat take_bit_nat_eq_self_iff)
  with b show ?thesis unfolding frame_at_def by (subst unat_add_lt) simp_all
qed

lemma frame_at_inj:
  assumes "pool_ok p" and "i < bm_bits (pool_bitmap p)" and "j < bm_bits (pool_bitmap p)"
    and "frame_at p i = frame_at p j"
  shows "i = j"
proof -
  have "i * 4096 + unat (phy_addr_start p) = j * 4096 + unat (phy_addr_start p)"
    unfolding unat_frame_at [OF assms(1,2), symmetric] unat_frame_at [OF assms(1,3), symmetric]
    by (rule arg_cong [OF assms(4)])
  then show ?thesis by simp
qed

lemma free_slots_lt: "i \<in> bm.free_slots s b \<Longrightarrow> i < bm_bits b"
  by (simp add: bm.free_slots_def)

lemma frame_of_eq: "frame_of x = x \<longleftrightarrow> unat x mod 4096 = 0"
proof
  assume "frame_of x = x"
  then have "unat x = unat x div 4096 * 4096" using unat_frame_of [of x] by simp
  then show "unat x mod 4096 = 0" by (metis mod_mult_self2_is_0)
next
  assume "unat x mod 4096 = 0"
  then have "unat (frame_of x) = unat x" unfolding unat_frame_of by (simp add: mod_0_imp_dvd)
  then show "frame_of x = x" by (rule unat_eqI)
qed

lemma frame_of_idem [simp]: "frame_of (frame_of x) = frame_of x"
  by (simp add: frame_of_eq unat_frame_of)

lemma frame_of_frame_at:
  assumes "pool_ok p" and "i < bm_bits (pool_bitmap p)"
  shows "frame_of (frame_at p i) = frame_at p i"
  using assms by (simp add: frame_of_eq unat_frame_at pool_ok_def)

lemma frame_at_nonzero:
  assumes "pool_ok p" and "i < bm_bits (pool_bitmap p)"
  shows "frame_at p i \<noteq> NULL"
  using unat_frame_at [OF assms] assms(1) by (auto simp: pool_ok_def)

lemma free_frames_pool: "free_frames s p \<subseteq> pool_frames p"
  by (auto simp: free_frames_def pool_frames_def dest: free_slots_lt)

lemma finite_free_frames [simp]: "finite (free_frames s p)"
  by (simp add: free_frames_def bm.finite_free_slots)

lemma free_frames_image_diff:
  assumes "pool_ok p" and "i \<in> bm.free_slots s (pool_bitmap p)"
  shows "frame_at p ` (bm.free_slots s (pool_bitmap p) - {i}) = free_frames s p - {frame_at p i}"
  using assms by (auto simp: free_frames_def dest: frame_at_inj [rotated 3] free_slots_lt)

lemma bitmap_set_bytes:
  fixes s :: "'z machine_scheme"
  assumes "bitmap_set b i v s = Inr s'"
  shows "s' = s\<lparr>bytes := bytes s'\<rparr>"
  using assms by (auto simp: bitmap_set_def Let_def ASSERT_eq_Inr wrb_def split: if_splits)

lemma free_slots_other:
  assumes "bitmap_set b i v s = Inr s'" and "unat i < bm_bits b" and "bm_disjoint b c"
  shows "bm.free_slots s' c = bm.free_slots s c"
  using bitmap_set_other [OF assms] by (auto simp: bm.free_slots_def)

lemma palloc_take:
  assumes ok: "pool_ok p" and ne: "free_frames s p \<noteq> {}"
  shows "\<exists>F s'. palloc p s = Inr (F, s') \<and> F \<in> free_frames s p \<and> free_frames s' p = free_frames s p - {F} \<and>
    F \<noteq> NULL \<and> frame_of F = F \<and> s' = s\<lparr>bytes := bytes s'\<rparr> \<and>
    (\<forall>c. bm_disjoint (pool_bitmap p) c \<longrightarrow> bm.free_slots s' c = bm.free_slots s c)"
proof -
  let ?b = "pool_bitmap p"
  have bok: "bm_ok ?b" using ok by (simp add: pool_ok_def)
  have "bm.free_slots s ?b \<noteq> {}" using ne by (simp add: free_frames_def)
  from bm.take_slot [OF bok this] obtain i s' where i: "bm_scan1 ?b s = Inr i" "i \<noteq> -1"
    "bm_mark ?b i True s = Inr s'" "unat i \<in> bm.free_slots s ?b"
    "bm.free_slots s' ?b = bm.free_slots s ?b - {unat i}" by blast
  have set: "bitmap_set ?b i 1 s = Inr s'" using i(3) by (simp add: bm_mark_def)
  note lt = free_slots_lt [OF i(4)]
  have run: "palloc p s = Inr (frame_at p (unat i), s')"
    using i(1,2) set by (simp add: palloc_def bm_scan1_def frame_at_def)
  have "free_frames s' p = free_frames s p - {frame_at p (unat i)}"
    using free_frames_image_diff [OF ok i(4)] by (simp add: free_frames_def i(5))
  moreover have "frame_at p (unat i) \<in> free_frames s p" using i(4) by (simp add: free_frames_def)
  ultimately show ?thesis
    using run frame_at_nonzero [OF ok lt] frame_of_frame_at [OF ok lt] bitmap_set_bytes [OF set]
      free_slots_other [OF set lt] by blast
qed

lemma palloc_full:
  assumes "pool_ok p" and "free_frames s p = {}"
  shows "palloc p s = Inr (NULL, s)"
proof -
  have "bm_ok (pool_bitmap p)" and "\<forall>i<bm_bits (pool_bitmap p). used s (pool_bitmap p) i"
    using assms by (auto simp: pool_ok_def free_frames_def bm.free_slots_def)
  then show ?thesis using bm.scan_full [of "pool_bitmap p" s] by (simp add: palloc_def bm_scan1_def)
qed

section \<open>Entries and tables\<close>

lemma pte_entry:
  assumes "frame_of phy = phy"
  shows "frame_of (phy OR PG_US_U OR PG_RW_W OR PG_P_1) = phy" "present (phy OR PG_US_U OR PG_RW_W OR PG_P_1)"
proof -
  have m: "PG_US_U OR PG_RW_W OR PG_P_1 = mask 3"
    by (simp add: PG_US_U_def PG_RW_W_def PG_P_1_def mask_eq_exp_minus_1)
  have "frame_of (phy OR PG_US_U OR PG_RW_W OR PG_P_1) = frame_of phy"
    unfolding frame_of_def mask_consts(3) m by (rule bit_word_eqI) (auto simp: bit_simps)
  then show "frame_of (phy OR PG_US_U OR PG_RW_W OR PG_P_1) = phy" using assms by simp
  have "bit ((phy OR PG_US_U OR PG_RW_W OR PG_P_1) AND 1) 0" by (simp add: bit_simps PG_P_1_def)
  then show "present (phy OR PG_US_U OR PG_RW_W OR PG_P_1)" unfolding present_def by fastforce
qed

lemma frame_multiple:
  assumes "frame_of B = B"
  obtains b where "unat B = b * 4096"
proof -
  have "4096 dvd unat B" using assms by (simp add: frame_of_eq mod_0_imp_dvd)
  then show thesis using that by (auto simp: dvd_def)
qed

text \<open>The \<open>k\<close>-th word of a table.\<close>

lemma unat_slot:
  assumes "frame_of B = B" and "unat x < 1024"
  shows "unat (B + x * 4) = unat B + unat x * 4"
proof -
  obtain b where b: "unat B = b * 4096" using frame_multiple [OF assms(1)] .
  moreover have "unat B < 4294967296" by (rule unat_u32)
  ultimately have "b < 1048576" by simp
  with b have "unat B \<le> 4294963200" by simp
  then show ?thesis using assms(2) by (subst unat_add_lt) (simp_all add: unat_mult_4)
qed

lemma slot_eq:
  assumes "frame_of B = B" "frame_of C = C" "unat x < 1024" "unat y < 1024"
  shows "B + x * 4 = C + y * 4 \<longleftrightarrow> B = C \<and> x = y"
proof
  assume eq: "B + x * 4 = C + y * 4"
  have sum: "unat B + unat x * 4 = unat C + unat y * 4"
    using arg_cong [OF eq, of unat] unat_slot [OF assms(1,3)] unat_slot [OF assms(2,4)] by simp
  obtain b c where bc: "unat B = b * 4096" "unat C = c * 4096"
    using frame_multiple [OF assms(1)] frame_multiple [OF assms(2)] by metis
  with sum assms(3,4) have "b = c" by linarith
  with bc have "B = C" by (simp add: unat_eqI)
  with sum show "B = C \<and> x = y" by (simp add: unat_eqI)
qed simp

lemma table_word_fields:
  fixes va :: addr
  assumes "k < 1024"
  defines "a \<equiv> frame_of (pte_ptr va) + of_nat k * 4"
  shows "PDE_IDX a = 1023" "PTE_IDX a = PDE_IDX va" "a AND 0x00000fff = of_nat k * 4"
proof -
  have d: "unat va div 2 ^ 22 < 1024" and t: "unat va div 2 ^ 12 mod 2 ^ 10 < 1024"
    using PDE_IDX_lt [of va] by (simp_all add: unat_PDE_IDX)
  have f: "unat (frame_of (pte_ptr va)) = 0xffc00000 + unat va div 2 ^ 22 * 2 ^ 12"
  proof -
    have "0xffc00000 + unat va div 2 ^ 22 * 2 ^ 12 + unat va div 2 ^ 12 mod 2 ^ 10 * 4 =
      (1047552 + unat va div 2 ^ 22) * 2 ^ 12 + unat va div 2 ^ 12 mod 2 ^ 10 * 4" by simp
    then have "unat (pte_ptr va) div 2 ^ 12 = 1047552 + unat va div 2 ^ 22"
      unfolding unat_pte_ptr using t by (simp only: div_mult_self3) simp
    then show ?thesis unfolding unat_frame_of by simp
  qed
  have k: "unat (of_nat k :: u32) = k" using assms(1) by (simp add: unat_of_nat_lt)
  have ua: "unat a = 0xffc00000 + unat va div 2 ^ 22 * 2 ^ 12 + k * 4"
    unfolding a_def using unat_slot [of "frame_of (pte_ptr va)" "of_nat k"] k f assms(1) by simp
  note N = table_address_nat [OF d assms(1)]
  show "PDE_IDX a = 1023" by (intro unat_eqI) (simp only: unat_PDE_IDX ua N, simp)
  show "PTE_IDX a = PDE_IDX va" by (intro unat_eqI) (simp only: unat_PTE_IDX unat_PDE_IDX ua N)
  have "unat (of_nat k * 4 :: u32) = k * 4" using k assms(1) by (subst unat_mult_4) simp_all
  then show "a AND 0x00000fff = of_nat k * 4" by (intro unat_eqI) (simp only: unat_offset ua N)
qed

definition clear_words :: "addr \<Rightarrow> nat \<Rightarrow> nat \<Rightarrow> 'z pgmachine_scheme \<Rightarrow> 'z pgmachine_scheme" where
  "clear_words F k n s = s\<lparr>pmem := (\<lambda>x. if x \<in> (\<lambda>i. F + of_nat i * 4) ` {k..<k + n} then 0 else pmem s x)\<rparr>"

lemma clear_words_0: "clear_words F k 0 s = s"
  by (simp add: clear_words_def)

lemma clear_words_Suc: "clear_words F (Suc k) n (pwr (F + of_nat k * 4) 0 s) = clear_words F k (Suc n) s"
proof -
  have "{k..<k + Suc n} = insert k {Suc k..<Suc k + n}" by auto
  then have "(\<lambda>x. if x \<in> (\<lambda>i. F + of_nat i * 4) ` {k..<k + Suc n} then 0 else pmem s x) =
      (\<lambda>x. if x \<in> (\<lambda>i. F + of_nat i * 4) ` {Suc k..<Suc k + n} then 0
           else ((pmem s)(F + of_nat k * 4 := 0)) x)"
    by (simp only: image_insert insert_iff fun_eq_iff fun_upd_apply) presburger
  then show ?thesis unfolding clear_words_def pwr_sel(1) by (simp add: pwr_def)
qed

lemma walk_table_word:
  assumes "selfmap s" and "present (pmem s (pde_pa s va))" and "k < 1024"
  shows "page_walk s (frame_of (pte_ptr va) + of_nat k * 4) = Some (frame_of (pmem s (pde_pa s va)) + of_nat k * 4)"
  using assms table_word_fields [OF assms(3), of va]
  by (simp add: page_walk_def selfmap_def pde_pa_def Let_def)

text \<open>A write outside the directory keeps the directory.\<close>

lemma pwr_dir:
  assumes "frame_of T = T" and "T \<noteq> frame_of (cr3 s)" and "unat x < 1024"
  shows "pde_pa (pwr (T + x * 4) v s) va = pde_pa s va"
    "pmem (pwr (T + x * 4) v s) (pde_pa s va) = pmem s (pde_pa s va)"
    "selfmap (pwr (T + x * 4) v s) = selfmap s"
proof -
  have ne: "frame_of (cr3 s) + y * 4 \<noteq> T + x * 4" if "unat y < 1024" for y
    using slot_eq [of "frame_of (cr3 s)" T y x] assms that by auto
  show "pde_pa (pwr (T + x * 4) v s) va = pde_pa s va" by (simp add: pde_pa_def)
  show "pmem (pwr (T + x * 4) v s) (pde_pa s va) = pmem s (pde_pa s va)"
    using ne [OF PDE_IDX_lt] by (simp add: pde_pa_def)
  show "selfmap (pwr (T + x * 4) v s) = selfmap s"
    using ne [of 1023] by (simp add: selfmap_def)
qed

lemma vfill_table:
  assumes "selfmap s" and "present (pmem s (pde_pa s va))" and "frame_of (pmem s (pde_pa s va)) = F"
    and "F \<noteq> frame_of (cr3 s)" and "k + n \<le> 1024"
  shows "vfill n (frame_of (pte_ptr va) + of_nat k * 4) 0 s = Inr (clear_words F k n s)"
  using assms
proof (induction n arbitrary: k s)
  case (Suc n)
  let ?s = "pwr (F + of_nat k * 4) 0 s"
  have F: "frame_of F = F" and k: "unat (of_nat k :: u32) < 1024"
    using Suc.prems(3,5) by (auto simp: unat_of_nat_lt)
  note D = pwr_dir [OF F Suc.prems(4) k, where v = 0]
  have "vwrite (frame_of (pte_ptr va) + of_nat k * 4) 0 s = Inr ?s"
    using walk_table_word [OF Suc.prems(1,2), of k] Suc.prems(3,5) by (simp add: vwrite_def)
  moreover have "vfill n (frame_of (pte_ptr va) + of_nat (Suc k) * 4) 0 ?s = Inr (clear_words F (Suc k) n ?s)"
    using Suc.prems D by (intro Suc.IH) (simp_all only: D, simp_all)
  ultimately show ?case by (simp add: clear_words_Suc algebra_simps)
qed (simp add: clear_words_0)


section \<open>Tables, slots and frames\<close>

text \<open>
  \<open>table_of\<close>: the page table an address goes through; \<open>slot\<close>: the physical address of its entry there.
  \<open>lower\<close> leaves out the last 4 MB, the window through which the tables themselves appear.
\<close>

definition lower :: "addr \<Rightarrow> bool" where
  "lower va = (PDE_IDX va \<noteq> 1023)"

definition table_of :: "'z pgmachine_scheme \<Rightarrow> addr \<Rightarrow> addr option" where
  "table_of s va =
     (if present (pmem s (pde_pa s va)) then Some (frame_of (pmem s (pde_pa s va))) else None)"

definition slot :: "'z pgmachine_scheme \<Rightarrow> addr \<Rightarrow> addr option" where
  "slot s va = map_option (\<lambda>T. T + PTE_IDX va * 4) (table_of s va)"

lemma walk_slot:
  "page_walk s va =
     (case slot s va of None \<Rightarrow> None
      | Some a \<Rightarrow> if present (pmem s a) then Some (frame_of (pmem s a) + (va AND 0x00000fff)) else None)"
  by (simp add: page_walk_pa slot_def table_of_def pte_pa_def)

lemma table_of_frame: "table_of s va = Some T \<Longrightarrow> frame_of T = T"
  by (auto simp: table_of_def split: if_splits)

lemma slot_eq_table:
  assumes "slot s va = Some a" and "slot s va' = Some a"
  shows "table_of s va = table_of s va'" and "PTE_IDX va = PTE_IDX va'"
proof -
  obtain T T' where "table_of s va = Some T" "table_of s va' = Some T'"
    "T + PTE_IDX va * 4 = T' + PTE_IDX va' * 4" using assms by (auto simp: slot_def)
  then show "table_of s va = table_of s va'" and "PTE_IDX va = PTE_IDX va'"
    using slot_eq [of T T' "PTE_IDX va" "PTE_IDX va'"] by (auto simp: table_of_frame PTE_IDX_lt)
qed

lemma page_split: "va AND 0x00000fff = (va :: addr) - frame_of va"
proof -
  have "frame_of va + (va AND 0x00000fff) = va"
  proof (rule unat_eqI)
    have "unat va div 4096 * 4096 + unat va mod 4096 = unat va" by simp
    then show "unat (frame_of va + (va AND 0x00000fff)) = unat va"
      by (subst unat_add_lt) (simp_all add: unat_frame_of unat_offset unat_u32)
  qed
  then show ?thesis by (simp add: algebra_simps)
qed

lemma frame_of_offset: "frame_of B = B \<Longrightarrow> frame_of (B + (va AND 0x00000fff)) = B"
proof (rule unat_eqI)
  assume B: "frame_of B = B"
  obtain b where b: "unat B = b * 4096" using frame_multiple [OF B] .
  have "b * 4096 < 4294967296" using unat_u32(3) [of B] b by simp
  then have "unat (B + (va AND 0x00000fff)) = b * 4096 + unat va mod 4096"
    using b by (subst unat_add_lt) (simp_all add: unat_offset)
  then show "unat (frame_of (B + (va AND 0x00000fff))) = unat B" by (simp add: unat_frame_of b)
qed

lemma walk_frame:
  "page_walk s va = Some pa \<Longrightarrow>
     frame_of pa = frame_of (pmem s (the (slot s va))) \<and> pa = frame_of pa + (va AND 0x00000fff)"
  by (auto simp: walk_slot frame_of_offset split: option.splits if_splits)

lemma walk_table: "page_walk s va = Some pa \<Longrightarrow> \<exists>T. table_of s va = Some T"
  by (auto simp: walk_slot slot_def split: option.splits)

lemma bytes_view [simp]:
  "pde_pa (s\<lparr>bytes := b\<rparr>) va = pde_pa s va" "pte_pa (s\<lparr>bytes := b\<rparr>) va = pte_pa s va"
  "selfmap (s\<lparr>bytes := b\<rparr>) = selfmap s" "page_walk (s\<lparr>bytes := b\<rparr>) va = page_walk s va"
  "table_of (s\<lparr>bytes := b\<rparr>) va = table_of s va" "slot (s\<lparr>bytes := b\<rparr>) va = slot s va"
  by (simp_all add: pde_pa_def pte_pa_def selfmap_def page_walk_def table_of_def slot_def Let_def)

lemma clear_words_sel [simp]:
  "cr3 (clear_words F k n s) = cr3 s"
  "pmem (clear_words F k n s) x = (if x \<in> (\<lambda>i. F + of_nat i * 4) ` {k..<k + n} then 0 else pmem s x)"
  by (simp_all add: clear_words_def)

lemma in_table_words:
  assumes "frame_of B = B" "frame_of F = F" "unat x < 1024"
  shows "B + x * 4 \<in> (\<lambda>i. F + of_nat i * 4) ` {0..<0 + 1024} \<longleftrightarrow> B = F"
proof
  assume "B + x * 4 \<in> (\<lambda>i. F + of_nat i * 4) ` {0..<0 + 1024}"
  then obtain i where "i < 1024" "B + x * 4 = F + of_nat i * 4" by auto
  with slot_eq [of B F x "of_nat i"] assms show "B = F" by (simp add: unat_of_nat_lt)
next
  assume "B = F"
  then have "B + x * 4 = F + of_nat (unat x) * 4" by simp
  with assms(3) show "B + x * 4 \<in> (\<lambda>i. F + of_nat i * 4) ` {0..<0 + 1024}"
    by (intro image_eqI [of _ _ "unat x"]) simp_all
qed

section \<open>What \<open>page_table_add\<close> does\<close>

lemma page_table_add_present:
  assumes "selfmap s" and "present (pmem s (pde_pa s va))"
  shows "page_table_add va phy s =
    (if present (pmem s (pte_pa s va)) then Inl (Panic ''!(*pte & 0x00000001)'')
     else Inr (pwr (pte_pa s va) (phy OR PG_US_U OR PG_RW_W OR PG_P_1) s))"
  using assms by (simp add: page_table_add_def Let_def vread_pde vread_pte)

lemma new_table_state:
  assumes "selfmap s" and "lower va" and "frame_of F = F" and "F \<noteq> frame_of (cr3 s)"
  defines "s2 \<equiv> pwr (pde_pa s va) (F OR PG_US_U OR PG_RW_W OR PG_P_1) s"
  shows "selfmap s2" "pmem s2 (pde_pa s va) = F OR PG_US_U OR PG_RW_W OR PG_P_1" "pde_pa s2 v = pde_pa s v"
proof -
  have "unat (PDE_IDX va) \<noteq> unat (1023 :: u32)" using assms(2) unfolding lower_def by (metis unat_eqI)
  then have "frame_of (cr3 s) + PDE_IDX va * 4 \<noteq> frame_of (cr3 s) + 1023 * 4"
    using slot_eq [of "frame_of (cr3 s)" "frame_of (cr3 s)" "PDE_IDX va" 1023] PDE_IDX_lt [of va] by auto
  with assms(1) show "selfmap s2" by (simp add: s2_def selfmap_def pde_pa_def)
qed (simp_all add: s2_def pde_pa_def)

lemma page_table_add_absent:
  assumes "selfmap s" and "\<not> present (pmem s (pde_pa s va))" and "lower va"
    and "palloc (kernel_pool s) s = Inr (F, s\<lparr>bytes := b\<rparr>)" and F: "frame_of F = F" "F \<noteq> frame_of (cr3 s)"
  shows "page_table_add va phy s =
    Inr (pwr (F + PTE_IDX va * 4) (phy OR PG_US_U OR PG_RW_W OR PG_P_1)
      (clear_words F 0 1024 (pwr (pde_pa s va) (F OR PG_US_U OR PG_RW_W OR PG_P_1) (s\<lparr>bytes := b\<rparr>))))"
proof -
  let ?s1 = "s\<lparr>bytes := b\<rparr>" and ?e = "F OR PG_US_U OR PG_RW_W OR PG_P_1"
  let ?s2 = "pwr (pde_pa s va) ?e ?s1"
  let ?s3 = "clear_words F 0 1024 ?s2"
  note E = pte_entry [OF F(1)]
  have N: "selfmap ?s2" "pmem ?s2 (pde_pa s va) = ?e" "pde_pa ?s2 v = pde_pa s v" for v
    using new_table_state [of ?s1 va F] assms(1,3) F by simp_all
  have fill: "vfill 1024 (frame_of (pte_ptr va)) 0 ?s2 = Inr ?s3"
    using vfill_table [of ?s2 va F 0 1024] N E F by simp
  have p3: "pde_pa ?s3 va = pde_pa s va" by (simp add: pde_pa_def)
  have keep: "pmem ?s3 (frame_of (cr3 s) + x * 4) = pmem ?s2 (frame_of (cr3 s) + x * 4)" if "unat x < 1024" for x
    using in_table_words [of "frame_of (cr3 s)" F x] F that by auto
  have dir: "pmem ?s3 (pde_pa s va) = ?e" using keep [OF PDE_IDX_lt] N(2) by (simp add: pde_pa_def)
  have sm: "selfmap ?s3" using N(1) keep [of 1023] by (simp add: selfmap_def)
  have pte: "pte_pa ?s3 va = F + PTE_IDX va * 4" by (simp only: pte_pa_def p3 dir E)
  have zero: "pmem ?s3 (F + PTE_IDX va * 4) = 0" using in_table_words [OF F(1) F(1) PTE_IDX_lt] by simp
  have pr: "present (pmem ?s3 (pde_pa ?s3 va))" unfolding p3 dir by (rule E)
  have rd: "vread (pte_ptr va) ?s3 = Inr 0" using vread_pte(1) [OF sm pr] unfolding pte zero .
  have w: "vwrite (pte_ptr va) v ?s3 = Inr (pwr (F + PTE_IDX va * 4) v ?s3)" for v
    using vread_pte(2) [OF sm pr] unfolding pte .
  show ?thesis using assms(1,2,4) fill rd w
    by (simp add: page_table_add_def Let_def vread_pde flip: frame_of_def) (simp add: present_def)
qed


section \<open>The invariant\<close>

definition tables :: "'z pgmachine_scheme \<Rightarrow> addr set" where
  "tables s = {T. \<exists>va. lower va \<and> table_of s va = Some T}"

definition data :: "'z pgmachine_scheme \<Rightarrow> addr set" where
  "data s = {f. \<exists>va pa. lower va \<and> page_walk s va = Some pa \<and> f = frame_of pa}"

definition spare :: "'z kmem_scheme \<Rightarrow> addr set" where
  "spare s = free_frames s (kernel_pool s) \<union> free_frames s (user_pool s)"

definition pools :: "'z kmem_scheme \<Rightarrow> addr set" where
  "pools s = pool_frames (kernel_pool s) \<union> pool_frames (user_pool s)"

definition pools_ok :: "'z kmem_scheme \<Rightarrow> bool" where
  "pools_ok s = (pool_ok (kernel_pool s) \<and> pool_ok (user_pool s) \<and>
     bm_disjoint (pool_bitmap (kernel_pool s)) (pool_bitmap (user_pool s)) \<and>
     pool_frames (kernel_pool s) \<inter> pool_frames (user_pool s) = {})"

definition one_slot :: "'z kmem_scheme \<Rightarrow> bool" where
  "one_slot s = (\<forall>va va' pa pa'. lower va \<and> lower va' \<and> page_walk s va = Some pa \<and> page_walk s va' = Some pa' \<and>
     frame_of pa = frame_of pa' \<and> frame_of pa \<in> pools s \<longrightarrow> slot s va = slot s va')"

definition mm_inv :: "'z kmem_scheme \<Rightarrow> bool" where
  "mm_inv s = (selfmap s \<and> pools_ok s \<and> frame_of (cr3 s) \<notin> tables s \<union> data s \<union> spare s \<and>
     tables s \<inter> data s = {} \<and> (tables s \<union> data s) \<inter> spare s = {} \<and> one_slot s)"

text \<open>Only the bitmaps and the page tables differ.\<close>

definition pt_frame :: "'z kmem_scheme \<Rightarrow> 'z kmem_scheme \<Rightarrow> bool" where
  "pt_frame s s' = (s' = s\<lparr>bytes := bytes s', pmem := pmem s'\<rparr>)"

text \<open>The effect of one \<open>page_table_add\<close>: the table of \<open>va\<close> is \<open>T\<close>, found or taken from the kernel pool.\<close>

definition pt_step :: "'z kmem_scheme \<Rightarrow> 'z kmem_scheme \<Rightarrow> addr \<Rightarrow> addr \<Rightarrow> addr \<Rightarrow> bool" where
  "pt_step s s' va phy T = (pt_frame s s' \<and> selfmap s' \<and>
     (\<forall>va'. lower va' \<longrightarrow> table_of s' va' = (if PDE_IDX va' = PDE_IDX va then Some T else table_of s va')) \<and>
     (\<forall>va'. lower va' \<longrightarrow> page_walk s' va' =
        (if slot s' va' = slot s' va then Some (phy + (va' AND 0x00000fff)) else page_walk s va')) \<and>
     (table_of s va = Some T \<and> bytes s' = bytes s \<or>
      table_of s va = None \<and> T \<in> free_frames s (kernel_pool s) \<and>
      free_frames s' (kernel_pool s) = free_frames s (kernel_pool s) - {T} \<and>
      (\<forall>c. bm_disjoint (pool_bitmap (kernel_pool s)) c \<longrightarrow> bm.free_slots s' c = bm.free_slots s c)))"

lemma PDE_IDX_eq_pde_pa: "pde_pa s va = pde_pa s va' \<longleftrightarrow> PDE_IDX va = PDE_IDX va'"
  using slot_eq [of "frame_of (cr3 s)" "frame_of (cr3 s)" "PDE_IDX va" "PDE_IDX va'"]
  by (simp add: pde_pa_def PDE_IDX_lt)

lemma table_of_cong: "PDE_IDX v = PDE_IDX va \<Longrightarrow> table_of s v = table_of s va"
  by (simp only: table_of_def pde_pa_def)

lemma pt_step_present:
  assumes sm: "selfmap s" and va: "lower va" and T: "table_of s va = Some T" and ne: "T \<noteq> frame_of (cr3 s)"
    and phy: "frame_of phy = phy"
  shows "pt_step s (pwr (T + PTE_IDX va * 4) (phy OR PG_US_U OR PG_RW_W OR PG_P_1) s) va phy T"
proof -
  let ?e = "phy OR PG_US_U OR PG_RW_W OR PG_P_1"
  let ?s = "pwr (T + PTE_IDX va * 4) ?e s"
  note D = pwr_dir [OF table_of_frame [OF T] ne PTE_IDX_lt [of va], where v = ?e]
  have tab: "table_of ?s v = table_of s v" for v unfolding table_of_def D ..
  then have sl: "slot ?s v = slot s v" for v by (simp only: slot_def)
  have sva: "slot s va = Some (T + PTE_IDX va * 4)" by (simp add: slot_def T)
  have "page_walk ?s v = (if slot ?s v = slot ?s va then Some (phy + (v AND 0x00000fff)) else page_walk s v)" for v
    unfolding walk_slot sl by (auto simp: sva pte_entry [OF phy] split: option.splits)
  moreover have "table_of s v = (if PDE_IDX v = PDE_IDX va then Some T else table_of s v)" for v
    using T table_of_cong [of v va s] by simp
  moreover have "pt_frame s ?s" by (simp add: pt_frame_def pwr_def)
  ultimately show ?thesis unfolding pt_step_def tab using D(3) sm T by auto
qed

lemma pt_step_absent:
  fixes s :: "'z kmem_scheme"
  assumes sm: "selfmap s" and va: "lower va" and T: "table_of s va = None"
    and F: "frame_of F = F" "F \<noteq> frame_of (cr3 s)" "F \<notin> tables s" and phy: "frame_of phy = phy"
    and nD: "frame_of (cr3 s) \<notin> tables s"
    and free: "F \<in> free_frames s (kernel_pool s)"
      "free_frames (s\<lparr>bytes := b\<rparr>) (kernel_pool s) = free_frames s (kernel_pool s) - {F}"
      "\<forall>c. bm_disjoint (pool_bitmap (kernel_pool s)) c \<longrightarrow> bm.free_slots (s\<lparr>bytes := b\<rparr>) c = bm.free_slots s c"
  defines "s' \<equiv> pwr (F + PTE_IDX va * 4) (phy OR PG_US_U OR PG_RW_W OR PG_P_1)
      (clear_words F 0 1024 (pwr (pde_pa s va) (F OR PG_US_U OR PG_RW_W OR PG_P_1) (s\<lparr>bytes := b\<rparr>)))"
  shows "pt_step s s' va phy F"
proof -
  let ?e = "phy OR PG_US_U OR PG_RW_W OR PG_P_1" and ?p = "F OR PG_US_U OR PG_RW_W OR PG_P_1"
  let ?D = "frame_of (cr3 s)"
  have dir: "pmem s' (?D + x * 4) = (if x = PDE_IDX va then ?p else pmem s (?D + x * 4))" if "unat x < 1024" for x
    using in_table_words [of ?D F x] slot_eq [of ?D F x "PTE_IDX va"] slot_eq [of ?D ?D x "PDE_IDX va"] F that
    by (auto simp: s'_def pde_pa_def PTE_IDX_lt PDE_IDX_lt)
  have own: "pmem s' (F + x * 4) = (if x = PTE_IDX va then ?e else 0)" if "unat x < 1024" for x
    using in_table_words [OF F(1) F(1) that] slot_eq [OF F(1) F(1) that PTE_IDX_lt [of va]] by (simp add: s'_def)
  have other: "pmem s' (B + x * 4) = pmem s (B + x * 4)"
    if "frame_of B = B" "B \<noteq> F" "B \<noteq> ?D" "unat x < 1024" for B x
    using in_table_words [OF that(1) F(1) that(4)] slot_eq [OF that(1) F(1) that(4) PTE_IDX_lt [of va]]
      slot_eq [OF that(1) _ that(4) PDE_IDX_lt [of va], of ?D] that by (auto simp: s'_def pde_pa_def)
  have c3: "cr3 s' = cr3 s" by (simp add: s'_def)
  have tab: "table_of s' v = (if PDE_IDX v = PDE_IDX va then Some F else table_of s v)" for v
    using dir [OF PDE_IDX_lt [of v]] pte_entry [OF F(1)] unfolding table_of_def pde_pa_def c3 by auto
  have walk: "page_walk s' v = (if slot s' v = slot s' va then Some (phy + (v AND 0x00000fff)) else page_walk s v)"
    if v: "lower v" for v
  proof (cases "PDE_IDX v = PDE_IDX va")
    case True
    then have "slot s v = None" using T table_of_cong [of v va s] by (simp add: slot_def)
    moreover have "slot s' v = Some (F + PTE_IDX v * 4)" "slot s' va = Some (F + PTE_IDX va * 4)"
      using True by (simp_all add: slot_def tab)
    ultimately show ?thesis
      using own [OF PTE_IDX_lt [of v]] slot_eq [OF F(1) F(1) PTE_IDX_lt [of v] PTE_IDX_lt [of va]] pte_entry [OF phy]
      by (cases "PTE_IDX v = PTE_IDX va") (simp_all add: walk_slot present_def)
  next
    case False
    then have tv: "table_of s' v = table_of s v" "slot s' v = slot s v" by (simp_all add: slot_def tab)
    have "slot s' v \<noteq> slot s' va"
      using slot_eq_table(1) [of s' v _ va] tab v F(3) False
      by (auto simp: tables_def slot_def tv)
    moreover have "page_walk s' v = page_walk s v"
    proof (cases "table_of s v")
      case (Some B)
      then have "B \<in> tables s" "frame_of B = B" using v by (auto simp: tables_def table_of_frame)
      then have "pmem s' (B + PTE_IDX v * 4) = pmem s (B + PTE_IDX v * 4)"
        using F(3) nD by (intro other) (auto simp: PTE_IDX_lt)
      then show ?thesis using tv Some by (simp add: walk_slot slot_def)
    qed (simp add: walk_slot slot_def tv)
    ultimately show ?thesis by simp
  qed
  have sm': "selfmap s'"
    using sm dir [of 1023] va by (auto simp: selfmap_def c3 lower_def)
  have fr: "free_frames s' p = free_frames (s\<lparr>bytes := b\<rparr>) p"
    "bm.free_slots s' c = bm.free_slots (s\<lparr>bytes := b\<rparr>) c" for p c
    by (simp_all add: free_frames_def bm.free_slots_def used_def s'_def clear_words_def)
  have "pt_frame s s'" by (simp add: pt_frame_def s'_def pwr_def clear_words_def)
  then show ?thesis unfolding pt_step_def using sm' tab walk T free fr by simp
qed


text \<open>Adding a mapping under the invariant: it succeeds, and it has exactly the effect of one step.\<close>

lemma page_table_add_step:
  fixes s :: "'z kmem_scheme"
  assumes inv: "mm_inv s" and va: "lower va" and un: "page_walk s va = None" and phy: "frame_of phy = phy"
    and room: "table_of s va \<noteq> None \<or> free_frames s (kernel_pool s) \<noteq> {}"
  shows "\<exists>s' T. page_table_add va phy s = Inr s' \<and> pt_step s s' va phy T"
proof -
  have sm: "selfmap s" and K: "pool_ok (kernel_pool s)" and nD: "frame_of (cr3 s) \<notin> tables s"
    and sp: "tables s \<inter> spare s = {}" "frame_of (cr3 s) \<notin> spare s"
    using inv by (auto simp: mm_inv_def pools_ok_def)
  show ?thesis
  proof (cases "table_of s va")
    case (Some T)
    then have T: "T \<in> tables s" "present (pmem s (pde_pa s va))" "pte_pa s va = T + PTE_IDX va * 4"
      using va by (auto simp: tables_def table_of_def pte_pa_def split: if_splits)
    then have "\<not> present (pmem s (pte_pa s va))" using un by (auto simp: page_walk_pa split: if_splits)
    then have "page_table_add va phy s = Inr (pwr (T + PTE_IDX va * 4) (phy OR PG_US_U OR PG_RW_W OR PG_P_1) s)"
      by (simp add: page_table_add_present [OF sm T(2)] T(3))
    moreover have "T \<noteq> frame_of (cr3 s)" using T(1) nD by auto
    ultimately show ?thesis using pt_step_present [OF sm va Some _ phy] by blast
  next
    case None
    then have "\<not> present (pmem s (pde_pa s va))" by (simp add: table_of_def split: if_splits)
    obtain F s1 where F: "palloc (kernel_pool s) s = Inr (F, s1)" "F \<in> free_frames s (kernel_pool s)"
      "free_frames s1 (kernel_pool s) = free_frames s (kernel_pool s) - {F}" "frame_of F = F" "s1 = s\<lparr>bytes := bytes s1\<rparr>"
      "\<forall>c. bm_disjoint (pool_bitmap (kernel_pool s)) c \<longrightarrow> bm.free_slots s1 c = bm.free_slots s c"
      using palloc_take [OF K, of s] room None by auto
    obtain b where s1: "s1 = s\<lparr>bytes := b\<rparr>" using F(5) by blast
    have "F \<in> spare s" using F(2) by (simp add: spare_def)
    then have "F \<noteq> frame_of (cr3 s)" "F \<notin> tables s" using sp by auto
    then show ?thesis
      using page_table_add_absent [OF sm _ va F(1) [unfolded s1] F(4)] \<open>\<not> present _\<close>
        pt_step_absent [OF sm va None F(4) _ _ phy nD F(2) F(3) [unfolded s1] F(6) [unfolded s1]] by blast
  qed
qed

lemma pt_step_table:
  assumes "pt_step s s' va phy T" and "lower v" and "table_of s v = Some X"
  shows "table_of s' v = Some X"
proof -
  have "PDE_IDX v = PDE_IDX va \<Longrightarrow> table_of s va = Some X" using assms(3) table_of_cong by metis
  then show ?thesis using assms by (auto simp: pt_step_def)
qed

lemma pt_step_sel:
  assumes "pt_step s s' va phy T"
  shows "kernel_pool s' = kernel_pool s" "user_pool s' = user_pool s" "kernel_vaddr s' = kernel_vaddr s"
    "tasks s' = tasks s" "esp s' = esp s" "cr3 s' = cr3 s" "pools_ok s' = pools_ok s" "pools s' = pools s"
proof -
  obtain b p where "s' = s\<lparr>bytes := b, pmem := p\<rparr>"
    using assms unfolding pt_step_def pt_frame_def by blast
  then show "kernel_pool s' = kernel_pool s" "user_pool s' = user_pool s" "kernel_vaddr s' = kernel_vaddr s"
    "tasks s' = tasks s" "esp s' = esp s" "cr3 s' = cr3 s" "pools_ok s' = pools_ok s" "pools s' = pools s"
    by (simp_all add: pools_ok_def pools_def)
qed

lemma free_frames_bytes: "bytes s' = bytes s \<Longrightarrow> free_frames s' p = free_frames s p"
  by (simp add: free_frames_def bm.free_slots_def used_def)

lemma pt_step_alloc:
  assumes "pt_step s s' va phy T"
  obtains "table_of s va = Some T" "bytes s' = bytes s"
  | "table_of s va = None" "T \<in> free_frames s (kernel_pool s)"
    "free_frames s' (kernel_pool s) = free_frames s (kernel_pool s) - {T}"
    "\<forall>c. bm_disjoint (pool_bitmap (kernel_pool s)) c \<longrightarrow> bm.free_slots s' c = bm.free_slots s c"
proof -
  from assms have "table_of s va = Some T \<and> bytes s' = bytes s \<or>
      table_of s va = None \<and> T \<in> free_frames s (kernel_pool s) \<and>
      free_frames s' (kernel_pool s) = free_frames s (kernel_pool s) - {T} \<and>
      (\<forall>c. bm_disjoint (pool_bitmap (kernel_pool s)) c \<longrightarrow> bm.free_slots s' c = bm.free_slots s c)"
    by (simp only: pt_step_def)
  then show thesis
    by (elim disjE conjE) (rule that(1), assumption+, rule that(2), assumption+)
qed

lemma pt_step_free:
  assumes "pools_ok s" and "pt_step s s' va phy T"
  shows "free_frames s' (kernel_pool s) = free_frames s (kernel_pool s) - (if table_of s va = None then {T} else {})"
    "free_frames s' (user_pool s) = free_frames s (user_pool s)"
    "spare s' = spare s - (if table_of s va = None then {T} else {})"
proof -
  have dj: "bm_disjoint (pool_bitmap (kernel_pool s)) (pool_bitmap (user_pool s))"
    and pd: "pool_frames (kernel_pool s) \<inter> pool_frames (user_pool s) = {}"
    using assms(1) by (auto simp: pools_ok_def)
  from assms(2) show k: "free_frames s' (kernel_pool s) =
      free_frames s (kernel_pool s) - (if table_of s va = None then {T} else {})"
    by (cases rule: pt_step_alloc) (simp_all add: free_frames_bytes [of s' s])
  from assms(2) show u: "free_frames s' (user_pool s) = free_frames s (user_pool s)"
    by (cases rule: pt_step_alloc) (simp_all add: free_frames_bytes [of s' s], simp add: free_frames_def dj)
  have "T \<notin> free_frames s (user_pool s)" if none: "table_of s va = None"
    using assms(2)
  proof (cases rule: pt_step_alloc)
    case 2
    then show ?thesis using pd free_frames_pool [of s "kernel_pool s"] free_frames_pool [of s "user_pool s"] by blast
  qed (simp add: none)
  then show "spare s' = spare s - (if table_of s va = None then {T} else {})"
    unfolding spare_def pt_step_sel [OF assms(2)] k u by auto
qed


lemma pt_step_walk:
  assumes "pt_step s s' va phy T" and "lower v"
  shows "page_walk s' v = (if slot s' v = slot s' va then Some (phy + (v AND 0x00000fff)) else page_walk s v)"
  using assms by (simp add: pt_step_def)

lemma pt_step_source:
  assumes "pt_step s s' va phy T" and "lower va"
  shows "T \<in> tables s \<or> T \<in> spare s \<and> table_of s va = None"
  using assms(1) by (cases rule: pt_step_alloc) (use assms(2) in \<open>auto simp: tables_def spare_def\<close>)

lemma pt_step_tables:
  assumes "pt_step s s' va phy T" and "lower va"
  shows "tables s' \<subseteq> insert T (tables s)"
proof
  fix X assume "X \<in> tables s'"
  then obtain v where v: "lower v" "table_of s' v = Some X" by (auto simp: tables_def)
  have "table_of s' v = (if PDE_IDX v = PDE_IDX va then Some T else table_of s v)"
    using assms(1) v(1) by (simp add: pt_step_def)
  with v show "X \<in> insert T (tables s)" by (auto simp: tables_def split: if_splits)
qed

lemma pt_step_data:
  assumes "pt_step s s' va phy T" and "frame_of phy = phy"
  shows "data s' \<subseteq> insert phy (data s)"
proof
  fix f assume "f \<in> data s'"
  then obtain v pa where v: "lower v" "page_walk s' v = Some pa" "f = frame_of pa" by (auto simp: data_def)
  then show "f \<in> insert phy (data s)"
    using pt_step_walk [OF assms(1) v(1)] frame_of_offset [OF assms(2), of v]
    by (auto simp: data_def split: if_splits)
qed

lemma pt_step_one_slot:
  assumes inv: "one_slot s" and st: "pt_step s s' va phy T" and phy: "frame_of phy = phy" "phy \<notin> data s"
  shows "one_slot s'"
  unfolding one_slot_def pt_step_sel(8) [OF st]
proof (intro allI impI, elim conjE)
  fix v v' pa pa'
  assume l: "lower v" "lower v'" and w: "page_walk s' v = Some pa" "page_walk s' v' = Some pa'"
    and eq: "frame_of pa = frame_of pa'" and pool: "frame_of pa \<in> pools s"
  note W = pt_step_walk [OF st l(1)] pt_step_walk [OF st l(2)]
  have keep: "slot s' x = slot s x" if "lower x" "page_walk s x = Some y" for x y
    using walk_table [OF that(2)] pt_step_table [OF st that(1)] by (auto simp: slot_def)
  have fr: "frame_of (phy + (x AND 0x00000fff)) = phy" for x using phy(1) by (rule frame_of_offset)
  have old: "frame_of y \<noteq> phy" if "lower x" "page_walk s x = Some y" for x y
    using that phy(2) by (auto simp: data_def)
  show "slot s' v = slot s' v'"
  proof (cases "slot s' v = slot s' va \<or> slot s' v' = slot s' va")
    case True
    then have "frame_of pa = phy" using W w eq fr by (auto split: if_splits)
    then have "page_walk s v \<noteq> Some pa" "page_walk s v' \<noteq> Some pa'" using old l eq by auto
    then show ?thesis using W w by (auto split: if_splits)
  next
    case False
    then have "page_walk s v = Some pa" "page_walk s v' = Some pa'" using W w by auto
    then show ?thesis using inv l eq pool keep unfolding one_slot_def by metis
  qed
qed

lemma pt_step_inv:
  assumes inv: "mm_inv s" and st: "pt_step s s' va phy T" and va: "lower va" and phy: "frame_of phy = phy"
    and new: "phy \<notin> tables s \<union> data s \<union> spare s" "phy \<noteq> frame_of (cr3 s)"
  shows "mm_inv s'"
proof -
  have po: "pools_ok s" and os: "one_slot s" and D: "frame_of (cr3 s) \<notin> tables s \<union> data s \<union> spare s"
    and td: "tables s \<inter> data s = {}" and sp: "(tables s \<union> data s) \<inter> spare s = {}"
    using inv by (auto simp: mm_inv_def)
  note tab = pt_step_tables [OF st va] and dat = pt_step_data [OF st phy] and src = pt_step_source [OF st va]
    and sel = pt_step_sel [OF st]
  have free: "spare s' \<subseteq> spare s" "T \<notin> spare s'"
    using pt_step_free(3) [OF po st] src sp by auto
  have "selfmap s'" using st by (simp add: pt_step_def)
  moreover have "one_slot s'" using pt_step_one_slot [OF os st phy] new by blast
  moreover have "frame_of (cr3 s') \<notin> tables s' \<union> data s' \<union> spare s'"
    unfolding sel using tab dat src free D new by blast
  moreover have "tables s' \<inter> data s' = {}" using tab dat src td sp new by blast
  moreover have "(tables s' \<union> data s') \<inter> spare s' = {}" using tab dat free sp new by blast
  ultimately show ?thesis using po by (simp add: mm_inv_def sel)
qed


section \<open>Taking a frame\<close>

lemma bytes_sets [simp]:
  "tables (s\<lparr>bytes := b\<rparr>) = tables s" "data (s\<lparr>bytes := b\<rparr>) = data s" "pools (s\<lparr>bytes := b\<rparr>) = pools s"
  "pools_ok (s\<lparr>bytes := b\<rparr>) = pools_ok s" "one_slot (s\<lparr>bytes := b\<rparr>) = one_slot s"
  by (simp_all add: tables_def data_def pools_def pools_ok_def one_slot_def)

definition pool_of :: "pool_flags \<Rightarrow> 'z kmem_scheme \<Rightarrow> pool" where
  "pool_of pf s = (if pf = PF_KERNEL then kernel_pool s else user_pool s)"

lemma palloc_inv:
  fixes s :: "'z kmem_scheme"
  assumes inv: "mm_inv s" and ne: "free_frames s (pool_of pf s) \<noteq> {}"
  shows "\<exists>F b. palloc (pool_of pf s) s = Inr (F, s\<lparr>bytes := b\<rparr>) \<and> mm_inv (s\<lparr>bytes := b\<rparr>) \<and>
    F \<in> free_frames s (pool_of pf s) \<and> F \<noteq> NULL \<and> frame_of F = F \<and> F \<noteq> frame_of (cr3 s) \<and>
    F \<notin> tables s \<union> data s \<union> spare (s\<lparr>bytes := b\<rparr>) \<and>
    free_frames (s\<lparr>bytes := b\<rparr>) (pool_of pf s) = free_frames s (pool_of pf s) - {F} \<and>
    (\<forall>q. pf \<noteq> q \<longrightarrow> free_frames (s\<lparr>bytes := b\<rparr>) (pool_of q s) = free_frames s (pool_of q s)) \<and>
    (\<forall>c. bm_disjoint (pool_bitmap (pool_of pf s)) c \<longrightarrow> bm.free_slots (s\<lparr>bytes := b\<rparr>) c = bm.free_slots s c)"
proof -
  let ?p = "pool_of pf s"
  have po: "pools_ok s" and D: "frame_of (cr3 s) \<notin> spare s" and sp: "(tables s \<union> data s) \<inter> spare s = {}"
    using inv by (auto simp: mm_inv_def)
  have ok: "pool_ok ?p" using po by (simp add: pools_ok_def pool_of_def)
  from palloc_take [OF ok ne] obtain F s1 where F: "palloc ?p s = Inr (F, s1)" "F \<in> free_frames s ?p"
    "free_frames s1 ?p = free_frames s ?p - {F}" "F \<noteq> NULL" "frame_of F = F" "s1 = s\<lparr>bytes := bytes s1\<rparr>"
    "\<forall>c. bm_disjoint (pool_bitmap ?p) c \<longrightarrow> bm.free_slots s1 c = bm.free_slots s c" by blast
  obtain b where s1: "s1 = s\<lparr>bytes := b\<rparr>" using F(6) by blast
  have other: "free_frames s1 (pool_of q s) = free_frames s (pool_of q s)" if "pf \<noteq> q" for q
  proof -
    have "bm_disjoint (pool_bitmap ?p) (pool_bitmap (pool_of q s))"
      using that po bm_disjoint_sym by (auto simp: pools_ok_def pool_of_def split: if_splits) (metis pool_flags.exhaust)+
    then show ?thesis using F(7) by (simp add: free_frames_def)
  qed
  have pools: "spare t = free_frames t (pool_of PF_KERNEL t) \<union> free_frames t (pool_of PF_USER t)" for t :: "'z kmem_scheme"
    by (simp add: spare_def pool_of_def)
  have same: "pool_of q s1 = pool_of q s" for q by (simp add: s1 pool_of_def)
  have disj: "F \<notin> free_frames s (pool_of q s)" if "pf \<noteq> q" for q
    using F(2) that po free_frames_pool [of s "kernel_pool s"] free_frames_pool [of s "user_pool s"]
    by (cases pf; cases q) (auto simp: pools_ok_def pool_of_def)
  have sub: "spare s1 = spare s - {F}"
    unfolding pools same by (cases pf) (use F(3) other disj in auto)
  have "F \<in> spare s" using F(2) by (cases pf) (auto simp: pools)
  then have nF: "F \<noteq> frame_of (cr3 s)" "F \<notin> tables s \<union> data s \<union> spare s1" using D sp sub by auto
  have "mm_inv s1" using inv sub unfolding mm_inv_def s1 by auto
  then show ?thesis using F other nF unfolding s1 by blast
qed

section \<open>Mapping a run of pages\<close>

definition pages :: "addr \<Rightarrow> nat \<Rightarrow> addr list" where
  "pages va n = map (\<lambda>i. va + of_nat i * PG_SIZE) [0..<n]"

lemma pages_0 [simp]: "pages va 0 = []"
  by (simp add: pages_def)

lemma pages_Suc: "pages va (Suc n) = va # pages (va + PG_SIZE) n"
  by (simp add: pages_def upt_conv_Cons map_Suc_upt [symmetric] algebra_simps comp_def del: upt_Suc)

text \<open>Distinct pages of \<open>A\<close> never share an entry.\<close>

definition apart :: "'z pgmachine_scheme \<Rightarrow> addr set \<Rightarrow> bool" where
  "apart s A = (\<forall>a\<in>A. lower a \<and> (\<forall>b\<in>A. frame_of a \<noteq> frame_of b \<and> slot s a \<noteq> None \<longrightarrow> slot s a \<noteq> slot s b))"

lemma same_page:
  assumes "PDE_IDX a = PDE_IDX b" and "PTE_IDX a = PTE_IDX b"
  shows "frame_of a = frame_of b"
proof -
  have "unat a div 4096 div 1024 = unat b div 4096 div 1024" "unat a div 4096 mod 1024 = unat b div 4096 mod 1024"
    using arg_cong [OF assms(1), of unat] arg_cong [OF assms(2), of unat]
    by (simp_all add: unat_PDE_IDX unat_PTE_IDX div_mult2_eq [symmetric])
  then have "unat a div 4096 = unat b div 4096" by (metis div_mult_mod_eq)
  then have "unat (frame_of a) = unat (frame_of b)" by (simp add: unat_frame_of)
  then show ?thesis by (rule unat_eqI)
qed

lemma pt_step_table_old:
  assumes inv: "mm_inv s" and st: "pt_step s s' va phy T" and "lower v"
    and X: "table_of s' v = Some X" "X \<in> tables s"
  shows "table_of s v = Some X"
proof -
  have tab: "table_of s' v = (if PDE_IDX v = PDE_IDX va then Some T else table_of s v)"
    using st assms(3) by (simp add: pt_step_def)
  have "table_of s va = Some T" if "T \<in> tables s"
    using st
  proof (cases rule: pt_step_alloc)
    case 2
    then have "T \<in> spare s" by (simp add: spare_def)
    with that inv show ?thesis by (auto simp: mm_inv_def)
  qed
  then show ?thesis using tab X table_of_cong [of v va s] by (auto split: if_splits)
qed

lemma pt_step_apart:
  assumes inv: "mm_inv s" and st: "pt_step s s' va phy T" and va: "lower va" and ap: "apart s A"
  shows "apart s' A"
  unfolding apart_def
proof (intro ballI conjI impI)
  fix a b assume ab: "a \<in> A" "b \<in> A" "frame_of a \<noteq> frame_of b \<and> slot s' a \<noteq> None"
  have l: "lower a" "lower b" using ap ab by (auto simp: apart_def)
  have tab: "table_of s' v = (if PDE_IDX v = PDE_IDX va then Some T else table_of s v)" if "lower v" for v
    using st that by (simp add: pt_step_def)
  have old: "slot s a \<noteq> None \<Longrightarrow> slot s a \<noteq> slot s b" "slot s b \<noteq> None \<Longrightarrow> slot s a \<noteq> slot s b"
    using ap ab unfolding apart_def by metis+
  show "slot s' a \<noteq> slot s' b"
  proof
    assume eq: "slot s' a = slot s' b"
    with ab(3) obtain x where x: "slot s' a = Some x" "slot s' b = Some x" by auto
    note E = slot_eq_table [OF x]
    have ne: "PDE_IDX a \<noteq> PDE_IDX b" using E(2) ab(3) same_page by blast
    obtain X where X: "table_of s' a = Some X" "table_of s' b = Some X"
      using E(1) x by (auto simp: slot_def)
    then have "X \<in> tables s" using tab [OF l(1)] tab [OF l(2)] ne l by (auto simp: tables_def split: if_splits)
    then have "table_of s a = Some X" "table_of s b = Some X"
      using pt_step_table_old [OF inv st] X l by blast+
    then have "slot s a = slot s b" "slot s a \<noteq> None" using E(2) by (auto simp: slot_def)
    then show False using old by simp
  qed
qed (use ap in \<open>auto simp: apart_def\<close>)


text \<open>Enough frames for \<open>n\<close> pages of a pool and a new page table for each.\<close>

definition room :: "pool_flags \<Rightarrow> nat \<Rightarrow> 'z kmem_scheme \<Rightarrow> bool" where
  "room pf n s =
     (if pf = PF_KERNEL then 2 * n \<le> card (free_frames s (kernel_pool s))
      else n \<le> card (free_frames s (user_pool s)) \<and> n \<le> card (free_frames s (kernel_pool s)))"

text \<open>What mapping the pages \<open>ps\<close> from the frames \<open>fs\<close> leaves behind.\<close>

definition mapped_run :: "'z kmem_scheme \<Rightarrow> 'z kmem_scheme \<Rightarrow> addr list \<Rightarrow> addr set \<Rightarrow> bool" where
  "mapped_run s s' ps fs = (pt_frame s s' \<and> (\<forall>p\<in>set ps. \<exists>F\<in>fs. page_walk s' p = Some (F + (p AND 0x00000fff)) \<and> frame_of F = F) \<and>
     (\<forall>v. lower v \<and> (\<forall>p\<in>set ps. slot s' v \<noteq> slot s' p) \<longrightarrow> page_walk s' v = page_walk s v) \<and>
     (\<forall>v X. lower v \<and> table_of s v = Some X \<longrightarrow> table_of s' v = Some X) \<and>
     (\<forall>c. bm_disjoint (pool_bitmap (kernel_pool s)) c \<and> bm_disjoint (pool_bitmap (user_pool s)) c \<longrightarrow>
        bm.free_slots s' c = bm.free_slots s c))"

lemma pt_step_slots:
  assumes "pt_step s s' va phy T" and "bm_disjoint (pool_bitmap (kernel_pool s)) c"
  shows "bm.free_slots s' c = bm.free_slots s c"
  using assms(1) by (cases rule: pt_step_alloc) (use assms(2) in \<open>simp_all add: bm.free_slots_def used_def\<close>)

lemma map_page:
  fixes s :: "'z kmem_scheme"
  assumes inv: "mm_inv s" and va: "lower va" "page_walk s va = None" and ap: "apart s A" and rm: "room pf (Suc n) s"
  shows "\<exists>F s1 s2 T. palloc (pool_of pf s) s = Inr (F, s1) \<and> F \<noteq> NULL \<and> frame_of F = F \<and>
    F \<in> free_frames s (pool_of pf s) \<and> page_table_add va F s1 = Inr s2 \<and> (\<exists>b. s1 = s\<lparr>bytes := b\<rparr>) \<and>
    pt_step s1 s2 va F T \<and> mm_inv s2 \<and> apart s2 A \<and> room pf n s2 \<and>
    free_frames s2 (pool_of pf s) \<subseteq> free_frames s (pool_of pf s) \<and>
    (\<forall>c. bm_disjoint (pool_bitmap (kernel_pool s)) c \<and> bm_disjoint (pool_bitmap (user_pool s)) c \<longrightarrow>
        bm.free_slots s2 c = bm.free_slots s c)"
proof -
  let ?p = "pool_of pf s"
  have "free_frames s ?p \<noteq> {}" using rm by (auto simp: room_def pool_of_def split: if_splits)
  from palloc_inv [OF inv this] obtain F b where F: "palloc ?p s = Inr (F, s\<lparr>bytes := b\<rparr>)" "mm_inv (s\<lparr>bytes := b\<rparr>)"
    "F \<in> free_frames s ?p" "F \<noteq> NULL" "frame_of F = F" "F \<noteq> frame_of (cr3 s)"
    "F \<notin> tables s \<union> data s \<union> spare (s\<lparr>bytes := b\<rparr>)"
    "free_frames (s\<lparr>bytes := b\<rparr>) ?p = free_frames s ?p - {F}"
    "\<forall>q. pf \<noteq> q \<longrightarrow> free_frames (s\<lparr>bytes := b\<rparr>) (pool_of q s) = free_frames s (pool_of q s)"
    "\<forall>c. bm_disjoint (pool_bitmap ?p) c \<longrightarrow> bm.free_slots (s\<lparr>bytes := b\<rparr>) c = bm.free_slots s c" by blast
  let ?s = "s\<lparr>bytes := b\<rparr>" and ?K = "kernel_pool s" and ?U = "user_pool s"
  have drop: "card (free_frames s ?p) = Suc (card (free_frames ?s ?p))"
    using F(3,8) card_Suc_Diff1 [OF finite_free_frames F(3)] by simp
  have cK: "Suc (2 * n) \<le> card (free_frames ?s ?K)" if "pf = PF_KERNEL"
    using that rm drop by (simp add: room_def pool_of_def)
  have cU: "n \<le> card (free_frames ?s ?U)" "Suc n \<le> card (free_frames ?s ?K)" if "pf = PF_USER"
    using that rm drop F(9) by (auto simp: room_def pool_of_def)
  have "free_frames ?s (kernel_pool ?s) \<noteq> {}" using cK cU by (cases pf) auto
  with page_table_add_step [OF F(2) va(1) _ F(5)] va(2) obtain s2 T
    where st: "page_table_add va F ?s = Inr s2" "pt_step ?s s2 va F T" by auto
  have "mm_inv s2" using pt_step_inv [OF F(2) st(2) va(1) F(5)] F(6,7) by simp
  moreover have "apart s2 A"
    using pt_step_apart [OF F(2) st(2) va(1)] ap by (simp add: apart_def)
  moreover have po: "pools_ok ?s" using F(2) by (simp add: mm_inv_def)
  note fr = pt_step_free [OF po st(2)]
  have le: "card (free_frames ?s ?K) \<le> Suc (card (free_frames s2 ?K))"
    using fr(1) card_Diff1_le [of "free_frames ?s ?K" T] card_Suc_Diff1 [of "free_frames ?s ?K" T]
    by (cases "T \<in> free_frames ?s ?K") auto
  have "room pf n s2"
    using cK cU le fr(2) pt_step_sel(1,2) [OF st(2)] by (cases pf) (simp_all add: room_def)
  moreover have "free_frames s2 ?p \<subseteq> free_frames s ?p"
    using fr F(8) by (auto simp: pool_of_def split: if_splits)
  moreover have "bm.free_slots s2 c = bm.free_slots s c"
    if "bm_disjoint (pool_bitmap ?K) c \<and> bm_disjoint (pool_bitmap ?U) c" for c
    using pt_step_slots [OF st(2), of c] F(10) that by (simp add: pool_of_def split: if_splits)
  ultimately show ?thesis using F(1,3,4,5) st by blast
qed

lemma pt_frame_trans: "pt_frame s s' \<Longrightarrow> pt_frame s' s'' \<Longrightarrow> pt_frame s s''"
  unfolding pt_frame_def
proof -
  assume "s' = s\<lparr>bytes := bytes s', pmem := pmem s'\<rparr>" "s'' = s'\<lparr>bytes := bytes s'', pmem := pmem s''\<rparr>"
  then obtain b p b' p' where "s' = s\<lparr>bytes := b, pmem := p\<rparr>" "s'' = s'\<lparr>bytes := b', pmem := p'\<rparr>" by blast
  then show "s'' = s\<lparr>bytes := bytes s'', pmem := pmem s''\<rparr>" by simp
qed

lemma mapped_run_Cons:
  fixes s :: "'z kmem_scheme"
  assumes st: "pt_step (s\<lparr>bytes := b\<rparr>) s2 va F T" and va: "lower va" and F: "frame_of F = F" "F \<in> fs"
    and far: "\<And>p. slot s' va \<noteq> None \<Longrightarrow> p \<in> set ps \<Longrightarrow> slot s' va \<noteq> slot s' p" and sub: "fs2 \<subseteq> fs"
    and bm: "\<forall>c. bm_disjoint (pool_bitmap (kernel_pool s)) c \<and> bm_disjoint (pool_bitmap (user_pool s)) c \<longrightarrow>
        bm.free_slots s2 c = bm.free_slots s c"
    and run: "mapped_run s2 s' ps fs2"
  shows "mapped_run s s' (va # ps) fs"
proof -
  have sel: "kernel_pool s2 = kernel_pool s" "user_pool s2 = user_pool s"
    using pt_step_sel(1,2) [OF st] by simp_all
  have walk2: "page_walk s2 v = (if slot s2 v = slot s2 va then Some (F + (v AND 0x00000fff)) else page_walk s v)"
    if "lower v" for v using pt_step_walk [OF st that] by simp
  have tab2: "table_of s' v = Some X" if "lower v" "table_of s2 v = Some X" for v X
    using run that by (simp add: mapped_run_def)
  have keep: "slot s' v = slot s2 v" if "lower v" "slot s2 v \<noteq> None" for v
    using tab2 [OF that(1)] that(2) by (auto simp: slot_def)
  have sva: "slot s2 va \<noteq> None" using walk2 [OF va] by (auto simp: walk_slot split: option.splits)
  have other: "page_walk s' v = page_walk s2 v" if "lower v" "\<forall>p\<in>set ps. slot s' v \<noteq> slot s' p" for v
    using run that by (simp add: mapped_run_def)
  have "page_walk s' va = Some (F + (va AND 0x00000fff))"
    using other [OF va] far keep [OF va sva] sva walk2 [OF va] by simp
  moreover have "\<forall>p\<in>set ps. \<exists>F\<in>fs2. page_walk s' p = Some (F + (p AND 0x00000fff)) \<and> frame_of F = F"
    using run by (simp add: mapped_run_def)
  ultimately have "\<exists>F\<in>fs. page_walk s' p = Some (F + (p AND 0x00000fff)) \<and> frame_of F = F" if "p \<in> set (va # ps)" for p
    using that F sub by (auto intro: rev_bexI)
  moreover have "page_walk s' v = page_walk s v" if "lower v" "\<forall>p\<in>set (va # ps). slot s' v \<noteq> slot s' p" for v
  proof -
    have "slot s2 v \<noteq> slot s2 va" using that keep [OF that(1)] keep [OF va sva] sva by auto
    then show ?thesis using other [OF that(1)] that(2) walk2 [OF that(1)] by simp
  qed
  moreover have "table_of s' v = Some X" if "lower v" "table_of s v = Some X" for v X
    using pt_step_table [OF st that(1), of X] that tab2 by simp
  moreover have "bm.free_slots s' c = bm.free_slots s c"
    if "bm_disjoint (pool_bitmap (kernel_pool s)) c \<and> bm_disjoint (pool_bitmap (user_pool s)) c" for c
    using run bm that by (simp add: mapped_run_def sel)
  moreover have "pt_frame s s'"
  proof (rule pt_frame_trans)
    show "pt_frame s s2"
      by (rule pt_frame_trans [of _ "s\<lparr>bytes := b\<rparr>"]) (use st in \<open>simp_all add: pt_frame_def pt_step_def\<close>)
    show "pt_frame s2 s'" using run by (simp add: mapped_run_def)
  qed
  ultimately show ?thesis unfolding mapped_run_def by blast
qed

lemma map_pages_ok:
  fixes s :: "'z kmem_scheme"
  assumes "mm_inv s" and "apart s A" and "set (pages va n) \<subseteq> A" and "distinct (map frame_of (pages va n))"
    and "\<forall>p\<in>set (pages va n). page_walk s p = None" and "room pf n s"
  shows "\<exists>s'. map_pages pf n va s = Inr (True, s') \<and> mm_inv s' \<and> apart s' A \<and>
    mapped_run s s' (pages va n) (free_frames s (pool_of pf s))"
  using assms
proof (induction n arbitrary: va s)
  case 0
  then show ?case by (simp add: mapped_run_def pt_frame_def)
next
  case (Suc n)
  have va: "va \<in> A" "lower va" "page_walk s va = None" using Suc.prems by (auto simp: pages_Suc apart_def)
  from map_page [OF Suc.prems(1) va(2,3) Suc.prems(2,6)] obtain F s1 s2 T b where
    F: "palloc (pool_of pf s) s = Inr (F, s1)" "F \<noteq> NULL" "frame_of F = F" "F \<in> free_frames s (pool_of pf s)"
    and st: "page_table_add va F s1 = Inr s2" "s1 = s\<lparr>bytes := b\<rparr>" "pt_step s1 s2 va F T" "mm_inv s2" "apart s2 A"
    and rm: "room pf n s2" and sub: "free_frames s2 (pool_of pf s) \<subseteq> free_frames s (pool_of pf s)"
    and bm: "\<forall>c. bm_disjoint (pool_bitmap (kernel_pool s)) c \<and> bm_disjoint (pool_bitmap (user_pool s)) c \<longrightarrow>
        bm.free_slots s2 c = bm.free_slots s c" by metis
  let ?ps = "pages (va + PG_SIZE) n"
  have sel: "kernel_pool s2 = kernel_pool s" "user_pool s2 = user_pool s" "pool_of pf s2 = pool_of pf s"
    using pt_step_sel(1,2) [OF st(3)] by (simp_all add: st(2) pool_of_def)
  have walk2: "page_walk s2 v = (if slot s2 v = slot s2 va then Some (F + (v AND 0x00000fff)) else page_walk s v)"
    if "lower v" for v using pt_step_walk [OF st(3) that] by (simp add: st(2))
  have sva: "slot s2 va \<noteq> None" using walk2 [OF va(2)] by (auto simp: walk_slot split: option.splits)
  have ps: "set ?ps \<subseteq> A" "distinct (map frame_of ?ps)" "\<forall>p\<in>set ?ps. frame_of va \<noteq> frame_of p"
    using Suc.prems(3,4) by (auto simp: pages_Suc)
  have far: "slot t va \<noteq> slot t p" if "apart t A" "slot t va \<noteq> None" "p \<in> set ?ps" for t :: "'z kmem_scheme" and p
    using that va(1) ps(1,3) unfolding apart_def by (metis in_mono)
  have "\<forall>p\<in>set ?ps. page_walk s2 p = None"
  proof
    fix p assume p: "p \<in> set ?ps"
    then have "lower p" "page_walk s p = None" using ps(1) st(5) Suc.prems(5) by (auto simp: pages_Suc apart_def)
    then show "page_walk s2 p = None" using walk2 far [OF st(5) sva p] by auto
  qed
  from Suc.IH [OF st(4,5) ps(1,2) this rm] obtain s' where
    s': "map_pages pf n (va + PG_SIZE) s2 = Inr (True, s')" "mm_inv s'" "apart s' A"
      "mapped_run s2 s' ?ps (free_frames s2 (pool_of pf s2))" by blast
  have run: "map_pages pf (Suc n) va s = Inr (True, s')"
    using F(1,2) st(1) s'(1) by (simp add: pool_of_def)
  have "mapped_run s s' (va # ?ps) (free_frames s (pool_of pf s))"
    using st(3) [unfolded st(2)] va(2) F(3,4) far [OF s'(3)] sub bm s'(4) [unfolded sel]
    by (rule mapped_run_Cons)
  then show ?case using run s' by (auto simp: pages_Suc)
qed


end
