(* ===== verification/Mem_Alloc.thy ===== *)
theory Mem_Alloc
  imports Mem_Inv
begin

text \<open>
  Virtual address spaces and the page allocator's operations as a whole: \<open>malloc_pages\<close> finds a run of
  virtual pages, maps each to a frame of its own and touches no other mapping; \<open>mfree_page\<close> takes the
  run back.
\<close>

section \<open>Virtual address spaces\<close>

definition vpage :: "virtual_addr \<Rightarrow> nat \<Rightarrow> addr" where
  "vpage va i = vaddr_start va + of_nat i * PG_SIZE"

definition vbits :: "virtual_addr \<Rightarrow> nat" where
  "vbits va = bm_bits (vaddr_bitmap va)"

text \<open>
  The bitmap of an address space is one of its own, its pages lie below the window of the page tables,
  no two of them share an entry, and a page whose bit is clear is not mapped.
\<close>

definition vspace_ok :: "'z kmem_scheme \<Rightarrow> virtual_addr \<Rightarrow> bool" where
  "vspace_ok s va = (bm_ok (vaddr_bitmap va) \<and>
     bm_disjoint (pool_bitmap (kernel_pool s)) (vaddr_bitmap va) \<and>
     bm_disjoint (pool_bitmap (user_pool s)) (vaddr_bitmap va) \<and>
     frame_of (vaddr_start va) = vaddr_start va \<and> 0 < unat (vaddr_start va) \<and>
     unat (vaddr_start va) + vbits va * 4096 \<le> 0xffc00000 \<and>
     apart s (vpage va ` {..<vbits va}) \<and>
     (\<forall>i<vbits va. \<not> used s (vaddr_bitmap va) i \<longrightarrow> page_walk s (vpage va i) = None))"

lemma unat_vpage:
  assumes "unat (vaddr_start va) + vbits va * 4096 \<le> 0xffc00000" and "i < vbits va"
  shows "unat (vpage va i) = unat (vaddr_start va) + i * 4096"
proof -
  have b: "unat (vaddr_start va) + i * 4096 < 2 ^ 32" using assms by simp
  then have "unat (of_nat i * PG_SIZE) = i * 4096"
    by (simp add: PG_SIZE_def unat_word_ariths(2) unat_of_nat take_bit_nat_eq_self_iff)
  with b show ?thesis unfolding vpage_def by (subst unat_add_lt) simp_all
qed

lemma vspace_page:
  assumes "vspace_ok s va" and "i < vbits va"
  shows "unat (vpage va i) = unat (vaddr_start va) + i * 4096" "frame_of (vpage va i) = vpage va i"
    "vpage va i \<noteq> NULL" "lower (vpage va i)"
proof -
  show u: "unat (vpage va i) = unat (vaddr_start va) + i * 4096"
    using assms by (intro unat_vpage) (auto simp: vspace_ok_def)
  show "frame_of (vpage va i) = vpage va i"
    using assms(1) by (simp add: frame_of_eq u vspace_ok_def)
  show "vpage va i \<noteq> NULL" using u assms(1) by (auto simp: vspace_ok_def)
  show "lower (vpage va i)" using assms by (auto simp: vspace_ok_def apart_def)
qed

lemma vpage_inj:
  assumes "vspace_ok s va" and "i < vbits va" and "j < vbits va" and "vpage va i = vpage va j"
  shows "i = j"
proof -
  have "unat (vaddr_start va) + i * 4096 = unat (vaddr_start va) + j * 4096"
    unfolding vspace_page(1) [OF assms(1,2), symmetric] vspace_page(1) [OF assms(1,3), symmetric]
    by (rule arg_cong [OF assms(4)])
  then show ?thesis by simp
qed

lemma pages_vpage: "pages (vpage va k) n = map (vpage va) [k..<k + n]"
proof -
  have "map (vpage va) [k..<k + n] = map (\<lambda>i. vpage va (i + k)) [0..<n]"
    by (rule nth_equalityI) (simp_all add: add.commute)
  then show ?thesis by (simp add: pages_def vpage_def algebra_simps)
qed

lemma vspace_run:
  assumes "vspace_ok s va" and "k + n \<le> vbits va"
  shows "set (pages (vpage va k) n) \<subseteq> vpage va ` {..<vbits va}"
    "distinct (map frame_of (pages (vpage va k) n))"
proof -
  show "set (pages (vpage va k) n) \<subseteq> vpage va ` {..<vbits va}"
    using assms(2) by (auto simp: pages_vpage)
  have "map frame_of (pages (vpage va k) n) = map (vpage va) [k..<k + n]"
    unfolding pages_vpage using vspace_page(2) [OF assms(1)] assms(2) by simp
  moreover have "inj_on (vpage va) (set [k..<k + n])"
    using vpage_inj [OF assms(1)] assms(2) by (auto intro!: inj_onI)
  ultimately show "distinct (map frame_of (pages (vpage va k) n))" by (simp add: distinct_map)
qed

section \<open>Marking a run of virtual pages\<close>

lemma set_bits_run:
  fixes s :: "'z machine_scheme"
  assumes "bm_ok b" and v: "v = 0 \<or> v = 1" and "k + n \<le> bm_bits b"
  shows "\<exists>s'. set_bits b (of_nat k) n v s = Inr s' \<and> s' = s\<lparr>bytes := bytes s'\<rparr> \<and>
    (\<forall>j<bm_bits b. used s' b j = (if k \<le> j \<and> j < k + n then v = 1 else used s b j)) \<and>
    (\<forall>c. bm_disjoint b c \<longrightarrow> bm.free_slots s' c = bm.free_slots s c) \<and> (\<forall>x. x \<notin> bm_bytes b \<longrightarrow> bytes s' x = bytes s x)"
  using assms(3)
proof (induction n arbitrary: k s)
  case (Suc n)
  have lt: "bm_bits b < 2 ^ 31" using assms(1) by (simp add: bm_ok_def)
  obtain s1 where s1: "bitmap_set b (of_nat k) v s = Inr s1" using bitmap_set_total [OF v] by blast
  have k: "unat (of_nat k :: u32) = k" using Suc.prems lt by (simp add: unat_of_nat_lt)
  have u1: "used s1 b j = (if j = k then v = 1 else used s b j)" if "j < bm_bits b" for j
    using bitmap_set_used [OF v s1, of j] that lt k by simp
  have o1: "bm.free_slots s1 c = bm.free_slots s c" if "bm_disjoint b c" for c
    by (rule free_slots_other [OF s1 _ that]) (use Suc.prems k in simp)
  obtain s' where s': "set_bits b (of_nat (Suc k)) n v s1 = Inr s'" "s' = s1\<lparr>bytes := bytes s'\<rparr>"
    "\<forall>j<bm_bits b. used s' b j = (if Suc k \<le> j \<and> j < Suc k + n then v = 1 else used s1 b j)"
    "\<forall>c. bm_disjoint b c \<longrightarrow> bm.free_slots s' c = bm.free_slots s1 c" "\<forall>x. x \<notin> bm_bytes b \<longrightarrow> bytes s' x = bytes s1 x"
    using Suc.IH [of "Suc k" s1] Suc.prems by auto
  obtain b1 b2 where "s1 = s\<lparr>bytes := b1\<rparr>" "s' = s1\<lparr>bytes := b2\<rparr>"
    using bitmap_set_bytes [OF s1] s'(2) by blast
  then have "s' = s\<lparr>bytes := bytes s'\<rparr>" by simp
  moreover have "set_bits b (of_nat k) (Suc n) v s = Inr s'" using s1 s'(1) by (simp add: add.commute)
  moreover have "\<forall>j<bm_bits b. used s' b j = (if k \<le> j \<and> j < k + Suc n then v = 1 else used s b j)"
    using s'(3) u1 by auto
  moreover have "bytes s1 x = bytes s x" if "x \<notin> bm_bytes b" for x
    by (rule bitmap_set_outside [OF s1 _ that]) (use Suc.prems k in simp)
  ultimately show ?case using s'(4,5) o1 by auto
qed auto

lemma mm_inv_bytes:
  fixes s :: "'z kmem_scheme"
  assumes "mm_inv s" and "bm.free_slots (s\<lparr>bytes := b\<rparr>) (pool_bitmap (kernel_pool s)) = bm.free_slots s (pool_bitmap (kernel_pool s))"
    and "bm.free_slots (s\<lparr>bytes := b\<rparr>) (pool_bitmap (user_pool s)) = bm.free_slots s (pool_bitmap (user_pool s))"
  shows "mm_inv (s\<lparr>bytes := b\<rparr>)"
proof -
  have "spare (s\<lparr>bytes := b\<rparr>) = spare s" using assms(2,3) by (simp add: spare_def free_frames_def)
  then show ?thesis using assms(1) unfolding mm_inv_def by simp
qed

definition vspace :: "pool_flags \<Rightarrow> 'z kmem_scheme \<Rightarrow> virtual_addr" where
  "vspace pf s =
     (if pf = PF_KERNEL then kernel_vaddr s else userprog_vaddr (tasks s (running_thread s)))"

lemma index_not_minus_1:
  assumes "n < 2 ^ 31"
  shows "(of_nat n :: u32) \<noteq> -1"
proof
  assume "(of_nat n :: u32) = -1"
  then have "unat (of_nat n :: u32) = unat (-1 :: u32)" by simp
  with assms show False by (simp add: unat_of_nat_lt unsigned_minus_1_eq_mask mask_eq_exp_minus_1)
qed

lemma vaddr_get_run:
  fixes s :: "'z kmem_scheme"
  assumes inv: "mm_inv s" and va: "vspace_ok s (vspace pf s)" and c: "1 \<le> unat pg_cnt"
    and j: "j + unat pg_cnt \<le> vbits (vspace pf s)" "free_run s (vaddr_bitmap (vspace pf s)) (unat pg_cnt) j"
    and low: "pf = PF_USER \<Longrightarrow> unat (vpage (vspace pf s) j) < 0xc0000000 - 4096"
  shows "\<exists>k b. k + unat pg_cnt \<le> vbits (vspace pf s) \<and> free_run s (vaddr_bitmap (vspace pf s)) (unat pg_cnt) k \<and>
    vaddr_get pf pg_cnt s = Inr (vpage (vspace pf s) k, s\<lparr>bytes := b\<rparr>) \<and> mm_inv (s\<lparr>bytes := b\<rparr>) \<and>
    (\<forall>q. free_frames (s\<lparr>bytes := b\<rparr>) (pool_of q s) = free_frames s (pool_of q s)) \<and>
    (\<forall>i<vbits (vspace pf s). used (s\<lparr>bytes := b\<rparr>) (vaddr_bitmap (vspace pf s)) i =
       (k \<le> i \<and> i < k + unat pg_cnt \<or> used s (vaddr_bitmap (vspace pf s)) i)) \<and>
    (\<forall>x. x \<notin> bm_bytes (vaddr_bitmap (vspace pf s)) \<longrightarrow> b x = bytes s x)"
proof -
  let ?va = "vspace pf s" and ?n = "unat pg_cnt"
  let ?b = "vaddr_bitmap ?va"
  have ok: "bm_ok ?b" and lt: "bm_bits ?b < 2 ^ 31" using va by (auto simp: vspace_ok_def bm_ok_def)
  obtain k where k: "k \<le> j" "bitmap_scan ?b pg_cnt s = Inr (of_nat k)" "free_run s ?b ?n k"
    using scan_run_found [OF ok c, of j s] j by (auto simp: vbits_def)
  have kn: "k + ?n \<le> bm_bits ?b" using k(1) j(1) by (simp add: vbits_def)
  from set_bits_run [OF ok _ kn, of 1 s] obtain s1 where s1: "set_bits ?b (of_nat k) ?n 1 s = Inr s1"
    "s1 = s\<lparr>bytes := bytes s1\<rparr>" "\<forall>i<bm_bits ?b. used s1 ?b i = (if k \<le> i \<and> i < k + ?n then 1 = (1::u8) else used s ?b i)"
    "\<forall>c. bm_disjoint ?b c \<longrightarrow> bm.free_slots s1 c = bm.free_slots s c"
    "\<forall>x. x \<notin> bm_bytes ?b \<longrightarrow> bytes s1 x = bytes s x" by auto
  obtain b where b: "s1 = s\<lparr>bytes := b\<rparr>" using s1(2) by blast
  have ne: "(of_nat k :: u32) \<noteq> -1" using kn c lt by (intro index_not_minus_1) simp
  have kj: "unat (vpage ?va k) \<le> unat (vpage ?va j)"
    using vspace_page(1) [OF va, of k] vspace_page(1) [OF va, of j] k(1) j(1) c by simp
  have "vpage ?va k < 0xc0000000 - PG_SIZE" if "pf = PF_USER"
    using low [OF that] kj by (simp add: word_less_nat_alt PG_SIZE_def)
  then have run: "vaddr_get pf pg_cnt s = Inr (vpage ?va k, s\<lparr>bytes := b\<rparr>)"
    using k(2) ne s1(1) unfolding b
    by (cases pf) (simp_all add: vaddr_get_def vspace_def vpage_def Let_def)
  have dj: "bm_disjoint ?b (pool_bitmap (pool_of q s))" for q
    using va bm_disjoint_sym by (auto simp: vspace_ok_def pool_of_def)
  have fr: "bm.free_slots (s\<lparr>bytes := b\<rparr>) (pool_bitmap (pool_of q s)) = bm.free_slots s (pool_bitmap (pool_of q s))" for q
    using s1(4) dj b by blast
  have "mm_inv (s\<lparr>bytes := b\<rparr>)"
    using mm_inv_bytes [OF inv] fr [of PF_KERNEL] fr [of PF_USER] by (simp add: pool_of_def)
  moreover have "\<forall>i<vbits ?va. used (s\<lparr>bytes := b\<rparr>) ?b i = (k \<le> i \<and> i < k + ?n \<or> used s ?b i)"
    using s1(3) unfolding b vbits_def by auto
  moreover have "\<forall>q. free_frames (s\<lparr>bytes := b\<rparr>) (pool_of q s) = free_frames s (pool_of q s)"
    using fr by (simp add: free_frames_def)
  moreover have "k + ?n \<le> vbits ?va" using kn by (simp add: vbits_def)
  moreover have "\<forall>x. x \<notin> bm_bytes ?b \<longrightarrow> b x = bytes s x" using s1(5) by (simp add: b)
  ultimately show ?thesis using run k(3) by blast
qed

section \<open>Allocating pages\<close>

text \<open>The result of a successful allocation of \<open>n\<close> pages at page \<open>k\<close> of an address space.\<close>

definition alloc_run :: "'z kmem_scheme \<Rightarrow> 'z kmem_scheme \<Rightarrow> virtual_addr \<Rightarrow> nat \<Rightarrow> nat \<Rightarrow> addr set \<Rightarrow> bool" where
  "alloc_run s s' va k n fs = (pt_frame s s' \<and>
     (\<forall>i<vbits va. used s' (vaddr_bitmap va) i = (k \<le> i \<and> i < k + n \<or> used s (vaddr_bitmap va) i)) \<and>
     (\<forall>i. k \<le> i \<and> i < k + n \<longrightarrow> \<not> used s (vaddr_bitmap va) i) \<and>
     (\<forall>i. k \<le> i \<and> i < k + n \<longrightarrow> page_walk s (vpage va i) = None \<and>
        (\<exists>F\<in>fs. page_walk s' (vpage va i) = Some F)) \<and>
     (\<forall>i j. k \<le> i \<and> i < j \<and> j < k + n \<longrightarrow> page_walk s' (vpage va i) \<noteq> page_walk s' (vpage va j)) \<and>
     (\<forall>v. lower v \<and> (\<forall>i. k \<le> i \<and> i < k + n \<longrightarrow> slot s' v \<noteq> slot s' (vpage va i)) \<longrightarrow>
        page_walk s' v = page_walk s v))"

lemma offset_0: "frame_of p = p \<Longrightarrow> p AND 0x00000fff = 0"
  by (simp add: page_split)

lemma pool_of_bytes: "pool_of pf (s\<lparr>bytes := b\<rparr>) = pool_of pf s"
  by (simp add: pool_of_def)

lemma mapped_alloc_run:
  fixes s :: "'z kmem_scheme"
  assumes inv: "mm_inv s'" and va: "vspace_ok s va" and k: "k + n \<le> vbits va"
    and ap: "apart s' (vpage va ` {..<vbits va})" and fs: "fs \<subseteq> pools s"
    and run0: "\<And>i. k \<le> i \<Longrightarrow> i < k + n \<Longrightarrow> page_walk s (vpage va i) = None"
    and us: "\<forall>i<vbits va. used s' (vaddr_bitmap va) i = (k \<le> i \<and> i < k + n \<or> used s (vaddr_bitmap va) i)"
      "free_run s (vaddr_bitmap va) n k"
    and run: "mapped_run (s\<lparr>bytes := b\<rparr>) s' (pages (vpage va k) n) fs"
  shows "alloc_run s s' va k n fs"
proof -
  have fr: "pt_frame s s'"
    by (rule pt_frame_trans [of _ "s\<lparr>bytes := b\<rparr>"]) (use run in \<open>simp_all add: pt_frame_def mapped_run_def\<close>)
  then obtain b' p where "s' = s\<lparr>bytes := b', pmem := p\<rparr>" unfolding pt_frame_def by blast
  then have pools: "pools s' = pools s" by (simp add: pools_def)
  have at: "\<exists>F\<in>fs. page_walk s' (vpage va i) = Some F \<and> frame_of F = F" if "k \<le> i" "i < k + n" for i
  proof -
    have "vpage va i AND 0x00000fff = 0" by (rule offset_0 [OF vspace_page(2) [OF va]]) (use that k in simp)
    then show ?thesis using run that by (fastforce simp: mapped_run_def pages_vpage)
  qed
  have "page_walk s' (vpage va i) \<noteq> page_walk s' (vpage va j)" if ij: "k \<le> i" "i < j" "j < k + n" for i j
  proof
    assume eq: "page_walk s' (vpage va i) = page_walk s' (vpage va j)"
    obtain F where F: "F \<in> fs" "page_walk s' (vpage va i) = Some F" "frame_of F = F" using at ij by force
    have b: "i < vbits va" "j < vbits va" using ij k by simp_all
    have "slot s' (vpage va i) = slot s' (vpage va j)"
      using inv F eq fs pools vspace_page(4) [OF va] b unfolding mm_inv_def one_slot_def by (metis in_mono)
    moreover have "slot s' (vpage va i) \<noteq> None" using F(2) by (auto simp: walk_slot split: option.splits)
    moreover have "frame_of (vpage va i) \<noteq> frame_of (vpage va j)"
      using vspace_page(2) [OF va] b vpage_inj [OF va b] ij by auto
    ultimately show False using ap b unfolding apart_def by blast
  qed
  moreover have "page_walk s' v = page_walk s v"
    if "lower v" "\<forall>i. k \<le> i \<and> i < k + n \<longrightarrow> slot s' v \<noteq> slot s' (vpage va i)" for v
    using run that by (auto simp: mapped_run_def pages_vpage)
  ultimately show ?thesis unfolding alloc_run_def using fr at run0 us unfolding free_run_def by blast
qed

lemma mapped_vspace_ok:
  fixes s :: "'z kmem_scheme"
  assumes va: "vspace_ok s va" and ap: "apart s' (vpage va ` {..<vbits va})" and run: "alloc_run s s' va k n fs"
    and k: "k + n \<le> vbits va"
  shows "vspace_ok s' va"
proof -
  have us: "\<forall>i<vbits va. used s' (vaddr_bitmap va) i = (k \<le> i \<and> i < k + n \<or> used s (vaddr_bitmap va) i)"
    using run by (simp add: alloc_run_def)
  obtain b p where s': "s' = s\<lparr>bytes := b, pmem := p\<rparr>"
    using run unfolding alloc_run_def pt_frame_def by blast
  have "page_walk s' (vpage va i) = None" if i: "i < vbits va" "\<not> used s' (vaddr_bitmap va) i" for i
  proof -
    have out: "\<not> (k \<le> i \<and> i < k + n)" "\<not> used s (vaddr_bitmap va) i" using us i by auto
    then have 0: "page_walk s (vpage va i) = None" using va i(1) by (simp add: vspace_ok_def)
    show ?thesis
    proof (cases "slot s' (vpage va i)")
      case (Some x)
      have "slot s' (vpage va i) \<noteq> slot s' (vpage va j)" if j: "k \<le> j" "j < k + n" for j
      proof -
        have jb: "j < vbits va" using j k by simp
        have "frame_of (vpage va i) \<noteq> frame_of (vpage va j)"
          using vspace_page(2) [OF va] i(1) jb vpage_inj [OF va i(1) jb] out j by auto
        then show ?thesis using ap i(1) jb Some unfolding apart_def by blast
      qed
      then show ?thesis using run vspace_page(4) [OF va i(1)] 0 by (simp add: alloc_run_def)
    qed (simp add: walk_slot)
  qed
  then show ?thesis using va ap unfolding vspace_ok_def by (simp add: s')
qed

lemma malloc_pages_run:
  fixes s :: "'z kmem_scheme"
  assumes inv: "mm_inv s" and va: "vspace_ok s (vspace pf s)" and c: "0 < unat pg_cnt" "unat pg_cnt < 57600"
    and j: "j + unat pg_cnt \<le> vbits (vspace pf s)" "free_run s (vaddr_bitmap (vspace pf s)) (unat pg_cnt) j"
    and low: "pf = PF_USER \<Longrightarrow> unat (vpage (vspace pf s) j) < 0xc0000000 - 4096"
    and rm: "room pf (unat pg_cnt) s"
  shows "\<exists>k s'. k + unat pg_cnt \<le> vbits (vspace pf s) \<and> malloc_pages pf pg_cnt s = Inr (vpage (vspace pf s) k, s') \<and>
    mm_inv s' \<and> vspace_ok s' (vspace pf s) \<and>
    alloc_run s s' (vspace pf s) k (unat pg_cnt) (free_frames s (pool_of pf s))"
proof -
  let ?va = "vspace pf s" and ?n = "unat pg_cnt"
  let ?A = "vpage ?va ` {..<vbits ?va}" and ?b = "vaddr_bitmap ?va"
  have c1: "1 \<le> ?n" using c(1) by simp
  from vaddr_get_run [OF inv va c1 j low] obtain k b where k: "k + ?n \<le> vbits ?va" "free_run s ?b ?n k"
    and get: "vaddr_get pf pg_cnt s = Inr (vpage ?va k, s\<lparr>bytes := b\<rparr>)" "mm_inv (s\<lparr>bytes := b\<rparr>)"
    and fr: "\<forall>q. free_frames (s\<lparr>bytes := b\<rparr>) (pool_of q s) = free_frames s (pool_of q s)"
    and us: "\<forall>i<vbits ?va. used (s\<lparr>bytes := b\<rparr>) ?b i = (k \<le> i \<and> i < k + ?n \<or> used s ?b i)" by blast
  let ?s = "s\<lparr>bytes := b\<rparr>" and ?ps = "pages (vpage ?va k) ?n"
  have free: "page_walk s (vpage ?va i) = None" if "i < vbits ?va" "\<not> used s ?b i" for i
    using va that by (simp add: vspace_ok_def)
  have run0: "page_walk s (vpage ?va i) = None" if "k \<le> i" "i < k + ?n" for i
    using k that by (intro free) (auto simp: free_run_def)
  have ap: "apart ?s ?A" using va by (simp add: vspace_ok_def apart_def)
  have rm': "room pf ?n ?s" using rm fr [THEN spec, of PF_KERNEL] fr [THEN spec, of PF_USER]
    by (simp add: room_def pool_of_def)
  have un: "\<forall>p\<in>set ?ps. page_walk ?s p = None" using run0 by (auto simp: pages_vpage)
  from map_pages_ok [OF get(2) ap vspace_run [OF va k(1)] un rm'] obtain s' where
    s': "map_pages pf ?n (vpage ?va k) ?s = Inr (True, s')" "mm_inv s'" "apart s' ?A"
      "mapped_run ?s s' ?ps (free_frames ?s (pool_of pf ?s))" by blast
  have us': "\<forall>i<vbits ?va. used s' ?b i = (k \<le> i \<and> i < k + ?n \<or> used s ?b i)"
  proof -
    have "bm.free_slots s' ?b = bm.free_slots ?s ?b" using s'(4) va by (simp add: mapped_run_def vspace_ok_def)
    then have "used s' ?b i = used ?s ?b i" if "i < vbits ?va" for i
      using that unfolding bm.free_slots_def vbits_def by blast
    then show ?thesis using us by blast
  qed
  have "pg_cnt > 0 \<and> pg_cnt < 57600" using c by (simp add: word_less_nat_alt)
  then have "malloc_pages pf pg_cnt s = Inr (vpage ?va k, s')"
    using get(1) s'(1) vspace_page(3) [OF va, of k] k(1) c1 by (simp add: malloc_pages_def)
  moreover have "free_frames s (pool_of pf s) \<subseteq> pools s"
    using free_frames_pool [of s "pool_of pf s"] by (auto simp: pool_of_def pools_def)
  then have ar: "alloc_run s s' ?va k ?n (free_frames s (pool_of pf s))"
    using mapped_alloc_run [where b = b, OF s'(2) va k(1) s'(3) _ run0 us' k(2)]
      s'(4) [unfolded pool_of_bytes spec [OF fr]] by blast
  moreover have "vspace_ok s' ?va" by (rule mapped_vspace_ok [OF va s'(3) ar k(1)])
  ultimately show ?thesis using s'(2) k(1) by blast
qed


section \<open>Giving pages back\<close>

lemma frame_at_index:
  assumes "pool_ok p" and "i < bm_bits (pool_bitmap p)"
  shows "(frame_at p i - phy_addr_start p) div PG_SIZE = of_nat i"
proof (rule unat_eqI)
  have lt: "i * 4096 < 2 ^ 32" using assms by (auto simp: pool_ok_def)
  have "unat (of_nat i * PG_SIZE) = i * 4096"
    using lt by (simp add: PG_SIZE_def unat_word_ariths(2) unat_of_nat take_bit_nat_eq_self_iff)
  then show "unat ((frame_at p i - phy_addr_start p) div PG_SIZE) = unat (of_nat i :: u32)"
    using lt by (simp add: frame_at_def PG_SIZE_def unat_div unat_of_nat_lt)
qed

text \<open>The kernel's frames lie below the user's, as \<open>mem_pool_init\<close> lays them out.\<close>

definition pools_ordered :: "'z kmem_scheme \<Rightarrow> bool" where
  "pools_ordered s =
     (unat (phy_addr_start (kernel_pool s)) + bm_bits (pool_bitmap (kernel_pool s)) * 4096
        \<le> unat (phy_addr_start (user_pool s)))"

lemma pfree_gives_back:
  fixes s :: "'z kmem_scheme"
  assumes po: "pools_ok s" and ord: "pools_ordered s" and F: "F \<in> pool_frames (pool_of pf s)"
  shows "\<exists>b. pfree F s = Inr (s\<lparr>bytes := b\<rparr>) \<and>
    free_frames (s\<lparr>bytes := b\<rparr>) (pool_of pf s) = insert F (free_frames s (pool_of pf s)) \<and>
    (\<forall>q. q \<noteq> pf \<longrightarrow> free_frames (s\<lparr>bytes := b\<rparr>) (pool_of q s) = free_frames s (pool_of q s)) \<and>
    (\<forall>c. bm_disjoint (pool_bitmap (pool_of pf s)) c \<longrightarrow> bm.free_slots (s\<lparr>bytes := b\<rparr>) c = bm.free_slots s c) \<and>
    (\<forall>x. x \<notin> bm_bytes (pool_bitmap (pool_of pf s)) \<longrightarrow> b x = bytes s x)"
proof -
  let ?p = "pool_of pf s"
  let ?b = "pool_bitmap ?p"
  have ok: "pool_ok ?p" "bm_ok ?b" using po by (auto simp: pools_ok_def pool_of_def pool_ok_def)
  obtain i where i: "i < bm_bits ?b" "F = frame_at ?p i" using F by (auto simp: pool_frames_def)
  have u: "unat F = i * 4096 + unat (phy_addr_start ?p)" using unat_frame_at [OF ok(1) i(1)] i(2) by simp
  have side: "phy_addr_start (user_pool s) \<le> F \<longleftrightarrow> pf = PF_USER"
    using u i(1) ord by (cases pf) (auto simp: pool_of_def pools_ordered_def word_le_nat_alt)
  have idx: "(F - phy_addr_start ?p) div PG_SIZE = of_nat i" using frame_at_index [OF ok(1) i(1)] i(2) by simp
  obtain s1 where s1: "bm_mark ?b (of_nat i) False s = Inr s1" using bm.mark_total by blast
  have set: "bitmap_set ?b (of_nat i) 0 s = Inr s1" using s1 by (simp add: bm_mark_def)
  have run: "pfree F s = Inr s1" using side idx set by (cases pf) (auto simp: pfree_def pool_of_def)
  obtain b where b: "s1 = s\<lparr>bytes := b\<rparr>" using bitmap_set_bytes [OF set] by blast
  have ui: "unat (of_nat i :: u32) = i" using i(1) ok(2) by (simp add: bm_ok_def unat_of_nat_lt)
  have "bm.free_slots s1 ?b = insert i (bm.free_slots s ?b)"
    using bm.free_slots_mark [OF ok(2) s1] i(1) ui by auto
  then have ins: "free_frames s1 ?p = insert F (free_frames s ?p)" by (simp add: free_frames_def i(2))
  have o: "bm.free_slots s1 c = bm.free_slots s c" if "bm_disjoint ?b c" for c
    using free_slots_other [OF set _ that] i(1) ui by simp
  have "free_frames s1 (pool_of q s) = free_frames s (pool_of q s)" if "q \<noteq> pf" for q
  proof -
    have "bm_disjoint ?b (pool_bitmap (pool_of q s))"
      using that po bm_disjoint_sym by (cases pf; cases q) (auto simp: pools_ok_def pool_of_def)
    then show ?thesis using o by (simp add: free_frames_def)
  qed
  moreover have "b x = bytes s x" if "x \<notin> bm_bytes ?b" for x
    using bitmap_set_outside [OF set _ that] i(1) ui b by simp
  ultimately show ?thesis using run ins o unfolding b by blast
qed

text \<open>What removing the entry of a page does to the walk.\<close>

lemma pte_remove_walk:
  fixes s :: "'z kmem_scheme"
  assumes sm: "selfmap s" and nD: "frame_of (cr3 s) \<notin> tables s" and p: "lower p" "page_walk s p = Some F"
  shows "\<exists>m. page_table_pte_remove p s = Inr (s\<lparr>pmem := m\<rparr>) \<and> selfmap (s\<lparr>pmem := m\<rparr>) \<and>
    (\<forall>v. table_of (s\<lparr>pmem := m\<rparr>) v = table_of s v) \<and>
    (\<forall>v. lower v \<longrightarrow> page_walk (s\<lparr>pmem := m\<rparr>) v = (if slot s v = slot s p then None else page_walk s v))"
proof -
  obtain T where T: "table_of s p = Some T" using walk_table [OF p(2)] by blast
  have pr: "present (pmem s (pde_pa s p))" and pa: "pte_pa s p = T + PTE_IDX p * 4"
    using T by (auto simp: table_of_def pte_pa_def split: if_splits)
  have nT: "T \<noteq> frame_of (cr3 s)" using nD T p(1) by (auto simp: tables_def)
  let ?s = "pwr (T + PTE_IDX p * 4) 0 s"
  note D = pwr_dir [OF table_of_frame [OF T] nT PTE_IDX_lt [of p], where v = 0]
  have tab: "table_of ?s v = table_of s v" for v unfolding table_of_def D ..
  then have sl: "slot ?s v = slot s v" for v by (simp only: slot_def)
  have sp: "slot s p = Some (T + PTE_IDX p * 4)" by (simp add: slot_def T)
  have "page_walk ?s v = (if slot s v = slot s p then None else page_walk s v)" for v
    unfolding walk_slot sl by (auto simp: sp present_def split: option.splits)
  moreover have "page_table_pte_remove p s = Inr ?s" using page_table_pte_remove_eq [OF sm pr] pa by simp
  ultimately show ?thesis using tab D(3) sm unfolding pwr_def by (intro exI) auto
qed


definition unmapped_run :: "'z kmem_scheme \<Rightarrow> 'z kmem_scheme \<Rightarrow> addr list \<Rightarrow> pool_flags \<Rightarrow> bool" where
  "unmapped_run s s' ps pf = (pt_frame s s' \<and> (\<forall>v. table_of s' v = table_of s v) \<and>
     (\<forall>v. lower v \<longrightarrow> page_walk s' v = (if \<exists>p\<in>set ps. slot s v = slot s p then None else page_walk s v)) \<and>
     free_frames s' (pool_of pf s) = free_frames s (pool_of pf s) \<union> {F. \<exists>p\<in>set ps. page_walk s p = Some F} \<and>
     (\<forall>c. bm_disjoint (pool_bitmap (kernel_pool s)) c \<and> bm_disjoint (pool_bitmap (user_pool s)) c \<longrightarrow>
        bm.free_slots s' c = bm.free_slots s c) \<and>
     (\<forall>x. x \<notin> bm_bytes (pool_bitmap (pool_of pf s)) \<longrightarrow> bytes s' x = bytes s x))"

lemma pool_frame_of:
  assumes "pool_ok p" and "F \<in> pool_frames p"
  shows "frame_of F = F" and "unat (phy_addr_start p) \<le> unat F"
    and "unat F < unat (phy_addr_start p) + bm_bits (pool_bitmap p) * 4096"
  using assms frame_of_frame_at [OF assms(1)] unat_frame_at [OF assms(1)] by (auto simp: pool_frames_def)

lemma unmap_inv:
  fixes s :: "'z kmem_scheme"
  assumes inv: "mm_inv s" and p: "lower p" "page_walk s p = Some F" and F: "F \<in> pools s" "frame_of F = F"
    and s': "pt_frame s s'" "selfmap s'" "\<And>v. table_of s' v = table_of s v" "spare s' = insert F (spare s)"
    "\<And>v. lower v \<Longrightarrow> page_walk s' v = (if slot s v = slot s p then None else page_walk s v)"
  shows "mm_inv s'"
proof -
  have D: "frame_of (cr3 s) \<notin> tables s \<union> data s \<union> spare s" and td: "tables s \<inter> data s = {}"
    and sp: "(tables s \<union> data s) \<inter> spare s = {}" and os: "one_slot s" and po: "pools_ok s"
    using inv by (auto simp: mm_inv_def)
  obtain b m where eq: "s' = s\<lparr>bytes := b, pmem := m\<rparr>" using s'(1) unfolding pt_frame_def by blast
  have sel: "cr3 s' = cr3 s" "pools s' = pools s" "pools_ok s' = pools_ok s"
    by (simp_all add: eq pools_def pools_ok_def)
  have sl: "slot s' v = slot s v" for v using s'(3) by (simp add: slot_def)
  have walk: "page_walk s v = Some pa \<and> slot s v \<noteq> slot s p" if "lower v" "page_walk s' v = Some pa" for v pa
    using s'(5) [OF that(1)] that(2) by (auto split: if_splits)
  have tab: "tables s' = tables s" by (simp add: tables_def s'(3))
  have dF: "F \<in> data s" using p F(2) by (auto simp: data_def)
  have dat: "data s' \<subseteq> data s" using walk by (fastforce simp: data_def)
  have nF: "F \<notin> data s'"
  proof
    assume "F \<in> data s'"
    then obtain v pa where v: "lower v" "page_walk s' v = Some pa" "frame_of pa = F" by (auto simp: data_def)
    then show False using walk [OF v(1,2)] os p F unfolding one_slot_def by metis
  qed
  have "one_slot s'" using os walk unfolding one_slot_def sel sl by blast
  then show ?thesis
    using s'(2,4) D td sp po dF dat nF by (auto simp: mm_inv_def sel tab)
qed

lemma unmap_page:
  fixes s :: "'z kmem_scheme"
  assumes inv: "mm_inv s" and ord: "pools_ordered s" and p: "lower p" "page_walk s p = Some F"
    and F: "F \<in> pool_frames (pool_of pf s)"
  shows "\<exists>s'. bind_r (pfree F s) (page_table_pte_remove p) = Inr s' \<and> mm_inv s' \<and> unmapped_run s s' [p] pf"
proof -
  have po: "pools_ok s" using inv by (simp add: mm_inv_def)
  have ok: "pool_ok (pool_of pf s)" using po by (simp add: pools_ok_def pool_of_def)
  from pfree_gives_back [OF po ord F] obtain b where b: "pfree F s = Inr (s\<lparr>bytes := b\<rparr>)"
    "free_frames (s\<lparr>bytes := b\<rparr>) (pool_of pf s) = insert F (free_frames s (pool_of pf s))"
    "\<forall>q. q \<noteq> pf \<longrightarrow> free_frames (s\<lparr>bytes := b\<rparr>) (pool_of q s) = free_frames s (pool_of q s)"
    "\<forall>c. bm_disjoint (pool_bitmap (pool_of pf s)) c \<longrightarrow> bm.free_slots (s\<lparr>bytes := b\<rparr>) c = bm.free_slots s c"
    "\<forall>x. x \<notin> bm_bytes (pool_bitmap (pool_of pf s)) \<longrightarrow> b x = bytes s x" by blast
  have "selfmap (s\<lparr>bytes := b\<rparr>)" "frame_of (cr3 (s\<lparr>bytes := b\<rparr>)) \<notin> tables (s\<lparr>bytes := b\<rparr>)"
    using inv by (simp_all add: mm_inv_def)
  from pte_remove_walk [OF this p(1)] p(2) obtain m where
    m: "page_table_pte_remove p (s\<lparr>bytes := b\<rparr>) = Inr (s\<lparr>bytes := b, pmem := m\<rparr>)" "selfmap (s\<lparr>bytes := b, pmem := m\<rparr>)"
      "\<forall>v. table_of (s\<lparr>bytes := b, pmem := m\<rparr>) v = table_of s v"
      "\<forall>v. lower v \<longrightarrow> page_walk (s\<lparr>bytes := b, pmem := m\<rparr>) v = (if slot s v = slot s p then None else page_walk s v)" by auto
  let ?s = "s\<lparr>bytes := b, pmem := m\<rparr>"
  have view: "free_frames ?s q = free_frames (s\<lparr>bytes := b\<rparr>) q" "bm.free_slots ?s c = bm.free_slots (s\<lparr>bytes := b\<rparr>) c" for q c
    by (simp_all add: free_frames_def bm.free_slots_def used_def)
  have "spare ?s = insert F (spare s)"
    using b(2) b(3) [THEN spec, of PF_KERNEL] b(3) [THEN spec, of PF_USER]
    by (cases pf) (auto simp: spare_def view pool_of_def)
  moreover have "F \<in> pools s" using F by (auto simp: pools_def pool_of_def split: if_splits)
  ultimately have "mm_inv ?s"
    using m by (intro unmap_inv [OF inv p _ pool_frame_of(1) [OF ok F]]) (simp_all add: pt_frame_def)
  moreover have "unmapped_run s ?s [p] pf"
    using m b(2,4,5) p(2) unfolding unmapped_run_def view
    by (auto simp: pt_frame_def pool_of_def split: if_splits)
  ultimately show ?thesis using b(1) m(1) by auto
qed


lemma unmapped_run_sel:
  assumes "unmapped_run s s' ps pf"
  shows "kernel_pool s' = kernel_pool s" "user_pool s' = user_pool s" "pool_of q s' = pool_of q s"
    "kernel_vaddr s' = kernel_vaddr s" "tasks s' = tasks s" "running_thread s' = running_thread s"
    "slot s' v = slot s v" "pools_ordered s' = pools_ordered s" "apart s' A = apart s A"
proof -
  obtain b m where eq: "s' = s\<lparr>bytes := b, pmem := m\<rparr>"
    using assms unfolding unmapped_run_def pt_frame_def by blast
  show "kernel_pool s' = kernel_pool s" "user_pool s' = user_pool s" "pool_of q s' = pool_of q s"
    "kernel_vaddr s' = kernel_vaddr s" "tasks s' = tasks s" "running_thread s' = running_thread s"
    "pools_ordered s' = pools_ordered s"
    by (simp_all add: eq pool_of_def running_thread_def pools_ordered_def)
  have sl: "slot s' v = slot s v" for v using assms by (simp add: unmapped_run_def slot_def)
  then show "slot s' v = slot s v" "apart s' A = apart s A" by (simp_all add: apart_def)
qed

lemma unmapped_run_Cons:
  fixes s :: "'z kmem_scheme"
  assumes a: "unmapped_run s s1 [p] pf" and b: "unmapped_run s1 s2 ps pf"
    and far: "\<And>q. q \<in> set ps \<Longrightarrow> lower q \<and> slot s q \<noteq> slot s p"
  shows "unmapped_run s s2 (p # ps) pf"
proof -
  note sel = unmapped_run_sel [OF a]
  have w1: "page_walk s1 v = (if slot s v = slot s p then None else page_walk s v)" if "lower v" for v
    using a that by (simp add: unmapped_run_def)
  have w2: "page_walk s2 v = (if \<exists>q\<in>set ps. slot s v = slot s q then None else page_walk s1 v)" if "lower v" for v
    using b that by (simp add: unmapped_run_def sel)
  have "page_walk s1 q = page_walk s q" if "q \<in> set ps" for q using w1 far [OF that] by simp
  then have "free_frames s2 (pool_of pf s) =
      free_frames s (pool_of pf s) \<union> {F. \<exists>q\<in>set (p # ps). page_walk s q = Some F}"
    using a b unfolding unmapped_run_def sel by auto
  moreover have "pt_frame s s2" using a b pt_frame_trans unfolding unmapped_run_def by blast
  moreover have "page_walk s2 v = (if \<exists>q\<in>set (p # ps). slot s v = slot s q then None else page_walk s v)"
    if "lower v" for v using w1 [OF that] w2 [OF that] by auto
  moreover have "table_of s2 v = table_of s v" for v using a b by (simp add: unmapped_run_def)
  ultimately show ?thesis using a b unfolding unmapped_run_def sel by simp
qed

text \<open>A page that can be given back: mapped to a frame of the pool the code's assertions accept.\<close>

definition freeable :: "pool_flags \<Rightarrow> 'z kmem_scheme \<Rightarrow> addr \<Rightarrow> bool" where
  "freeable pf s p = (\<exists>F\<in>pool_frames (pool_of pf s). page_walk s p = Some F \<and>
     (pf = PF_USER \<longrightarrow> F \<noteq> phy_addr_start (user_pool s)))"

lemma frame_mod: "frame_of F = F \<Longrightarrow> F mod PG_SIZE = 0"
  by (rule unat_eqI) (simp add: frame_of_eq unat_mod PG_SIZE_def)

lemma free_check:
  fixes s :: "'z kmem_scheme"
  assumes po: "pools_ok s" and ord: "pools_ordered s" and F: "F \<in> pool_frames (pool_of pf s)"
    "pf = PF_USER \<longrightarrow> F \<noteq> phy_addr_start (user_pool s)"
  shows "F mod PG_SIZE = 0 \<and> (if pf = PF_USER then F > phy_addr_start (user_pool s)
      else F \<ge> phy_addr_start (kernel_pool s) \<and> F < phy_addr_start (user_pool s))"
    "F \<ge> phy_addr_start (user_pool s) \<longleftrightarrow> pf = PF_USER"
proof -
  have ok: "pool_ok (pool_of pf s)" using po by (simp add: pools_ok_def pool_of_def)
  note P = pool_frame_of [OF ok F(1)]
  have lt: "unat F < unat (phy_addr_start (user_pool s))" if "pf = PF_KERNEL"
    using P ord that by (simp add: pool_of_def pools_ordered_def)
  then show "F \<ge> phy_addr_start (user_pool s) \<longleftrightarrow> pf = PF_USER"
    using P by (cases pf) (auto simp: pool_of_def word_le_nat_alt)
  have "F > phy_addr_start (user_pool s)" if "pf = PF_USER"
    using P F(2) that by (simp add: pool_of_def order_less_le word_le_nat_alt [symmetric])
  then show "F mod PG_SIZE = 0 \<and> (if pf = PF_USER then F > phy_addr_start (user_pool s)
      else F \<ge> phy_addr_start (kernel_pool s) \<and> F < phy_addr_start (user_pool s))"
    using P lt frame_mod by (cases pf) (simp_all add: pool_of_def word_le_nat_alt word_less_nat_alt)
qed

lemma free_pages_ok:
  fixes s :: "'z kmem_scheme"
  assumes "mm_inv s" and "pools_ordered s" and "apart s A" and "set (pages va n) \<subseteq> A"
    and "distinct (map frame_of (pages va n))" and "\<forall>p\<in>set (pages va n). freeable pf s p"
  shows "\<exists>s'. free_pages (pf = PF_USER) n va s = Inr s' \<and> mm_inv s' \<and> unmapped_run s s' (pages va n) pf"
  using assms
proof (induction n arbitrary: va s)
  case 0
  then show ?case by (simp add: unmapped_run_def pt_frame_def)
next
  case (Suc n)
  let ?ps = "pages (va + PG_SIZE) n"
  have va: "va \<in> A" "lower va" "freeable pf s va" using Suc.prems by (auto simp: pages_Suc apart_def)
  obtain F where F: "F \<in> pool_frames (pool_of pf s)" "page_walk s va = Some F"
    "pf = PF_USER \<longrightarrow> F \<noteq> phy_addr_start (user_pool s)" using va(3) by (auto simp: freeable_def)
  have po: "pools_ok s" and sm: "selfmap s" using Suc.prems(1) by (simp_all add: mm_inv_def)
  from unmap_page [OF Suc.prems(1,2) va(2) F(2,1)] obtain s1 where
    s1: "bind_r (pfree F s) (page_table_pte_remove va) = Inr s1" "mm_inv s1" "unmapped_run s s1 [va] pf" by blast
  note sel = unmapped_run_sel [OF s1(3)]
  have sva: "slot s va \<noteq> None" using F(2) by (auto simp: walk_slot split: option.splits)
  have far: "lower q \<and> slot s q \<noteq> slot s va" if "q \<in> set ?ps" for q
  proof -
    have "q \<in> A" "frame_of va \<noteq> frame_of q" using that Suc.prems(4,5) by (auto simp: pages_Suc)
    then have "lower q" "slot s va \<noteq> slot s q" using Suc.prems(3) va(1) sva unfolding apart_def by blast+
    then show ?thesis by simp
  qed
  have "freeable pf s1 q" if q: "q \<in> set ?ps" for q
  proof -
    have "page_walk s1 q = page_walk s q" using s1(3) far [OF q] by (simp add: unmapped_run_def)
    then show ?thesis using Suc.prems(6) q by (simp add: freeable_def sel pages_Suc)
  qed
  then obtain s' where s': "free_pages (pf = PF_USER) n (va + PG_SIZE) s1 = Inr s'" "mm_inv s'"
    "unmapped_run s1 s' ?ps pf"
    using Suc.IH [of s1 "va + PG_SIZE"] Suc.prems s1(2) sel by (auto simp: pages_Suc)
  have "free_pages (pf = PF_USER) (Suc n) va s = Inr s'"
    using s1(1) s'(1) addr_v2p_walk [OF sm F(2)] free_check(1) [OF po Suc.prems(2) F(1,3)]
    by (simp add: bind_r_assoc [symmetric])
  then show ?case using s'(2) unmapped_run_Cons [OF s1(3) s'(3) far] by (auto simp: pages_Suc)
qed


definition freed_run :: "'z kmem_scheme \<Rightarrow> 'z kmem_scheme \<Rightarrow> virtual_addr \<Rightarrow> nat \<Rightarrow> nat \<Rightarrow> pool_flags \<Rightarrow> bool" where
  "freed_run s s' va k n pf = (pt_frame s s' \<and>
     (\<forall>i. k \<le> i \<and> i < k + n \<longrightarrow> page_walk s' (vpage va i) = None \<and> \<not> used s' (vaddr_bitmap va) i) \<and>
     (\<forall>i<vbits va. \<not> (k \<le> i \<and> i < k + n) \<longrightarrow> used s' (vaddr_bitmap va) i = used s (vaddr_bitmap va) i) \<and>
     free_frames s' (pool_of pf s) =
       free_frames s (pool_of pf s) \<union> {F. \<exists>i. k \<le> i \<and> i < k + n \<and> page_walk s (vpage va i) = Some F} \<and>
     (\<forall>v. lower v \<and> (\<forall>i. k \<le> i \<and> i < k + n \<longrightarrow> slot s v \<noteq> slot s (vpage va i)) \<longrightarrow>
        page_walk s' v = page_walk s v) \<and>
     (\<forall>x. x \<notin> bm_bytes (pool_bitmap (pool_of pf s)) \<and> x \<notin> bm_bytes (vaddr_bitmap va) \<longrightarrow> bytes s' x = bytes s x))"

lemma vpage_index:
  assumes "vspace_ok s va" and "i < vbits va"
  shows "(vpage va i - vaddr_start va) div PG_SIZE = of_nat i"
proof (rule unat_eqI)
  have lt: "i * 4096 < 2 ^ 32" using assms by (auto simp: vspace_ok_def)
  have "unat (of_nat i * PG_SIZE) = i * 4096"
    using lt by (simp add: PG_SIZE_def unat_word_ariths(2) unat_of_nat take_bit_nat_eq_self_iff)
  then show "unat ((vpage va i - vaddr_start va) div PG_SIZE) = unat (of_nat i :: u32)"
    using lt by (simp add: vpage_def PG_SIZE_def unat_div unat_of_nat_lt)
qed

lemma vaddr_remove_run:
  fixes s :: "'z kmem_scheme"
  assumes inv: "mm_inv s" and va: "vspace pf s = va" "bm_ok (vaddr_bitmap va)"
    "bm_disjoint (pool_bitmap (kernel_pool s)) (vaddr_bitmap va)" "bm_disjoint (pool_bitmap (user_pool s)) (vaddr_bitmap va)"
    and k: "k + unat pg_cnt \<le> vbits va" "(vpage va k - vaddr_start va) div PG_SIZE = of_nat k"
  shows "\<exists>b. vaddr_remove pf (vpage va k) pg_cnt s = Inr (s\<lparr>bytes := b\<rparr>) \<and> mm_inv (s\<lparr>bytes := b\<rparr>) \<and>
    (\<forall>q. free_frames (s\<lparr>bytes := b\<rparr>) (pool_of q s) = free_frames s (pool_of q s)) \<and>
    (\<forall>i<vbits va. used (s\<lparr>bytes := b\<rparr>) (vaddr_bitmap va) i =
       (\<not> (k \<le> i \<and> i < k + unat pg_cnt) \<and> used s (vaddr_bitmap va) i)) \<and>
    (\<forall>x. x \<notin> bm_bytes (vaddr_bitmap va) \<longrightarrow> b x = bytes s x)"
proof -
  let ?b = "vaddr_bitmap va"
  from set_bits_run [OF va(2) _ k(1) [unfolded vbits_def], of 0 s] obtain s1 where
    s1: "set_bits ?b (of_nat k) (unat pg_cnt) 0 s = Inr s1" "s1 = s\<lparr>bytes := bytes s1\<rparr>"
      "\<forall>i<bm_bits ?b. used s1 ?b i = (if k \<le> i \<and> i < k + unat pg_cnt then 0 = (1::u8) else used s ?b i)"
      "\<forall>c. bm_disjoint ?b c \<longrightarrow> bm.free_slots s1 c = bm.free_slots s c"
      "\<forall>x. x \<notin> bm_bytes ?b \<longrightarrow> bytes s1 x = bytes s x" by auto
  obtain b where b: "s1 = s\<lparr>bytes := b\<rparr>" using s1(2) by blast
  have run: "vaddr_remove pf (vpage va k) pg_cnt s = Inr (s\<lparr>bytes := b\<rparr>)"
    using s1(1) k(2) va(1) unfolding b by (simp add: vaddr_remove_def vspace_def Let_def)
  have fr: "bm.free_slots (s\<lparr>bytes := b\<rparr>) (pool_bitmap (pool_of q s)) = bm.free_slots s (pool_bitmap (pool_of q s))" for q
    using s1(4) va(3,4) bm_disjoint_sym unfolding b pool_of_def by auto
  have "mm_inv (s\<lparr>bytes := b\<rparr>)"
    using mm_inv_bytes [OF inv] fr [of PF_KERNEL] fr [of PF_USER] by (simp add: pool_of_def)
  moreover have "\<forall>i<vbits va. used (s\<lparr>bytes := b\<rparr>) ?b i =
      (\<not> (k \<le> i \<and> i < k + unat pg_cnt) \<and> used s ?b i)"
    using s1(3) unfolding b vbits_def by auto
  moreover have "\<forall>q. free_frames (s\<lparr>bytes := b\<rparr>) (pool_of q s) = free_frames s (pool_of q s)"
    using fr by (simp add: free_frames_def)
  moreover have "\<forall>x. x \<notin> bm_bytes ?b \<longrightarrow> b x = bytes s x" using s1(5) by (simp add: b)
  ultimately show ?thesis using run by blast
qed

lemma freed_vspace_ok:
  fixes s :: "'z kmem_scheme"
  assumes va: "vspace_ok s va" and f: "freed_run s s' va k n pf" and t: "\<And>v. table_of s' v = table_of s v"
    and w: "\<And>i. i < vbits va \<Longrightarrow> page_walk s (vpage va i) = None \<Longrightarrow> page_walk s' (vpage va i) = None"
  shows "vspace_ok s' va"
proof -
  obtain b m where s': "s' = s\<lparr>bytes := b, pmem := m\<rparr>"
    using f unfolding freed_run_def pt_frame_def by blast
  have "slot s' v = slot s v" for v by (simp only: slot_def t)
  then have "apart s' (vpage va ` {..<vbits va})" using va by (simp add: vspace_ok_def apart_def)
  moreover have "page_walk s' (vpage va i) = None" if "i < vbits va" "\<not> used s' (vaddr_bitmap va) i" for i
  proof (cases "k \<le> i \<and> i < k + n")
    case False
    then have "\<not> used s (vaddr_bitmap va) i" using f that by (auto simp: freed_run_def)
    then show ?thesis using va that(1) w by (simp add: vspace_ok_def)
  qed (use f in \<open>auto simp: freed_run_def\<close>)
  ultimately show ?thesis using va unfolding vspace_ok_def by (simp add: s')
qed

lemma mfree_page_run:
  fixes s :: "'z kmem_scheme"
  assumes inv: "mm_inv s" and ord: "pools_ordered s" "0x102000 \<le> unat (phy_addr_start (kernel_pool s))"
    and va: "vspace_ok s (vspace pf s)" and c: "0 < unat pg_cnt" and k: "k + unat pg_cnt \<le> vbits (vspace pf s)"
    and fr: "\<forall>i. k \<le> i \<and> i < k + unat pg_cnt \<longrightarrow> freeable pf s (vpage (vspace pf s) i)"
  shows "\<exists>s'. mfree_page pf (vpage (vspace pf s) k) pg_cnt s = Inr s' \<and> mm_inv s' \<and>
    vspace_ok s' (vspace pf s) \<and> freed_run s s' (vspace pf s) k (unat pg_cnt) pf"
proof -
  let ?va = "vspace pf s" and ?n = "unat pg_cnt"
  let ?A = "vpage ?va ` {..<vbits ?va}" and ?ps = "pages (vpage ?va k) ?n"
  have po: "pools_ok s" and sm: "selfmap s" using inv by (simp_all add: mm_inv_def)
  have kb: "k < vbits ?va" using k c by simp
  obtain F where F: "F \<in> pool_frames (pool_of pf s)" "page_walk s (vpage ?va k) = Some F"
    "pf = PF_USER \<longrightarrow> F \<noteq> phy_addr_start (user_pool s)" using fr c by (auto simp: freeable_def)
  have "pool_ok (pool_of pf s)" using po by (simp add: pools_ok_def pool_of_def)
  note P = pool_frame_of [OF this F(1)]
  have ge: "F \<ge> 0x102000" using P(2) ord by (cases pf) (simp_all add: pool_of_def pools_ordered_def word_le_nat_alt)
  have ap: "apart s ?A" using va by (simp add: vspace_ok_def)
  have "\<forall>p\<in>set ?ps. freeable pf s p" using fr by (auto simp: pages_vpage)
  from free_pages_ok [OF inv ord(1) ap vspace_run [OF va k] this] obtain s1 where
    s1: "free_pages (pf = PF_USER) ?n (vpage ?va k) s = Inr s1" "mm_inv s1" "unmapped_run s s1 ?ps pf" by blast
  note sel = unmapped_run_sel [OF s1(3)]
  have vs: "vspace pf s1 = ?va" by (simp add: vspace_def sel)
  have vok: "bm_ok (vaddr_bitmap ?va)" "bm_disjoint (pool_bitmap (kernel_pool s1)) (vaddr_bitmap ?va)"
    "bm_disjoint (pool_bitmap (user_pool s1)) (vaddr_bitmap ?va)" using va by (simp_all add: vspace_ok_def sel)
  from vaddr_remove_run [OF s1(2) vs vok k vpage_index [OF va kb]] obtain b where
    b: "vaddr_remove pf (vpage ?va k) pg_cnt s1 = Inr (s1\<lparr>bytes := b\<rparr>)" "mm_inv (s1\<lparr>bytes := b\<rparr>)"
      "\<forall>q. free_frames (s1\<lparr>bytes := b\<rparr>) (pool_of q s1) = free_frames s1 (pool_of q s1)"
      "\<forall>i<vbits ?va. used (s1\<lparr>bytes := b\<rparr>) (vaddr_bitmap ?va) i =
         (\<not> (k \<le> i \<and> i < k + ?n) \<and> used s1 (vaddr_bitmap ?va) i)"
      "\<forall>x. x \<notin> bm_bytes (vaddr_bitmap ?va) \<longrightarrow> b x = bytes s1 x" by blast
  let ?s = "s1\<lparr>bytes := b\<rparr>"
  have "mfree_page pf (vpage ?va k) pg_cnt s = Inr ?s"
    using s1(1) b(1) c ge frame_mod [OF P(1)] frame_mod [OF vspace_page(2) [OF va kb]]
      addr_v2p_walk [OF sm F(2)] free_check(2) [OF po ord(1) F(1,3)]
    by (simp add: mfree_page_def word_le_nat_alt)
  moreover have walk: "page_walk ?s v = (if \<exists>i. k \<le> i \<and> i < k + ?n \<and> slot s v = slot s (vpage ?va i) then None else page_walk s v)"
    if "lower v" for v using s1(3) that by (auto simp: unmapped_run_def pages_vpage)
  have us: "used s1 (vaddr_bitmap ?va) i = used s (vaddr_bitmap ?va) i" if "i < vbits ?va" for i
    using s1(3) va that unfolding unmapped_run_def vspace_ok_def bm.free_slots_def vbits_def by blast
  have "freed_run s ?s ?va k ?n pf"
    unfolding freed_run_def
  proof (intro conjI allI impI)
    show "pt_frame s ?s" using s1(3) pt_frame_trans [of s s1 ?s] by (simp add: unmapped_run_def pt_frame_def)
    show "free_frames ?s (pool_of pf s) = free_frames s (pool_of pf s) \<union>
        {F. \<exists>i. k \<le> i \<and> i < k + ?n \<and> page_walk s (vpage ?va i) = Some F}"
      using b(3) s1(3) by (auto simp: unmapped_run_def pages_vpage sel)
    fix x assume "x \<notin> bm_bytes (pool_bitmap (pool_of pf s)) \<and> x \<notin> bm_bytes (vaddr_bitmap ?va)"
    then show "bytes ?s x = bytes s x" using b(5) s1(3) by (simp add: unmapped_run_def)
  qed (use b(4) us walk vspace_page(4) [OF va] k in auto)
  moreover have "vspace_ok ?s ?va"
    by (rule freed_vspace_ok [OF va calculation(2)])
       (use s1(3) walk vspace_page(4) [OF va] in \<open>auto simp: unmapped_run_def\<close>)
  ultimately show ?thesis using b(2) by blast
qed

end
