(* ===== verification/Mem_Props.thy ===== *)
theory Mem_Props
  imports Mem_Alloc
begin

text \<open>
  What \<open>mem_pool_init\<close> leaves behind, a concrete machine built from it, and the properties of the memory
  component.
\<close>

section \<open>The pools after booting\<close>

definition free_pages_of :: "u32 \<Rightarrow> nat" where
  "free_pages_of all_mem = unat (all_mem - 0x200000) div 4096 mod 65536"

lemma unat_u16_of_u32: "unat (ucast (x :: u32) :: u16) = unat x mod 65536"
  by (simp add: unsigned_ucast_eq take_bit_eq_mod unat_mod)

lemma unat_u32_of_u16: "unat (ucast (x :: u16) :: u32) = unat x"
proof -
  have "unat x < 2 ^ LENGTH(16)" by (rule unsigned_less)
  then show ?thesis by (simp add: unsigned_ucast_eq take_bit_eq_mod unat_mod)
qed

lemma pool_pages:
  fixes all_mem :: u32
  defines "all \<equiv> (ucast ((all_mem - (PG_SIZE * 256 + 0x100000)) div PG_SIZE) :: u16)"
  shows "unat all = free_pages_of all_mem" "unat (all div 2) = free_pages_of all_mem div 2"
    "unat (all - all div 2) = free_pages_of all_mem - free_pages_of all_mem div 2"
    "unat (ucast (all div 2 div 8) :: u32) = free_pages_of all_mem div 2 div 8"
    "unat (ucast ((all - all div 2) div 8) :: u32) = (free_pages_of all_mem - free_pages_of all_mem div 2) div 8"
proof -
  show a: "unat all = free_pages_of all_mem"
    by (simp add: all_def unat_u16_of_u32 unat_div PG_SIZE_def free_pages_of_def)
  show h: "unat (all div 2) = free_pages_of all_mem div 2" by (simp add: unat_div a)
  have "all div 2 \<le> all" by (simp add: word_le_nat_alt unat_div)
  then show u: "unat (all - all div 2) = free_pages_of all_mem - free_pages_of all_mem div 2"
    by (simp add: unat_sub a h)
  show "unat (ucast (all div 2 div 8) :: u32) = free_pages_of all_mem div 2 div 8"
    by (simp add: unat_u32_of_u16 unat_div a)
  show "unat (ucast ((all - all div 2) div 8) :: u32) = (free_pages_of all_mem - free_pages_of all_mem div 2) div 8"
    by (simp add: unat_u32_of_u16 unat_div u)
qed

lemma bitmap_init_bytes:
  fixes s :: "'z machine_scheme"
  assumes "bits b \<noteq> NULL"
  shows "\<exists>bs. bitmap_init b s = Inr (s\<lparr>bytes := bs\<rparr>)"
proof -
  have "\<exists>bs. memset_loop n a v s = s\<lparr>bytes := bs\<rparr>" for n a v and s :: "'z machine_scheme"
  proof (induction n arbitrary: a s)
    case 0
    show ?case by (rule exI [of _ "bytes s"]) simp
  next
    case (Suc n)
    obtain bs where "memset_loop n (a + 1) v (wrb a v s) = (wrb a v s)\<lparr>bytes := bs\<rparr>" using Suc by blast
    then show ?case by (auto simp: wrb_def)
  qed
  then show ?thesis using assms by (simp add: bitmap_init_def memset_def)
qed

text \<open>The three bitmaps follow each other inside the four pages reserved for them.\<close>

definition kbm :: "u32 \<Rightarrow> bitmap" where
  "kbm all_mem = \<lparr>btmp_bytes_len = of_nat (free_pages_of all_mem div 2 div 8), bits = MEM_BITMAP_BASE\<rparr>"

definition ubm :: "u32 \<Rightarrow> bitmap" where
  "ubm all_mem = \<lparr>btmp_bytes_len = of_nat ((free_pages_of all_mem - free_pages_of all_mem div 2) div 8),
     bits = MEM_BITMAP_BASE + btmp_bytes_len (kbm all_mem)\<rparr>"

definition vbm :: "u32 \<Rightarrow> bitmap" where
  "vbm all_mem = \<lparr>btmp_bytes_len = btmp_bytes_len (kbm all_mem),
     bits = MEM_BITMAP_BASE + btmp_bytes_len (kbm all_mem) + btmp_bytes_len (ubm all_mem)\<rparr>"

lemma boot_bitmaps:
  fixes all_mem :: u32
  defines "K \<equiv> free_pages_of all_mem div 2" and "U \<equiv> free_pages_of all_mem - free_pages_of all_mem div 2"
  shows "bm_bits (kbm all_mem) = 8 * (K div 8)" "bm_bits (ubm all_mem) = 8 * (U div 8)" "bm_bits (vbm all_mem) = 8 * (K div 8)"
    "bm_ok (kbm all_mem)" "bm_ok (ubm all_mem)" "bm_ok (vbm all_mem)"
    "bm_disjoint (kbm all_mem) (ubm all_mem)" "bm_disjoint (kbm all_mem) (vbm all_mem)" "bm_disjoint (ubm all_mem) (vbm all_mem)"
    "unat (bits (vbm all_mem)) + unat (btmp_bytes_len (vbm all_mem)) \<le> 0xc009e000"
    "bits (kbm all_mem) \<noteq> NULL" "bits (ubm all_mem) \<noteq> NULL" "bits (vbm all_mem) \<noteq> NULL"
proof -
  have f: "free_pages_of all_mem < 65536" by (simp add: free_pages_of_def)
  then have K: "K \<le> 32767" "K div 8 \<le> 4095" and U: "U \<le> 32768" "U div 8 \<le> 4096"
    by (auto simp: K_def U_def)
  have lk: "unat (btmp_bytes_len (kbm all_mem)) = K div 8"
    and lu: "unat (btmp_bytes_len (ubm all_mem)) = U div 8"
    and lv: "unat (btmp_bytes_len (vbm all_mem)) = K div 8"
    using K(2) U(2) by (simp_all add: kbm_def ubm_def vbm_def K_def U_def unat_of_nat_lt)
  have bk: "unat (bits (kbm all_mem)) = 0xc009a000" by (simp add: kbm_def MEM_BITMAP_BASE_def)
  have bu: "unat (bits (ubm all_mem)) = 0xc009a000 + K div 8"
    using K(2) lk unfolding ubm_def bitmap.simps by (subst unat_add_lt) (simp_all add: MEM_BITMAP_BASE_def)
  have bv: "unat (bits (vbm all_mem)) = 0xc009a000 + K div 8 + U div 8"
    using K(2) U(2) bu lu unfolding vbm_def bitmap.simps
    by (subst unat_add_lt) (simp_all add: ubm_def)
  show bits: "bm_bits (kbm all_mem) = 8 * (K div 8)" "bm_bits (ubm all_mem) = 8 * (U div 8)"
    "bm_bits (vbm all_mem) = 8 * (K div 8)" by (simp_all add: bm_bits_def lk lu lv)
  show "bm_ok (kbm all_mem)" "bm_ok (ubm all_mem)" "bm_ok (vbm all_mem)"
    using K U unfolding bm_ok_def bits by simp_all
  show "bm_disjoint (kbm all_mem) (ubm all_mem)" "bm_disjoint (kbm all_mem) (vbm all_mem)"
    "bm_disjoint (ubm all_mem) (vbm all_mem)"
    unfolding bm_disjoint_def by (rule disjoint_blocks_unat; use lk lu lv bk bu bv K(2) U(2) in simp)+
  show "unat (bits (vbm all_mem)) + unat (btmp_bytes_len (vbm all_mem)) \<le> 0xc009e000"
    using bv lv K(2) U(2) by simp
  show "bits (kbm all_mem) \<noteq> NULL" "bits (ubm all_mem) \<noteq> NULL" "bits (vbm all_mem) \<noteq> NULL"
    using bk bu bv by auto
qed


definition boot_kpool :: "u32 \<Rightarrow> addr \<Rightarrow> pool" where
  "boot_kpool all_mem l = \<lparr>pool_bitmap = kbm all_mem, phy_addr_start = 0x200000,
     pool_size = of_nat (free_pages_of all_mem div 2 * 4096), pool_lock = l\<rparr>"

definition boot_upool :: "u32 \<Rightarrow> addr \<Rightarrow> pool" where
  "boot_upool all_mem l = \<lparr>pool_bitmap = ubm all_mem,
     phy_addr_start = 0x200000 + of_nat (free_pages_of all_mem div 2 * 4096),
     pool_size = of_nat ((free_pages_of all_mem - free_pages_of all_mem div 2) * 4096), pool_lock = l\<rparr>"

lemma word_of_unat: "unat (x :: u32) = n \<Longrightarrow> x = of_nat n"
  by auto

text \<open>Output only writes the screen.\<close>

lemma put_str_put_str: "put_str o2 (put_str o1 s) = put_str (o1 @ o2) s"
  by (simp add: put_str_def)

lemma put_char_str: "put_char c s = put_str [c] s"
  by (simp add: put_char_def put_str_def)

lemma mem_pool_report_out: "\<exists>out. mem_pool_report s = put_str out s"
  unfolding mem_pool_report_def put_int_def Let_def put_char_str put_str_put_str by blast

lemma mem_pool_init_boot:
  fixes s :: "'z kmem_scheme"
  shows "\<exists>out. mem_pool_init all_mem s =
    bind_r (bitmap_init (kbm all_mem) (s\<lparr>screen := out, kernel_pool := boot_kpool all_mem (pool_lock (kernel_pool s)),
        user_pool := boot_upool all_mem (pool_lock (user_pool s))\<rparr>)) (\<lambda>s.
    bind_r (bitmap_init (pool_bitmap (user_pool s)) s) (\<lambda>s.
      let s = s\<lparr>kernel_vaddr := \<lparr>vaddr_bitmap = vbm all_mem, vaddr_start = K_HEAP_STACK\<rparr>\<rparr>
      in bind_r (bitmap_init (vaddr_bitmap (kernel_vaddr s)) s) (\<lambda>s.
           Inr (put_line ''   mem_pool_init done'' s))))"
proof -
  define all where "all = (ucast ((all_mem - (PG_SIZE * 256 + 0x100000)) div PG_SIZE) :: u16)"
  note P = pool_pages [of all_mem, folded all_def]
  have e1: "ucast (all div 2 div 8) = btmp_bytes_len (kbm all_mem)"
    and e2: "ucast ((all - all div 2) div 8) = btmp_bytes_len (ubm all_mem)"
    using word_of_unat [OF P(4)] word_of_unat [OF P(5)] by (simp_all add: kbm_def ubm_def)
  have e3: "ucast (all div 2) * PG_SIZE = of_nat (free_pages_of all_mem div 2 * 4096)"
    and e4: "ucast (all - all div 2) * PG_SIZE = of_nat ((free_pages_of all_mem - free_pages_of all_mem div 2) * 4096)"
    using word_of_unat [OF trans [OF unat_u32_of_u16 P(2)]] word_of_unat [OF trans [OF unat_u32_of_u16 P(3)]]
    by (simp_all add: PG_SIZE_def)
  have e5: "PG_SIZE * 256 + 0x100000 = 0x200000" by (simp add: PG_SIZE_def)
  have k: "\<lparr>pool_bitmap = \<lparr>btmp_bytes_len = btmp_bytes_len (kbm all_mem), bits = MEM_BITMAP_BASE\<rparr>,
      phy_addr_start = 0x200000, pool_size = of_nat (free_pages_of all_mem div 2 * 4096), pool_lock = l\<rparr> = boot_kpool all_mem l"
    and u: "\<lparr>pool_bitmap = \<lparr>btmp_bytes_len = btmp_bytes_len (ubm all_mem), bits = MEM_BITMAP_BASE + btmp_bytes_len (kbm all_mem)\<rparr>,
      phy_addr_start = 0x200000 + of_nat (free_pages_of all_mem div 2 * 4096),
      pool_size = of_nat ((free_pages_of all_mem - free_pages_of all_mem div 2) * 4096), pool_lock = l\<rparr> = boot_upool all_mem l"
    and v: "\<lparr>btmp_bytes_len = btmp_bytes_len (kbm all_mem),
      bits = MEM_BITMAP_BASE + btmp_bytes_len (kbm all_mem) + btmp_bytes_len (ubm all_mem)\<rparr> = vbm all_mem" for l
    by (simp_all add: boot_kpool_def boot_upool_def kbm_def ubm_def vbm_def)
  let ?t = "(put_line ''   mem_pool_init start'' s)\<lparr>kernel_pool := boot_kpool all_mem (pool_lock (kernel_pool s)),
        user_pool := boot_upool all_mem (pool_lock (user_pool s))\<rparr>"
  obtain out where out: "mem_pool_report ?t = put_str out ?t" using mem_pool_report_out by blast
  have l: "pool_lock (kernel_pool (put_line m s)) = pool_lock (kernel_pool s)"
    "pool_lock (user_pool (put_line m s)) = pool_lock (user_pool s)" for m by (simp_all add: put_str_def)
  have st: "put_str out ?t = s\<lparr>screen := screen (put_line ''   mem_pool_init start'' s) @ out,
      kernel_pool := boot_kpool all_mem (pool_lock (kernel_pool s)),
      user_pool := boot_upool all_mem (pool_lock (user_pool s))\<rparr>" by (simp add: put_str_def)
  have kb: "pool_bitmap (boot_kpool all_mem l) = kbm all_mem" for l by (simp add: boot_kpool_def)
  show ?thesis
    unfolding mem_pool_init_def Let_def unfolding all_def [symmetric] unfolding e1 e2 e3 e4
    unfolding e5 k u v l unfolding out st
    by (rule exI [of _ "screen (put_line ''   mem_pool_init start'' s) @ out"]) (simp add: kb)
qed

lemma mem_pool_init_eq:
  fixes s :: "'z kmem_scheme"
  shows "\<exists>b x. mem_pool_init all_mem s =
    Inr (s\<lparr>bytes := b, screen := x, kernel_pool := boot_kpool all_mem (pool_lock (kernel_pool s)),
           user_pool := boot_upool all_mem (pool_lock (user_pool s)),
           kernel_vaddr := \<lparr>vaddr_bitmap = vbm all_mem, vaddr_start = K_HEAP_STACK\<rparr>\<rparr>) \<and>
    (\<forall>i<bm_bits (kbm all_mem). \<not> used (s\<lparr>bytes := b\<rparr>) (kbm all_mem) i) \<and>
    (\<forall>i<bm_bits (ubm all_mem). \<not> used (s\<lparr>bytes := b\<rparr>) (ubm all_mem) i) \<and>
    (\<forall>i<bm_bits (vbm all_mem). \<not> used (s\<lparr>bytes := b\<rparr>) (vbm all_mem) i)"
proof -
  note B = boot_bitmaps [of all_mem] and P = pool_pages [of all_mem]
  obtain x where x: "mem_pool_init all_mem s =
    bind_r (bitmap_init (kbm all_mem) (s\<lparr>screen := x, kernel_pool := boot_kpool all_mem (pool_lock (kernel_pool s)),
        user_pool := boot_upool all_mem (pool_lock (user_pool s))\<rparr>)) (\<lambda>s.
    bind_r (bitmap_init (pool_bitmap (user_pool s)) s) (\<lambda>s.
      let s = s\<lparr>kernel_vaddr := \<lparr>vaddr_bitmap = vbm all_mem, vaddr_start = K_HEAP_STACK\<rparr>\<rparr>
      in bind_r (bitmap_init (vaddr_bitmap (kernel_vaddr s)) s) (\<lambda>s.
           Inr (put_line ''   mem_pool_init done'' s))))" using mem_pool_init_boot by blast
  let ?s0 = "s\<lparr>screen := x, kernel_pool := boot_kpool all_mem (pool_lock (kernel_pool s)),
    user_pool := boot_upool all_mem (pool_lock (user_pool s))\<rparr>"
  obtain b1 where 1: "bitmap_init (kbm all_mem) ?s0 = Inr (?s0\<lparr>bytes := b1\<rparr>)" using bitmap_init_bytes [OF B(11)] by blast
  obtain b2 where 2: "bitmap_init (ubm all_mem) (?s0\<lparr>bytes := b1\<rparr>) = Inr (?s0\<lparr>bytes := b2\<rparr>)"
    using bitmap_init_bytes [OF B(12), of "?s0\<lparr>bytes := b1\<rparr>"] by auto
  let ?s2 = "?s0\<lparr>bytes := b2, kernel_vaddr := \<lparr>vaddr_bitmap = vbm all_mem, vaddr_start = K_HEAP_STACK\<rparr>\<rparr>"
  obtain b3 where 3: "bitmap_init (vbm all_mem) ?s2 = Inr (?s2\<lparr>bytes := b3\<rparr>)" using bitmap_init_bytes [OF B(13)] by blast
  have u: "used t c i = used t' c i" if "bytes t = bytes t'" for t :: "'x machine_scheme" and t' :: "'y machine_scheme" and c i
    using that by (simp add: used_def)
  have z1: "\<not> used (?s0\<lparr>bytes := b1\<rparr>) (kbm all_mem) i" if "i < bm_bits (kbm all_mem)" for i
    by (rule bitmap_init_used [OF 1 that])
  have z2: "\<not> used (?s0\<lparr>bytes := b2\<rparr>) (ubm all_mem) i" if "i < bm_bits (ubm all_mem)" for i
    by (rule bitmap_init_used [OF 2 that])
  have z12: "\<not> used (?s0\<lparr>bytes := b2\<rparr>) (kbm all_mem) i" if "i < bm_bits (kbm all_mem)" for i
    using bitmap_init_other [OF 2 _ that] z1 [OF that] B(7) bm_disjoint_sym by blast
  have 4: "\<not> used (?s2\<lparr>bytes := b3\<rparr>) (kbm all_mem) i" if "i < bm_bits (kbm all_mem)" for i
    using bitmap_init_other [OF 3 _ that] z12 [OF that] B(8) bm_disjoint_sym u [of ?s2 "?s0\<lparr>bytes := b2\<rparr>"] by simp
  have 5: "\<not> used (?s2\<lparr>bytes := b3\<rparr>) (ubm all_mem) i" if "i < bm_bits (ubm all_mem)" for i
    using bitmap_init_other [OF 3 _ that] z2 [OF that] B(9) bm_disjoint_sym u [of ?s2 "?s0\<lparr>bytes := b2\<rparr>"] by simp
  have 6: "\<not> used (?s2\<lparr>bytes := b3\<rparr>) (vbm all_mem) i" if "i < bm_bits (vbm all_mem)" for i
    by (rule bitmap_init_used [OF 3 that])
  have run: "mem_pool_init all_mem s = Inr (put_line ''   mem_pool_init done'' (?s2\<lparr>bytes := b3\<rparr>))"
    using 1 2 3 by (simp add: x boot_kpool_def boot_upool_def)
  show ?thesis
    using run 4 5 6 u [of "?s2\<lparr>bytes := b3\<rparr>" "s\<lparr>bytes := b3\<rparr>"]
    by (intro exI [of _ b3] exI [of _ "x @ bytes_of (''   mem_pool_init done'' @ newline)"]) (simp add: put_str_def)
qed


lemma boot_pool_bitmap [simp]:
  "pool_bitmap (boot_kpool all_mem l) = kbm all_mem" "pool_bitmap (boot_upool all_mem l) = ubm all_mem"
  "phy_addr_start (boot_kpool all_mem l) = 0x200000"
  by (simp_all add: boot_kpool_def boot_upool_def)

lemma boot_pools:
  fixes all_mem :: u32
  defines "K \<equiv> free_pages_of all_mem div 2" and "U \<equiv> free_pages_of all_mem - free_pages_of all_mem div 2"
  shows "unat (phy_addr_start (boot_upool all_mem l)) = 0x200000 + K * 4096"
    "pool_ok (boot_kpool all_mem l)" "pool_ok (boot_upool all_mem l)"
    "f \<in> pool_frames (boot_kpool all_mem l) \<Longrightarrow> 0x200000 \<le> unat f \<and> unat f + 4096 \<le> 0x200000 + K * 4096"
    "f \<in> pool_frames (boot_upool all_mem l) \<Longrightarrow> 0x200000 + K * 4096 \<le> unat f \<and>
       unat f + 4096 \<le> 0x200000 + free_pages_of all_mem * 4096"
proof -
  note B = boot_bitmaps [of all_mem, folded K_def U_def]
  have f: "free_pages_of all_mem < 65536" by (simp add: free_pages_of_def)
  have K: "K \<le> 32767" and U: "U \<le> 32768" and KU: "K + U = free_pages_of all_mem"
    using f by (auto simp: K_def U_def)
  have k8: "8 * (K div 8) \<le> K" "8 * (U div 8) \<le> U" by simp_all
  have "unat (of_nat (K * 4096) :: u32) = K * 4096" using K by (intro unat_of_nat_lt) simp
  then show us: "unat (phy_addr_start (boot_upool all_mem l)) = 0x200000 + K * 4096" for l
    unfolding boot_upool_def pool.simps K_def [symmetric] using K by (subst unat_add_lt) simp_all
  show ko: "pool_ok (boot_kpool all_mem l)" for l
    using B(1,4) k8 K by (simp add: pool_ok_def boot_kpool_def frame_of_eq)
  show uo: "pool_ok (boot_upool all_mem l)" for l
    unfolding pool_ok_def frame_of_eq us using B(2,5) k8 K U by simp
  show "0x200000 \<le> unat f \<and> unat f + 4096 \<le> 0x200000 + K * 4096" if fk: "f \<in> pool_frames (boot_kpool all_mem l)"
  proof -
    obtain i where i: "i < 8 * (K div 8)" "f = frame_at (boot_kpool all_mem l) i"
      using fk B(1) by (auto simp: pool_frames_def)
    then have "unat f = i * 4096 + 0x200000"
      using unat_frame_at [OF ko, of i l] B(1) by simp
    then show ?thesis using i(1) k8 by simp
  qed
  show "0x200000 + K * 4096 \<le> unat f \<and> unat f + 4096 \<le> 0x200000 + free_pages_of all_mem * 4096"
    if fu: "f \<in> pool_frames (boot_upool all_mem l)"
  proof -
    obtain i where i: "i < 8 * (U div 8)" "f = frame_at (boot_upool all_mem l) i"
      using fu B(2) by (auto simp: pool_frames_def)
    then have "unat f = i * 4096 + (0x200000 + K * 4096)"
      using unat_frame_at [OF uo, of i l] B(2) by (simp add: us)
    then show ?thesis using i(1) k8 KU by simp
  qed
qed

lemma boot_pools_disjoint:
  "pool_frames (boot_kpool all_mem l) \<inter> pool_frames (boot_upool all_mem l') = {}"
  using boot_pools(4,5) [of _ all_mem] by fastforce

lemma free_pages_fit:
  assumes "0x200000 \<le> unat all_mem"
  shows "0x200000 + free_pages_of all_mem * 4096 \<le> unat all_mem"
proof -
  have "unat (all_mem - 0x200000) = unat all_mem - 0x200000"
    using assms by (simp add: unat_sub word_le_nat_alt)
  moreover have "free_pages_of all_mem \<le> unat (all_mem - 0x200000) div 4096" by (simp add: free_pages_of_def)
  then have "free_pages_of all_mem * 4096 \<le> unat (all_mem - 0x200000)" by (simp add: less_eq_div_iff_mult_less_eq)
  ultimately show ?thesis using assms by linarith
qed

section \<open>A concrete machine\<close>

text \<open>Three megabytes of memory, an empty page directory that maps itself, and the pools as after booting.\<close>

definition blank_task :: task where
  "blank_task = \<lparr>self_kstack = 0, pid = 1, status = TASK_RUNNING, tname = [], priority = 31, ticks = 31,
     elapsed_ticks = 0, pgdir = NULL,
     userprog_vaddr = \<lparr>vaddr_bitmap = \<lparr>btmp_bytes_len = 2, bits = 0xc0098000\<rparr>, vaddr_start = 0x8048000\<rparr>, stack_magic = 0x19870916\<rparr>"

definition boot_kmem :: kmem where
  "boot_kmem = \<lparr>eflags = 2, mem = (\<lambda>_. 0), bytes = (\<lambda>_. 0), cr3 = 0x100000,
     pmem = (\<lambda>_. 0)(0x100ffc := 0x100007), esp = 0xc009ee00, tasks = (\<lambda>_. blank_task),
     sema_value = (\<lambda>_. 1), lock_holder = (\<lambda>_. NULL), lock_repeat = (\<lambda>_. 0),
     thread_ready_list = 0xc0008000, thread_all_list = 0xc0008020, pid_lock = 0xc0009040,
     console_lock = 0xc0009000, idle_thread = NULL, main_thread = 0xc009e000, thread_tag = NULL,
     next_pid = 2, total_ticks = 0, tss_esp0 = 0, screen = [], frames = (\<lambda>_. []),
     kernel_pool = boot_kpool 0x300000 0xc0009080, user_pool = boot_upool 0x300000 0xc00090c0,
     kernel_vaddr = \<lparr>vaddr_bitmap = vbm 0x300000, vaddr_start = K_HEAP_STACK\<rparr>, k_block_descs = 0xc0007000\<rparr>"

lemma boot_kmem_sel [simp]:
  "kernel_pool boot_kmem = boot_kpool 0x300000 0xc0009080" "user_pool boot_kmem = boot_upool 0x300000 0xc00090c0"
  "kernel_vaddr boot_kmem = \<lparr>vaddr_bitmap = vbm 0x300000, vaddr_start = K_HEAP_STACK\<rparr>"
  "cr3 boot_kmem = 0x100000" "pmem boot_kmem = (\<lambda>_. 0)(0x100ffc := 0x100007)" "bytes boot_kmem = (\<lambda>_. 0)"
  by (simp_all add: boot_kmem_def)

lemma boot_kmem_used [simp]: "\<not> used boot_kmem b i"
  by (simp add: used_def)

lemma boot_kmem_table: "lower va \<Longrightarrow> table_of boot_kmem va = None"
proof -
  assume "lower va"
  then have "(0x100000 :: addr) + PDE_IDX va * 4 \<noteq> 0x100000 + 1023 * 4"
    using slot_eq [of "0x100000" "0x100000" "PDE_IDX va" 1023] PDE_IDX_lt [of va] by (auto simp: lower_def frame_of_eq)
  then show ?thesis by (simp add: table_of_def pde_pa_def frame_of_def present_def)
qed

lemma boot_kmem_walk: "lower va \<Longrightarrow> page_walk boot_kmem va = None"
  by (simp add: walk_slot slot_def boot_kmem_table)

lemma boot_free_pages: "free_pages_of 0x300000 = 256"
  by (simp add: free_pages_of_def)

lemma boot_kmem_pools: "pools_ok boot_kmem" "pools_ordered boot_kmem"
proof -
  show "pools_ok boot_kmem"
    using boot_pools(2,3) boot_pools_disjoint boot_bitmaps(7) by (simp add: pools_ok_def)
  show "pools_ordered boot_kmem"
    using boot_pools(1) [of "0x300000"] boot_bitmaps(1) [of "0x300000"] boot_free_pages
    by (simp add: pools_ordered_def)
qed

lemma boot_kmem_inv: "mm_inv boot_kmem"
proof -
  have t: "tables boot_kmem = {}" "data boot_kmem = {}"
    using boot_kmem_table boot_kmem_walk by (auto simp: tables_def data_def)
  have "unat f \<ge> 0x200000" if "f \<in> spare boot_kmem" for f
    using that boot_pools(4,5) [of f "0x300000"] free_frames_pool by (fastforce simp: spare_def)
  then have "(0x100000 :: addr) \<notin> spare boot_kmem" by force
  moreover have "selfmap boot_kmem" by (simp add: selfmap_def frame_of_def present_def)
  moreover have "one_slot boot_kmem" using boot_kmem_walk by (auto simp: one_slot_def)
  ultimately show ?thesis using boot_kmem_pools(1) t by (simp add: mm_inv_def frame_of_def)
qed


lemma lower_unat: "unat a < 0xffc00000 \<Longrightarrow> lower a"
proof -
  assume "unat a < 0xffc00000"
  then have "unat (PDE_IDX a) < 1023" by (simp add: unat_PDE_IDX)
  then show ?thesis by (auto simp: lower_def)
qed

lemma boot_vspace: "vspace PF_KERNEL boot_kmem = \<lparr>vaddr_bitmap = vbm 0x300000, vaddr_start = K_HEAP_STACK\<rparr>"
  by (simp add: vspace_def)

lemma boot_vbits: "vbits (vspace PF_KERNEL boot_kmem) = 128"
  using boot_bitmaps(3) [of "0x300000"] by (simp add: boot_vspace vbits_def boot_free_pages)

lemma boot_vspace_ok: "vspace_ok boot_kmem (vspace PF_KERNEL boot_kmem)"
proof -
  let ?va = "vspace PF_KERNEL boot_kmem"
  have lim: "unat (vaddr_start ?va) + vbits ?va * 4096 \<le> 0xffc00000"
    unfolding boot_vbits by (simp add: boot_vspace K_HEAP_STACK_def)
  have "lower (vpage ?va i)" if "i < vbits ?va" for i
  proof (rule lower_unat)
    have "i < 128" using that by (simp add: boot_vbits)
    then show "unat (vpage ?va i) < 0xffc00000"
      unfolding unat_vpage [OF lim that] by (simp add: boot_vspace K_HEAP_STACK_def)
  qed
  then have "apart boot_kmem (vpage ?va ` {..<vbits ?va})"
    "\<forall>i<vbits ?va. page_walk boot_kmem (vpage ?va i) = None"
    by (auto simp: apart_def slot_def boot_kmem_table boot_kmem_walk)
  then show ?thesis using boot_bitmaps [of "0x300000"] lim
    unfolding vspace_ok_def by (simp add: boot_vspace K_HEAP_STACK_def frame_of_eq)
qed

lemma card_free_frames:
  assumes "pool_ok p"
  shows "card (free_frames s p) = card (bm.free_slots s (pool_bitmap p))"
  unfolding free_frames_def
  by (rule card_image) (auto intro!: inj_onI dest: frame_at_inj [OF assms, rotated 2] free_slots_lt)

lemma boot_room: "n \<le> 64 \<Longrightarrow> room PF_KERNEL n boot_kmem"
proof -
  assume n: "n \<le> 64"
  have "bm.free_slots boot_kmem (kbm 0x300000) = {..<128}"
    using boot_bitmaps(1) [of "0x300000"] by (auto simp: bm.free_slots_def boot_free_pages)
  then have "card (free_frames boot_kmem (kernel_pool boot_kmem)) = 128"
    by (simp add: card_free_frames boot_pools(2))
  then show ?thesis using n by (simp add: room_def)
qed

lemma boot_free_run: "free_run boot_kmem b n j"
  by (simp add: free_run_def)

section \<open>Properties\<close>

text \<open>C8. Under the memory invariant, when the address space has a run of \<open>pg_cnt\<close> free pages and the pools
  have frames for the pages and their page tables, \<open>malloc_pages\<close> returns the address of such a run; each
  of its pages was unmapped and is now mapped to a frame of the chosen pool that was free, no two pages
  share a frame, every address that goes through another page-table entry translates as before, and the
  invariants of memory and of the address space hold again.\<close>

theorem malloc_pages_maps:
  fixes s :: "'z kmem_scheme"
  assumes "mm_inv s" and "vspace_ok s (vspace pf s)" and "0 < unat pg_cnt" and "unat pg_cnt < 57600"
    and "j + unat pg_cnt \<le> vbits (vspace pf s)" and "free_run s (vaddr_bitmap (vspace pf s)) (unat pg_cnt) j"
    and "pf = PF_USER \<Longrightarrow> unat (vpage (vspace pf s) j) < 0xc0000000 - 4096" and "room pf (unat pg_cnt) s"
  shows "\<exists>k s'. k + unat pg_cnt \<le> vbits (vspace pf s) \<and> malloc_pages pf pg_cnt s = Inr (vpage (vspace pf s) k, s') \<and>
    mm_inv s' \<and> vspace_ok s' (vspace pf s) \<and>
    alloc_run s s' (vspace pf s) k (unat pg_cnt) (free_frames s (pool_of pf s))"
  using assms by (rule malloc_pages_run)

theorem malloc_pages_maps_witness:
  "\<exists>k s'. malloc_pages PF_KERNEL 3 boot_kmem = Inr (vpage (vspace PF_KERNEL boot_kmem) k, s') \<and> mm_inv s' \<and>
     (\<exists>F. page_walk s' (vpage (vspace PF_KERNEL boot_kmem) k) = Some F)"
proof -
  have "\<exists>k s'. k + unat (3 :: u32) \<le> vbits (vspace PF_KERNEL boot_kmem) \<and>
      malloc_pages PF_KERNEL 3 boot_kmem = Inr (vpage (vspace PF_KERNEL boot_kmem) k, s') \<and>
      mm_inv s' \<and> vspace_ok s' (vspace PF_KERNEL boot_kmem) \<and>
      alloc_run boot_kmem s' (vspace PF_KERNEL boot_kmem) k (unat (3 :: u32)) (free_frames boot_kmem (pool_of PF_KERNEL boot_kmem))"
    by (rule malloc_pages_maps [OF boot_kmem_inv boot_vspace_ok, of _ 0])
       (simp_all add: boot_vbits boot_free_run boot_room)
  then obtain k s' where k: "malloc_pages PF_KERNEL 3 boot_kmem = Inr (vpage (vspace PF_KERNEL boot_kmem) k, s')" "mm_inv s'"
    "alloc_run boot_kmem s' (vspace PF_KERNEL boot_kmem) k 3 (free_frames boot_kmem (pool_of PF_KERNEL boot_kmem))" by auto
  from k(3) have "\<exists>F. page_walk s' (vpage (vspace PF_KERNEL boot_kmem) k) = Some F"
    unfolding alloc_run_def by (metis le_refl less_add_same_cancel1 zero_less_numeral)
  with k show ?thesis by blast
qed

text \<open>C19. Giving back a run of mapped pages with \<open>mfree_page\<close> succeeds: every page of the run is unmapped and
  its bit clear, the frames it was mapped to are free again in their pool and no other frame is, every
  address that goes through another page-table entry translates as before, and the invariants hold.\<close>

theorem mfree_page_unmaps:
  fixes s :: "'z kmem_scheme"
  assumes "mm_inv s" and "pools_ordered s" and "0x102000 \<le> unat (phy_addr_start (kernel_pool s))"
    and "vspace_ok s (vspace pf s)" and "0 < unat pg_cnt" and "k + unat pg_cnt \<le> vbits (vspace pf s)"
    and "\<forall>i. k \<le> i \<and> i < k + unat pg_cnt \<longrightarrow> freeable pf s (vpage (vspace pf s) i)"
  shows "\<exists>s'. mfree_page pf (vpage (vspace pf s) k) pg_cnt s = Inr s' \<and> mm_inv s' \<and>
    vspace_ok s' (vspace pf s) \<and> freed_run s s' (vspace pf s) k (unat pg_cnt) pf"
  using assms by (rule mfree_page_run)


lemma pt_frame_sel:
  assumes "pt_frame s s'"
  shows "vspace pf s' = vspace pf s" "pools_ordered s' = pools_ordered s" "pool_of pf s' = pool_of pf s"
    "kernel_pool s' = kernel_pool s" "user_pool s' = user_pool s"
proof -
  obtain b m where "s' = s\<lparr>bytes := b, pmem := m\<rparr>" using assms unfolding pt_frame_def by blast
  then show "vspace pf s' = vspace pf s" "pools_ordered s' = pools_ordered s" "pool_of pf s' = pool_of pf s"
    "kernel_pool s' = kernel_pool s" "user_pool s' = user_pool s"
    by (simp_all add: vspace_def pools_ordered_def pool_of_def running_thread_def)
qed

lemma alloc_freeable:
  assumes "alloc_run s s' va k n (free_frames s (pool_of PF_KERNEL s))"
  shows "\<forall>i. k \<le> i \<and> i < k + n \<longrightarrow> freeable PF_KERNEL s' (vpage va i)"
  using assms free_frames_pool [of s "pool_of PF_KERNEL s"] pt_frame_sel(3) [of s s' PF_KERNEL]
  unfolding alloc_run_def freeable_def by fastforce

theorem mfree_page_unmaps_witness:
  "\<exists>k s' s''. malloc_pages PF_KERNEL 3 boot_kmem = Inr (vpage (vspace PF_KERNEL boot_kmem) k, s') \<and>
     mfree_page PF_KERNEL (vpage (vspace PF_KERNEL boot_kmem) k) 3 s' = Inr s'' \<and> mm_inv s'' \<and>
     freed_run s' s'' (vspace PF_KERNEL boot_kmem) k 3 PF_KERNEL"
proof -
  let ?va = "vspace PF_KERNEL boot_kmem"
  have "\<exists>k s'. k + unat (3 :: u32) \<le> vbits ?va \<and> malloc_pages PF_KERNEL 3 boot_kmem = Inr (vpage ?va k, s') \<and>
      mm_inv s' \<and> vspace_ok s' ?va \<and>
      alloc_run boot_kmem s' ?va k (unat (3 :: u32)) (free_frames boot_kmem (pool_of PF_KERNEL boot_kmem))"
    by (rule malloc_pages_run [OF boot_kmem_inv boot_vspace_ok, of _ 0])
       (simp_all add: boot_vbits boot_free_run boot_room)
  then obtain k s' where k: "k + unat (3 :: u32) \<le> vbits ?va" "malloc_pages PF_KERNEL 3 boot_kmem = Inr (vpage ?va k, s')"
    "mm_inv s'" "vspace_ok s' ?va" "alloc_run boot_kmem s' ?va k (unat (3 :: u32)) (free_frames boot_kmem (pool_of PF_KERNEL boot_kmem))"
    by blast
  have fr: "pt_frame boot_kmem s'" using k(5) by (simp add: alloc_run_def)
  note sel = pt_frame_sel [OF fr]
  have "\<exists>s''. mfree_page PF_KERNEL (vpage (vspace PF_KERNEL s') k) 3 s' = Inr s'' \<and> mm_inv s'' \<and>
      vspace_ok s'' (vspace PF_KERNEL s') \<and> freed_run s' s'' (vspace PF_KERNEL s') k (unat (3 :: u32)) PF_KERNEL"
    by (rule mfree_page_unmaps) (use k alloc_freeable [OF k(5)] boot_kmem_pools in \<open>simp_all add: sel\<close>)
  then show ?thesis using k(2) unfolding sel by auto
qed

lemma alloc_freed_restores:
  fixes s :: "'z kmem_scheme"
  assumes va: "vspace_ok s va" "vspace_ok s' va" and k: "k + n \<le> vbits va"
    and al: "alloc_run s s' va k n fs" and fr: "freed_run s' s'' va k n pf" and i: "i < vbits va"
  shows "page_walk s'' (vpage va i) = page_walk s (vpage va i) \<and> used s'' (vaddr_bitmap va) i = used s (vaddr_bitmap va) i"
proof (cases "k \<le> i \<and> i < k + n")
  case True
  then have "page_walk s (vpage va i) = None" "\<not> used s (vaddr_bitmap va) i" using al by (auto simp: alloc_run_def)
  moreover have "page_walk s'' (vpage va i) = None" "\<not> used s'' (vaddr_bitmap va) i"
    using fr True by (auto simp: freed_run_def)
  ultimately show ?thesis by simp
next
  case False
  have "slot s' (vpage va i) \<noteq> slot s' (vpage va j)" if j: "k \<le> j" "j < k + n" for j
  proof -
    have jb: "j < vbits va" using j k by simp
    obtain F where "page_walk s' (vpage va j) = Some F" using al j by (auto simp: alloc_run_def)
    then have "slot s' (vpage va j) \<noteq> None" by (auto simp: walk_slot split: option.splits)
    moreover have "frame_of (vpage va j) \<noteq> frame_of (vpage va i)"
      using vspace_page(2) [OF va(1)] i jb vpage_inj [OF va(1) i jb] False j by auto
    moreover have "apart s' (vpage va ` {..<vbits va})" using va(2) by (simp add: vspace_ok_def)
    ultimately have "slot s' (vpage va j) \<noteq> slot s' (vpage va i)" using i jb unfolding apart_def by blast
    then show ?thesis by simp
  qed
  then have "page_walk s'' (vpage va i) = page_walk s' (vpage va i)" "page_walk s' (vpage va i) = page_walk s (vpage va i)"
    using fr al vspace_page(4) [OF va(1) i] by (simp_all add: freed_run_def alloc_run_def)
  moreover have "used s'' (vaddr_bitmap va) i = used s (vaddr_bitmap va) i"
    using fr al False i by (auto simp: freed_run_def alloc_run_def)
  ultimately show ?thesis by simp
qed




text \<open>C24. \<open>mem_pool_init\<close> on a machine with at least 2 MB lays the pools out correctly for every memory size:
  it succeeds, the three bitmaps do not overlap and stay inside the four pages from \<open>0xc009a000\<close>, every
  page starts out free, the two pools share no frame, the kernel's frames lie below the user's, and every
  frame of either pool is above the 2 MB in use and inside installed memory.\<close>

theorem mem_pool_init_layout:
  fixes s :: "'z kmem_scheme"
  assumes "0x200000 \<le> unat all_mem"
  shows "\<exists>s'. mem_pool_init all_mem s = Inr s' \<and> pools_ok s' \<and> pools_ordered s' \<and>
    bm_disjoint (pool_bitmap (kernel_pool s')) (vaddr_bitmap (kernel_vaddr s')) \<and>
    bm_disjoint (pool_bitmap (user_pool s')) (vaddr_bitmap (kernel_vaddr s')) \<and>
    bits (pool_bitmap (kernel_pool s')) = 0xc009a000 \<and>
    unat (bits (vaddr_bitmap (kernel_vaddr s'))) + unat (btmp_bytes_len (vaddr_bitmap (kernel_vaddr s'))) \<le> 0xc009e000 \<and>
    spare s' = pools s' \<and> (\<forall>i<vbits (kernel_vaddr s'). \<not> used s' (vaddr_bitmap (kernel_vaddr s')) i) \<and>
    (\<forall>f\<in>pools s'. 0x200000 \<le> unat f \<and> unat f + 4096 \<le> unat all_mem)"
proof -
  from mem_pool_init_eq [of all_mem s] obtain b x where b: "mem_pool_init all_mem s =
    Inr (s\<lparr>bytes := b, screen := x, kernel_pool := boot_kpool all_mem (pool_lock (kernel_pool s)),
           user_pool := boot_upool all_mem (pool_lock (user_pool s)),
           kernel_vaddr := \<lparr>vaddr_bitmap = vbm all_mem, vaddr_start = K_HEAP_STACK\<rparr>\<rparr>)"
    and z: "\<forall>i<bm_bits (kbm all_mem). \<not> used (s\<lparr>bytes := b\<rparr>) (kbm all_mem) i"
      "\<forall>i<bm_bits (ubm all_mem). \<not> used (s\<lparr>bytes := b\<rparr>) (ubm all_mem) i"
      "\<forall>i<bm_bits (vbm all_mem). \<not> used (s\<lparr>bytes := b\<rparr>) (vbm all_mem) i" by blast
  define s' where "s' = s\<lparr>bytes := b, screen := x, kernel_pool := boot_kpool all_mem (pool_lock (kernel_pool s)),
           user_pool := boot_upool all_mem (pool_lock (user_pool s)),
           kernel_vaddr := \<lparr>vaddr_bitmap = vbm all_mem, vaddr_start = K_HEAP_STACK\<rparr>\<rparr>"
  have sel: "kernel_pool s' = boot_kpool all_mem (pool_lock (kernel_pool s))"
    "user_pool s' = boot_upool all_mem (pool_lock (user_pool s))" "vaddr_bitmap (kernel_vaddr s') = vbm all_mem"
    by (simp_all add: s'_def)
  have us: "used s' c i = used (s\<lparr>bytes := b\<rparr>) c i" for c i by (simp add: used_def s'_def)
  note B = boot_bitmaps [of all_mem]
  have "bm.free_slots s' (kbm all_mem) = {..<bm_bits (kbm all_mem)}" "bm.free_slots s' (ubm all_mem) = {..<bm_bits (ubm all_mem)}"
    using z(1,2) by (auto simp: bm.free_slots_def us)
  then have "spare s' = pools s'" by (simp add: spare_def pools_def sel free_frames_def pool_frames_def)
  moreover have "pools_ok s'" using boot_pools(2,3) boot_pools_disjoint B(7) by (simp add: pools_ok_def sel)
  moreover have "pools_ordered s'"
    using boot_pools(1) B(1) by (simp add: pools_ordered_def sel)
  moreover have "\<forall>f\<in>pools s'. 0x200000 \<le> unat f \<and> unat f + 4096 \<le> unat all_mem"
    using boot_pools(4,5) [of _ all_mem] free_pages_fit [OF assms] by (fastforce simp: pools_def sel)
  moreover have "\<forall>i<vbits (kernel_vaddr s'). \<not> used s' (vaddr_bitmap (kernel_vaddr s')) i"
    using z(3) by (simp add: vbits_def sel us)
  moreover have "bits (kbm all_mem) = 0xc009a000" by (simp add: kbm_def MEM_BITMAP_BASE_def)
  ultimately show ?thesis
    using b [folded s'_def] B(8-10) by (intro exI [of _ s']) (simp add: sel)
qed

theorem mem_pool_init_layout_witness:
  "\<exists>s'. mem_pool_init 0x2000000 boot_kmem = Inr s' \<and> pools_ok s' \<and> spare s' = pools s'"
  using mem_pool_init_layout [of "0x2000000" boot_kmem] by auto

text \<open>C35. The page count is kept in 16 bits: with 258 MB of memory, where 65536 pages are left over, the count
  wraps to zero and both pools come out empty, so that not one page can be allocated; the layout comment
  promises up to 512 MB.\<close>

theorem mem_pool_init_truncates:
  fixes s :: "'z kmem_scheme"
  shows "\<exists>s'. mem_pool_init 0x10200000 s = Inr s' \<and> pools s' = {} \<and> palloc (kernel_pool s') s' = Inr (NULL, s')"
proof -
  have f: "free_pages_of 0x10200000 = 0" by (simp add: free_pages_of_def)
  from mem_pool_init_eq [of "0x10200000" s] obtain b x where b: "mem_pool_init 0x10200000 s =
    Inr (s\<lparr>bytes := b, screen := x, kernel_pool := boot_kpool 0x10200000 (pool_lock (kernel_pool s)),
           user_pool := boot_upool 0x10200000 (pool_lock (user_pool s)),
           kernel_vaddr := \<lparr>vaddr_bitmap = vbm 0x10200000, vaddr_start = K_HEAP_STACK\<rparr>\<rparr>)" (is "_ = Inr ?s") by blast
  have e: "bm_bits (kbm 0x10200000) = 0" "bm_bits (ubm 0x10200000) = 0"
    using boot_bitmaps(1,2) [of "0x10200000"] f by simp_all
  then have "pools ?s = {}" by (simp add: pools_def pool_frames_def)
  moreover have "palloc (kernel_pool ?s) ?s = Inr (NULL, ?s)"
    by (rule palloc_full) (simp_all add: boot_pools(2) free_frames_def bm.free_slots_def e)
  ultimately show ?thesis using b by blast
qed


text \<open>C37. \<open>page_table_add\<close> does not look at what \<open>palloc\<close> returns for a new page table: when the kernel pool is
  empty it installs the page table at physical address 0, clears the 4 KB there (the memory size the boot
  code left at \<open>0xb00\<close> included) and goes on to map the page through it.\<close>

theorem page_table_add_exhausted:
  fixes s :: "'z kmem_scheme"
  assumes "mm_inv s" and "free_frames s (kernel_pool s) = {}" and "lower va" and "table_of s va = None"
    and "frame_of (cr3 s) \<noteq> 0" and "frame_of phy = phy"
  shows "\<exists>s'. page_table_add va phy s = Inr s' \<and> table_of s' va = Some 0 \<and>
    (\<forall>i<1024. i \<noteq> unat (PTE_IDX va) \<longrightarrow> pmem s' (of_nat i * 4) = 0)"
proof -
  have sm: "selfmap s" and ok: "pool_ok (kernel_pool s)" using assms(1) by (auto simp: mm_inv_def pools_ok_def)
  have z: "frame_of (0 :: u32) = 0" by (simp add: frame_of_eq)
  have np: "\<not> present (pmem s (pde_pa s va))" using assms(4) by (simp add: table_of_def split: if_splits)
  have pa: "palloc (kernel_pool s) s = Inr (0, s\<lparr>bytes := bytes s\<rparr>)" using palloc_full [OF ok assms(2)] by simp
  let ?e = "phy OR PG_US_U OR PG_RW_W OR PG_P_1" and ?p = "(0 :: u32) OR PG_US_U OR PG_RW_W OR PG_P_1"
  let ?s' = "pwr (0 + PTE_IDX va * 4) ?e (clear_words 0 0 1024 (pwr (pde_pa s va) ?p (s\<lparr>bytes := bytes s\<rparr>)))"
  have run: "page_table_add va phy s = Inr ?s'"
    by (rule page_table_add_absent [OF sm np assms(3) pa z]) (use assms(5) in simp)
  have "pmem ?s' (frame_of (cr3 s) + PDE_IDX va * 4) = ?p"
    using in_table_words [of "frame_of (cr3 s)" 0 "PDE_IDX va"] slot_eq [of "frame_of (cr3 s)" 0 "PDE_IDX va" "PTE_IDX va"]
      z assms(5) by (simp add: PDE_IDX_lt PTE_IDX_lt pde_pa_def)
  then have "table_of ?s' va = Some 0"
    using pte_entry [OF z] by (simp add: table_of_def pde_pa_def)
  moreover have "pmem ?s' (of_nat i * 4) = 0" if "i < 1024" "i \<noteq> unat (PTE_IDX va)" for i
  proof -
    have i: "unat (of_nat i :: u32) = i" using that(1) by (simp add: unat_of_nat_lt)
    then have "(of_nat i :: u32) \<noteq> PTE_IDX va" using that(2) by auto
    then show ?thesis
      using in_table_words [OF z z, of "of_nat i"] slot_eq [OF z z, of "of_nat i" "PTE_IDX va"] i that(1)
      by (simp add: PTE_IDX_lt)
  qed
  ultimately show ?thesis using run by blast
qed

text \<open>The machine of the witnesses with the bit of every frame and page set.\<close>

definition full_kmem :: kmem where
  "full_kmem = boot_kmem\<lparr>bytes := (\<lambda>_. 0xff)\<rparr>"

lemma full_kmem_used: "used full_kmem b i"
proof -
  have "bit (mask 8 :: u8) (i mod 8)" by (simp add: bit_mask_iff)
  moreover have "(mask 8 :: u8) = 0xff" by (simp add: mask_eq_exp_minus_1)
  ultimately have "bit (0xff :: u8) (i mod 8)" by (simp only:)
  then show ?thesis by (simp add: full_kmem_def used_def)
qed

lemma full_kmem_free: "free_frames full_kmem p = {}"
  by (simp add: free_frames_def bm.free_slots_def full_kmem_used)

lemma full_kmem_inv: "mm_inv full_kmem"
proof -
  have "spare full_kmem = {}" by (simp add: spare_def full_kmem_free)
  then show ?thesis using boot_kmem_inv unfolding mm_inv_def full_kmem_def by auto
qed

theorem page_table_add_exhausted_witness:
  "\<exists>s'. page_table_add 0xc0100000 0x201000 full_kmem = Inr s' \<and> table_of s' 0xc0100000 = Some 0"
proof -
  have l: "lower 0xc0100000" by (rule lower_unat) simp
  have "table_of full_kmem 0xc0100000 = None" using boot_kmem_table [OF l] by (simp add: full_kmem_def)
  moreover have "frame_of (cr3 full_kmem) \<noteq> 0" "frame_of (0x201000 :: u32) = 0x201000"
    by (simp_all add: full_kmem_def frame_of_def)
  ultimately show ?thesis using page_table_add_exhausted [OF full_kmem_inv full_kmem_free l] by blast
qed

text \<open>C39. The assertion in the user branch of \<open>mfree_page\<close> is strict: a page mapped to the first frame of the
  user pool, which is the first frame the pool hands out, cannot be given back; the call panics.\<close>

theorem mfree_first_user_frame:
  fixes s :: "'z kmem_scheme"
  assumes "selfmap s" and "page_walk s p = Some (phy_addr_start (user_pool s))" and "1 \<le> unat pg_cnt"
    and "frame_of p = p" and "frame_of (phy_addr_start (user_pool s)) = phy_addr_start (user_pool s)"
    and "0x102000 \<le> unat (phy_addr_start (user_pool s))"
  shows "mfree_page PF_USER p pg_cnt s = Inl (Panic ''pg_phy_addr'')"
proof -
  obtain n where n: "unat pg_cnt = Suc n" using assms(3) by (cases "unat pg_cnt") auto
  show ?thesis
    using addr_v2p_walk [OF assms(1,2)] frame_mod [OF assms(4)] frame_mod [OF assms(5)] assms(3,6) n
    by (simp add: mfree_page_def word_le_nat_alt)
qed

text \<open>One user page mapped by hand: directory entry 1 to a table at \<open>0x101000\<close>, its entry 0 to the first user frame.\<close>

definition user_kmem :: kmem where
  "user_kmem = boot_kmem\<lparr>pmem := (\<lambda>_. 0)(0x100ffc := 0x100007, 0x100004 := 0x101007, 0x101000 := 0x280007)\<rparr>"

theorem mfree_first_user_frame_witness:
  "mfree_page PF_USER 0x400000 1 user_kmem = Inl (Panic ''pg_phy_addr'')"
proof -
  have u: "phy_addr_start (user_pool user_kmem) = 0x280000"
    by (simp add: user_kmem_def boot_upool_def boot_free_pages)
  have "page_walk user_kmem 0x400000 = Some 0x280000"
    by (simp add: page_walk_def user_kmem_def Let_def PDE_IDX_def PTE_IDX_def frame_of_def present_def)
  moreover have "selfmap user_kmem" by (simp add: selfmap_def user_kmem_def frame_of_def present_def)
  ultimately show ?thesis
    by (intro mfree_first_user_frame) (simp_all add: u frame_of_def)
qed

text \<open>\<open>get_user_pages\<close> clears the pages it got without testing for failure: when the process has no free
  virtual page left it does not return \<open>NULL\<close> but panics in \<open>memset\<close>, holding the lock of the user pool.\<close>

theorem get_user_pages_full:
  fixes s :: "'z kmem_scheme"
  assumes "lock_acquire_now (pool_lock (user_pool s)) s = Inr s1" and "0 < unat pg_cnt" and "unat pg_cnt < 57600"
    and "bm_ok (vaddr_bitmap (vspace PF_USER s1))"
    and "\<forall>i<bm_bits (vaddr_bitmap (vspace PF_USER s1)). used s1 (vaddr_bitmap (vspace PF_USER s1)) i"
  shows "get_user_pages pg_cnt s = Inl (Panic ''dst_ != NULL'')"
proof -
  have "bitmap_scan (vaddr_bitmap (vspace PF_USER s1)) pg_cnt s1 = Inr (-1)"
    using bitmap_scan_start [OF assms(4), of pg_cnt s1] full_iff [of "vaddr_bitmap (vspace PF_USER s1)" s1] assms(5)
    by simp
  then have "malloc_pages PF_USER pg_cnt s1 = Inr (NULL, s1)"
    using assms(2,3) by (simp add: malloc_pages_def vaddr_get_def vspace_def Let_def word_less_nat_alt)
  then show ?thesis using assms(1) by (simp add: get_user_pages_def memset_mem_def)
qed

theorem get_user_pages_full_witness:
  "get_user_pages 2 full_kmem = Inl (Panic ''dst_ != NULL'')"
proof -
  have l: "lock_acquire_now (pool_lock (user_pool full_kmem)) full_kmem =
      Inr (full_kmem\<lparr>sema_value := (\<lambda>_. 1)(0xc00090c4 := 0), lock_holder := (\<lambda>_. NULL)(0xc00090c0 := 0xc009e000),
        lock_repeat := (\<lambda>_. 0)(0xc00090c0 := 1)\<rparr>)" (is "_ = Inr ?s1")
    by (simp add: full_kmem_def boot_kmem_def boot_upool_def lock_acquire_now_def lock_acquire_enter_def running_thread_def
        sema_down_now_def sema_take_def lock_acquire_tail_def intr_disable_def intr_set_status_def
        intr_get_status_def intr_enable_def EFLAGS_IF_def sti_def cli_def task_upds lock_semaphore_def)
  have v: "vaddr_bitmap (vspace PF_USER ?s1) = \<lparr>btmp_bytes_len = 2, bits = 0xc0098000\<rparr>"
    by (simp add: vspace_def full_kmem_def boot_kmem_def blank_task_def)
  have u: "used ?s1 b i" for b i using full_kmem_used [of b i] by (simp add: used_def)
  show ?thesis
    by (rule get_user_pages_full [OF l]) (simp_all only: v u, simp_all add: bm_ok_def bm_bits_def)
qed

text \<open>C25. \<open>addr_v2p\<close> computes through the self-mapped page directory what the MMU computes from \<open>cr3\<close>: on a
  mapped address it returns the translated address, and on an address without a page table it faults.\<close>

theorem addr_v2p_is_walk:
  fixes s :: "'z kmem_scheme"
  assumes "mm_inv s" and "lower va"
  shows "(\<forall>pa. page_walk s va = Some pa \<longrightarrow> addr_v2p va s = Inr pa) \<and>
    (table_of s va = None \<longrightarrow> addr_v2p va s = Inl (PageFault (pte_ptr va)))"
  using assms addr_v2p_walk addr_v2p_fault by (auto simp: mm_inv_def table_of_def split: if_splits)

theorem addr_v2p_is_walk_witness:
  "addr_v2p 0xc0100000 boot_kmem = Inl (PageFault (pte_ptr 0xc0100000))"
proof -
  have l: "lower 0xc0100000" by (rule lower_unat) simp
  then show ?thesis using addr_v2p_is_walk [OF boot_kmem_inv l] boot_kmem_table [OF l] by blast
qed


end
