(* ===== verification/Heap.thy ===== *)
theory Heap
  imports Mem_Props
begin

text \<open>
  The heap of \<^verbatim>\<open>kernel/memory.c\<close>: \<open>sys_malloc\<close> and \<open>sys_free\<close> over arenas.  A request of at most 1024
  bytes is served from one of seven block sizes; the blocks of a size are cut from a page, the arena,
  whose first 12 bytes are its header (\<open>desc\<close>, \<open>cnt\<close>, \<open>large\<close>), and the free ones are linked through their
  first two words into the list of the size's descriptor (\<open>block_size\<close>, \<open>blocks_per_arena\<close>, \<open>free_list\<close>: 24
  bytes).  A larger request gets whole pages with a header whose \<open>large\<close> is set.

  Headers, descriptors and free blocks are in word memory.  The loops over the blocks of an arena count
  up to \<open>blocks_per_arena\<close>, a word of the descriptor that the loops do not write.
\<close>

section \<open>Layout\<close>

definition arena_desc :: "addr \<Rightarrow> addr" where "arena_desc a = a"
definition arena_cnt :: "addr \<Rightarrow> addr" where "arena_cnt a = a + 4"
definition arena_large :: "addr \<Rightarrow> addr" where "arena_large a = a + 8"
definition sizeof_arena :: u32 where "sizeof_arena = 12"

definition desc_block_size :: "addr \<Rightarrow> addr" where "desc_block_size d = d"
definition desc_blocks_per_arena :: "addr \<Rightarrow> addr" where "desc_blocks_per_arena d = d + 4"
definition desc_free_list :: "addr \<Rightarrow> addr" where "desc_free_list d = d + 8"
definition sizeof_desc :: u32 where "sizeof_desc = 24"
definition DESC_CNT :: nat where "DESC_CNT = 7"

lemmas heap_layout = arena_desc_def arena_cnt_def arena_large_def desc_block_size_def desc_blocks_per_arena_def
  desc_free_list_def

section \<open>Blocks and arenas\<close>

fun block_desc_init_loop :: "nat \<Rightarrow> u16 \<Rightarrow> addr \<Rightarrow> 'z machine_scheme \<Rightarrow> 'z machine_scheme" where
  "block_desc_init_loop 0 block_size d s = s"
| "block_desc_init_loop (Suc n) block_size d s =
     (let s = wr (desc_block_size d) (ucast block_size) s;
          s = wr (desc_blocks_per_arena d) ((PG_SIZE - sizeof_arena) div ucast block_size) s;
          s = list_init (desc_free_list d) s
      in block_desc_init_loop n (block_size * 2) (d + sizeof_desc) s)"

definition block_desc_init :: "addr \<Rightarrow> 'z machine_scheme \<Rightarrow> 'z machine_scheme" where
  "block_desc_init desc_array = block_desc_init_loop DESC_CNT 16 desc_array"

definition arena2block :: "addr \<Rightarrow> u32 \<Rightarrow> 'z machine_scheme \<Rightarrow> addr" where
  "arena2block a idx s = a + sizeof_arena + idx * mem s (desc_block_size (mem s (arena_desc a)))"

definition block2arena :: "addr \<Rightarrow> addr" where
  "block2arena b = b AND 0xfffff000"

section \<open>Allocation\<close>

definition malloc_large :: "pool_flags \<Rightarrow> u32 \<Rightarrow> 'z kmem_scheme \<Rightarrow> (addr \<times> 'z kmem_scheme) result" where
  "malloc_large pf nbytes s =
     (let page_cnt = DIV_ROUND_UP (nbytes + sizeof_arena) PG_SIZE
      in bind_r (malloc_pages pf page_cnt s) (\<lambda>(a, s).
         if a \<noteq> NULL
         then bind_r (memset_mem a 0 (page_cnt * PG_SIZE) s) (\<lambda>s.
           let s = wr (arena_desc a) NULL s;
               s = wr (arena_cnt a) page_cnt s;
               s = wr (arena_large a) 1 s
           in bind_r (lock_release (pool_lock (pool_of pf s)) s) (\<lambda>s. Inr (a + sizeof_arena, s)))
         else bind_r (lock_release (pool_lock (pool_of pf s)) s) (\<lambda>s. Inr (NULL, s))))"

text \<open>\<open>&descs[desc_idx]\<close> for the first size that is large enough.\<close>

fun find_desc :: "nat \<Rightarrow> addr \<Rightarrow> u32 \<Rightarrow> 'z machine_scheme \<Rightarrow> addr" where
  "find_desc 0 d nbytes s = d"
| "find_desc (Suc n) d nbytes s =
     (if nbytes \<le> mem s (desc_block_size d) then d else find_desc n (d + sizeof_desc) nbytes s)"

fun split_arena :: "nat \<Rightarrow> addr \<Rightarrow> u32 \<Rightarrow> 'z machine_scheme \<Rightarrow> 'z machine_scheme result" where
  "split_arena 0 a block_idx s = Inr s"
| "split_arena (Suc n) a block_idx s =
     (let b = arena2block a block_idx s;
          l = desc_free_list (mem s (arena_desc a))
      in assert_absent l b s (split_arena n a (block_idx + 1) (list_append l b s)))"

definition new_arena :: "pool_flags \<Rightarrow> addr \<Rightarrow> 'z kmem_scheme \<Rightarrow> (bool \<times> 'z kmem_scheme) result" where
  "new_arena pf d s =
     bind_r (malloc_pages pf 1 s) (\<lambda>(a, s).
       if a = NULL then Inr (False, s)
       else bind_r (memset_mem a 0 PG_SIZE s) (\<lambda>s.
         let s = wr (arena_desc a) d s;
             s = wr (arena_cnt a) (mem s (desc_blocks_per_arena d)) s;
             s = wr (arena_large a) 0 s;
             (old_status, s) = intr_disable s
         in bind_r (split_arena (unat (mem s (desc_blocks_per_arena d))) a 0 s) (\<lambda>s.
              Inr (True, snd (intr_set_status old_status s)))))"

definition malloc_small :: "pool_flags \<Rightarrow> addr \<Rightarrow> u32 \<Rightarrow> 'z kmem_scheme \<Rightarrow> (addr \<times> 'z kmem_scheme) result" where
  "malloc_small pf descs nbytes s =
     (let d = find_desc DESC_CNT descs nbytes s
      in bind_r (if list_empty (desc_free_list d) s then new_arena pf d s else Inr (True, s)) (\<lambda>(ok, s).
           if \<not> ok then bind_r (lock_release (pool_lock (pool_of pf s)) s) (\<lambda>s. Inr (NULL, s))
           else
             let (elem, s) = list_pop (desc_free_list d) s;
                 b = elem2entry 0 elem
             in bind_r (memset_mem b 0 (mem s (desc_block_size d)) s) (\<lambda>s.
               let a = block2arena b;
                   s = wr (arena_cnt a) (mem s (arena_cnt a) - 1) s
               in bind_r (lock_release (pool_lock (pool_of pf s)) s) (\<lambda>s. Inr (b, s)))))"

definition thread_pool :: "'z kmem_scheme \<Rightarrow> pool_flags" where
  "thread_pool s = (if pgdir (tasks s (running_thread s)) = NULL then PF_KERNEL else PF_USER)"

definition sys_malloc :: "u32 \<Rightarrow> 'z kmem_scheme \<Rightarrow> (addr \<times> 'z kmem_scheme) result" where
  "sys_malloc nbytes s =
     (let cur_thread = running_thread s;
          PF = thread_pool s;
          descs = (if pgdir (tasks s cur_thread) = NULL then k_block_descs s else u_block_desc cur_thread)
      in if \<not> (nbytes > 0 \<and> nbytes < pool_size (pool_of PF s)) then Inr (NULL, s)
         else bind_r (lock_acquire_now (pool_lock (pool_of PF s)) s) (\<lambda>s.
           if nbytes > 1024 then malloc_large PF nbytes s else malloc_small PF descs nbytes s))"

section \<open>Giving memory back\<close>

fun unlink_blocks :: "nat \<Rightarrow> addr \<Rightarrow> u32 \<Rightarrow> 'z machine_scheme \<Rightarrow> 'z machine_scheme result" where
  "unlink_blocks 0 a block_idx s = Inr s"
| "unlink_blocks (Suc n) a block_idx s =
     (let b = arena2block a block_idx s
      in bind_r (loop_r (elem_find (desc_free_list (mem s (arena_desc a))) b s)) (\<lambda>found.
           ASSERT found ''elem_find(&a->desc->free_list, &b->free_elem)''
             (unlink_blocks n a (block_idx + 1) (list_remove b s))))"

definition free_block :: "pool_flags \<Rightarrow> addr \<Rightarrow> addr \<Rightarrow> 'z kmem_scheme \<Rightarrow> 'z kmem_scheme result" where
  "free_block pf a b s =
     (let s = list_append (desc_free_list (mem s (arena_desc a))) b s;
          s = wr (arena_cnt a) (mem s (arena_cnt a) + 1) s;
          n = mem s (desc_blocks_per_arena (mem s (arena_desc a)))
      in if mem s (arena_cnt a) = n
         then bind_r (unlink_blocks (unat n) a 0 s) (mfree_page pf a 1)
         else Inr s)"

definition sys_free :: "addr \<Rightarrow> 'z kmem_scheme \<Rightarrow> 'z kmem_scheme result" where
  "sys_free ptr s =
     ASSERT (ptr \<noteq> NULL) ''ptr != NULL''
       (let pf = thread_pool s
        in ASSERT (pf = PF_KERNEL \<longrightarrow> ptr \<ge> K_HEAP_STACK) ''(uint32_t)ptr >= K_HEAP_STACK''
          (bind_r (lock_acquire_now (pool_lock (pool_of pf s)) s) (\<lambda>s.
             let b = ptr;
                 a = block2arena b
             in ASSERT (mem s (arena_large a) = 0 \<or> mem s (arena_large a) = 1) ''a->large == 0 || a->large == 1''
               (bind_r (if mem s (arena_desc a) = NULL \<and> mem s (arena_large a) = 1
                        then mfree_page pf a (mem s (arena_cnt a)) s
                        else free_block pf a b s)
                  (\<lambda>s. lock_release (pool_lock (pool_of pf s)) s)))))"

section \<open>Initialisation\<close>

definition mem_init :: "'z kmem_scheme \<Rightarrow> 'z kmem_scheme result" where
  "mem_init s =
     (let s = put_line ''mem_init start'' s;
          s = lock_init (pool_lock (kernel_pool s)) s;
          s = lock_init (pool_lock (user_pool s)) s;
          mem_bytes_total = mem s 0xb00
      in bind_r (mem_pool_init mem_bytes_total s) (\<lambda>s.
           let s = block_desc_init (k_block_descs s) s
           in Inr (put_line ''mem_init done'' s)))"

end
