(* ===== verification/Scheduler.thy ===== *)
theory Scheduler
  imports Sync
begin

text \<open>
  The scheduler of \<^verbatim>\<open>thread/thread.c\<close>, the blocking half of \<^verbatim>\<open>thread/sync.c\<close> and the timer
  interrupt of \<^verbatim>\<open>device/timer.c\<close>.

  \<open>schedule\<close> leaves the calling thread: what its caller has to do after it returns is a frame on that
  thread's frame stack, pushed before the switch and run by \<open>run_frame\<close> when the thread is on the CPU
  again.  The relation \<open>kstep\<close> puts the pieces together: the running thread goes on with its innermost
  frame, or its own code (no frames left) makes one of the calls, or, when the interrupt flag is set,
  a timer interrupt arrives.  Threads are assumed not to nest one lock to the depth at which its
  repeat counter wraps.
\<close>

section \<open>schedule, thread\_yield, thread\_block\<close>

text \<open>The three parts of \<open>schedule\<close>: a thread that is still running goes to the end of the ready list; an
  empty ready list wakes the idle thread; the first ready thread is dispatched.\<close>

definition sched_requeue :: "'z kernel_scheme \<Rightarrow> 'z kernel_scheme result" where
  "sched_requeue s =
     (let cur = running_thread s
      in if status (tasks s cur) = TASK_RUNNING then
           assert_absent (thread_ready_list s) (general_tag cur) s
             (let s = list_append (thread_ready_list s) (general_tag cur) s;
                  s = upd_task cur (\<lambda>t. t\<lparr>ticks := priority t\<rparr>) s
              in Inr (set_status cur TASK_READY s))
         else Inr s)"

definition sched_idle :: "'z kernel_scheme \<Rightarrow> 'z kernel_scheme result" where
  "sched_idle s =
     (if list_empty (thread_ready_list s) s then
        bind_r (printk (''idle thread has unblocked!'' @ newline) (\<lambda>_. []) [] s) (\<lambda>s.
          thread_unblock (idle_thread s) s)
      else Inr s)"

definition sched_dispatch :: "addr \<Rightarrow> 'z kernel_scheme \<Rightarrow> 'z kernel_scheme result" where
  "sched_dispatch cur s =
     (let s = s\<lparr>thread_tag := NULL\<rparr>;
          (elem, s) = list_pop (thread_ready_list s) s;
          s = s\<lparr>thread_tag := elem\<rparr>;
          nxt = elem2entry 36 (thread_tag s);
          s = set_status nxt TASK_RUNNING s
      in bind_r (process_active nxt s) (\<lambda>s.
         bind_r (printk (''%s->%s'' @ newline) (\<lambda>p. tname (tasks s (p - 12))) [cur + 12, nxt + 12] s) (\<lambda>s.
         Inr (switch_to cur nxt s))))"

definition schedule :: "'z kernel_scheme \<Rightarrow> 'z kernel_scheme result" where
  "schedule s =
     ASSERT (intr_get_status s = INTR_OFF) ''intr_get_status() == INTR_OFF''
      (let cur = running_thread s
       in bind_r (sched_requeue s) (\<lambda>s. bind_r (sched_idle s) (sched_dispatch cur)))"

definition thread_yield :: "'z kernel_scheme \<Rightarrow> 'z kernel_scheme result" where
  "thread_yield s =
     (let cur = running_thread s;
          (old_status, s) = intr_disable s
      in assert_absent (thread_ready_list s) (general_tag cur) s
        (let s = list_append (thread_ready_list s) (general_tag cur) s;
             s = set_status cur TASK_READY s
         in schedule (push_frames [F_set_status old_status] s)))"

definition thread_block :: "task_status \<Rightarrow> 'z kernel_scheme \<Rightarrow> 'z kernel_scheme result" where
  "thread_block stat s =
     (let (old_status, s) = intr_disable s
      in ASSERT (is_blocked stat) ''thread_block''
        (let cur_thread = running_thread s;
             s = set_status cur_thread stat s
         in schedule (push_frames [F_set_status old_status] s)))"

section \<open>sema\_down, lock\_acquire, lock\_release\<close>

text \<open>The loop of \<open>sema_down\<close>, from its head: the thread comes back to the head when it is woken.\<close>

definition sema_loop :: "addr \<Rightarrow> intr_status \<Rightarrow> 'z kernel_scheme \<Rightarrow> 'z kernel_scheme result" where
  "sema_loop psema old_status s =
     (if sema_value s psema = 0 then
        assert_absent (waiters psema) (general_tag (running_thread s)) s
          (let s = list_append (waiters psema) (general_tag (running_thread s)) s
           in thread_block TASK_BLOCKED (push_frames [F_sema_loop psema old_status] s))
      else sema_take psema old_status s)"

definition sema_down :: "addr \<Rightarrow> 'z kernel_scheme \<Rightarrow> 'z kernel_scheme" where
  "sema_down psema s =
     (let (old_status, s) = intr_disable s in push_frames [F_sema_loop psema old_status] s)"

definition lock_acquire :: "addr \<Rightarrow> 'z kernel_scheme \<Rightarrow> 'z kernel_scheme" where
  "lock_acquire plock s =
     (let (down, s) = lock_acquire_enter plock s
      in if down then push_frames [F_sema_down (lock_semaphore plock), F_lock plock] s else s)"

definition lock_release_call :: "addr \<Rightarrow> 'z kernel_scheme \<Rightarrow> 'z kernel_scheme result" where
  "lock_release_call plock s =
     bind_r (lock_release_enter plock s) (\<lambda>(up, s).
       Inr (if up then push_frames [F_sema_up (lock_semaphore plock)] s else s))"

section \<open>The timer interrupt\<close>

definition intr_timer_handler :: "'z kernel_scheme \<Rightarrow> 'z kernel_scheme result" where
  "intr_timer_handler s =
     (let cur_thread = running_thread s
      in ASSERT (stack_magic (tasks s cur_thread) = 0x19870916) ''stack_magic''
        (let s = upd_task cur_thread (\<lambda>t. t\<lparr>elapsed_ticks := elapsed_ticks t + 1\<rparr>) s;
             s = s\<lparr>total_ticks := total_ticks s + 1\<rparr>
         in if ticks (tasks s cur_thread) = 0 then schedule s
            else Inr (upd_task cur_thread (\<lambda>t. t\<lparr>ticks := ticks t - 1\<rparr>) s)))"

text \<open>The processor saves the flags, clears the interrupt flag and enters the handler; the saved flags
  come back with the \<open>iret\<close> at the end.\<close>

definition timer_interrupt :: "'z kernel_scheme \<Rightarrow> 'z kernel_scheme result" where
  "timer_interrupt s = intr_timer_handler (cli (push_frames [F_iret (eflags s)] s))"

section \<open>Steps\<close>

fun exec_frame :: "frame \<Rightarrow> 'z kernel_scheme \<Rightarrow> 'z kernel_scheme result" where
  "exec_frame (F_start func func_arg) s = Inr (snd (intr_enable s))"
| "exec_frame (F_iret f) s = Inr (s\<lparr>eflags := f\<rparr>)"
| "exec_frame (F_set_status old_status) s = Inr (snd (intr_set_status old_status s))"
| "exec_frame (F_sema_down psema) s = Inr (sema_down psema s)"
| "exec_frame (F_sema_loop psema old_status) s = sema_loop psema old_status s"
| "exec_frame (F_lock plock) s = lock_acquire_tail plock s"
| "exec_frame (F_sema_up psema) s = sema_up psema s"

definition run_frame :: "'z kernel_scheme \<Rightarrow> 'z kernel_scheme result" where
  "run_frame s =
     (let cur = running_thread s
      in case frames s cur of
           [] \<Rightarrow> Inr s
         | f # fs \<Rightarrow> exec_frame f (s\<lparr>frames := (frames s)(cur := fs)\<rparr>))"

text \<open>A thread that sleeps in the waiter list of a semaphore.\<close>

fun waits_on :: "frame list \<Rightarrow> addr option" where
  "waits_on (F_set_status st # F_sema_loop psema old # fs) = Some psema"
| "waits_on fs = None"

inductive kstep :: "addr set \<Rightarrow> addr set \<Rightarrow> 'z kernel_scheme \<Rightarrow> 'z kernel_scheme \<Rightarrow> bool" for T L where
  run: "frames s (running_thread s) \<noteq> [] \<Longrightarrow> run_frame s = Inr s' \<Longrightarrow> kstep T L s s'"
| timer: "intr_get_status s = INTR_ON \<Longrightarrow> timer_interrupt s = Inr s' \<Longrightarrow> kstep T L s s'"
| acquire: "frames s (running_thread s) = [] \<Longrightarrow> l \<in> L \<Longrightarrow> lock_repeat s l + 1 \<noteq> 0 \<Longrightarrow>
    kstep T L s (lock_acquire l s)"
| release: "frames s (running_thread s) = [] \<Longrightarrow> l \<in> L \<Longrightarrow> lock_release_call l s = Inr s' \<Longrightarrow> kstep T L s s'"
| yield: "frames s (running_thread s) = [] \<Longrightarrow> thread_yield s = Inr s' \<Longrightarrow> kstep T L s s'"
| block: "frames s (running_thread s) = [] \<Longrightarrow> thread_block st s = Inr s' \<Longrightarrow> kstep T L s s'"
| unblock: "frames s (running_thread s) = [] \<Longrightarrow> t \<in> T \<Longrightarrow> waits_on (frames s t) = None \<Longrightarrow>
    thread_unblock t s = Inr s' \<Longrightarrow> kstep T L s s'"
| irq: "frames s (running_thread s) = [] \<Longrightarrow> kstep T L s (snd (intr_set_status st s))"

inductive reachable :: "addr set \<Rightarrow> addr set \<Rightarrow> 'z kernel_scheme \<Rightarrow> 'z kernel_scheme \<Rightarrow> bool" for T L s0 where
  init: "reachable T L s0 s0"
| step: "reachable T L s0 s \<Longrightarrow> kstep T L s s' \<Longrightarrow> reachable T L s0 s'"

end
