(* ===== verification/Thread.thy ===== *)
theory Thread
  imports Heap Scheduler
begin

text \<open>
  The creation of threads, \<^verbatim>\<open>thread/thread.c\<close> lines 24 to 144 and \<open>thread_init\<close>.

  The members of the PCB are in the typed heap \<open>tasks\<close>; its list nodes and block descriptors and the
  stack are in word memory.  The kernel stack a new thread starts on is also a stack of frames: one
  \<open>F_start\<close> with the function and its argument, which \<open>kernel_thread\<close> calls.

  \<open>self_kstack\<close> is a \<open>uint32_t *\<close>, so \<open>self_kstack -= sizeof(intr_stack)\<close> moves it by 4 * 76 bytes and
  \<open>self_kstack -= sizeof(thread_stack)\<close> by 4 * 32.
\<close>

section \<open>Layout\<close>

definition sizeof_intr_stack :: u32 where "sizeof_intr_stack = 19 * 4"
definition sizeof_thread_stack :: u32 where "sizeof_thread_stack = 8 * 4"
definition sizeof_task_struct :: u32 where "sizeof_task_struct = 240"
definition default_thread_priority :: u16 where "default_thread_priority = 50"

text \<open>Members of \<open>thread_stack\<close>.\<close>

definition ts_ebp :: "addr \<Rightarrow> addr" where "ts_ebp k = k"
definition ts_ebx :: "addr \<Rightarrow> addr" where "ts_ebx k = k + 4"
definition ts_edi :: "addr \<Rightarrow> addr" where "ts_edi k = k + 8"
definition ts_esi :: "addr \<Rightarrow> addr" where "ts_esi k = k + 12"
definition ts_eip :: "addr \<Rightarrow> addr" where "ts_eip k = k + 16"
definition ts_function :: "addr \<Rightarrow> addr" where "ts_function k = k + 24"
definition ts_func_arg :: "addr \<Rightarrow> addr" where "ts_func_arg k = k + 28"

lemmas thread_stack_layout = ts_ebp_def ts_ebx_def ts_edi_def ts_esi_def ts_eip_def ts_function_def ts_func_arg_def

section \<open>Operations\<close>

definition allocate_pid :: "'z kernel_scheme \<Rightarrow> (pid_t \<times> 'z kernel_scheme) result" where
  "allocate_pid s =
     bind_r (lock_acquire_now (pid_lock s) s) (\<lambda>s.
     let s = s\<lparr>next_pid := next_pid s + 1\<rparr>
     in bind_r (lock_release (pid_lock s) s) (\<lambda>s. Inr (next_pid s, s)))"

definition thread_create :: "addr \<Rightarrow> addr \<Rightarrow> addr \<Rightarrow> addr \<Rightarrow> 'z kernel_scheme \<Rightarrow> 'z kernel_scheme" where
  "thread_create kernel_thread pthread function func_arg s =
     (let s = upd_task pthread (self_kstack_update (\<lambda>k. k - sizeof_intr_stack * 4)) s;
          s = upd_task pthread (self_kstack_update (\<lambda>k. k - sizeof_thread_stack * 4)) s;
          kthread_stack = self_kstack (tasks s pthread);
          s = wr (ts_eip kthread_stack) kernel_thread s;
          s = wr (ts_function kthread_stack) function s;
          s = wr (ts_func_arg kthread_stack) func_arg s;
          s = wr (ts_ebp kthread_stack) 0 (wr (ts_ebx kthread_stack) 0
                (wr (ts_edi kthread_stack) 0 (wr (ts_esi kthread_stack) 0 s)))
      in s\<lparr>frames := (frames s)(pthread := [F_start function func_arg])\<rparr>)"

definition zero_task :: task where
  "zero_task = \<lparr>self_kstack = 0, pid = 0, status = TASK_RUNNING, tname = [], priority = 0, ticks = 0,
     elapsed_ticks = 0, pgdir = NULL,
     userprog_vaddr = \<lparr>vaddr_bitmap = \<lparr>btmp_bytes_len = 0, bits = NULL\<rparr>, vaddr_start = 0\<rparr>, stack_magic = 0\<rparr>"

text \<open>\<open>memset(pthread, 0, sizeof( *pthread))\<close>.\<close>

definition clear_pcb :: "addr \<Rightarrow> 'z kernel_scheme \<Rightarrow> 'z kernel_scheme result" where
  "clear_pcb pthread s =
     bind_r (memset_mem pthread 0 sizeof_task_struct s) (\<lambda>s. Inr (upd_task pthread (\<lambda>_. zero_task) s))"

text \<open>\<open>strcpy(pthread->name, name)\<close>: the array has 16 bytes, the last one for the terminator.\<close>

definition copy_name :: "addr \<Rightarrow> u8 list \<Rightarrow> 'z kernel_scheme \<Rightarrow> 'z kernel_scheme result" where
  "copy_name pthread name s =
     (if length name < 16 then Inr (upd_task pthread (tname_update (\<lambda>_. name)) s)
      else Inl (Overrun (pthread + 12)))"

definition init_thread :: "addr \<Rightarrow> u8 list \<Rightarrow> u16 \<Rightarrow> 'z kernel_scheme \<Rightarrow> 'z kernel_scheme result" where
  "init_thread pthread name prio s =
     bind_r (clear_pcb pthread s) (\<lambda>s.
     bind_r (allocate_pid s) (\<lambda>(new_pid, s).
     let s = upd_task pthread (pid_update (\<lambda>_. new_pid)) s
     in bind_r (copy_name pthread name s) (\<lambda>s.
     let s = (if pthread = main_thread s then set_status pthread TASK_RUNNING s
              else set_status pthread TASK_READY s);
         prio = (if prio \<le> 0 then default_thread_priority else prio);
         s = upd_task pthread (self_kstack_update (\<lambda>_. pthread + PG_SIZE)) s;
         s = upd_task pthread (priority_update (\<lambda>_. ucast prio)) s;
         s = upd_task pthread (ticks_update (\<lambda>_. ucast prio)) s;
         s = upd_task pthread (elapsed_ticks_update (\<lambda>_. 0)) s;
         s = upd_task pthread (pgdir_update (\<lambda>_. NULL)) s
     in Inr (upd_task pthread (stack_magic_update (\<lambda>_. 0x19870916)) s))))"

text \<open>The end of \<open>thread_start\<close> and \<open>process_execute\<close>: the task enters both lists.\<close>

definition enlist :: "addr \<Rightarrow> 'z kernel_scheme \<Rightarrow> 'z kernel_scheme result" where
  "enlist thread s =
     assert_absent (thread_ready_list s) (general_tag thread) s
       (let s = list_append (thread_ready_list s) (general_tag thread) s
        in assert_absent (thread_all_list s) (all_list_tag thread) s
             (Inr (list_append (thread_all_list s) (all_list_tag thread) s)))"

definition thread_start ::
  "addr \<Rightarrow> u8 list \<Rightarrow> u32 \<Rightarrow> addr \<Rightarrow> addr \<Rightarrow> 'z kmem_scheme \<Rightarrow> (addr \<times> 'z kmem_scheme) result" where
  "thread_start kernel_thread name prio function func_arg s =
     bind_r (get_kernel_pages 1 s) (\<lambda>(thread, s).
     bind_r (init_thread thread name (ucast prio) s) (\<lambda>s.
     let s = thread_create kernel_thread thread function func_arg s
     in bind_r (enlist thread s) (\<lambda>s. Inr (thread, s))))"

definition make_main_thread :: "'z kernel_scheme \<Rightarrow> 'z kernel_scheme result" where
  "make_main_thread s =
     (let s = s\<lparr>main_thread := running_thread s\<rparr>
      in bind_r (init_thread (main_thread s) (bytes_of ''main'') 31 s) (\<lambda>s.
         assert_absent (thread_all_list s) (all_list_tag (main_thread s)) s
           (let s = list_append (thread_all_list s) (all_list_tag (main_thread s)) s
            in Inr (put_line ''I have created the main thread.'' s))))"

definition thread_init :: "'z kernel_scheme \<Rightarrow> 'z kernel_scheme result" where
  "thread_init s =
     (let s = put_line ''thread_init start'' s;
          s = list_init (thread_ready_list s) s;
          s = list_init (thread_all_list s) s;
          s = lock_init (pid_lock s) s
      in bind_r (make_main_thread s) (\<lambda>s. Inr (put_line ''thread_init done'' s)))"

text \<open>\<open>get_thread_status\<close> of \<^verbatim>\<open>thread/thread.h\<close>.\<close>

definition get_thread_status :: "addr \<Rightarrow> 'z kernel_scheme \<Rightarrow> 'z kernel_scheme result" where
  "get_thread_status pthread s =
     (let say = (\<lambda>msg. printk (msg @ newline) (\<lambda>_. []) [] s)
      in case status (tasks s pthread) of
           TASK_RUNNING \<Rightarrow> say ''the task is running!''
         | TASK_READY \<Rightarrow> say ''the task is ready!''
         | TASK_WAITING \<Rightarrow> say ''the task is waiting!''
         | TASK_BLOCKED \<Rightarrow> say ''the task has blocked!''
         | TASK_HANGING \<Rightarrow> say ''the task is hanging!''
         | TASK_DIED \<Rightarrow> say ''the task had dead!'')"

end
