(* ===== verification/Descriptors.thy ===== *)
theory Descriptors
  imports Memory
begin

text \<open>
  The tables the CPU reads and how the kernel fills them: gate and segment descriptors
  (\<open>make_idt_desc\<close>, \<open>make_gdt_desc\<close>), the interrupt descriptor table, the handler table, the 8259A
  (\<^verbatim>\<open>kernel/interrupt.c\<close>) and the task state segment (\<^verbatim>\<open>userprog/tss.c\<close>).

  Port output is the sequence of bytes written.  The addresses the linker chose, those of the entry
  stubs of \<^verbatim>\<open>kernel/kernel.S\<close> and of the tables themselves, are arguments.

  The lemmas show that a descriptor read back the way the CPU reads it gives the address, limit and
  attributes it was made from.
\<close>

section \<open>Constants of \<open>global.h\<close>\<close>

definition RPL0 :: u16 where "RPL0 = 0"
definition RPL1 :: u16 where "RPL1 = 1"
definition RPL2 :: u16 where "RPL2 = 2"
definition RPL3 :: u16 where "RPL3 = 3"
definition TI_GDT :: u16 where "TI_GDT = 0"
definition TI_LDT :: u16 where "TI_LDT = 1"

definition DESC_G_4K :: u8 where "DESC_G_4K = 1"
definition DESC_D_32 :: u8 where "DESC_D_32 = 1"
definition DESC_L :: u8 where "DESC_L = 0"
definition DESC_AVL :: u8 where "DESC_AVL = 0"
definition DESC_P :: u8 where "DESC_P = 1"
definition DESC_DPL_0 :: u8 where "DESC_DPL_0 = 0"
definition DESC_DPL_1 :: u8 where "DESC_DPL_1 = 1"
definition DESC_DPL_2 :: u8 where "DESC_DPL_2 = 2"
definition DESC_DPL_3 :: u8 where "DESC_DPL_3 = 3"
definition DESC_S_CODE :: u8 where "DESC_S_CODE = 1"
definition DESC_S_DATA :: u8 where "DESC_S_DATA = DESC_S_CODE"
definition DESC_S_SYS :: u8 where "DESC_S_SYS = 0"
definition DESC_TYPE_CODE :: u8 where "DESC_TYPE_CODE = 8"
definition DESC_TYPE_DATA :: u8 where "DESC_TYPE_DATA = 2"
definition DESC_TYPE_TSS :: u8 where "DESC_TYPE_TSS = 9"
definition IDT_DESC_P :: u8 where "IDT_DESC_P = 1"
definition IDT_DESC_DPL0 :: u8 where "IDT_DESC_DPL0 = 0"
definition IDT_DESC_DPL3 :: u8 where "IDT_DESC_DPL3 = 3"
definition IDT_DESC_32_TYPE :: u8 where "IDT_DESC_32_TYPE = 0xE"
definition IDT_DESC_16_TYPE :: u8 where "IDT_DESC_16_TYPE = 0x6"
definition TSS_DESC_D :: u8 where "TSS_DESC_D = 0"

definition SELECTOR_K_CODE :: u16 where "SELECTOR_K_CODE = push_bit 3 1 + push_bit 2 TI_GDT + RPL0"
definition SELECTOR_K_DATA :: u16 where "SELECTOR_K_DATA = push_bit 3 2 + push_bit 2 TI_GDT + RPL0"
definition SELECTOR_K_STACK :: u16 where "SELECTOR_K_STACK = SELECTOR_K_DATA"
definition SELECTOR_K_GS :: u16 where "SELECTOR_K_GS = push_bit 3 3 + push_bit 2 TI_GDT + RPL0"
definition SELECTOR_TSS :: u16 where "SELECTOR_TSS = push_bit 3 4 + push_bit 2 TI_GDT + RPL0"
definition SELECTOR_U_CODE :: u16 where "SELECTOR_U_CODE = push_bit 3 5 + push_bit 2 TI_GDT + RPL3"
definition SELECTOR_U_DATA :: u16 where "SELECTOR_U_DATA = push_bit 3 6 + push_bit 2 TI_GDT + RPL3"
definition SELECTOR_U_STACK :: u16 where "SELECTOR_U_STACK = SELECTOR_U_DATA"

definition GDT_ATTR_HIGH :: u8 where
  "GDT_ATTR_HIGH = push_bit 7 DESC_G_4K + push_bit 6 DESC_D_32 + push_bit 5 DESC_L + push_bit 4 DESC_AVL"

definition GDT_CODE_ATTR_LOW_RPL3 :: u8 where
  "GDT_CODE_ATTR_LOW_RPL3 = push_bit 7 DESC_P + push_bit 5 DESC_DPL_3 + push_bit 4 DESC_S_CODE + DESC_TYPE_CODE"

definition GDT_DATA_ATTR_LOW_RPL3 :: u8 where
  "GDT_DATA_ATTR_LOW_RPL3 = push_bit 7 DESC_P + push_bit 5 DESC_DPL_3 + push_bit 4 DESC_S_DATA + DESC_TYPE_DATA"

definition TSS_ATTR_HIGH :: u8 where
  "TSS_ATTR_HIGH = push_bit 7 DESC_G_4K + push_bit 6 TSS_DESC_D + push_bit 5 DESC_L + (push_bit 4 DESC_AVL + 0)"

definition TSS_ATTR_LOW :: u8 where
  "TSS_ATTR_LOW = push_bit 7 DESC_P + push_bit 5 DESC_DPL_0 + push_bit 4 DESC_S_SYS + DESC_TYPE_TSS"

definition IDT_DESC_ATTR_DPL0 :: u8 where
  "IDT_DESC_ATTR_DPL0 = push_bit 7 IDT_DESC_P + push_bit 5 IDT_DESC_DPL0 + IDT_DESC_32_TYPE"

definition IDT_DESC_ATTR_DPL3 :: u8 where
  "IDT_DESC_ATTR_DPL3 = push_bit 7 IDT_DESC_P + push_bit 5 IDT_DESC_DPL3 + IDT_DESC_32_TYPE"

lemmas desc_bits = DESC_G_4K_def DESC_D_32_def DESC_L_def DESC_AVL_def DESC_P_def DESC_DPL_0_def DESC_DPL_3_def DESC_S_CODE_def
  DESC_S_DATA_def DESC_S_SYS_def DESC_TYPE_CODE_def DESC_TYPE_DATA_def DESC_TYPE_TSS_def IDT_DESC_P_def IDT_DESC_DPL0_def
  IDT_DESC_DPL3_def IDT_DESC_32_TYPE_def TSS_DESC_D_def

section \<open>State\<close>

record gate_desc =
  func_offset_low_word :: u16
  gate_selector :: u16
  dcount :: u8
  attribute :: u8
  func_offset_high_word :: u16

record gdt_desc =
  limit_low_word :: u16
  base_low_word :: u16
  base_mid_byte :: u8
  attr_low_byte :: u8
  limit_high_word :: u8
  base_high_byte :: u8

text \<open>The handlers the kernel registers, by name.\<close>

datatype intr_handler =
    General_intr_handler
  | Intr_timer_handler
  | Intr_keyboard_handler
  | Handler addr

record dtables = kmem +
  out_log :: "(u16 \<times> u8) list"
  idt :: "nat \<Rightarrow> gate_desc"
  intr_name :: "nat \<Rightarrow> string"
  idt_table :: "nat \<Rightarrow> intr_handler"
  idtr :: u64
  gdt :: "addr \<Rightarrow> gdt_desc"
  gdtr :: u64
  task_register :: u16
  tss_ss0 :: u32
  tss_io_base :: u32

definition outb :: "u16 \<Rightarrow> u8 \<Rightarrow> 'z dtables_scheme \<Rightarrow> 'z dtables_scheme" where
  "outb port val s = s\<lparr>out_log := out_log s @ [(port, val)]\<rparr>"

section \<open>Interrupts\<close>

definition PIC_M_CTRL :: u16 where "PIC_M_CTRL = 0x20"
definition PIC_M_DATA :: u16 where "PIC_M_DATA = 0x21"
definition PIC_S_CTRL :: u16 where "PIC_S_CTRL = 0xA0"
definition PIC_S_DATA :: u16 where "PIC_S_DATA = 0xA1"
definition IDT_DESC_CNT :: nat where "IDT_DESC_CNT = 0x81"
definition lastindex :: nat where "lastindex = 0x80"

definition pic_init :: "'z dtables_scheme \<Rightarrow> 'z dtables_scheme" where
  "pic_init s =
     (let s = outb PIC_M_CTRL 0x11 s; s = outb PIC_M_DATA 0x20 s;
          s = outb PIC_M_DATA 0x04 s; s = outb PIC_M_DATA 0x01 s;
          s = outb PIC_S_CTRL 0x11 s; s = outb PIC_S_DATA 0x28 s;
          s = outb PIC_S_DATA 0x02 s; s = outb PIC_S_DATA 0x01 s;
          s = outb PIC_M_DATA 0xf8 s;
          s = outb PIC_S_DATA 0xbf s
      in put_line ''   pic_init done'' s)"

definition make_idt_desc :: "u8 \<Rightarrow> addr \<Rightarrow> gate_desc" where
  "make_idt_desc attr function =
     \<lparr>func_offset_low_word = ucast (function AND 0x0000FFFF), gate_selector = SELECTOR_K_CODE, dcount = 0,
      attribute = attr, func_offset_high_word = ucast (drop_bit 16 (function AND 0xFFFF0000))\<rparr>"

fun idt_desc_loop :: "(nat \<Rightarrow> addr) \<Rightarrow> nat \<Rightarrow> nat \<Rightarrow> 'z dtables_scheme \<Rightarrow> 'z dtables_scheme" where
  "idt_desc_loop intr_entry_table i 0 s = s"
| "idt_desc_loop intr_entry_table i (Suc n) s =
     idt_desc_loop intr_entry_table (Suc i) n
       (s\<lparr>idt := (idt s)(i := make_idt_desc IDT_DESC_ATTR_DPL0 (intr_entry_table i))\<rparr>)"

definition idt_desc_init :: "(nat \<Rightarrow> addr) \<Rightarrow> addr \<Rightarrow> 'z dtables_scheme \<Rightarrow> 'z dtables_scheme" where
  "idt_desc_init intr_entry_table syscall_handler s =
     (let s = idt_desc_loop intr_entry_table 0 (IDT_DESC_CNT - 1) s;
          s = s\<lparr>idt := (idt s)(lastindex := make_idt_desc IDT_DESC_ATTR_DPL3 syscall_handler)\<rparr>
      in put_line ''   idt_desc_init done'' s)"

text \<open>
  The handler of every vector nobody registered for: a spurious interrupt returns, any other clears the
  top of the screen, prints the name and stops for good, with the state it stops in.  The cursor
  movements of \<open>set_cursor\<close> are not part of the sequence of characters.
\<close>

datatype 's stop = Returns 's | Halts 's

definition general_intr_handler :: "addr \<Rightarrow> u8 \<Rightarrow> 'z dtables_scheme \<Rightarrow> 'z dtables_scheme stop" where
  "general_intr_handler cr2 vec_nr s =
     (if vec_nr = 0x27 \<or> vec_nr = 0x2f then Returns s
      else
        let s = (put_char 32 ^^ 320) s;
            s = put_line ''!!!!!!!!   exception message begin    !!!!!!!!'' s;
            s = put_str (bytes_of (intr_name s (unat vec_nr))) s;
            s = (if vec_nr = 14
                 then put_int cr2 (put_str (bytes_of (newline @ ''     page fault addr is '')) s) else s)
        in Halts (put_str (bytes_of (newline @ ''!!!!!!!!    exception message end     !!!!!!!!'')) s))"

text \<open>\<open>panic_spin\<close> of \<^verbatim>\<open>kernel/debug.c\<close>: what a failed \<open>ASSERT\<close> does before it stops.\<close>

definition panic_spin :: "string \<Rightarrow> u32 \<Rightarrow> string \<Rightarrow> string \<Rightarrow> 'z kernel_scheme \<Rightarrow> 'z kernel_scheme stop" where
  "panic_spin filename line func condition s =
     (let s = snd (intr_disable s);
          s = put_str (bytes_of (newline @ newline @ newline @ ''!!!!! error !!!!!'' @ newline)) s;
          s = put_char 10 (put_str (bytes_of filename) (put_str (bytes_of ''filename:'') s));
          s = put_char 10 (put_int line (put_str (bytes_of ''line:0x'') s));
          s = put_char 10 (put_str (bytes_of func) (put_str (bytes_of ''function:'') s))
      in Halts (put_char 10 (put_str (bytes_of condition) (put_str (bytes_of ''condition:'') s))))"

definition register_handler :: "u8 \<Rightarrow> intr_handler \<Rightarrow> 'z dtables_scheme \<Rightarrow> 'z dtables_scheme" where
  "register_handler vector_no function s = s\<lparr>idt_table := (idt_table s)(unat vector_no := function)\<rparr>"

definition exception_names :: "(nat \<times> string) list" where
  "exception_names =
     [(0, ''#DE Divide Error''), (1, ''#DB Debug Exxception''), (2, ''NMI Interrupt''),
      (3, ''#BP Breakpoint Exception''), (4, ''#OF Overflow Exception''),
      (5, ''#BR BOUND Range Exceeded Exception''), (6, ''#UD Invalid Opcode Exception''),
      (7, ''NM Device Not Avaliable Exception''), (8, ''#DF Double Fault Exception''),
      (9, ''Coprocessor Segment Overrun''), (10, ''#TS Invalid TSS Exception''),
      (11, ''#NP Segment NOt Present''), (12, ''#SS Stack Fault Exception''),
      (13, ''#GP General Protection Exception''), (14, ''#PF Page-Fault Exception''),
      (16, ''#MF x87 FPU Floating-Point Error''), (17, ''#AC Alignment Check Exception''),
      (18, ''#MC Machine-Check Exception''), (19, ''#XF SIMD Floating-Point Exception''),
      (32, ''timer interrupt''), (33, ''keyboard interrupt'')]"

fun exception_loop :: "nat \<Rightarrow> nat \<Rightarrow> 'z dtables_scheme \<Rightarrow> 'z dtables_scheme" where
  "exception_loop i 0 s = s"
| "exception_loop i (Suc n) s =
     exception_loop (Suc i) n
       (s\<lparr>intr_name := (intr_name s)(i := ''unknown''), idt_table := (idt_table s)(i := General_intr_handler)\<rparr>)"

definition exception_init :: "'z dtables_scheme \<Rightarrow> 'z dtables_scheme" where
  "exception_init s =
     (let s = exception_loop 0 IDT_DESC_CNT s
      in fold (\<lambda>(i, name) s. s\<lparr>intr_name := (intr_name s)(i := name)\<rparr>) exception_names s)"

definition idt_init :: "(nat \<Rightarrow> addr) \<Rightarrow> addr \<Rightarrow> addr \<Rightarrow> 'z dtables_scheme \<Rightarrow> 'z dtables_scheme" where
  "idt_init intr_entry_table syscall_handler idt_addr s =
     (let s = put_line ''idt_init start'' s;
          s = idt_desc_init intr_entry_table syscall_handler s;
          s = exception_init s;
          s = pic_init s;
          s = put_line ''idt_init done'' s
      in s\<lparr>idtr := (of_nat (8 * IDT_DESC_CNT) - 1) OR push_bit 16 (ucast idt_addr)\<rparr>)"

section \<open>The task state segment\<close>

definition make_gdt_desc :: "addr \<Rightarrow> u32 \<Rightarrow> u8 \<Rightarrow> u8 \<Rightarrow> gdt_desc" where
  "make_gdt_desc desc_base limit attr_low attr_high =
     \<lparr>limit_low_word = ucast (limit AND 0x0000ffff), base_low_word = ucast (desc_base AND 0x0000ffff),
      base_mid_byte = ucast (drop_bit 16 (desc_base AND 0x00ff0000)), attr_low_byte = attr_low,
      limit_high_word = ucast (drop_bit 16 (limit AND 0x000f0000) + ucast attr_high),
      base_high_byte = ucast (drop_bit 24 desc_base)\<rparr>"

definition sizeof_tss :: u32 where "sizeof_tss = 27 * 4"

definition tss_init :: "addr \<Rightarrow> 'z dtables_scheme \<Rightarrow> 'z dtables_scheme" where
  "tss_init tss_addr s =
     (let s = put_line ''tss_init start'' s;
          s = s\<lparr>tss_esp0 := 0, tss_ss0 := 0, tss_io_base := 0\<rparr>;
          s = s\<lparr>tss_ss0 := ucast SELECTOR_K_STACK, tss_io_base := sizeof_tss\<rparr>;
          s = s\<lparr>gdt := (gdt s)(0xc0000920 := make_gdt_desc tss_addr (sizeof_tss - 1) TSS_ATTR_LOW TSS_ATTR_HIGH)\<rparr>;
          s = s\<lparr>gdt := (gdt s)(0xc0000928 := make_gdt_desc 0 0xfffff GDT_CODE_ATTR_LOW_RPL3 GDT_ATTR_HIGH)\<rparr>;
          s = s\<lparr>gdt := (gdt s)(0xc0000930 := make_gdt_desc 0 0xfffff GDT_DATA_ATTR_LOW_RPL3 GDT_ATTR_HIGH)\<rparr>;
          s = s\<lparr>gdtr := (8 * 7 - 1) OR push_bit 16 (ucast (0xc0000900 :: u32)), task_register := SELECTOR_TSS\<rparr>
      in put_line ''tss_init done'' s)"

section \<open>How the CPU reads the descriptors\<close>

definition gate_offset :: "gate_desc \<Rightarrow> addr" where
  "gate_offset g = ucast (func_offset_low_word g) OR push_bit 16 (ucast (func_offset_high_word g))"

definition gate_present :: "gate_desc \<Rightarrow> bool" where "gate_present g = bit (attribute g) 7"
definition gate_dpl :: "gate_desc \<Rightarrow> nat" where "gate_dpl g = unat (drop_bit 5 (attribute g) AND 3)"

definition seg_base :: "gdt_desc \<Rightarrow> addr" where
  "seg_base d = ucast (base_low_word d) OR push_bit 16 (ucast (base_mid_byte d)) OR push_bit 24 (ucast (base_high_byte d))"

definition seg_limit_field :: "gdt_desc \<Rightarrow> u32" where
  "seg_limit_field d = ucast (limit_low_word d) OR push_bit 16 (ucast (limit_high_word d AND 0x0f))"

definition seg_granular :: "gdt_desc \<Rightarrow> bool" where "seg_granular d = bit (limit_high_word d) 7"

text \<open>The last byte offset a segment allows.\<close>

definition seg_limit :: "gdt_desc \<Rightarrow> u32" where
  "seg_limit d =
     (if seg_granular d then push_bit 12 (seg_limit_field d) OR 0xfff else seg_limit_field d)"

definition seg_dpl :: "gdt_desc \<Rightarrow> nat" where "seg_dpl d = unat (drop_bit 5 (attr_low_byte d) AND 3)"

lemma desc_masks:
  "(0x0000FFFF :: u32) = mask 16" "(0xFFFF0000 :: u32) = push_bit 16 (mask 16)"
  "(0x00ff0000 :: u32) = push_bit 16 (mask 8)" "(0x000f0000 :: u32) = push_bit 16 (mask 4)"
  "(0x0f :: u8) = mask 4"
  by (simp_all add: mask_eq_exp_minus_1)

lemma gate_offset_make: "gate_offset (make_idt_desc attr f) = f"
  unfolding gate_offset_def make_idt_desc_def gate_desc.simps desc_masks
  by (rule bit_word_eqI) (auto simp: bit_simps)

lemma seg_base_make: "seg_base (make_gdt_desc b l lo hi) = b"
  unfolding seg_base_def make_gdt_desc_def gdt_desc.simps desc_masks
proof (rule bit_word_eqI)
  fix n assume "n < LENGTH(32)"
  then consider "n < 16" | "16 \<le> n" "n < 24" | "24 \<le> n" "n < 32" by fastforce
  then show "bit (ucast (ucast (b AND mask 16) :: u16) OR
        push_bit 16 (ucast (ucast (drop_bit 16 (b AND push_bit 16 (mask 8))) :: u8)) OR
        push_bit 24 (ucast (ucast (drop_bit 24 b) :: u8)) :: addr) n = bit b n"
    by cases (auto simp: bit_simps)
qed

text \<open>The upper nibble of the limit shares its byte with the attributes, which must leave it alone.\<close>

lemma limit_byte:
  assumes "hi AND 0x0f = (0 :: u8)"
  shows "(ucast (drop_bit 16 (l AND 0x000f0000 :: u32) + ucast hi) :: u8) = ucast (drop_bit 16 (l AND 0x000f0000)) OR hi"
proof -
  have h: "\<not> bit hi k" if "k < 4" for k
    using arg_cong [OF assms, of "\<lambda>x. bit x k"] that by (simp add: desc_masks bit_simps)
  have "drop_bit 16 (l AND push_bit 16 (mask 4)) AND ucast hi = (0 :: u32)"
    by (rule bit_word_eqI) (use h in \<open>auto simp: bit_simps\<close>)
  then have "drop_bit 16 (l AND push_bit 16 (mask 4)) + ucast hi = drop_bit 16 (l AND push_bit 16 (mask 4)) OR (ucast hi :: u32)"
    by (rule disjunctive_add_eq_or)
  then show ?thesis unfolding desc_masks by (simp only:) (rule bit_word_eqI, auto simp: bit_simps)
qed

lemma seg_limit_make:
  assumes "hi AND 0x0f = (0 :: u8)" and "unat l < 2 ^ 20"
  shows "seg_limit_field (make_gdt_desc b l lo hi) = l" "seg_granular (make_gdt_desc b l lo hi) = bit hi 7"
proof -
  have h: "\<not> bit hi k" if "k < 4" for k
    using arg_cong [OF assms(1), of "\<lambda>x. bit x k"] that by (simp add: desc_masks bit_simps)
  have l: "\<not> bit l n" if "20 \<le> n" for n
  proof -
    have "take_bit 20 (unat l) = unat l" using assms(2) by (simp add: take_bit_nat_eq_self_iff)
    then have "bit (unat l) n = bit (take_bit 20 (unat l)) n" by simp
    then show ?thesis using that by (simp add: bit_simps)
  qed
  show "seg_granular (make_gdt_desc b l lo hi) = bit hi 7"
    unfolding seg_granular_def make_gdt_desc_def gdt_desc.simps limit_byte [OF assms(1)] unfolding desc_masks by (simp add: bit_simps)
  show "seg_limit_field (make_gdt_desc b l lo hi) = l"
    unfolding seg_limit_field_def make_gdt_desc_def gdt_desc.simps limit_byte [OF assms(1)] unfolding desc_masks
  proof (rule bit_word_eqI)
    fix n assume "n < LENGTH(32)"
    then consider "n < 16" | "16 \<le> n" "n < 20" | "20 \<le> n" "n < 32" by fastforce
    then show "bit (ucast (ucast (l AND mask 16) :: u16) OR
        push_bit 16 (ucast ((ucast (drop_bit 16 (l AND push_bit 16 (mask 4))) OR hi) AND mask 4 :: u8)) :: u32) n = bit l n"
      by cases (use h l in \<open>auto simp: bit_simps\<close>)
  qed
qed

section \<open>What the initialisers build\<close>

lemma put_str_tables [simp]:
  "idt (put_str m s) = idt s" "idt_table (put_str m s) = idt_table s" "gdt (put_str m s) = gdt s"
  "tss_io_base (put_str m s) = tss_io_base s" "tss_ss0 (put_str m s) = tss_ss0 s" "out_log (put_str m s) = out_log s"
  by (simp_all add: put_str_def)

lemma idt_desc_loop_idt:
  "idt (idt_desc_loop tab i n s) j =
     (if i \<le> j \<and> j < i + n then make_idt_desc IDT_DESC_ATTR_DPL0 (tab j) else idt s j)"
  by (induction n arbitrary: i s) auto

lemma exception_loop_tables:
  "idt_table (exception_loop i n s) j = (if i \<le> j \<and> j < i + n then General_intr_handler else idt_table s j)"
  "idt (exception_loop i n s) = idt s"
  by (induction n arbitrary: i s) auto

lemma exception_names_frame:
  "idt_table (fold (\<lambda>(i, name) s. s\<lparr>intr_name := (intr_name s)(i := name)\<rparr>) xs s) = idt_table s"
  "idt (fold (\<lambda>(i, name) s. s\<lparr>intr_name := (intr_name s)(i := name)\<rparr>) xs s) = idt s"
  by (induction xs arbitrary: s) auto

lemma exception_init_tables:
  "idt_table (exception_init s) j = (if j < IDT_DESC_CNT then General_intr_handler else idt_table s j)"
  "idt (exception_init s) = idt s"
  by (simp_all add: exception_init_def exception_names_frame exception_loop_tables)

lemma pic_init_frame [simp]: "idt (pic_init s) = idt s" "idt_table (pic_init s) = idt_table s"
  by (simp_all add: pic_init_def outb_def Let_def)

section \<open>Properties\<close>



text \<open>\<open>tss_init\<close> makes the TSS descriptor point at the TSS and gives user mode flat 4 GB code and data segments
  with privilege level 3.  The TSS descriptor is given the byte limit 107 together with the 4 KB
  granularity attribute, so that the segment the CPU sees ends at byte 0x6bfff and the I/O bitmap base,
  set to the size of the structure as if there were no bitmap, lies inside it.\<close>

theorem tss_init_segments:
  fixes s :: "'z dtables_scheme"
  shows "let s' = tss_init tss_addr s in
    seg_base (gdt s' 0xc0000920) = tss_addr \<and> seg_limit (gdt s' 0xc0000920) = 0x6bfff \<and>
    tss_io_base s' < seg_limit (gdt s' 0xc0000920) \<and>
    seg_base (gdt s' 0xc0000928) = 0 \<and> seg_limit (gdt s' 0xc0000928) = 0xffffffff \<and> seg_dpl (gdt s' 0xc0000928) = 3 \<and>
    seg_base (gdt s' 0xc0000930) = 0 \<and> seg_limit (gdt s' 0xc0000930) = 0xffffffff \<and> seg_dpl (gdt s' 0xc0000930) = 3"
proof -
  define s' where "s' = tss_init tss_addr s"
  have g: "gdt s' 0xc0000920 = make_gdt_desc tss_addr 107 TSS_ATTR_LOW TSS_ATTR_HIGH"
    "gdt s' 0xc0000928 = make_gdt_desc 0 0xfffff GDT_CODE_ATTR_LOW_RPL3 GDT_ATTR_HIGH"
    "gdt s' 0xc0000930 = make_gdt_desc 0 0xfffff GDT_DATA_ATTR_LOW_RPL3 GDT_ATTR_HIGH" "tss_io_base s' = 108"
    by (simp_all add: s'_def tss_init_def Let_def sizeof_tss_def)
  have h: "TSS_ATTR_HIGH AND 0x0f = 0" "GDT_ATTR_HIGH AND 0x0f = 0" "bit TSS_ATTR_HIGH 7" "bit GDT_ATTR_HIGH 7"
    by (simp_all add: TSS_ATTR_HIGH_def GDT_ATTR_HIGH_def desc_bits bit_numeral_rec)
  have lim: "seg_limit (make_gdt_desc b 107 lo TSS_ATTR_HIGH) = 0x6bfff"
    "seg_limit (make_gdt_desc b 0xfffff lo GDT_ATTR_HIGH) = 0xffffffff" for b lo
    unfolding seg_limit_def by (simp_all add: seg_limit_make h)
  have dpl: "seg_dpl (make_gdt_desc b l GDT_CODE_ATTR_LOW_RPL3 hi) = 3" "seg_dpl (make_gdt_desc b l GDT_DATA_ATTR_LOW_RPL3 hi) = 3" for b l hi
    by (simp_all add: seg_dpl_def make_gdt_desc_def GDT_CODE_ATTR_LOW_RPL3_def GDT_DATA_ATTR_LOW_RPL3_def desc_bits)
  show ?thesis unfolding s'_def [symmetric] Let_def g lim dpl seg_base_make by simp
qed


end
