(* ===== verification/Process.thy ===== *)
theory Process
  imports Thread Descriptors
begin

text \<open>
  User processes, \<^verbatim>\<open>userprog/process.c\<close>: the page directory and the address bitmap of a new process, its
  PCB, and the first entry into user mode.  The addresses of \<open>kernel_thread\<close> and \<open>start_process\<close> are
  arguments.

  Page directories are read and written through their virtual addresses, so that an access to a page that
  is not mapped faults.  \<open>start_process\<close> ends by loading the stack pointer and jumping to \<open>intr_exit\<close>;
  \<open>intr_exit\<close> is the reading of the interrupt stack that enters user mode.
\<close>

section \<open>Layout\<close>

definition USER_VADDR_START :: addr where "USER_VADDR_START = 0x8048000"
definition USER_STACK3_VADDR :: addr where "USER_STACK3_VADDR = 0xc0000000 - 0x1000"
definition default_process_priority :: u32 where "default_process_priority = 1000"
definition EFLAGS_MBS :: u32 where "EFLAGS_MBS = push_bit 1 1"
definition EFLAGS_IF_1 :: u32 where "EFLAGS_IF_1 = push_bit 9 1"
definition EFLAGS_IF_0 :: u32 where "EFLAGS_IF_0 = 0"
definition EFLAGS_IOPL_3 :: u32 where "EFLAGS_IOPL_3 = push_bit 12 3"
definition EFLAGS_IOPL_0 :: u32 where "EFLAGS_IOPL_0 = push_bit 12 0"

text \<open>Members of \<open>intr_stack\<close>.\<close>

definition is_edi :: "addr \<Rightarrow> addr" where "is_edi p = p + 4"
definition is_esi :: "addr \<Rightarrow> addr" where "is_esi p = p + 8"
definition is_ebp :: "addr \<Rightarrow> addr" where "is_ebp p = p + 12"
definition is_esp_dummy :: "addr \<Rightarrow> addr" where "is_esp_dummy p = p + 16"
definition is_ebx :: "addr \<Rightarrow> addr" where "is_ebx p = p + 20"
definition is_edx :: "addr \<Rightarrow> addr" where "is_edx p = p + 24"
definition is_ecx :: "addr \<Rightarrow> addr" where "is_ecx p = p + 28"
definition is_eax :: "addr \<Rightarrow> addr" where "is_eax p = p + 32"
definition is_gs :: "addr \<Rightarrow> addr" where "is_gs p = p + 36"
definition is_fs :: "addr \<Rightarrow> addr" where "is_fs p = p + 40"
definition is_es :: "addr \<Rightarrow> addr" where "is_es p = p + 44"
definition is_ds :: "addr \<Rightarrow> addr" where "is_ds p = p + 48"
definition is_eip :: "addr \<Rightarrow> addr" where "is_eip p = p + 56"
definition is_cs :: "addr \<Rightarrow> addr" where "is_cs p = p + 60"
definition is_eflags :: "addr \<Rightarrow> addr" where "is_eflags p = p + 64"
definition is_esp :: "addr \<Rightarrow> addr" where "is_esp p = p + 68"
definition is_ss :: "addr \<Rightarrow> addr" where "is_ss p = p + 72"

lemmas intr_stack_layout = is_edi_def is_esi_def is_ebp_def is_esp_dummy_def is_ebx_def is_edx_def is_ecx_def
  is_eax_def is_gs_def is_fs_def is_es_def is_ds_def is_eip_def is_cs_def is_eflags_def is_esp_def is_ss_def

section \<open>Operations\<close>

definition start_process :: "addr \<Rightarrow> 'z kmem_scheme \<Rightarrow> 'z kmem_scheme result" where
  "start_process function s =
     (let cur = running_thread s;
          s = upd_task cur (self_kstack_update (\<lambda>k. k + sizeof_thread_stack * 4)) s;
          p = self_kstack (tasks s cur);
          s = wr (is_edi p) 0 (wr (is_esi p) 0 (wr (is_ebp p) 0 (wr (is_esp_dummy p) 0 s)));
          s = wr (is_eax p) 0 (wr (is_ebx p) 0 (wr (is_ecx p) 0 (wr (is_edx p) 0 s)));
          s = wr (is_gs p) 0 s;
          s = wr (is_ds p) (ucast SELECTOR_U_DATA) (wr (is_es p) (ucast SELECTOR_U_DATA)
                (wr (is_fs p) (ucast SELECTOR_U_DATA) s));
          s = wr (is_eip p) function s;
          s = wr (is_cs p) (ucast SELECTOR_U_CODE) s;
          s = wr (is_eflags p) (EFLAGS_IOPL_3 OR EFLAGS_MBS OR EFLAGS_IF_1) s
      in bind_r (get_a_page PF_USER USER_STACK3_VADDR s) (\<lambda>(page, s).
         let s = wr (is_esp p) (page + PG_SIZE) s;
             s = wr (is_ss p) (ucast SELECTOR_U_STACK) s
         in Inr (s\<lparr>esp := p\<rparr>)))"

text \<open>The registers \<open>intr_exit\<close> loads from the interrupt stack at \<open>esp\<close>: the vector is skipped, \<open>popad\<close>, the
  segment registers, the error code is skipped, \<open>iretd\<close>.\<close>

record user_context =
  c_eip :: u32
  c_cs :: u32
  c_eflags :: u32
  c_esp :: u32
  c_ss :: u32
  c_ds :: u32

definition intr_exit :: "'z kernel_scheme \<Rightarrow> user_context" where
  "intr_exit s =
     \<lparr>c_eip = mem s (esp s + 56), c_cs = mem s (esp s + 60), c_eflags = mem s (esp s + 64),
      c_esp = mem s (esp s + 68), c_ss = mem s (esp s + 72), c_ds = mem s (esp s + 48)\<rparr>"

text \<open>\<open>memcpy\<close> between words of mapped pages, a word at a time.\<close>

fun memcpy_words :: "nat \<Rightarrow> addr \<Rightarrow> addr \<Rightarrow> 'z pgmachine_scheme \<Rightarrow> 'z pgmachine_scheme result" where
  "memcpy_words 0 dst src s = Inr s"
| "memcpy_words (Suc n) dst src s =
     bind_r (vread src s) (\<lambda>w. bind_r (vwrite dst w s) (memcpy_words n (dst + 4) (src + 4)))"

definition create_page_dir :: "'z kmem_scheme \<Rightarrow> (addr \<times> 'z kmem_scheme) result" where
  "create_page_dir s =
     bind_r (get_kernel_pages 1 s) (\<lambda>(page_dir_vaddr, s).
       if page_dir_vaddr = NULL then
         bind_r (console_put_str (bytes_of (''create_page_dir:get_kernel_pages failed!'' @ newline)) s)
           (\<lambda>s. Inr (NULL, s))
       else
         bind_r (memcpy_words 256 (page_dir_vaddr + 0x300 * 4) (0xfffff000 + 0x300 * 4) s) (\<lambda>s.
         bind_r (addr_v2p page_dir_vaddr s) (\<lambda>new_page_dir_phy_addr.
         bind_r (vwrite (page_dir_vaddr + 1023 * 4) (new_page_dir_phy_addr OR PG_US_U OR PG_RW_W OR PG_P_1) s) (\<lambda>s.
         Inr (page_dir_vaddr, s)))))"

definition create_user_vaddr_bitmap :: "addr \<Rightarrow> 'z kmem_scheme \<Rightarrow> 'z kmem_scheme result" where
  "create_user_vaddr_bitmap user_prog s =
     (let s = upd_task user_prog (userprog_vaddr_update (vaddr_start_update (\<lambda>_. USER_VADDR_START))) s;
          bitmap_pg_cnt = DIV_ROUND_UP ((0xc0000000 - USER_VADDR_START) div PG_SIZE div 8) PG_SIZE
      in bind_r (get_kernel_pages bitmap_pg_cnt s) (\<lambda>(b, s).
         let s = upd_task user_prog (userprog_vaddr_update (vaddr_bitmap_update (bits_update (\<lambda>_. b)))) s;
             s = upd_task user_prog (userprog_vaddr_update (vaddr_bitmap_update (btmp_bytes_len_update
                   (\<lambda>_. (0xc0000000 - USER_VADDR_START) div PG_SIZE div 8)))) s
         in bitmap_init (vaddr_bitmap (userprog_vaddr (tasks s user_prog))) s))"

definition process_execute :: "addr \<Rightarrow> addr \<Rightarrow> addr \<Rightarrow> u8 list \<Rightarrow> 'z kmem_scheme \<Rightarrow> 'z kmem_scheme result" where
  "process_execute kernel_thread start_process_addr filename name s =
     bind_r (get_kernel_pages 1 s) (\<lambda>(thread, s).
     bind_r (init_thread thread name (ucast default_process_priority) s) (\<lambda>s.
     bind_r (create_user_vaddr_bitmap thread s) (\<lambda>s.
     let s = thread_create kernel_thread thread start_process_addr filename s
     in bind_r (create_page_dir s) (\<lambda>(dir, s).
     let s = upd_task thread (pgdir_update (\<lambda>_. dir)) s;
         s = block_desc_init (u_block_desc thread) s;
         (old_status, s) = intr_disable s
     in bind_r (enlist thread s) (\<lambda>s. Inr (snd (intr_set_status old_status s)))))))"

end
