(* ===== verification/Ioqueue.thy ===== *)
theory Ioqueue
  imports Descriptors
begin

text \<open>
  The ring buffer of \<^verbatim>\<open>device/ioqueue.c\<close>.  An \<^verbatim>\<open>ioqueue\<close> is at a fixed address; its lock is the first
  member, so it has the address of the structure, and the scalar members and the buffer are typed heaps
  indexed by that address.  Positions are integers in \<open>0..63\<close>.

  \<open>ioq_getchar\<close> and \<open>ioq_putchar\<close> run with interrupts off.  When the buffer is empty or full the caller
  takes the lock, leaves its PCB in the queue and goes to sleep in \<open>thread_block\<close>; here the call then ends
  with the outcome \<open>Asleep\<close> in the state in which \<open>thread_block\<close> is called.

  The second half relates the ring to the sequence of characters it holds.
\<close>

section \<open>State\<close>

definition bufsize :: int where "bufsize = 64"

record ioqs = dtables +
  ioq_producer :: "addr \<Rightarrow> addr"
  ioq_consumer :: "addr \<Rightarrow> addr"
  ioq_buf :: "addr \<Rightarrow> int \<Rightarrow> u8"
  ioq_head :: "addr \<Rightarrow> int"
  ioq_tail :: "addr \<Rightarrow> int"

definition ioq_lock :: "addr \<Rightarrow> addr" where "ioq_lock ioq = ioq"

datatype 'a outcome = Done 'a | Asleep

section \<open>Operations\<close>

definition ioqueue_init :: "addr \<Rightarrow> 'z ioqs_scheme \<Rightarrow> 'z ioqs_scheme" where
  "ioqueue_init ioq s =
     (let s = lock_init (ioq_lock ioq) s
      in s\<lparr>ioq_producer := (ioq_producer s)(ioq := NULL), ioq_consumer := (ioq_consumer s)(ioq := NULL),
           ioq_head := (ioq_head s)(ioq := 0), ioq_tail := (ioq_tail s)(ioq := 0)\<rparr>)"

definition next_pos :: "int \<Rightarrow> int" where
  "next_pos pos = (pos + 1) mod bufsize"

definition ioq_full :: "addr \<Rightarrow> 'z ioqs_scheme \<Rightarrow> bool result" where
  "ioq_full ioq s =
     ASSERT (intr_get_status s = INTR_OFF) ''intr_get_status() == INTR_OFF''
       (Inr (next_pos (ioq_head s ioq) = ioq_tail s ioq))"

definition ioq_empty :: "addr \<Rightarrow> 'z ioqs_scheme \<Rightarrow> bool result" where
  "ioq_empty ioq s =
     ASSERT (intr_get_status s = INTR_OFF) ''intr_get_status() == INTR_OFF''
       (Inr (ioq_head s ioq = ioq_tail s ioq))"

text \<open>\<open>ioq_wait(&ioq->consumer)\<close> and \<open>ioq_wait(&ioq->producer)\<close>, up to \<open>thread_block\<close>.\<close>

definition ioq_wait_consumer :: "addr \<Rightarrow> 'z ioqs_scheme \<Rightarrow> 'z ioqs_scheme result" where
  "ioq_wait_consumer ioq s =
     ASSERT (ioq_consumer s ioq = NULL) ''*waiter == NULL && waiter != NULL''
       (Inr (s\<lparr>ioq_consumer := (ioq_consumer s)(ioq := running_thread s)\<rparr>))"

definition ioq_wait_producer :: "addr \<Rightarrow> 'z ioqs_scheme \<Rightarrow> 'z ioqs_scheme result" where
  "ioq_wait_producer ioq s =
     ASSERT (ioq_producer s ioq = NULL) ''*waiter == NULL && waiter != NULL''
       (Inr (s\<lparr>ioq_producer := (ioq_producer s)(ioq := running_thread s)\<rparr>))"

definition wakeup_producer :: "addr \<Rightarrow> 'z ioqs_scheme \<Rightarrow> 'z ioqs_scheme result" where
  "wakeup_producer ioq s =
     ASSERT (ioq_producer s ioq \<noteq> NULL) ''*waiter != NULL''
       (bind_r (thread_unblock (ioq_producer s ioq) s) (\<lambda>s.
          Inr (s\<lparr>ioq_producer := (ioq_producer s)(ioq := NULL)\<rparr>)))"

definition wakeup_consumer :: "addr \<Rightarrow> 'z ioqs_scheme \<Rightarrow> 'z ioqs_scheme result" where
  "wakeup_consumer ioq s =
     ASSERT (ioq_consumer s ioq \<noteq> NULL) ''*waiter != NULL''
       (bind_r (thread_unblock (ioq_consumer s ioq) s) (\<lambda>s.
          Inr (s\<lparr>ioq_consumer := (ioq_consumer s)(ioq := NULL)\<rparr>)))"

definition ioq_getchar :: "addr \<Rightarrow> 'z ioqs_scheme \<Rightarrow> (u8 outcome \<times> 'z ioqs_scheme) result" where
  "ioq_getchar ioq s =
     ASSERT (intr_get_status s = INTR_OFF) ''intr_get_status() == INTR_OFF''
       (bind_r (ioq_empty ioq s) (\<lambda>empty.
          if empty then
            bind_r (lock_acquire_now (ioq_lock ioq) s) (\<lambda>s.
            bind_r (ioq_wait_consumer ioq s) (\<lambda>s. Inr (Asleep, s)))
          else
            let byte = ioq_buf s ioq (ioq_tail s ioq);
                s = s\<lparr>ioq_tail := (ioq_tail s)(ioq := next_pos (ioq_tail s ioq))\<rparr>
            in bind_r (if ioq_producer s ioq \<noteq> NULL then wakeup_producer ioq s else Inr s) (\<lambda>s.
                 Inr (Done byte, s))))"

definition ioq_putchar :: "addr \<Rightarrow> u8 \<Rightarrow> 'z ioqs_scheme \<Rightarrow> (unit outcome \<times> 'z ioqs_scheme) result" where
  "ioq_putchar ioq byte s =
     ASSERT (intr_get_status s = INTR_OFF) ''intr_get_status() == INTR_OFF''
       (bind_r (ioq_full ioq s) (\<lambda>full.
          if full then
            bind_r (lock_acquire_now (ioq_lock ioq) s) (\<lambda>s.
            bind_r (ioq_wait_producer ioq s) (\<lambda>s. Inr (Asleep, s)))
          else
            let s = s\<lparr>ioq_buf := (ioq_buf s)(ioq := (ioq_buf s ioq)(ioq_head s ioq := byte))\<rparr>;
                s = s\<lparr>ioq_head := (ioq_head s)(ioq := next_pos (ioq_head s ioq))\<rparr>
            in bind_r (if ioq_consumer s ioq \<noteq> NULL then wakeup_consumer ioq s else Inr s) (\<lambda>s.
                 Inr (Done (), s))))"

section \<open>The sequence a ring holds\<close>

definition ioq_ok :: "'z ioqs_scheme \<Rightarrow> addr \<Rightarrow> bool" where
  "ioq_ok s ioq = (0 \<le> ioq_head s ioq \<and> ioq_head s ioq < bufsize \<and> 0 \<le> ioq_tail s ioq \<and> ioq_tail s ioq < bufsize)"

definition ioq_len :: "'z ioqs_scheme \<Rightarrow> addr \<Rightarrow> nat" where
  "ioq_len s ioq = nat ((ioq_head s ioq - ioq_tail s ioq) mod bufsize)"

definition ioq_seq :: "'z ioqs_scheme \<Rightarrow> addr \<Rightarrow> u8 list" where
  "ioq_seq s ioq = map (\<lambda>i. ioq_buf s ioq ((ioq_tail s ioq + int i) mod bufsize)) [0..<ioq_len s ioq]"

lemma ioq_len_bound: "ioq_len s ioq \<le> 63"
proof -
  have "(ioq_head s ioq - ioq_tail s ioq) mod 64 < 64" by simp
  then show ?thesis by (simp add: ioq_len_def bufsize_def)
qed

lemma ring_mod:
  fixes h t :: int
  assumes "0 \<le> h" "h < 64" "0 \<le> t" "t < 64"
  shows "(h - t) mod 64 = (if t \<le> h then h - t else h - t + 64)"
proof (cases "t \<le> h")
  case True
  then show ?thesis using assms by (simp add: mod_pos_pos_trivial)
next
  case False
  have "(h - t) mod 64 = (h - t + 64) mod 64" by simp
  also have "\<dots> = h - t + 64" using False assms by (intro mod_pos_pos_trivial) auto
  finally show ?thesis using False by simp
qed

lemma next_pos_cases: "0 \<le> p \<Longrightarrow> p < 64 \<Longrightarrow> next_pos p = (if p = 63 then 0 else p + 1)"
  by (auto simp: next_pos_def bufsize_def mod_pos_pos_trivial)

lemma ioq_ok_bounds:
  "ioq_ok s ioq \<Longrightarrow> 0 \<le> ioq_head s ioq \<and> ioq_head s ioq < 64 \<and> 0 \<le> ioq_tail s ioq \<and> ioq_tail s ioq < 64"
  by (simp add: ioq_ok_def bufsize_def)

lemma ioq_len_cases:
  "ioq_ok s ioq \<Longrightarrow>
   int (ioq_len s ioq) = (if ioq_tail s ioq \<le> ioq_head s ioq then ioq_head s ioq - ioq_tail s ioq
                          else ioq_head s ioq - ioq_tail s ioq + 64)"
  using ring_mod [of "ioq_head s ioq" "ioq_tail s ioq"] ioq_ok_bounds [of s ioq]
  by (auto simp: ioq_len_def bufsize_def)

lemma ioq_empty_len: "ioq_ok s ioq \<Longrightarrow> ioq_head s ioq = ioq_tail s ioq \<longleftrightarrow> ioq_len s ioq = 0"
  using ioq_len_cases [of s ioq] ioq_ok_bounds [of s ioq] by (auto split: if_splits)

lemma ioq_full_len: "ioq_ok s ioq \<Longrightarrow> next_pos (ioq_head s ioq) = ioq_tail s ioq \<longleftrightarrow> ioq_len s ioq = 63"
  using ioq_len_cases [of s ioq] ioq_ok_bounds [of s ioq]
  by (auto simp: next_pos_cases split: if_splits)

section \<open>Bounded queues\<close>

text \<open>
  What a client of a bounded character queue relies on.  \<open>content\<close> is the sequence the queue holds; a
  write with room and a read with something to read return, keep the invariant and act on the sequence.
  A run of operations then gives what the same run on a list gives.
\<close>

datatype ioq_op = Put u8 | Get

fun fifo_run :: "nat \<Rightarrow> ioq_op list \<Rightarrow> u8 list \<Rightarrow> (u8 list \<times> u8 list) option" where
  "fifo_run cap [] q = Some ([], q)"
| "fifo_run cap (Put c # ops) q = (if length q < cap then fifo_run cap ops (q @ [c]) else None)"
| "fifo_run cap (Get # ops) [] = None"
| "fifo_run cap (Get # ops) (c # q) = map_option (\<lambda>(out, q). (c # out, q)) (fifo_run cap ops q)"

fun queue_run ::
  "(u8 \<Rightarrow> 's \<Rightarrow> (unit outcome \<times> 's) result) \<Rightarrow> ('s \<Rightarrow> (u8 outcome \<times> 's) result) \<Rightarrow>
   ioq_op list \<Rightarrow> 's \<Rightarrow> (u8 list outcome \<times> 's) result" where
  "queue_run put get [] s = Inr (Done [], s)"
| "queue_run put get (Put c # ops) s =
     bind_r (put c s) (\<lambda>(r, s). case r of Asleep \<Rightarrow> Inr (Asleep, s) | Done _ \<Rightarrow> queue_run put get ops s)"
| "queue_run put get (Get # ops) s =
     bind_r (get s) (\<lambda>(r, s). case r of Asleep \<Rightarrow> Inr (Asleep, s)
       | Done c \<Rightarrow> bind_r (queue_run put get ops s) (\<lambda>(r, s).
           Inr (case r of Asleep \<Rightarrow> Asleep | Done out \<Rightarrow> Done (c # out), s)))"

locale bounded_queue =
  fixes ok :: "'s \<Rightarrow> bool"
    and content :: "'s \<Rightarrow> u8 list"
    and cap :: nat
    and put :: "u8 \<Rightarrow> 's \<Rightarrow> (unit outcome \<times> 's) result"
    and get :: "'s \<Rightarrow> (u8 outcome \<times> 's) result"
  assumes put_room: "ok s \<Longrightarrow> length (content s) < cap \<Longrightarrow>
      \<exists>s'. put c s = Inr (Done (), s') \<and> ok s' \<and> content s' = content s @ [c]"
    and get_some: "ok s \<Longrightarrow> content s = c # q \<Longrightarrow>
      \<exists>s'. get s = Inr (Done c, s') \<and> ok s' \<and> content s' = q"
begin

lemma run_refines:
  "ok s \<Longrightarrow> fifo_run cap ops (content s) = Some (out, q) \<Longrightarrow>
   \<exists>s'. queue_run put get ops s = Inr (Done out, s') \<and> ok s' \<and> content s' = q"
proof (induction ops arbitrary: s out)
  case (Cons op ops)
  show ?case
  proof (cases op)
    case (Put c)
    with Cons.prems have l: "length (content s) < cap" and r: "fifo_run cap ops (content s @ [c]) = Some (out, q)"
      by (auto split: if_splits)
    obtain s1 where "put c s = Inr (Done (), s1)" "ok s1" "content s1 = content s @ [c]"
      using put_room [OF Cons.prems(1) l] by blast
    then show ?thesis using Cons.IH [of s1 out] r Put by simp
  next
    case Get
    then obtain c q1 where c: "content s = c # q1" using Cons.prems by (cases "content s") auto
    then obtain out' where o: "out = c # out'" and r: "fifo_run cap ops q1 = Some (out', q)"
      using Cons.prems Get by auto
    obtain s1 where "get s = Inr (Done c, s1)" "ok s1" "content s1 = q1"
      using get_some [OF Cons.prems(1) c] by blast
    then show ?thesis using Cons.IH [of s1 out'] r o Get by auto
  qed
qed simp

end

section \<open>The ring is a bounded queue\<close>

definition ioq_ready :: "addr \<Rightarrow> 'z ioqs_scheme \<Rightarrow> bool" where
  "ioq_ready ioq s =
     (ioq_ok s ioq \<and> intr_get_status s = INTR_OFF \<and> ioq_producer s ioq = NULL \<and> ioq_consumer s ioq = NULL)"

lemma next_pos_range: "0 \<le> next_pos p \<and> next_pos p < 64"
  by (simp add: next_pos_def bufsize_def)

lemma ioq_seq_len [simp]: "length (ioq_seq s ioq) = ioq_len s ioq"
  by (simp add: ioq_seq_def)

definition ioq_store :: "addr \<Rightarrow> u8 \<Rightarrow> 'z ioqs_scheme \<Rightarrow> 'z ioqs_scheme" where
  "ioq_store ioq c s =
     s\<lparr>ioq_buf := (ioq_buf s)(ioq := (ioq_buf s ioq)(ioq_head s ioq := c)),
       ioq_head := (ioq_head s)(ioq := next_pos (ioq_head s ioq))\<rparr>"

definition ioq_drop :: "addr \<Rightarrow> 'z ioqs_scheme \<Rightarrow> 'z ioqs_scheme" where
  "ioq_drop ioq s = s\<lparr>ioq_tail := (ioq_tail s)(ioq := next_pos (ioq_tail s ioq))\<rparr>"

lemma ring_distinct:
  fixes t :: int
  assumes "0 \<le> t" "t < 64" "i < 64" "j < 64" "(t + int i) mod 64 = (t + int j) mod 64"
  shows "i = j"
proof -
  have "64 dvd (t + int i) - (t + int j)" using assms(5) by (simp add: mod_eq_dvd_iff)
  then obtain k where "int i - int j = 64 * k" by (auto simp: dvd_def)
  moreover have "int i < 64" "int j < 64" using assms(3,4) by simp_all
  ultimately have "k = 0" by linarith
  then show ?thesis using \<open>int i - int j = 64 * k\<close> by simp
qed

lemma ioq_head_pos: "ioq_ok s ioq \<Longrightarrow> (ioq_tail s ioq + int (ioq_len s ioq)) mod 64 = ioq_head s ioq"
  using ioq_ok_bounds [of s ioq] by (simp add: ioq_len_cases mod_pos_pos_trivial)

lemma ioq_store_seq:
  assumes "ioq_ok s ioq" "ioq_len s ioq < 63"
  shows "ioq_ok (ioq_store ioq c s) ioq" "ioq_seq (ioq_store ioq c s) ioq = ioq_seq s ioq @ [c]"
proof -
  let ?s = "ioq_store ioq c s" and ?t = "ioq_tail s ioq" and ?n = "ioq_len s ioq"
  have b: "0 \<le> ?t" "?t < 64" using ioq_ok_bounds [OF assms(1)] by auto
  show ok: "ioq_ok ?s ioq" using assms(1) next_pos_range by (simp add: ioq_ok_def bufsize_def ioq_store_def)
  have n: "ioq_len ?s ioq = Suc ?n"
    using ioq_len_cases [OF ok] ioq_len_cases [OF assms(1)] ioq_ok_bounds [OF assms(1)] assms(2)
    by (auto simp: ioq_store_def next_pos_cases split: if_splits)
  have o: "ioq_buf ?s ioq ((?t + int i) mod 64) = ioq_buf s ioq ((?t + int i) mod 64)" if "i < ?n" for i
  proof -
    have "(?t + int i) mod 64 \<noteq> ioq_head s ioq"
      using ring_distinct [OF b, of i ?n] that assms(2) ioq_head_pos [OF assms(1)] by auto
    then show ?thesis by (simp add: ioq_store_def)
  qed
  have l: "ioq_buf ?s ioq ((?t + int ?n) mod 64) = c"
    using ioq_head_pos [OF assms(1)] by (simp add: ioq_store_def)
  have t: "ioq_tail ?s ioq = ?t" by (simp add: ioq_store_def)
  show "ioq_seq ?s ioq = ioq_seq s ioq @ [c]"
    unfolding ioq_seq_def n t bufsize_def using o l by simp
qed

lemma ioq_drop_seq:
  assumes "ioq_ok s ioq" "ioq_seq s ioq = c # q"
  shows "ioq_ok (ioq_drop ioq s) ioq" "ioq_seq (ioq_drop ioq s) ioq = q" "ioq_buf s ioq (ioq_tail s ioq) = c"
proof -
  let ?s = "ioq_drop ioq s" and ?t = "ioq_tail s ioq" and ?n = "ioq_len s ioq"
  have b: "0 \<le> ?t" "?t < 64" using ioq_ok_bounds [OF assms(1)] by auto
  show ok: "ioq_ok ?s ioq" using assms(1) next_pos_range by (simp add: ioq_ok_def bufsize_def ioq_drop_def)
  obtain m where m: "?n = Suc m" using assms(2) ioq_seq_len [of s ioq] by (cases ?n) auto
  have n: "ioq_len ?s ioq = m"
    using ioq_len_cases [OF ok] ioq_len_cases [OF assms(1)] ioq_ok_bounds [OF assms(1)] m
    by (auto simp: ioq_drop_def next_pos_cases split: if_splits)
  have e: "(next_pos ?t + int i) mod 64 = (?t + int (Suc i)) mod 64" for i
    using mod_add_left_eq [of "?t + 1" 64 "int i"] by (simp add: next_pos_def bufsize_def ac_simps)
  have "ioq_seq s ioq = ioq_buf s ioq ?t # map (\<lambda>i. ioq_buf s ioq ((?t + int (Suc i)) mod 64)) [0..<m]"
    unfolding ioq_seq_def m bufsize_def map_upt_Suc using b by (simp add: mod_pos_pos_trivial)
  then show "ioq_seq ?s ioq = q" "ioq_buf s ioq ?t = c"
    using assms(2) e unfolding ioq_seq_def n bufsize_def by (simp_all add: ioq_drop_def add.assoc)
qed

lemma ioq_putchar_room:
  assumes "ioq_ready ioq s" "length (ioq_seq s ioq) < 63"
  shows "ioq_putchar ioq c s = Inr (Done (), ioq_store ioq c s)"
  using assms ioq_full_len [of s ioq]
  by (simp add: ioq_ready_def ioq_putchar_def ioq_full_def ioq_store_def)

lemma ioq_getchar_some:
  assumes "ioq_ready ioq s" "ioq_seq s ioq \<noteq> []"
  shows "ioq_getchar ioq s = Inr (Done (ioq_buf s ioq (ioq_tail s ioq)), ioq_drop ioq s)"
proof -
  have "ioq_len s ioq \<noteq> 0" using assms(2) by (metis ioq_seq_len length_0_conv)
  then show ?thesis using assms(1) ioq_empty_len [of s ioq]
    by (simp add: ioq_ready_def ioq_getchar_def ioq_empty_def ioq_drop_def)
qed

lemma ioq_ready_step:
  "ioq_ready ioq s \<Longrightarrow> ioq_ok (ioq_store ioq c s) ioq \<Longrightarrow> ioq_ready ioq (ioq_store ioq c s)"
  "ioq_ready ioq s \<Longrightarrow> ioq_ok (ioq_drop ioq s) ioq \<Longrightarrow> ioq_ready ioq (ioq_drop ioq s)"
  by (simp_all add: ioq_ready_def ioq_store_def ioq_drop_def intr_get_status_def)

interpretation ring: bounded_queue "ioq_ready ioq" "\<lambda>s. ioq_seq s ioq" 63 "ioq_putchar ioq" "ioq_getchar ioq"
proof unfold_locales
  fix s :: "'a ioqs_scheme" and c
  assume r: "ioq_ready ioq s" and l: "length (ioq_seq s ioq) < 63"
  then have "ioq_ok s ioq" "ioq_len s ioq < 63" by (simp_all add: ioq_ready_def)
  from ioq_store_seq [OF this, of c] show
    "\<exists>s'. ioq_putchar ioq c s = Inr (Done (), s') \<and> ioq_ready ioq s' \<and> ioq_seq s' ioq = ioq_seq s ioq @ [c]"
    using ioq_putchar_room [OF r l] ioq_ready_step(1) [OF r] by auto
next
  fix s :: "'a ioqs_scheme" and c q
  assume r: "ioq_ready ioq s" and c: "ioq_seq s ioq = c # q"
  then have "ioq_ok s ioq" by (simp add: ioq_ready_def)
  from ioq_drop_seq [OF this c] show
    "\<exists>s'. ioq_getchar ioq s = Inr (Done c, s') \<and> ioq_ready ioq s' \<and> ioq_seq s' ioq = q"
    using ioq_getchar_some [OF r] c ioq_ready_step(2) [OF r] by auto
qed

lemma ioqueue_init_ready:
  assumes "intr_get_status s = INTR_OFF"
  shows "ioq_ready ioq (ioqueue_init ioq s)" "ioq_seq (ioqueue_init ioq s) ioq = []"
  using assms
  by (simp_all add: ioq_ready_def ioq_ok_def bufsize_def ioqueue_init_def lock_init_def sema_init_def
      list_init_def set_lock_def set_value_def ioq_seq_def ioq_len_def intr_get_status_def Let_def
      set_next_def set_prev_def wr_def split: if_splits)

section \<open>Properties\<close>

text \<open>C21. Refinement of a bounded FIFO.  From the state that \<open>ioqueue_init\<close> leaves, with interrupts off
  and nobody asleep on the ring, every sequence of \<open>ioq_putchar\<close> and \<open>ioq_getchar\<close> calls that a queue
  of capacity 63 can serve without blocking returns: none of the calls sleeps or panics, the characters
  read are those the queue gives, in order, and the ring is left holding what the queue holds.\<close>

theorem ioq_refines_fifo:
  assumes "intr_get_status s = INTR_OFF"
    and "fifo_run 63 ops [] = Some (out, q)"
  shows "\<exists>s'. queue_run (ioq_putchar ioq) (ioq_getchar ioq) ops (ioqueue_init ioq s) = Inr (Done out, s') \<and>
              ioq_seq s' ioq = q \<and> ioq_ready ioq s'"
  using ring.run_refines [of ioq "ioqueue_init ioq s" ops out q] ioqueue_init_ready [OF assms(1), of ioq] assms(2)
  by auto

theorem ioq_refines_fifo_witness:
  "\<forall>s :: ioqs. \<exists>s'.
     queue_run (ioq_putchar 0xc0009400) (ioq_getchar 0xc0009400) [Put 104, Put 105, Get, Put 33, Get]
       (ioqueue_init 0xc0009400 (s\<lparr>eflags := 2\<rparr>)) = Inr (Done [104, 105], s') \<and>
     ioq_seq s' 0xc0009400 = [33] \<and> ioq_ready 0xc0009400 s'"
proof
  fix s :: ioqs
  have "intr_get_status (s\<lparr>eflags := 2\<rparr>) = INTR_OFF" by (simp add: intr_get_status_def EFLAGS_IF_def)
  from ioq_refines_fifo [OF this, of "[Put 104, Put 105, Get, Put 33, Get]" "[104, 105]" "[33]" "0xc0009400"]
  show "\<exists>s'. queue_run (ioq_putchar 0xc0009400) (ioq_getchar 0xc0009400) [Put 104, Put 105, Get, Put 33, Get]
       (ioqueue_init 0xc0009400 (s\<lparr>eflags := 2\<rparr>)) = Inr (Done [104, 105], s') \<and>
     ioq_seq s' 0xc0009400 = [33] \<and> ioq_ready 0xc0009400 s'" by simp
qed

text \<open>Boundary of the ring.  The ring holds at most 63 characters, and with 63 inside \<open>ioq_putchar\<close>
  stores nothing.  If the ring's lock is free the caller takes it, leaves its PCB as the waiting producer
  and sleeps; if another producer waits already, the assertion in \<open>ioq_wait\<close> stops the kernel; if the
  lock is taken, the caller sleeps on the lock.\<close>

theorem ioq_putchar_full:
  assumes "ioq_ok s ioq" and "intr_get_status s = INTR_OFF" and "length (ioq_seq s ioq) \<ge> 63"
  shows "ioq_putchar ioq c s =
     (case lock_acquire_now (ioq_lock ioq) s of
        Inl e \<Rightarrow> Inl e
      | Inr t \<Rightarrow>
          if ioq_producer t ioq = NULL
          then Inr (Asleep, t\<lparr>ioq_producer := (ioq_producer t)(ioq := running_thread t)\<rparr>)
          else Inl (Panic ''*waiter == NULL && waiter != NULL''))"
proof -
  have "next_pos (ioq_head s ioq) = ioq_tail s ioq"
    using assms ioq_full_len [of s ioq] ioq_len_bound [of s ioq] by simp
  with assms show ?thesis
    by (cases "lock_acquire_now (ioq_lock ioq) s")
      (simp_all add: ioq_putchar_def ioq_full_def ioq_wait_producer_def ASSERT_def)
qed

theorem ioq_putchar_full_witness:
  "\<forall>s :: ioqs.
     let s = s\<lparr>eflags := 2, esp := 0xc009ee00, sema_value := (\<lambda>_. 1), lock_holder := (\<lambda>_. NULL),
               lock_repeat := (\<lambda>_. 0), ioq_head := (\<lambda>_. 63), ioq_tail := (\<lambda>_. 0), ioq_producer := (\<lambda>_. NULL)\<rparr>
     in \<exists>s'. ioq_putchar 0xc0009400 65 s = Inr (Asleep, s') \<and> ioq_producer s' 0xc0009400 = 0xc009e000"
proof
  fix s :: ioqs
  let ?s = "s\<lparr>eflags := 2, esp := 0xc009ee00, sema_value := (\<lambda>_. 1), lock_holder := (\<lambda>_. NULL),
              lock_repeat := (\<lambda>_. 0), ioq_head := (\<lambda>_. 63), ioq_tail := (\<lambda>_. 0), ioq_producer := (\<lambda>_. NULL)\<rparr>"
  have 1: "ioq_ok ?s 0xc0009400" by (simp add: ioq_ok_def bufsize_def)
  have 2: "intr_get_status ?s = INTR_OFF" by (simp add: intr_get_status_def EFLAGS_IF_def)
  have 3: "63 \<le> length (ioq_seq ?s 0xc0009400)" by (simp add: ioq_len_def bufsize_def)
  show "let s = ?s in
     \<exists>s'. ioq_putchar 0xc0009400 65 s = Inr (Asleep, s') \<and> ioq_producer s' 0xc0009400 = 0xc009e000"
    unfolding Let_def ioq_putchar_full [OF 1 2 3]
    by (simp add: lock_acquire_now_def lock_acquire_enter_def lock_acquire_tail_def sema_down_now_def
        sema_take_def intr_disable_def intr_set_status_def intr_get_status_def EFLAGS_IF_def
        running_thread_def set_value_def set_lock_def cli_def ioq_lock_def lock_semaphore_def)
qed

end
