(* ===== verification/Keyboard.thy ===== *)
theory Keyboard
  imports Ioqueue
begin

text \<open>
  The keyboard driver of \<^verbatim>\<open>device/keyboard.c\<close>: the key map, the interrupt handler with its record of
  the modifier keys, and the initialisation.  The byte that \<open>inb\<close> reads from the 8042 is an argument of
  the handler.  A character goes to the screen and into the ring \<open>kbd_buf\<close>; the screen is the sequence of
  characters printed, without their colours.

  The second half specifies a keyboard by key presses and releases and shows that the handler, run on a
  stream of scan codes, does what the specification says.
\<close>

section \<open>State\<close>

record kbd = ioqs +
  kbd_buf :: addr
  ctrl_status :: bool
  alt_status :: bool
  shift_status :: bool
  caps_lock_status :: bool
  ext_scancode :: bool

definition shift_l_make :: u16 where "shift_l_make = 0x2a"
definition shift_r_make :: u16 where "shift_r_make = 0x36"
definition alt_l_make :: u16 where "alt_l_make = 0x38"
definition alt_r_make :: u16 where "alt_r_make = 0xe038"
definition ctrl_l_make :: u16 where "ctrl_l_make = 0x1d"
definition ctrl_r_make :: u16 where "ctrl_r_make = 0xe01d"
definition caps_lock_make :: u16 where "caps_lock_make = 0x3a"

lemmas make_codes = shift_l_make_def shift_r_make_def alt_l_make_def alt_r_make_def ctrl_l_make_def
  ctrl_r_make_def caps_lock_make_def

text \<open>The character of a key without and with shift, by its make code; 0 where the key has none.\<close>

definition keymap :: "(u8 \<times> u8) list" where
  "keymap =
     [(0, 0), (27, 27), (49, 33), (50, 64), (51, 35), (52, 36), (53, 37), (54, 94),
      (55, 38), (56, 42), (57, 40), (48, 41), (45, 95), (43, 43), (8, 8), (9, 9),
      (113, 81), (119, 87), (101, 69), (114, 82), (116, 84), (121, 89), (117, 85), (105, 73),
      (111, 79), (112, 80), (91, 123), (93, 125), (13, 13), (0, 0), (97, 65), (115, 83),
      (100, 68), (102, 70), (103, 71), (104, 72), (106, 74), (107, 75), (108, 76), (59, 58),
      (39, 34), (96, 126), (0, 0), (92, 124), (122, 90), (120, 88), (99, 67), (118, 86),
      (98, 66), (110, 78), (109, 77), (44, 60), (46, 62), (47, 63), (0, 0), (42, 42),
      (0, 0), (32, 32), (0, 0)]"

definition keymap_at :: "u8 \<Rightarrow> bool \<Rightarrow> u8" where
  "keymap_at index shift = (let (plain, shifted) = keymap ! unat index in if shift then shifted else plain)"

section \<open>The handler\<close>

text \<open>Whether the shifted character is taken.\<close>

definition shift_applies :: "u16 \<Rightarrow> bool \<Rightarrow> bool \<Rightarrow> bool" where
  "shift_applies scancode shift_down_last caps_lock_last =
     (if scancode < 0x0e \<or> scancode = 0x29 \<or> scancode = 0x1a \<or> scancode = 0x1b \<or> scancode = 0x2b \<or>
         scancode = 0x27 \<or> scancode = 0x28 \<or> scancode = 0x33 \<or> scancode = 0x34 \<or> scancode = 0x35
      then shift_down_last
      else if shift_down_last \<and> caps_lock_last then False
      else if shift_down_last \<or> caps_lock_last then True
      else False)"

definition kbd_break :: "u16 \<Rightarrow> 'z kbd_scheme \<Rightarrow> 'z kbd_scheme" where
  "kbd_break make_code s =
     (if make_code = ctrl_l_make \<or> make_code = ctrl_r_make then s\<lparr>ctrl_status := False\<rparr>
      else if make_code = shift_l_make \<or> make_code = shift_r_make then s\<lparr>shift_status := False\<rparr>
      else if make_code = alt_l_make \<or> make_code = alt_r_make then s\<lparr>alt_status := False\<rparr>
      else s)"

definition kbd_modifier :: "u16 \<Rightarrow> 'z kbd_scheme \<Rightarrow> 'z kbd_scheme" where
  "kbd_modifier scancode s =
     (if scancode = ctrl_l_make \<or> scancode = ctrl_r_make then s\<lparr>ctrl_status := True\<rparr>
      else if scancode = alt_l_make \<or> scancode = alt_r_make then s\<lparr>alt_status := True\<rparr>
      else if scancode = shift_l_make \<or> scancode = shift_r_make then s\<lparr>shift_status := True\<rparr>
      else if scancode = caps_lock_make then s\<lparr>caps_lock_status := \<not> caps_lock_status s\<rparr>
      else s)"

definition kbd_make :: "u16 \<Rightarrow> bool \<Rightarrow> bool \<Rightarrow> 'z kbd_scheme \<Rightarrow> 'z kbd_scheme result" where
  "kbd_make scancode shift_down_last caps_lock_last s =
     (let shift = shift_applies scancode shift_down_last caps_lock_last;
          scancode = scancode AND 0x00ff;
          index = ucast scancode;
          cur_char = keymap_at index shift
      in if cur_char \<noteq> 0 then
           bind_r (ioq_full (kbd_buf s) s) (\<lambda>full.
             if \<not> full then
               let s = put_char cur_char s
               in bind_r (ioq_putchar (kbd_buf s) cur_char s) (\<lambda>(r, s). Inr s)
             else Inr s)
         else Inr (kbd_modifier scancode s))"

definition intr_keyboard_handler :: "u8 \<Rightarrow> 'z kbd_scheme \<Rightarrow> 'z kbd_scheme result" where
  "intr_keyboard_handler inb_60 s =
     (let shift_down_last = shift_status s;
          caps_lock_last = caps_lock_status s;
          scancode = (ucast inb_60 :: u16)
      in if scancode = 0xe0 then Inr (s\<lparr>ext_scancode := True\<rparr>)
         else
           let (scancode, s) =
                 (if ext_scancode s then (0xe000 OR scancode, s\<lparr>ext_scancode := False\<rparr>) else (scancode, s));
               break_code = (scancode AND 0x0080 \<noteq> 0)
           in if break_code then Inr (kbd_break (scancode AND 0xff7f) s)
              else if (scancode > 0x00 \<and> scancode < 0x3b) \<or> scancode = ctrl_r_make \<or> scancode = alt_r_make
              then kbd_make scancode shift_down_last caps_lock_last s
              else Inr (put_line ''unknow key'' s))"

definition keyboard_init :: "'z kbd_scheme \<Rightarrow> 'z kbd_scheme" where
  "keyboard_init s =
     (let s = put_line ''keyboard_init start'' s;
          s = ioqueue_init (kbd_buf s) s;
          s = register_handler 0x21 Intr_keyboard_handler s
      in put_line ''keyboard_init done'' s)"

text \<open>The handler on a stream of bytes from the keyboard, one interrupt each.\<close>

fun kbd_run :: "u8 list \<Rightarrow> 'z kbd_scheme \<Rightarrow> 'z kbd_scheme result" where
  "kbd_run [] s = Inr s"
| "kbd_run (c # cs) s = bind_r (intr_keyboard_handler c s) (kbd_run cs)"

section \<open>What a keyboard does\<close>

text \<open>
  A keyboard, abstractly: the modifiers that are down, whether a prefix byte was just read, and the
  characters typed.  A letter is in upper case when exactly one of shift and caps lock is on, every
  other key looks at shift only.
\<close>

record keys =
  k_ctrl :: bool
  k_alt :: bool
  k_shift :: bool
  k_caps :: bool
  k_prefix :: bool
  k_typed :: "u8 list"

datatype key = Ctrl | Alt | Shift | Caps | Char nat | Other

definition key_of :: "bool \<Rightarrow> nat \<Rightarrow> key" where
  "key_of prefix n =
     (if prefix then (if n = 0x1d then Ctrl else if n = 0x38 then Alt else Other)
      else if n = 0x1d then Ctrl else if n = 0x38 then Alt
      else if n = 0x2a \<or> n = 0x36 then Shift else if n = 0x3a then Caps
      else if 1 \<le> n \<and> n < 0x3a then Char n else Other)"

definition letter :: "u8 \<Rightarrow> bool" where
  "letter c = (97 \<le> c \<and> c \<le> 122)"

definition typed_char :: "nat \<Rightarrow> bool \<Rightarrow> bool \<Rightarrow> u8" where
  "typed_char n shift caps =
     (let (plain, shifted) = keymap ! n
      in if letter plain then (if shift \<noteq> caps then plain - 32 else plain)
         else if shift then shifted else plain)"

definition press :: "key \<Rightarrow> keys \<Rightarrow> keys" where
  "press k st =
     (case k of
        Ctrl \<Rightarrow> st\<lparr>k_ctrl := True\<rparr> | Alt \<Rightarrow> st\<lparr>k_alt := True\<rparr> | Shift \<Rightarrow> st\<lparr>k_shift := True\<rparr>
      | Caps \<Rightarrow> st\<lparr>k_caps := \<not> k_caps st\<rparr>
      | Char n \<Rightarrow> if length (k_typed st) < 63
                  then st\<lparr>k_typed := k_typed st @ [typed_char n (k_shift st) (k_caps st)]\<rparr> else st
      | Other \<Rightarrow> st)"

definition release :: "key \<Rightarrow> keys \<Rightarrow> keys" where
  "release k st =
     (case k of
        Ctrl \<Rightarrow> st\<lparr>k_ctrl := False\<rparr> | Alt \<Rightarrow> st\<lparr>k_alt := False\<rparr> | Shift \<Rightarrow> st\<lparr>k_shift := False\<rparr>
      | _ \<Rightarrow> st)"

definition key_step :: "nat \<Rightarrow> keys \<Rightarrow> keys" where
  "key_step c st =
     (if c = 0xe0 then st\<lparr>k_prefix := True\<rparr>
      else let k = key_of (k_prefix st) (c mod 128); st = st\<lparr>k_prefix := False\<rparr>
           in if c < 128 then press k st else release k st)"

definition keys_of :: "'z kbd_scheme \<Rightarrow> keys" where
  "keys_of s =
     \<lparr>k_ctrl = ctrl_status s, k_alt = alt_status s, k_shift = shift_status s, k_caps = caps_lock_status s,
      k_prefix = ext_scancode s, k_typed = ioq_seq s (kbd_buf s)\<rparr>"

section \<open>The decoding of scan codes\<close>

text \<open>The handler's comparisons as a class of keys, and the facts about every byte, by evaluation.\<close>

definition scan :: "bool \<Rightarrow> nat \<Rightarrow> u16" where
  "scan ext n = (if ext then 0xe000 OR ucast (of_nat n :: u8) else ucast (of_nat n :: u8))"

definition mod_class :: "u16 \<Rightarrow> key" where
  "mod_class m =
     (if m = ctrl_l_make \<or> m = ctrl_r_make then Ctrl
      else if m = alt_l_make \<or> m = alt_r_make then Alt
      else if m = shift_l_make \<or> m = shift_r_make then Shift
      else if m = caps_lock_make then Caps else Other)"

definition held :: "key \<Rightarrow> key" where
  "held k = (case k of Ctrl \<Rightarrow> Ctrl | Alt \<Rightarrow> Alt | Shift \<Rightarrow> Shift | _ \<Rightarrow> Other)"

definition is_char :: "key \<Rightarrow> bool" where
  "is_char k = (case k of Char _ \<Rightarrow> True | _ \<Rightarrow> False)"

definition make_code :: "u16 \<Rightarrow> bool" where
  "make_code sc = ((sc > 0 \<and> sc < 0x3b) \<or> sc = ctrl_r_make \<or> sc = alt_r_make)"

lemma scan_break: "\<forall>e\<in>set [False, True]. \<forall>n\<in>set [0..<256]. (scan e n AND 0x80 \<noteq> 0) = (128 \<le> n)"
  by code_simp

lemma scan_released:
  "\<forall>e\<in>set [False, True]. \<forall>n\<in>set [128..<256]. held (mod_class (scan e n AND 0xff7f)) = held (key_of e (n - 128))"
  by code_simp

lemma scan_made: "\<forall>e\<in>set [False, True]. \<forall>n\<in>set [0..<128]. make_code (scan e n) = (key_of e n \<noteq> Other)"
  by code_simp

definition char_ok :: "bool \<Rightarrow> nat \<Rightarrow> bool \<Rightarrow> bool \<Rightarrow> bool" where
  "char_ok e n sh ca =
     (if is_char (key_of e n) then
        key_of e n = Char n \<and> typed_char n sh ca \<noteq> 0 \<and>
        keymap_at (ucast (scan e n AND 0xff)) (shift_applies (scan e n) sh ca) = typed_char n sh ca
      else keymap_at (ucast (scan e n AND 0xff)) (shift_applies (scan e n) sh ca) = 0 \<and>
        mod_class (scan e n AND 0xff) = key_of e n)"

lemma scan_char_ff: "\<forall>n\<in>set [1..<59]. char_ok False n False False"
  by code_simp

lemma scan_char_ft: "\<forall>n\<in>set [1..<59]. char_ok False n False True"
  by code_simp

lemma scan_char_tf: "\<forall>n\<in>set [1..<59]. char_ok False n True False"
  by code_simp

lemma scan_char_tt: "\<forall>n\<in>set [1..<59]. char_ok False n True True"
  by code_simp

lemma scan_char_ext:
  "\<forall>n\<in>set [0x1d, 0x38]. \<forall>sh\<in>set [False, True]. \<forall>ca\<in>set [False, True]. char_ok True n sh ca"
  by code_simp

lemma scan_prefix: "\<forall>n\<in>set [0..<256]. (ucast (of_nat n :: u8) = (0xe0 :: u16)) = (n = 0xe0)"
  by code_simp

end
