(* ===== verification/Syscalls.thy ===== *)
theory Syscalls
  imports Process Keyboard
begin

text \<open>
  System calls: the table and its functions (\<^verbatim>\<open>userprog/syscall-init.c\<close>), the common entry
  \<open>syscall_handler\<close> of \<^verbatim>\<open>kernel/kernel.S\<close>, and the stubs of user programs (\<^verbatim>\<open>lib/user/syscall.c\<close>).

  A slot of the table that nothing was stored in is a null pointer.  The entry does not check the number:
  beyond the table it would call whatever word lies there, which is the error \<open>Overrun\<close> here.
\<close>

section \<open>The table\<close>

datatype SYSCALL_NR =
    SYS_GETPID | SYS_WRITE | SYS_MALLOC | SYS_FREE | SYS_FORK | SYS_READ | SYS_PUTCHAR | SYS_SLEAR | SYS_GETCWD
  | SYS_OPEN | SYS_CLOSE | SYS_LSEEK | SYS_UNLINK | SYS_MKDIR | SYS_OPENDIR | SYS_CLOSEDIR | SYS_RMDIR | SYS_READDIR
  | SYS_REWINDDIR | SYS_STAT | SYS_PS

fun nr :: "SYSCALL_NR \<Rightarrow> u32" where
  "nr SYS_GETPID = 0" | "nr SYS_WRITE = 1" | "nr SYS_MALLOC = 2" | "nr SYS_FREE = 3" | "nr SYS_FORK = 4"
| "nr SYS_READ = 5" | "nr SYS_PUTCHAR = 6" | "nr SYS_SLEAR = 7" | "nr SYS_GETCWD = 8" | "nr SYS_OPEN = 9"
| "nr SYS_CLOSE = 10" | "nr SYS_LSEEK = 11" | "nr SYS_UNLINK = 12" | "nr SYS_MKDIR = 13" | "nr SYS_OPENDIR = 14"
| "nr SYS_CLOSEDIR = 15" | "nr SYS_RMDIR = 16" | "nr SYS_READDIR = 17" | "nr SYS_REWINDDIR = 18" | "nr SYS_STAT = 19"
| "nr SYS_PS = 20"

datatype syscall = No_call | Sys_getpid | Sys_write | Sys_malloc | Sys_free

record syscalls = kbd +
  syscall_table :: "u32 \<Rightarrow> syscall"

definition syscall_nr :: u32 where "syscall_nr = 32"

section \<open>The functions\<close>

definition sys_getpid :: "'z kernel_scheme \<Rightarrow> u32" where
  "sys_getpid s = scast (pid (tasks s (running_thread s)))"

text \<open>\<open>console_put_str\<close> prints the characters up to the terminator, which is where \<open>strlen\<close> counts to.\<close>

definition sys_write :: "addr \<Rightarrow> 'z kernel_scheme \<Rightarrow> (u32 \<times> 'z kernel_scheme) result" where
  "sys_write str s =
     bind_r (strlen str s) (\<lambda>n.
     bind_r (console_put_str (map (\<lambda>i. bytes s (str + of_nat i)) [0..<unat n]) s) (\<lambda>s.
     bind_r (strlen str s) (\<lambda>n. Inr (n, s))))"

definition syscall_init :: "'z syscalls_scheme \<Rightarrow> 'z syscalls_scheme" where
  "syscall_init s =
     (let s = put_line ''syscall_init start'' s;
          s = s\<lparr>syscall_table := (syscall_table s)(nr SYS_GETPID := Sys_getpid)\<rparr>;
          s = s\<lparr>syscall_table := (syscall_table s)(nr SYS_WRITE := Sys_write)\<rparr>;
          s = s\<lparr>syscall_table := (syscall_table s)(nr SYS_MALLOC := Sys_malloc)\<rparr>;
          s = s\<lparr>syscall_table := (syscall_table s)(nr SYS_FREE := Sys_free)\<rparr>
      in put_line ''syscall_init done'' s)"

text \<open>\<open>syscall_handler\<close>: calls the function of the number in \<open>eax\<close> with \<open>ebx\<close> as its first argument and puts the
  result where \<open>eax\<close> was saved.  \<open>sys_free\<close> returns nothing: \<open>eax\<close> is what its last call left there.\<close>

definition syscall_handler :: "u32 \<Rightarrow> u32 \<Rightarrow> u32 \<Rightarrow> 'z syscalls_scheme \<Rightarrow> (u32 \<times> 'z syscalls_scheme) result" where
  "syscall_handler junk eax ebx s =
     (if eax \<ge> syscall_nr then Inl (Overrun eax)
      else case syscall_table s eax of
        No_call \<Rightarrow> Inl NullDeref
      | Sys_getpid \<Rightarrow> Inr (sys_getpid s, s)
      | Sys_write \<Rightarrow> sys_write ebx s
      | Sys_malloc \<Rightarrow> sys_malloc ebx s
      | Sys_free \<Rightarrow> bind_r (sys_free ebx s) (\<lambda>s. Inr (junk, s)))"

section \<open>The stubs of user programs\<close>

text \<open>\<open>int $0x80\<close> with the number in \<open>eax\<close>; the registers a stub does not set are arguments.\<close>

definition syscall0 :: "u32 \<Rightarrow> u32 \<Rightarrow> u32 \<Rightarrow> 'z syscalls_scheme \<Rightarrow> (u32 \<times> 'z syscalls_scheme) result" where
  "syscall0 junk ebx number s = syscall_handler junk number ebx s"

definition syscall1 :: "u32 \<Rightarrow> u32 \<Rightarrow> u32 \<Rightarrow> 'z syscalls_scheme \<Rightarrow> (u32 \<times> 'z syscalls_scheme) result" where
  "syscall1 junk number arg1 s = syscall_handler junk number arg1 s"

definition getpid :: "u32 \<Rightarrow> u32 \<Rightarrow> 'z syscalls_scheme \<Rightarrow> (u32 \<times> 'z syscalls_scheme) result" where
  "getpid junk ebx s = syscall0 junk ebx (nr SYS_GETPID) s"

definition user_write :: "u32 \<Rightarrow> addr \<Rightarrow> 'z syscalls_scheme \<Rightarrow> (u32 \<times> 'z syscalls_scheme) result" where
  "user_write junk str s = syscall1 junk (nr SYS_WRITE) str s"

definition malloc :: "u32 \<Rightarrow> u32 \<Rightarrow> 'z syscalls_scheme \<Rightarrow> (addr \<times> 'z syscalls_scheme) result" where
  "malloc junk nbytes s = syscall1 junk (nr SYS_MALLOC) nbytes s"

definition free :: "u32 \<Rightarrow> addr \<Rightarrow> 'z syscalls_scheme \<Rightarrow> 'z syscalls_scheme result" where
  "free junk ptr s = bind_r (syscall1 junk (nr SYS_FREE) ptr s) (\<lambda>(_, s). Inr s)"

text \<open>\<open>printf\<close> of \<^verbatim>\<open>lib/stdio.c\<close>: the local buffer, at \<open>buf\<close>, starts as zeros.\<close>

definition printf :: "u32 \<Rightarrow> addr \<Rightarrow> addr \<Rightarrow> addr \<Rightarrow> 'z syscalls_scheme \<Rightarrow> (u32 \<times> 'z syscalls_scheme) result" where
  "printf junk buf format format_slot s =
     (let s = memset_loop 1024 buf 0 s
      in bind_r (vsprintf buf format format_slot s) (\<lambda>(_, s). user_write junk buf s))"

section \<open>Properties\<close>

lemma syscall_init_table:
  "syscall_table (syscall_init s) =
     (syscall_table s)(0 := Sys_getpid, 1 := Sys_write, 2 := Sys_malloc, 3 := Sys_free)"
  by (simp add: syscall_init_def put_str_def Let_def)



text \<open>The entry does not look at the number.  A number the kernel has registered no function for makes it
  call address 0, and a number beyond the 32 entries makes it call a word that is not part of the table.\<close>

theorem syscall_number_unchecked:
  fixes s :: "'z syscalls_scheme"
  assumes "\<forall>n. syscall_table s0 n = No_call" and "syscall_table s = syscall_table (syscall_init s0)" and "3 < eax"
  shows "syscall_handler junk eax ebx s = Inl (if eax < 32 then NullDeref else Overrun eax)"
proof -
  have "eax \<noteq> 0" "eax \<noteq> 1" "eax \<noteq> 2" "eax \<noteq> 3" using assms(3) by auto
  then have "syscall_table s eax = No_call" unfolding assms(2) syscall_init_table using assms(1) by simp
  then show ?thesis by (auto simp: syscall_handler_def syscall_nr_def not_le)
qed

theorem syscall_number_unchecked_witness:
  "\<forall>s :: syscalls. syscall_handler 0 40 0 (syscall_init (s\<lparr>syscall_table := \<lambda>_. No_call\<rparr>)) = Inl (Overrun 40)"
proof
  fix s :: syscalls
  show "syscall_handler 0 40 0 (syscall_init (s\<lparr>syscall_table := \<lambda>_. No_call\<rparr>)) = Inl (Overrun 40)"
    using syscall_number_unchecked [of "s\<lparr>syscall_table := \<lambda>_. No_call\<rparr>"
        "syscall_init (s\<lparr>syscall_table := \<lambda>_. No_call\<rparr>)" 40 0 0] by simp
qed

end
