(* ===== verification/Timer.thy ===== *)
theory Timer
  imports Scheduler Descriptors
begin

text \<open>
  The timer of \<^verbatim>\<open>device/timer.c\<close>: programming the 8253, registering the handler (which is with the
  scheduler) and sleeping.

  \<open>ticks_to_sleep\<close> yields until enough ticks have passed.  What the counter \<open>ticks\<close> shows each time the
  thread is back from \<open>thread_yield\<close> is decided by the other threads and the clock; the loop takes it as a
  sequence of readings and returns how often it yielded.
\<close>

section \<open>Constants\<close>

definition IRQ0_FREQUENCE :: u32 where "IRQ0_FREQUENCE = 100"
definition INPUT_FREQUENCE :: u32 where "INPUT_FREQUENCE = 1193180"
definition COUNTER0_VALUE :: u32 where "COUNTER0_VALUE = INPUT_FREQUENCE div IRQ0_FREQUENCE"
definition COUNTER0_PORT :: u8 where "COUNTER0_PORT = 0x40"
definition COUNTER_NO :: u8 where "COUNTER_NO = 0"
definition COUNTER_MODE :: u8 where "COUNTER_MODE = 2"
definition READ_WRITE_LATCH :: u8 where "READ_WRITE_LATCH = 3"
definition PIT_COUNTER_PORT :: u16 where "PIT_COUNTER_PORT = 0x43"
definition mil_seconds_per_intr :: u32 where "mil_seconds_per_intr = 1000 div IRQ0_FREQUENCE"

lemmas timer_consts = IRQ0_FREQUENCE_def INPUT_FREQUENCE_def COUNTER0_VALUE_def COUNTER0_PORT_def COUNTER_NO_def
  COUNTER_MODE_def READ_WRITE_LATCH_def PIT_COUNTER_PORT_def mil_seconds_per_intr_def

section \<open>Operations\<close>

definition frequence_set :: "u8 \<Rightarrow> u8 \<Rightarrow> u8 \<Rightarrow> u8 \<Rightarrow> u16 \<Rightarrow> 'z dtables_scheme \<Rightarrow> 'z dtables_scheme" where
  "frequence_set counter_port counter_no rwl counter_mode counter_value s =
     (let s = outb PIT_COUNTER_PORT
                (ucast (push_bit 6 (ucast counter_no :: u32) OR push_bit 4 (ucast rwl) OR push_bit 1 (ucast counter_mode))) s;
          s = outb (ucast counter_port) (ucast counter_value) s
      in outb (ucast counter_port) (ucast (drop_bit 8 counter_value)) s)"

definition timer_init :: "'z dtables_scheme \<Rightarrow> 'z dtables_scheme" where
  "timer_init s =
     (let s = put_line ''timer_init start'' s;
          s = frequence_set COUNTER0_PORT COUNTER_NO READ_WRITE_LATCH COUNTER_MODE (ucast COUNTER0_VALUE) s;
          s = register_handler 0x20 Intr_timer_handler s
      in put_line ''timer_init done'' s)"

partial_function (option) sleep_loop :: "u32 \<Rightarrow> u32 \<Rightarrow> (nat \<Rightarrow> u32) \<Rightarrow> nat \<Rightarrow> nat option" where
  "sleep_loop start_tick sleep_ticks readings i =
     (if readings i - start_tick < sleep_ticks then sleep_loop start_tick sleep_ticks readings (Suc i) else Some i)"

definition ticks_to_sleep :: "u32 \<Rightarrow> (nat \<Rightarrow> u32) \<Rightarrow> 'z kernel_scheme \<Rightarrow> nat result" where
  "ticks_to_sleep sleep_ticks readings s =
     (let start_tick = total_ticks s in loop_r (sleep_loop start_tick sleep_ticks readings 0))"

definition mtime_sleep :: "u32 \<Rightarrow> (nat \<Rightarrow> u32) \<Rightarrow> 'z kernel_scheme \<Rightarrow> nat result" where
  "mtime_sleep m_seconds readings s =
     (let sleep_ticks = DIV_ROUND_UP m_seconds mil_seconds_per_intr
      in ASSERT (sleep_ticks > 0) ''sleep_ticks > 0'' (ticks_to_sleep sleep_ticks readings s))"

section \<open>The loop\<close>

text \<open>The readings are those of a counter that has advanced by \<open>el i\<close> ticks at the test \<open>i\<close>.\<close>

lemma sleep_test:
  assumes "e < 2 ^ 32"
  shows "(start + of_nat e - start < (n :: u32)) = (e < unat n)"
  using assms by (simp add: word_less_nat_alt unat_of_nat_lt)

lemma sleep_loop_returns:
  assumes "\<And>i. readings i = start + of_nat (el i)" and "\<And>j. i \<le> j \<Longrightarrow> j < m \<Longrightarrow> el j < unat n"
    and "unat n \<le> el m" "el m < 2 ^ 32" "i \<le> m"
  shows "sleep_loop start n readings i = Some m"
  using assms(2,5)
proof (induction "m - i" arbitrary: i)
  case 0
  then have "i = m" by simp
  then show ?case using assms(1,3,4) sleep_test [of "el m" start n] by (simp add: sleep_loop.simps)
next
  case (Suc d)
  then have l: "el i < unat n" by simp
  then have "el i < 2 ^ 32" using unat_u32(1) [of n] by linarith
  then have "readings i - start < n" using sleep_test [of "el i" start n] l assms(1) by simp
  then show ?case using Suc by (simp add: sleep_loop.simps)
qed

lemma ms_per_intr: "mil_seconds_per_intr = 10"
  by (simp add: timer_consts)

lemma round_up_nat: "unat (DIV_ROUND_UP m mil_seconds_per_intr) = unat (m + 9) div 10"
proof -
  have "m + 10 - 1 = m + (9 :: u32)" by (simp add: add.commute)
  then have "DIV_ROUND_UP m mil_seconds_per_intr = (m + 9) div 10" unfolding DIV_ROUND_UP_def ms_per_intr by (simp only:)
  then show ?thesis by (simp add: unat_div)
qed

lemma round_up_ms:
  assumes "unat m + 9 < 2 ^ 32"
  shows "unat (DIV_ROUND_UP m mil_seconds_per_intr) = (unat m + 9) div 10"
proof -
  have "unat (m + 9) = unat m + 9" using assms unat_add_lt [of m 9] by simp
  then show ?thesis by (simp only: round_up_nat)
qed

section \<open>Properties\<close>

text \<open>C27. A thread that sleeps for between 1 and 2 ^ 32 - 10 milliseconds wakes up: \<open>mtime_sleep\<close> returns at the
  first test at which the tick counter has advanced by the rounded-up number of 10 ms ticks, also when the
  32-bit counter wraps around in between, and that is never less than the time asked for and less than one
  tick more.  \<open>el i\<close> is how far the counter has advanced at the test \<open>i\<close>.\<close>

theorem mtime_sleep_wakes:
  fixes s :: "'z kernel_scheme"
  assumes "0 < unat m" and "unat m + 9 < 2 ^ 32"
    and "\<forall>i. readings i = total_ticks s + of_nat (el i)"
    and "\<forall>j<k. el j * 10 < unat m" and "unat m \<le> el k * 10" and "el k < 2 ^ 32"
  shows "mtime_sleep m readings s = Inr k \<and>
         unat m \<le> unat (DIV_ROUND_UP m mil_seconds_per_intr) * 10 \<and>
         unat (DIV_ROUND_UP m mil_seconds_per_intr) * 10 < unat m + 10"
proof -
  let ?n = "DIV_ROUND_UP m mil_seconds_per_intr"
  have n: "unat ?n = (unat m + 9) div 10" by (rule round_up_ms [OF assms(2)])
  have p: "?n > 0" using n assms(1) by (simp add: word_less_nat_alt)
  have "sleep_loop (total_ticks s) ?n readings 0 = Some k"
  proof (rule sleep_loop_returns [where el = el])
    show "el j < unat ?n" if "0 \<le> j" "j < k" for j
    proof -
      have "el j * 10 < unat m" using assms(4) that by simp
      then show ?thesis unfolding n by linarith
    qed
    show "unat ?n \<le> el k" unfolding n using assms(5) by linarith
  qed (use assms(3,6) in simp_all)
  moreover have "unat m \<le> (unat m + 9) div 10 * 10" "(unat m + 9) div 10 * 10 < unat m + 10" by linarith+
  ultimately show ?thesis using p n by (simp add: mtime_sleep_def ticks_to_sleep_def Let_def)
qed

theorem mtime_sleep_wakes_witness:
  "\<forall>s :: kernel. mtime_sleep 25 (\<lambda>i. 0xfffffffe + of_nat i) (s\<lparr>total_ticks := 0xfffffffe\<rparr>) = Inr 3"
proof
  fix s :: kernel
  have "\<forall>j<3. j * 10 < unat (25 :: u32)" by auto
  then show "mtime_sleep 25 (\<lambda>i. 0xfffffffe + of_nat i) (s\<lparr>total_ticks := 0xfffffffe\<rparr>) = Inr 3"
    using mtime_sleep_wakes [of 25 "\<lambda>i. 0xfffffffe + of_nat i" "s\<lparr>total_ticks := 0xfffffffe\<rparr>" "\<lambda>i. i" 3] by simp
qed

text \<open>\<open>mtime_sleep\<close> at the edges of its argument: a sleep of 0 ms fails its assertion, and so do the nine
  largest arguments, because the rounding wraps around to zero ticks.\<close>

theorem mtime_sleep_edges:
  fixes s :: "'z kernel_scheme"
  assumes "m = 0 \<or> 2 ^ 32 \<le> unat m + 9"
  shows "mtime_sleep m readings s = Inl (Panic ''sleep_ticks > 0'')"
proof -
  have "unat (m + 9) < 10"
  proof (cases "m = 0")
    case False
    then have "2 ^ 32 \<le> unat m + 9" using assms by simp
    then have "unat (m + 9) = unat m + 9 - 2 ^ 32"
      using unat_u32(1) [of m] by (simp add: unat_word_ariths mod_if)
    then show ?thesis using unat_u32(1) [of m] by simp
  qed simp
  then have "unat (DIV_ROUND_UP m mil_seconds_per_intr) = 0"
    by (simp add: round_up_nat)
  then show ?thesis by (simp add: mtime_sleep_def word_less_nat_alt)
qed

theorem mtime_sleep_edges_witness:
  "\<forall>s :: kernel. mtime_sleep 0xffffffff (\<lambda>_. 0) s = Inl (Panic ''sleep_ticks > 0'')"
proof
  fix s :: kernel
  show "mtime_sleep 0xffffffff (\<lambda>_. 0) s = Inl (Panic ''sleep_ticks > 0'')" by (rule mtime_sleep_edges) simp
qed

text \<open>\<open>timer_init\<close> programs counter 0 of the 8253 for mode 2 with both bytes of the divisor, low byte first,
  and the divisor gives an interrupt rate of 100 per second; vector 0x20 then leads to the timer handler.\<close>

theorem timer_init_programs:
  fixes s :: "'z dtables_scheme"
  shows "out_log (timer_init s) = out_log s @ [(0x43, 0x34), (0x40, 0x9b), (0x40, 0x2e)] \<and>
         INPUT_FREQUENCE div (0x2e * 256 + 0x9b) = 100 \<and> idt_table (timer_init s) 0x20 = Intr_timer_handler"
  by (simp add: timer_init_def frequence_set_def register_handler_def outb_def timer_consts put_str_def Let_def)

end
