(* ===== verification/Rtc.thy ===== *)
theory Rtc
  imports Descriptors
begin

text \<open>
  The real-time clock of \<^verbatim>\<open>lib/user/time.c\<close>.  What \<open>inb\<close> reads from a device is a function of the bytes
  written to the ports before, an argument of the operations.  The \<open>int\<close> fields hold small numbers and are
  unbounded here.
\<close>

section \<open>Operations\<close>

type_synonym device = "(u16 \<times> u8) list \<Rightarrow> u16 \<Rightarrow> u8"

definition inb :: "device \<Rightarrow> u16 \<Rightarrow> 'z dtables_scheme \<Rightarrow> u8" where
  "inb dev port s = dev (out_log s) port"

record tm =
  tm_sec :: int
  tm_min :: int
  tm_hour :: int
  tm_mday :: int
  tm_mon :: int
  tm_year :: int
  tm_wday :: int

definition rtc_init :: "device \<Rightarrow> 'z dtables_scheme \<Rightarrow> 'z dtables_scheme" where
  "rtc_init dev s =
     (let s = put_line ''rtc_init start'' s;
          s = outb 0x70 0x0b s;
          reg_B = inb dev 0x71 s OR 0b100;
          s = outb 0x71 reg_B s
      in put_line ''rtc_init done'' s)"

definition getTime :: "device \<Rightarrow> 'z dtables_scheme \<Rightarrow> tm \<times> 'z dtables_scheme" where
  "getTime dev s =
     (let s = outb 0x70 0x09 s; year = 100 + uint (inb dev 0x71 s);
          s = outb 0x70 0x08 s; mon = uint (inb dev 0x71 s);
          s = outb 0x70 0x07 s; mday = uint (inb dev 0x71 s);
          s = outb 0x70 0x06 s; wday = uint (inb dev 0x71 s);
          s = outb 0x70 0x04 s; hour = uint (inb dev 0x71 s);
          s = outb 0x70 0x02 s; mi = uint (inb dev 0x71 s);
          s = outb 0x70 0x00 s; sec = uint (inb dev 0x71 s)
      in (\<lparr>tm_sec = sec, tm_min = mi, tm_hour = hour, tm_mday = mday, tm_mon = mon, tm_year = year,
           tm_wday = wday\<rparr>, s))"

definition CST2UTC :: "tm \<Rightarrow> tm result" where
  "CST2UTC cst =
     (let utc = cst\<lparr>tm_hour := tm_hour cst - 8\<rparr>
      in if tm_hour utc < 0 then
           let utc = utc\<lparr>tm_hour := tm_hour utc + 24\<rparr>;
               utc = utc\<lparr>tm_mday := tm_mday utc - 1\<rparr>
           in bind_r (if tm_mday utc < 0 then
                let utc = utc\<lparr>tm_mday := tm_mday utc + 31\<rparr>;
                    utc = utc\<lparr>tm_mon := tm_mon utc - 1\<rparr>
                in if tm_mon utc < 0 then
                     let utc = utc\<lparr>tm_mon := tm_mon utc + 12\<rparr>;
                         utc = utc\<lparr>tm_year := tm_year utc - 1\<rparr>
                     in if tm_year utc < 0 then Inl (Panic ''time error'') else Inr utc
                   else Inr utc
              else Inr utc) (\<lambda>utc.
              let utc = utc\<lparr>tm_wday := tm_wday utc - 1\<rparr>
              in Inr (if tm_wday utc < 0 then utc\<lparr>tm_wday := tm_wday utc + 7\<rparr> else utc))
         else Inr utc)"

section \<open>Properties\<close>

text \<open>The CMOS memory: port 0x71 shows the register that was last selected through port 0x70.\<close>

definition cmos :: "(u8 \<Rightarrow> u8) \<Rightarrow> device" where
  "cmos regs log port = (case rev log of (p, r) # _ \<Rightarrow> if p = 0x70 then regs r else 0 | [] \<Rightarrow> 0)"

text \<open>On a CMOS clock, which shows at port 0x71 the register selected through port 0x70, \<open>getTime\<close> reads
  each field from its own register.\<close>

theorem getTime_reads_cmos:
  fixes s :: "'z dtables_scheme"
  shows "fst (getTime (cmos regs) s) =
    \<lparr>tm_sec = uint (regs 0), tm_min = uint (regs 2), tm_hour = uint (regs 4), tm_mday = uint (regs 7),
     tm_mon = uint (regs 8), tm_year = 100 + uint (regs 9), tm_wday = uint (regs 6)\<rparr>"
  by (simp add: getTime_def inb_def outb_def cmos_def Let_def)

text \<open>\<open>CST2UTC\<close> goes back eight hours as long as the month does not change: the hour stays in range and day
  and hour together move by exactly eight hours.  On the first day of a month before 8 o'clock it gives day 0 of the same
  month instead of the last day of the month before.\<close>

theorem CST2UTC_hours:
  assumes "0 \<le> tm_hour c" "tm_hour c < 24" "1 \<le> tm_mday c"
  shows "\<exists>u. CST2UTC c = Inr u \<and> 0 \<le> tm_hour u \<and> tm_hour u < 24 \<and> tm_mon u = tm_mon c \<and> tm_year u = tm_year c \<and>
             tm_mday u * 24 + tm_hour u = tm_mday c * 24 + tm_hour c - 8 \<and>
             (tm_mday u = 0 \<longleftrightarrow> tm_mday c = 1 \<and> tm_hour c < 8)"
  using assms by (auto simp: CST2UTC_def Let_def)

theorem CST2UTC_hours_witness:
  "let c = \<lparr>tm_sec = 0, tm_min = 30, tm_hour = 7, tm_mday = 1, tm_mon = 3, tm_year = 124, tm_wday = 5\<rparr>
   in \<exists>u. CST2UTC c = Inr u \<and> tm_mday u = 0 \<and> tm_mon u = 3"
  unfolding Let_def
  using CST2UTC_hours [of "\<lparr>tm_sec = 0, tm_min = 30, tm_hour = 7, tm_mday = 1, tm_mon = 3, tm_year = 124, tm_wday = 5\<rparr>"]
  by auto

end
