(* ===== verification/Boot.thy ===== *)
theory Boot
  imports Syscalls Timer Rtc
begin

text \<open>
  The start of the kernel, \<open>init_all\<close> of \<^verbatim>\<open>kernel/init.c\<close>: the initialisers of all components in the order
  the code calls them.  The addresses the linker chose are arguments.
\<close>

section \<open>init\_all\<close>

definition init_all ::
  "(nat \<Rightarrow> addr) \<Rightarrow> addr \<Rightarrow> addr \<Rightarrow> addr \<Rightarrow> device \<Rightarrow> 'z syscalls_scheme \<Rightarrow> 'z syscalls_scheme result" where
  "init_all intr_entry_table syscall_entry idt_addr tss_addr dev s =
     (let s = put_line ''init_all start'' s;
          s = idt_init intr_entry_table syscall_entry idt_addr s;
          s = timer_init s
      in bind_r (mem_init s) (\<lambda>s.
         bind_r (thread_init s) (\<lambda>s.
         let s = console_init s;
             s = keyboard_init s;
             s = tss_init tss_addr s;
             s = rtc_init dev s;
             s = syscall_init s
         in Inr (put_line ''init_all done'' s))))"

end
