(* ===== verification/Loader.thy ===== *)
theory Loader
  imports Mem_Inv
begin

text \<open>
  The page tables the kernel starts with: \<open>setup_page\<close> of \<^verbatim>\<open>boot/loader.S\<close>, which runs before paging is on, so that its
  addresses are physical, and the switch to paging behind it.  The registers the loops use are arguments.
\<close>

section \<open>The code\<close>

definition PAGE_DIR_TABLE_POS :: addr where "PAGE_DIR_TABLE_POS = 0x100000"

text \<open>\<open>mov byte [pa], v\<close>: physical memory is a map from the addresses of words.\<close>

definition pwr_byte :: "addr \<Rightarrow> u8 \<Rightarrow> 'z pgmachine_scheme \<Rightarrow> 'z pgmachine_scheme" where
  "pwr_byte pa v s =
     (let w = pa AND 0xfffffffc;
          k = 8 * unat (pa AND 3)
      in pwr w ((pmem s w AND NOT (push_bit k 0xff)) OR push_bit k (ucast v)) s)"

fun clear_page_dir :: "nat \<Rightarrow> u32 \<Rightarrow> 'z pgmachine_scheme \<Rightarrow> 'z pgmachine_scheme" where
  "clear_page_dir 0 esi s = s"
| "clear_page_dir (Suc ecx) esi s = clear_page_dir ecx (esi + 1) (pwr_byte (PAGE_DIR_TABLE_POS + esi) 0 s)"

fun create_pte :: "nat \<Rightarrow> addr \<Rightarrow> u32 \<Rightarrow> u32 \<Rightarrow> 'z pgmachine_scheme \<Rightarrow> 'z pgmachine_scheme" where
  "create_pte 0 ebx esi edx s = s"
| "create_pte (Suc ecx) ebx esi edx s = create_pte ecx ebx (esi + 1) (edx + 0x1000) (pwr (ebx + esi * 4) edx s)"

fun create_kernel_pde :: "nat \<Rightarrow> addr \<Rightarrow> u32 \<Rightarrow> u32 \<Rightarrow> 'z pgmachine_scheme \<Rightarrow> 'z pgmachine_scheme" where
  "create_kernel_pde 0 ebx esi eax s = s"
| "create_kernel_pde (Suc ecx) ebx esi eax s =
     create_kernel_pde ecx ebx (esi + 1) (eax + 0x1000) (pwr (ebx + esi * 4) eax s)"

definition setup_page :: "'z pgmachine_scheme \<Rightarrow> 'z pgmachine_scheme" where
  "setup_page s =
     (let s = clear_page_dir 4096 0 s;
          eax = PAGE_DIR_TABLE_POS + 0x1000;
          ebx = eax;
          eax = eax OR (PG_US_U OR PG_RW_W OR PG_P_1);
          s = pwr (PAGE_DIR_TABLE_POS + 0x0) eax s;
          s = pwr (PAGE_DIR_TABLE_POS + 0xc00) eax s;
          eax = eax - 0x1000;
          s = pwr (PAGE_DIR_TABLE_POS + 4092) eax s;
          s = create_pte 256 ebx 0 (PG_US_U OR PG_RW_W OR PG_P_1) s;
          eax = (PAGE_DIR_TABLE_POS + 0x2000) OR (PG_US_U OR PG_RW_W OR PG_P_1)
      in create_kernel_pde 254 PAGE_DIR_TABLE_POS 769 eax s)"

text \<open>\<open>mov cr3, eax\<close>, after which the loader sets the paging bit and the stack pointer and jumps to \<open>main\<close>.\<close>

definition enter_paging :: "addr \<Rightarrow> 'z pgmachine_scheme \<Rightarrow> 'z pgmachine_scheme" where
  "enter_paging eax s = s\<lparr>cr3 := eax\<rparr>"

section \<open>The loops\<close>

lemma create_kernel_pde_eq: "create_kernel_pde n ebx esi eax s = create_pte n ebx esi eax s"
  by (induction n arbitrary: esi eax s) simp_all

lemma table_words_eq:
  assumes "frame_of B = B" "frame_of C = C" "i < 1024" "j < 1024"
  shows "B + of_nat i * 4 = C + of_nat j * 4 \<longleftrightarrow> B = C \<and> i = j"
  using slot_eq [OF assms(1,2), of "of_nat i" "of_nat j"] assms(3,4) of_nat_word_inj [where 'a = 32, of i j] by (simp add: unat_of_nat_lt)

lemma entry_slot:
  assumes "frame_of B = B" "i < 1024" "j < 1024"
  shows "B + of_nat i * 4 = B + of_nat j * 4 \<longleftrightarrow> i = j"
  using table_words_eq [OF assms(1,1) assms(2,3)] by simp

lemma create_pte_run:
  assumes "frame_of B = B" "k + n \<le> 1024"
  shows "\<exists>p. create_pte n B (of_nat k) e s = s\<lparr>pmem := p\<rparr> \<and>
    (\<forall>i. k \<le> i \<and> i < k + n \<longrightarrow> p (B + of_nat i * 4) = e + of_nat (i - k) * 0x1000) \<and>
    (\<forall>x. (\<forall>i. k \<le> i \<and> i < k + n \<longrightarrow> x \<noteq> B + of_nat i * 4) \<longrightarrow> p x = pmem s x)"
  using assms(2)
proof (induction n arbitrary: k e s)
  case 0
  show ?case by (intro exI [of _ "pmem s"] conjI) auto
next
  case (Suc n)
  let ?s = "pwr (B + of_nat k * 4) e s"
  obtain p where p: "create_pte n B (of_nat (Suc k)) (e + 0x1000) ?s = ?s\<lparr>pmem := p\<rparr>"
    "\<And>i. Suc k \<le> i \<Longrightarrow> i < Suc k + n \<Longrightarrow> p (B + of_nat i * 4) = e + 0x1000 + of_nat (i - Suc k) * 0x1000"
    "\<And>x. (\<And>i. Suc k \<le> i \<Longrightarrow> i < Suc k + n \<Longrightarrow> x \<noteq> B + of_nat i * 4) \<Longrightarrow> p x = pmem ?s x"
    using Suc.IH [of "Suc k" "e + 0x1000" ?s] Suc.prems by auto
  have k: "p (B + of_nat k * 4) = e"
  proof -
    have "B + of_nat k * 4 \<noteq> B + of_nat i * 4" if "Suc k \<le> i" "i < Suc k + n" for i
      using entry_slot [OF assms(1), of k i] that Suc.prems by simp
    then show ?thesis using p(3) [of "B + of_nat k * 4"] by simp
  qed
  have "p (B + of_nat i * 4) = e + of_nat (i - k) * 0x1000" if "k \<le> i" "i < k + Suc n" for i
  proof (cases "i = k")
    case False
    then have "i - k = Suc (i - Suc k)" using that by simp
    then show ?thesis using p(2) [of i] that False by (simp add: algebra_simps)
  qed (use k in simp)
  moreover have "p x = pmem s x" if "\<forall>i. k \<le> i \<and> i < k + Suc n \<longrightarrow> x \<noteq> B + of_nat i * 4" for x
    using p(3) [of x] that by simp
  moreover have "create_pte (Suc n) B (of_nat k) e s = s\<lparr>pmem := p\<rparr>"
    using p(1) by (simp add: pwr_def add.commute)
  ultimately show ?case by blast
qed

text \<open>Four bytes make a word.\<close>

lemma clear_word:
  assumes "w AND 3 = (0 :: u32)"
  shows "pwr_byte (w + 3) 0 (pwr_byte (w + 2) 0 (pwr_byte (w + 1) 0 (pwr_byte w 0 s))) = pwr w 0 s"
proof -
  have w: "w + r = w OR r" "(w + r) AND 0xfffffffc = w" "(w + r) AND 3 = r" if "r \<in> {0, 1, 2, 3}" for r
  proof -
    have "w AND r = 0"
      using that arg_cong [OF assms, of "\<lambda>x. x AND r"] by (auto simp: and.assoc)
    then show e: "w + r = w OR r" by (simp add: word_plus_and_or [of w r, symmetric])
    have "r AND 0xfffffffc = 0" "r AND 3 = r" using that by auto
    moreover have "w AND 0xfffffffc = w"
    proof -
      have "(0xfffffffc :: u32) OR 3 = -1" by simp
      then have "(w AND 0xfffffffc) OR (w AND 3) = w AND -1" by (simp only: bit.conj_disj_distrib [symmetric])
      also have "\<dots> = w" by (rule and.right_neutral)
      finally show ?thesis using assms by simp
    qed
    ultimately show "(w + r) AND 0xfffffffc = w" "(w + r) AND 3 = r" using assms by (simp_all add: e bit.conj_disj_distrib2)
  qed
  have z: "(((x AND NOT (push_bit 0 0xff)) AND NOT (push_bit 8 0xff)) AND NOT (push_bit 16 0xff)) AND NOT (push_bit 24 0xff) = (0 :: u32)" for x :: u32
  proof -
    have "push_bit 0 0xff OR push_bit 8 0xff OR push_bit 16 0xff OR push_bit 24 0xff = (-1 :: u32)" by simp
    then have "x AND NOT (push_bit 0 0xff OR push_bit 8 0xff OR push_bit 16 0xff OR push_bit 24 0xff) = 0" by (simp only: bit.compl_one bit.conj_zero_right)
    then show ?thesis by (simp only: bit.de_Morgan_disj and.assoc)
  qed
  have e: "(-256 :: u32) = NOT (push_bit 0 0xff)" "(-65281 :: u32) = NOT (push_bit 8 0xff)" "(-16711681 :: u32) = NOT (push_bit 16 0xff)"
    "(-4278190081 :: u32) = NOT (push_bit 24 0xff)" by simp_all
  have z': "(((x AND -256) AND -65281) AND -16711681) AND -4278190081 = (0 :: u32)" for x :: u32 unfolding e by (rule z)
  have b: "pwr_byte (w + r) 0 t = t\<lparr>pmem := (pmem t)(w := pmem t w AND NOT (push_bit (8 * unat r) 0xff))\<rparr>"
    if "r \<in> {0, 1, 2, 3}" for r and t :: "'a pgmachine_scheme"
    unfolding pwr_byte_def Let_def w(2,3) [OF that] pwr_def by (simp only: unsigned_0 push_bit_of_0 or.right_neutral)
  have b': "pwr_byte w 0 t = t\<lparr>pmem := (pmem t)(w := pmem t w AND NOT (push_bit 0 0xff))\<rparr>" for t :: "'a pgmachine_scheme"
    using b [of 0 t] by simp
  show ?thesis
    unfolding b' b [of 1, simplified] b [of 2, simplified] b [of 3, simplified]
    by (simp add: pwr_def z')
qed

lemma clear_page_dir_run:
  assumes "k + n \<le> 1024"
  shows "clear_page_dir (4 * n) (of_nat (4 * k)) s = clear_words PAGE_DIR_TABLE_POS k n s"
  using assms
proof (induction n arbitrary: k s)
  case 0
  show ?case by (simp add: clear_words_0)
next
  case (Suc n)
  let ?w = "PAGE_DIR_TABLE_POS + of_nat (4 * k)"
  have "?w AND 3 = 0"
  proof (rule unat_eqI)
    have "unat ?w = 0x100000 + 4 * k" using Suc.prems by (simp add: PAGE_DIR_TABLE_POS_def unat_word_ariths unat_of_nat)
    moreover have "?w AND 3 = take_bit 2 ?w" by (simp add: take_bit_eq_mask mask_eq_exp_minus_1)
    then have "unat (?w AND 3) = unat ?w mod 4" by (simp add: take_bit_eq_mod unat_mod)
    ultimately show "unat (?w AND 3) = unat (0 :: u32)" by simp
  qed
  note c = clear_word [OF this, of s]
  have "clear_page_dir (4 * Suc n) (of_nat (4 * k)) s = clear_page_dir (4 * n) (of_nat (4 * Suc k)) (pwr ?w 0 s)"
    using c by (simp add: algebra_simps numeral_eq_Suc)
  also have "\<dots> = clear_words PAGE_DIR_TABLE_POS (Suc k) n (pwr (PAGE_DIR_TABLE_POS + of_nat k * 4) 0 s)"
    using Suc.IH [of "Suc k"] Suc.prems by (simp add: mult.commute)
  finally show ?case by (simp add: clear_words_Suc)
qed


section \<open>The tables\<close>

text \<open>The entries of the page directory: the first and the 769th table are the same, the tables of the kernel half follow it
  in memory, and the last entry is the directory itself.\<close>

definition boot_pde :: "nat \<Rightarrow> u32" where
  "boot_pde i = (if i = 0 then 257 * 0x1000 + 7 else if i = 1023 then 256 * 0x1000 + 7
     else if 768 \<le> i then of_nat (i - 511) * 0x1000 + 7 else 0)"

lemma pg_flags: "PG_US_U OR PG_RW_W OR PG_P_1 = (7 :: u32)"
  by (simp add: PG_US_U_def PG_RW_W_def PG_P_1_def)

lemma setup_page_run:
  "\<exists>p. setup_page s = s\<lparr>pmem := p\<rparr> \<and> (\<forall>i<1024. p (0x100000 + of_nat i * 4) = boot_pde i) \<and>
    (\<forall>i<256. p (0x101000 + of_nat i * 4) = of_nat i * 0x1000 + 7) \<and>
    (\<forall>x. (\<forall>i<1024. x \<noteq> 0x100000 + of_nat i * 4) \<and> (\<forall>i<256. x \<noteq> 0x101000 + of_nat i * 4) \<longrightarrow> p x = pmem s x)"
proof -
  define d where "d i = (0x100000 + of_nat i * 4 :: addr)" for i :: nat
  define t where "t i = (0x101000 + of_nat i * 4 :: addr)" for i :: nat
  have fr: "frame_of (0x100000 :: addr) = 0x100000" "frame_of (0x101000 :: addr) = 0x101000" by (simp_all add: frame_of_def)
  have DT: "d i \<noteq> t j" if "i < 1024" "j < 1024" for i j
    unfolding d_def t_def using slot_eq [OF fr, of "of_nat i" "of_nat j"] that by (simp add: unat_of_nat_lt)
  have dd: "d i = d j \<longleftrightarrow> i = j" if "i < 1024" "j < 1024" for i j
    unfolding d_def by (rule entry_slot [OF fr(1) that])
  let ?s1 = "clear_words 0x100000 0 1024 s"
  define s2 where "s2 = pwr (d 1023) 0x100007 (pwr (d 768) 0x101007 (pwr (d 0) 0x101007 ?s1))"
  have s1: "clear_page_dir 4096 0 s = ?s1"
    using clear_page_dir_run [of 0 1024 s] by (simp add: PAGE_DIR_TABLE_POS_def)
  have z: "pmem ?s1 x = (if \<exists>i<1024. x = d i then 0 else pmem s x)" for x
    unfolding clear_words_def d_def by auto
  have s2: "pmem s2 (d i) = (if i = 1023 then 0x100007 else if i = 768 \<or> i = 0 then 0x101007 else 0)" if "i < 1024" for i
  proof -
    have "pmem ?s1 (d i) = 0" unfolding z using that by auto
    then show ?thesis unfolding s2_def using dd [OF that] by simp
  qed
  have s2': "pmem s2 x = pmem s x" if "\<forall>i<1024. x \<noteq> d i" for x
  proof -
    have "pmem ?s1 x = pmem s x" unfolding z using that by auto
    moreover have "x \<noteq> d 0" "x \<noteq> d 768" "x \<noteq> d 1023" using that by auto
    ultimately show ?thesis by (simp add: s2_def)
  qed
  obtain p where p: "create_pte 256 0x101000 (of_nat 0) 7 s2 = s2\<lparr>pmem := p\<rparr>"
    "\<forall>i. 0 \<le> i \<and> i < 0 + 256 \<longrightarrow> p (t i) = 7 + of_nat (i - 0) * 0x1000"
    "\<forall>x. (\<forall>i. 0 \<le> i \<and> i < 0 + 256 \<longrightarrow> x \<noteq> t i) \<longrightarrow> p x = pmem s2 x"
    unfolding t_def using create_pte_run [OF fr(2), of 0 256 7 s2] by auto
  obtain r where r: "create_pte 254 0x100000 (of_nat 769) 0x102007 (s2\<lparr>pmem := p\<rparr>) = s2\<lparr>pmem := r\<rparr>"
    "\<forall>i. 769 \<le> i \<and> i < 769 + 254 \<longrightarrow> r (d i) = 0x102007 + of_nat (i - 769) * 0x1000"
    "\<forall>x. (\<forall>i. 769 \<le> i \<and> i < 769 + 254 \<longrightarrow> x \<noteq> d i) \<longrightarrow> r x = p x"
    unfolding d_def using create_pte_run [OF fr(1), of 769 254 "0x102007" "s2\<lparr>pmem := p\<rparr>"] by auto
  have "d 0 = 0x100000" "d 768 = 0x100c00" "d 1023 = 0x100ffc" by (simp_all add: d_def)
  then have run: "setup_page s = s\<lparr>pmem := r\<rparr>"
    using p(1) r(1) by (simp add: setup_page_def PAGE_DIR_TABLE_POS_def s1 pg_flags create_kernel_pde_eq s2_def pwr_def clear_words_def)
  have rp: "r x = p x" if "\<forall>i<1024. x \<noteq> d i" for x using r(3) that by simp
  have "r (d i) = boot_pde i" if i: "i < 1024" for i
  proof (cases "769 \<le> i \<and> i < 1023")
    case True
    then have "i - 511 = i - 769 + 258" by simp
    then have "(of_nat (i - 511) :: u32) = of_nat (i - 769) + 258" by (simp only: of_nat_add of_nat_numeral)
    then show ?thesis using r(2) True by (simp add: boot_pde_def)
  next
    case False
    then have "\<forall>j. 769 \<le> j \<and> j < 769 + 254 \<longrightarrow> d i \<noteq> d j" using dd [OF i] by auto
    then have "r (d i) = p (d i)" using r(3) by blast
    also have "\<dots> = pmem s2 (d i)" using p(3) DT [OF i] by simp
    finally show ?thesis using False i by (auto simp: s2 boot_pde_def)
  qed
  moreover have "r (t i) = of_nat i * 0x1000 + 7" if "i < 256" for i
  proof -
    have "r (t i) = p (t i)" by (rule rp) (use DT [of _ i] that in \<open>auto simp: eq_commute\<close>)
    then show ?thesis using p(2) that by simp
  qed
  moreover have "r x = pmem s x" if x: "\<forall>i<1024. x \<noteq> d i" "\<forall>i<256. x \<noteq> t i" for x
    using rp [OF x(1)] p(3) x(2) s2' [OF x(1)] by simp
  ultimately show ?thesis using run unfolding d_def t_def by blast
qed

lemma page_entry:
  assumes "k < 1048576"
  shows "frame_of (of_nat k * 0x1000 + 7) = of_nat k * 0x1000" "present (of_nat k * 0x1000 + 7)" "frame_of (of_nat k * 0x1000) = of_nat k * 0x1000"
    "unat (of_nat k * 0x1000 :: u32) = k * 4096"
proof -
  have "unat (of_nat k :: u32) = k" using assms by (intro unat_of_nat_lt) simp
  then show u: "unat (of_nat k * 0x1000 :: u32) = k * 4096" using assms by (subst unat_word_ariths(2)) simp
  then have "unat (of_nat k * 0x1000 + 7 :: u32) = k * 4096 + 7" using assms by (subst unat_add_lt) simp_all
  then show "frame_of (of_nat k * 0x1000 + 7) = of_nat k * 0x1000" by (intro unat_eqI) (simp add: unat_frame_of u)
  show "frame_of (of_nat k * 0x1000) = of_nat k * 0x1000" by (simp add: frame_of_eq u)
  have "odd (of_nat k * 0x1000 + 7 :: u32)" by simp
  then show "present (of_nat k * 0x1000 + 7)" unfolding present_def and_one_eq odd_iff_mod_2_eq_one by (simp only:) simp
qed


section \<open>The first address space\<close>

text \<open>The tables as the loader leaves them when the memory it did not write was zero.\<close>

definition boot_tables :: "'z pgmachine_scheme \<Rightarrow> bool" where
  "boot_tables s = (frame_of (cr3 s) = 0x100000 \<and> (\<forall>i<1024. pmem s (0x100000 + of_nat i * 4) = boot_pde i) \<and>
     (\<forall>i<256. pmem s (0x101000 + of_nat i * 4) = of_nat i * 0x1000 + 7) \<and>
     (\<forall>k i. 257 \<le> k \<and> k < 512 \<and> i < 1024 \<and> (k = 257 \<longrightarrow> 256 \<le> i) \<longrightarrow> pmem s (of_nat k * 0x1000 + of_nat i * 4) = 0))"

lemma boot_tablesD:
  assumes "boot_tables s"
  shows "frame_of (cr3 s) = 0x100000" "i < 1024 \<Longrightarrow> pmem s (0x100000 + of_nat i * 4) = boot_pde i"
    "i < 256 \<Longrightarrow> pmem s (0x101000 + of_nat i * 4) = of_nat i * 0x1000 + 7"
    "257 \<le> k \<Longrightarrow> k < 512 \<Longrightarrow> i < 1024 \<Longrightarrow> (k = 257 \<Longrightarrow> 256 \<le> i) \<Longrightarrow> pmem s (of_nat k * 0x1000 + of_nat i * 4) = 0"
  using assms by (auto simp: boot_tables_def)

text \<open>\<open>setup_page\<close> clears the directory only, so this needs the tables to have been zero before.\<close>

lemma setup_page_tables:
  assumes "\<forall>k i. 257 \<le> k \<and> k < 512 \<and> i < 1024 \<longrightarrow> pmem s (of_nat k * 0x1000 + of_nat i * 4) = 0"
  shows "boot_tables (enter_paging PAGE_DIR_TABLE_POS (setup_page s))"
proof -
  obtain p where p: "setup_page s = s\<lparr>pmem := p\<rparr>" "\<forall>i<1024. p (0x100000 + of_nat i * 4) = boot_pde i"
    "\<forall>i<256. p (0x101000 + of_nat i * 4) = of_nat i * 0x1000 + 7"
    "\<forall>x. (\<forall>i<1024. x \<noteq> 0x100000 + of_nat i * 4) \<and> (\<forall>i<256. x \<noteq> 0x101000 + of_nat i * 4) \<longrightarrow> p x = pmem s x"
    using setup_page_run [of s] by blast
  have "p (of_nat k * 0x1000 + of_nat i * 4) = 0" if k: "257 \<le> k" "k < 512" "i < 1024" "k = 257 \<longrightarrow> 256 \<le> i" for k i
  proof -
    have ne: "of_nat k * 0x1000 + of_nat i * 4 = (of_nat j * 0x1000 + of_nat l * 4 :: addr) \<longleftrightarrow> k = j \<and> i = l" if "j < 512" "l < 1024" for j l
    proof -
      have "of_nat k * 0x1000 = (of_nat j * 0x1000 :: addr) \<longleftrightarrow> k = j"
        unfolding word_unat_eq_iff using page_entry(4) [of k] page_entry(4) [of j] that(1) k(2) by simp
      then show ?thesis using table_words_eq [of "of_nat k * 0x1000" "of_nat j * 0x1000" i l] page_entry(3) [of k] page_entry(3) [of j] that k by simp
    qed
    have "of_nat k * 0x1000 + of_nat i * 4 \<noteq> (0x100000 :: addr) + of_nat l * 4" if "l < 1024" for l
      using ne [of 256 l] k that by simp
    moreover have "of_nat k * 0x1000 + of_nat i * 4 \<noteq> (0x101000 :: addr) + of_nat l * 4" if "l < 256" for l
      using ne [of 257 l] k that by auto
    ultimately show ?thesis using p(4) assms k by simp
  qed
  then show ?thesis using p(1-3) by (simp add: boot_tables_def enter_paging_def PAGE_DIR_TABLE_POS_def frame_of_def)
qed

definition boot_table :: "nat \<Rightarrow> nat option" where
  "boot_table i = (if i = 0 then Some 257 else if 768 \<le> i then Some (i - 511) else None)"

lemma lower_index:
  assumes "lower va"
  shows "unat (PDE_IDX va) < 1023"
proof -
  have "unat (PDE_IDX va) \<noteq> 1023"
  proof
    assume "unat (PDE_IDX va) = 1023"
    then have "PDE_IDX va = 1023" by (intro unat_eqI) simp
    then show False using assms by (simp add: lower_def)
  qed
  then show ?thesis using PDE_IDX_lt [of va] by simp
qed

lemma boot_tables_table:
  assumes "boot_tables s" "lower va"
  shows "table_of s va = map_option (\<lambda>k. of_nat k * 0x1000) (boot_table (unat (PDE_IDX va)))"
proof -
  define i where "i = unat (PDE_IDX va)"
  have i: "i < 1023" unfolding i_def by (rule lower_index [OF assms(2)])
  have "pmem s (0x100000 + of_nat i * 4) = boot_pde i" by (rule boot_tablesD(2) [OF assms(1)]) (use i in simp)
  then have "pmem s (pde_pa s va) = boot_pde i" using assms(1) by (simp add: pde_pa_def boot_tables_def i_def)
  moreover have lt: "i - 511 < 1048576" using i by simp
  ultimately show ?thesis
    using page_entry(1,2) [of 257] page_entry(1,2) [OF lt] i
    unfolding i_def [symmetric] by (auto simp: table_of_def boot_pde_def boot_table_def present_def)
qed

text \<open>The first megabyte is mapped twice, and nothing else is.\<close>

lemma boot_tables_walk:
  assumes "boot_tables s" "lower va"
  shows "page_walk s va = (if unat va < 0x100000 then Some va
     else if 0xc0000000 \<le> unat va \<and> unat va < 0xc0100000 then Some (va - 0xc0000000) else None)"
proof -
  let ?d = "unat (PDE_IDX va)" and ?t = "unat (PTE_IDX va)"
  have d: "?d = unat va div 4194304" and t: "?t = unat va div 4096 mod 1024" by (simp_all add: unat_PDE_IDX unat_PTE_IDX)
  have lt: "?t < 1024" by (rule PTE_IDX_lt)
  note dl = lower_index [OF assms(2)]
  note T = boot_tables_table [OF assms]
  have w: "page_walk s va = (case boot_table ?d of None \<Rightarrow> None
     | Some k \<Rightarrow> if present (pmem s (of_nat k * 0x1000 + of_nat ?t * 4)) then Some (frame_of (pmem s (of_nat k * 0x1000 + of_nat ?t * 4)) + (va AND 0x00000fff)) else None)"
    by (simp add: walk_slot slot_def T split: option.split)
  have lo: "pmem s (of_nat 257 * 0x1000 + of_nat ?t * 4) = (if ?t < 256 then of_nat ?t * 0x1000 + 7 else 0)"
    using boot_tablesD(3) [OF assms(1), of ?t] boot_tablesD(4) [OF assms(1), of 257 ?t] lt by (cases "?t < 256") simp_all
  have hi: "pmem s (of_nat k * 0x1000 + of_nat ?t * 4) = 0" if "258 \<le> k" "k < 512" for k
    by (rule boot_tablesD(4) [OF assms(1)]) (use lt that in simp_all)
  define r where "r = unat va mod 4096"
  have n: "unat va = ?d * 4194304 + ?t * 4096 + r" "r < 4096"
  proof -
    have "unat va div 4096 = ?d * 1024 + ?t" using div_mult_mod_eq [of "unat va div 4096" 1024] by (simp add: d t div_mult2_eq [symmetric])
    then show "unat va = ?d * 4194304 + ?t * 4096 + r" using div_mult_mod_eq [of "unat va" 4096] by (simp add: r_def algebra_simps)
  qed (simp add: r_def)
  have off: "unat (of_nat ?t * 0x1000 + (va AND 0x00000fff)) = ?t * 4096 + r" if "?t < 256"
    using page_entry(4) [of ?t] that n(2) by (subst unat_add_lt) (simp_all add: unat_offset r_def)
  consider (low) "?d = 0" "?t < 256" | (high) "?d = 768" "?t < 256" | (none) "?d \<noteq> 0 \<and> ?d \<noteq> 768 \<or> \<not> ?t < 256" by blast
  then show ?thesis
  proof cases
    case low
    then have "of_nat ?t * 0x1000 + (va AND 0x00000fff) = va" using n off by (intro unat_eqI) simp
    then show ?thesis using low n page_entry(1,2) [of ?t] lo by (simp add: w boot_table_def)
  next
    case high
    then have va: "unat va = 0xc0000000 + (?t * 4096 + r)" using n by simp
    then have "of_nat ?t * 0x1000 + (va AND 0x00000fff) = va - 0xc0000000"
      using off high(2) by (intro unat_eqI) (simp add: unat_sub word_le_nat_alt)
    moreover have "\<not> unat va < 0x100000" "0xc0000000 \<le> unat va" "unat va < 0xc0100000" using va high(2) n(2) by simp_all
    ultimately show ?thesis using high page_entry(1,2) [of ?t] lo by (simp add: w boot_table_def)
  next
    case none
    have "page_walk s va = None"
    proof (cases "boot_table ?d")
      case (Some k)
      then have "k = 257 \<and> \<not> ?t < 256 \<or> 258 \<le> k \<and> k < 512" using none dl by (auto simp: boot_table_def split: if_splits)
      then have "pmem s (of_nat k * 0x1000 + of_nat ?t * 4) = 0" using lo hi by auto
      then show ?thesis by (simp add: w Some present_def)
    qed (simp add: w)
    moreover have "\<not> unat va < 0x100000" "\<not> (0xc0000000 \<le> unat va \<and> unat va < 0xc0100000)" 
    proof -
      have "?d \<le> 767 \<or> ?d = 768 \<or> 769 \<le> ?d" by arith
      then show "\<not> unat va < 0x100000" "\<not> (0xc0000000 \<le> unat va \<and> unat va < 0xc0100000)" using none n lt by linarith+
    qed
    ultimately show ?thesis by simp
  qed
qed

end
