(* ===== verification/Page_Fill.thy ===== *)
theory Page_Fill
  imports Mem_Props
begin

text \<open>
  Filling the memory behind a mapped page.  A frame that is neither the page directory nor a page table
  can be written without changing any translation; \<open>memset\<close> on a page writes exactly its frame.
\<close>

section \<open>Writes into a data frame\<close>

definition words :: "addr \<Rightarrow> addr set" where
  "words F = (\<lambda>i. F + of_nat i * 4) ` {0..<0 + 1024}"

lemma words_iff: "frame_of B = B \<Longrightarrow> frame_of F = F \<Longrightarrow> unat x < 1024 \<Longrightarrow> B + x * 4 \<in> words F \<longleftrightarrow> B = F"
  unfolding words_def by (rule in_table_words)

text \<open>Frames that are neither the directory nor page tables can be written without changing a mapping.\<close>

lemma data_frames_write:
  fixes s :: "'z pgmachine_scheme" and s' :: "'y pgmachine_scheme"
  assumes sm: "selfmap s" and F: "\<And>F. F \<in> Fs \<Longrightarrow> frame_of F = F \<and> F \<notin> tables s \<and> F \<noteq> frame_of (cr3 s)"
    and s': "cr3 s' = cr3 s" "\<And>x. x \<notin> (\<Union>F\<in>Fs. words F) \<Longrightarrow> pmem s' x = pmem s x"
  shows "page_walk s' va = page_walk s va" "table_of s' va = table_of s va" "selfmap s'" "tables s' = tables s"
proof -
  have dir: "pmem s' (frame_of (cr3 s) + x * 4) = pmem s (frame_of (cr3 s) + x * 4)" if "unat x < 1024" for x
    by (rule s'(2)) (use words_iff [OF frame_of_idem [of "cr3 s"] _ that] F in blast)
  have tab: "table_of s' v = table_of s v" for v
    using dir [OF PDE_IDX_lt] by (simp add: table_of_def pde_pa_def s'(1))
  have T: "T \<notin> Fs" if "table_of s v = Some T" for v T
  proof (cases "lower v")
    case True
    then show ?thesis using F that by (auto simp: tables_def)
  next
    case False
    then have "T = frame_of (cr3 s)" using sm that by (auto simp: lower_def selfmap_def table_of_def pde_pa_def split: if_splits)
    then show ?thesis using F by blast
  qed
  have pte: "pmem s' a = pmem s a" if "slot s v = Some a" for v a
  proof -
    obtain X where X: "table_of s v = Some X" "a = X + PTE_IDX v * 4" using \<open>slot s v = Some a\<close> by (auto simp: slot_def)
    have "a \<notin> words F" if "F \<in> Fs" for F
      using words_iff [OF table_of_frame [OF X(1)] _ PTE_IDX_lt, of F v] F [OF that] T [OF X(1)] that X(2) by auto
    then show ?thesis by (intro s'(2)) blast
  qed
  have sl: "slot s' va = slot s va" by (simp add: slot_def tab)
  show "page_walk s' va = page_walk s va"
    unfolding walk_slot sl using pte [of va] by (simp split: option.split)
  show "table_of s' va = table_of s va" by (rule tab)
  show "selfmap s'" using sm dir [of 1023] by (simp add: selfmap_def s'(1))
  show "tables s' = tables s" by (simp add: tables_def tab)
qed

lemma data_frame_write:
  fixes s :: "'z pgmachine_scheme" and s' :: "'y pgmachine_scheme"
  assumes sm: "selfmap s" and F: "frame_of F = F" "F \<notin> tables s" "F \<noteq> frame_of (cr3 s)"
    and s': "cr3 s' = cr3 s" "\<And>x. x \<notin> words F \<Longrightarrow> pmem s' x = pmem s x"
  shows "page_walk s' va = page_walk s va" "table_of s' va = table_of s va" "selfmap s'" "tables s' = tables s"
  using data_frames_write [OF sm, of "{F}" s'] assms by auto

section \<open>Addresses inside a page\<close>

lemma in_page:
  assumes "frame_of d = d" "i < 4096"
  shows "PDE_IDX (d + of_nat i) = PDE_IDX d" "PTE_IDX (d + of_nat i) = PTE_IDX d" "(d + of_nat i) AND 0x00000fff = of_nat i"
proof -
  obtain b where b: "unat d = b * 4096" using frame_multiple [OF assms(1)] .
  have "b < 1048576" using unat_u32(3) [of d] b by simp
  then have u: "unat (d + of_nat i) = b * 4096 + i"
    using b assms(2) by (subst unat_add_lt) (simp_all add: unat_of_nat_lt)
  have q: "(b * 4096 + i) div 4096 = b" "(b * 4096 + i) mod 4096 = i" using assms(2) by simp_all
  have q2: "(b * 4096 + i) div 4194304 = b * 4096 div 4194304"
  proof -
    have "(b * 4096 + i) div (4096 * 1024) = b div 1024" "b * 4096 div (4096 * 1024) = b div 1024"
      unfolding div_mult2_eq q by simp_all
    then show ?thesis by simp
  qed
  show "PDE_IDX (d + of_nat i) = PDE_IDX d" by (rule unat_eqI) (simp add: unat_PDE_IDX u b q2)
  show "PTE_IDX (d + of_nat i) = PTE_IDX d" by (rule unat_eqI) (simp add: unat_PTE_IDX u b q)
  show "(d + of_nat i) AND 0x00000fff = of_nat i"
    by (rule unat_eqI) (use assms(2) in \<open>simp add: unat_offset u q unat_of_nat_lt\<close>)
qed

lemma walk_in_page:
  assumes "page_walk s d = Some F" "frame_of d = d" "i < 4096"
  shows "page_walk s (d + of_nat i) = Some (F + of_nat i)"
proof -
  have "d AND 0x00000fff = 0" using assms(2) by (rule offset_0)
  then show ?thesis using assms(1) in_page [OF assms(2,3)] by (auto simp: page_walk_def Let_def split: if_splits)
qed

lemma walk_word: "page_walk s d = Some F \<Longrightarrow> frame_of d = d \<Longrightarrow> i < 1024 \<Longrightarrow>
    page_walk s (d + of_nat i * 4) = Some (F + of_nat i * 4)"
  using walk_in_page [of s d F "i * 4"] by (simp only: of_nat_mult of_nat_numeral)

lemma word_inj:
  assumes "frame_of F = F" "i < 1024" "j < 1024" "F + of_nat i * 4 = F + of_nat j * 4"
  shows "i = j"
proof -
  have u: "unat (of_nat i :: u32) = i" "unat (of_nat j :: u32) = j" using assms(2,3) by (simp_all add: unat_of_nat_lt)
  have "unat (of_nat i :: u32) < 1024" "unat (of_nat j :: u32) < 1024" unfolding u by (rule assms(2,3))+
  then have "(of_nat i :: u32) = of_nat j" using slot_eq [OF assms(1,1)] assms(4) by blast
  then have "unat (of_nat i :: u32) = unat (of_nat j :: u32)" by (rule arg_cong)
  then show ?thesis unfolding u .
qed

section \<open>Filling a frame\<close>

text \<open>\<open>s'\<close> differs from \<open>s\<close> in the memory of one frame only; its words at the indices of \<open>I\<close> are \<open>w\<close>.\<close>

definition filled :: "'z pgmachine_scheme \<Rightarrow> 'z pgmachine_scheme \<Rightarrow> addr \<Rightarrow> nat set \<Rightarrow> (nat \<Rightarrow> u32) \<Rightarrow> bool" where
  "filled s s' F I w = (\<exists>m b p. s' = s\<lparr>mem := m, bytes := b, pmem := p\<rparr> \<and> (\<forall>x. x \<notin> words F \<longrightarrow> p x = pmem s x) \<and>
     (\<forall>i<1024. p (F + of_nat i * 4) = (if i \<in> I then w i else pmem s (F + of_nat i * 4))))"

lemma filled_sel:
  assumes "filled s s' F I w"
  shows "cr3 s' = cr3 s" "x \<notin> words F \<Longrightarrow> pmem s' x = pmem s x"
    "i < 1024 \<Longrightarrow> pmem s' (F + of_nat i * 4) = (if i \<in> I then w i else pmem s (F + of_nat i * 4))"
  using assms by (auto simp: filled_def)

lemma filled_trans:
  assumes "filled s s1 F I w" "filled s1 s2 F J v"
  shows "filled s s2 F (I \<union> J) (\<lambda>i. if i \<in> J then v i else w i)"
proof -
  obtain m b p where 1: "s1 = s\<lparr>mem := m, bytes := b, pmem := p\<rparr>" using assms(1) by (auto simp: filled_def)
  obtain m' b' p' where 2: "s2 = s1\<lparr>mem := m', bytes := b', pmem := p'\<rparr>" using assms(2) by (auto simp: filled_def)
  have "s2 = s\<lparr>mem := m', bytes := b', pmem := p'\<rparr>" using 1 2 by simp
  moreover have "p' x = pmem s x" if "x \<notin> words F" for x
    using filled_sel(2) [OF assms(1) that] filled_sel(2) [OF assms(2) that] 2 by simp
  moreover have "p' (F + of_nat i * 4) = (if i \<in> I \<union> J then (if i \<in> J then v i else w i) else pmem s (F + of_nat i * 4))"
    if "i < 1024" for i
    using filled_sel(3) [OF assms(1) that] filled_sel(3) [OF assms(2) that] 2 by simp
  ultimately show ?thesis unfolding filled_def by blast
qed

lemma filled_pwr:
  assumes "frame_of F = F" "k < 1024"
  shows "filled s (pwr (F + of_nat k * 4) v s) F {k} (\<lambda>_. v)"
proof -
  have "F + of_nat k * 4 \<in> words F" using assms(2) by (auto simp: words_def)
  moreover have "F + of_nat i * 4 = F + of_nat k * 4 \<longleftrightarrow> i = k" if "i < 1024" for i
    using word_inj [OF assms(1) that assms(2)] by blast
  moreover have "pwr (F + of_nat k * 4) v s = s\<lparr>mem := mem s, bytes := bytes s, pmem := (pmem s)(F + of_nat k * 4 := v)\<rparr>"
    by (simp add: pwr_def)
  ultimately show ?thesis unfolding filled_def
    by (intro exI [of _ "mem s"] exI [of _ "bytes s"] exI [of _ "(pmem s)(F + of_nat k * 4 := v)"]) auto
qed

lemma filled_walk:
  fixes s :: "'z pgmachine_scheme"
  assumes "selfmap s" "frame_of F = F" "F \<notin> tables s" "F \<noteq> frame_of (cr3 s)" "filled s s' F I w"
  shows "page_walk s' va = page_walk s va" "table_of s' va = table_of s va" "selfmap s'" "tables s' = tables s"
  using data_frame_write [OF assms(1-4), of s'] filled_sel(1,2) [OF assms(5)] by blast+

lemma fill_words_frame:
  assumes "page_walk s d = Some F" "frame_of d = d" "frame_of F = F" "n \<le> 1024"
  shows "(\<forall>x. x \<notin> words F \<longrightarrow> fill_words s d w n x = pmem s x) \<and>
    (\<forall>i<1024. fill_words s d w n (F + of_nat i * 4) = (if i < n then w else pmem s (F + of_nat i * 4)))"
  using assms(4)
proof (induction n)
  case (Suc n)
  have wk: "page_walk s (d + of_nat (n * 4)) = Some (F + of_nat n * 4)"
    using walk_word [OF assms(1,2), of n] Suc.prems by simp
  have "F + of_nat n * 4 \<in> words F" using Suc.prems by (auto simp: words_def)
  moreover have "F + of_nat i * 4 = F + of_nat n * 4 \<longleftrightarrow> i = n" if "i < 1024" for i
    using word_inj [OF assms(3) that, of n] Suc.prems by auto
  ultimately show ?case using Suc wk by (auto simp: less_Suc_eq)
qed simp

lemma memset_page:
  fixes s :: "'z pgmachine_scheme"
  assumes "page_walk s d = Some F" "frame_of d = d" "frame_of F = F" "d \<noteq> NULL"
  shows "\<exists>s'. memset_mem d 0 4096 s = Inr s' \<and> filled s s' F {..<1024} (\<lambda>_. 0) \<and>
    mem s' = (\<lambda>x. if in_block d 4096 x then 0 else mem s x) \<and> bytes s' = (\<lambda>x. if in_block d 4096 x then 0 else bytes s x)"
proof -
  have t: "touched d 4096 = [d, d + 4095]" by (simp add: touched_def)
  have "page_walk s (d + 4095) = Some (F + 4095)" using walk_in_page [OF assms(1,2), of 4095] by simp
  then have "memset_mem d 0 4096 s = Inr (s\<lparr>mem := (\<lambda>x. if in_block d 4096 x then ucast (0 :: u8) * 0x01010101 else mem s x),
      bytes := (\<lambda>x. if in_block d 4096 x then 0 else bytes s x), pmem := fill_words s d 0 1024\<rparr>)"
    using assms(1,4) by (simp add: memset_mem_def t)
  moreover have "filled s (s\<lparr>mem := (\<lambda>x. if in_block d 4096 x then ucast (0 :: u8) * 0x01010101 else mem s x),
      bytes := (\<lambda>x. if in_block d 4096 x then 0 else bytes s x), pmem := fill_words s d 0 1024\<rparr>) F {..<1024} (\<lambda>_. 0)"
    unfolding filled_def using fill_words_frame [OF assms(1-3), of 1024 0]
    by (intro exI conjI) (rule refl, blast, simp)
  ultimately show ?thesis by (intro exI conjI) (assumption, assumption, simp_all add: fun_eq_iff)
qed

section \<open>A page of the kernel heap\<close>

lemma kernel_page:
  fixes s :: "'z kmem_scheme"
  assumes inv: "mm_inv s" and va: "vspace_ok s (kernel_vaddr s)" and j: "j < vbits (kernel_vaddr s)"
    "\<not> used s (vaddr_bitmap (kernel_vaddr s)) j" and rm: "2 \<le> card (free_frames s (kernel_pool s))"
  shows "\<exists>d F s1. malloc_pages PF_KERNEL 1 s = Inr (d, s1) \<and> mm_inv s1 \<and> page_walk s1 d = Some F \<and> frame_of d = d \<and>
    d \<noteq> NULL \<and> lower d \<and> frame_of F = F \<and> F \<notin> tables s1 \<and> F \<noteq> frame_of (cr3 s1) \<and> pt_frame s s1 \<and>
    F \<in> free_frames s (kernel_pool s) \<and> page_walk s d = None \<and> unat (vaddr_start (kernel_vaddr s)) \<le> unat d \<and> (\<forall>v. lower v \<and> slot s1 v \<noteq> slot s1 d \<longrightarrow> page_walk s1 v = page_walk s v)"
proof -
  let ?va = "kernel_vaddr s"
  have vs: "vspace PF_KERNEL s = ?va" by (simp add: vspace_def)
  have fr: "free_run s (vaddr_bitmap ?va) (unat (1 :: u32)) j" using j(2) by (auto simp: free_run_def le_less_Suc_eq)
  have "\<exists>k s'. k + unat (1 :: u32) \<le> vbits (vspace PF_KERNEL s) \<and>
      malloc_pages PF_KERNEL 1 s = Inr (vpage (vspace PF_KERNEL s) k, s') \<and> mm_inv s' \<and> vspace_ok s' (vspace PF_KERNEL s) \<and>
      alloc_run s s' (vspace PF_KERNEL s) k (unat (1 :: u32)) (free_frames s (pool_of PF_KERNEL s))"
    by (rule malloc_pages_run [OF inv, of PF_KERNEL 1 j]) (use va j fr rm in \<open>simp_all add: vs room_def\<close>)
  then obtain k s1 where k: "k < vbits ?va" and m: "malloc_pages PF_KERNEL 1 s = Inr (vpage ?va k, s1)" "mm_inv s1"
    and ar: "alloc_run s s1 ?va k 1 (free_frames s (kernel_pool s))" unfolding vs by (auto simp: pool_of_def Suc_le_eq)
  note V = vspace_page [OF va k]
  obtain F where F: "F \<in> free_frames s (kernel_pool s)" "page_walk s1 (vpage ?va k) = Some F"
    using ar by (auto simp: alloc_run_def)
  have fF: "frame_of F = F"
    using inv F(1) free_frames_pool pool_frame_of(1) [of "kernel_pool s" F] by (auto simp: mm_inv_def pools_ok_def)
  have "F \<in> data s1" using F(2) V(4) fF by (auto simp: data_def)
  then have "F \<notin> tables s1" "F \<noteq> frame_of (cr3 s1)" using m(2) by (auto simp: mm_inv_def)
  moreover have "page_walk s1 v = page_walk s v" if "lower v" "slot s1 v \<noteq> slot s1 (vpage ?va k)" for v
    using ar that by (auto simp: alloc_run_def less_Suc_eq_le)
  moreover have "page_walk s (vpage ?va k) = None" "pt_frame s s1" using ar by (simp_all add: alloc_run_def)
  moreover have "unat (vaddr_start ?va) \<le> unat (vpage ?va k)" using V(1) by simp
  ultimately show ?thesis using m F fF V(2-4) by blast
qed

section \<open>Writing part of a page\<close>

lemma fill_words_off:
  assumes "\<And>i. i < n \<Longrightarrow> page_walk s (dst + of_nat (i * 4)) \<in> Some ` words F" "x \<notin> words F"
  shows "fill_words s dst w n x = pmem s x"
  using assms(1)
proof (induction n)
  case (Suc n)
  obtain pa where "page_walk s (dst + of_nat (n * 4)) = Some pa" "pa \<in> words F" using Suc.prems [of n] by auto
  moreover have "fill_words s dst w n x = pmem s x" using Suc by simp
  ultimately show ?case using assms(2) by auto
qed simp

text \<open>The parts of the state the memory invariants look at.\<close>

lemma walk_cong:
  assumes "pmem s' = pmem s" "cr3 s' = cr3 s"
  shows "page_walk s' va = page_walk s va" "table_of s' va = table_of s va" "slot s' va = slot s va" "selfmap s' = selfmap s"
    "tables s' = tables s" "data s' = data s"
proof -
  show w: "page_walk s' va = page_walk s va" for va unfolding page_walk_def assms ..
  show t: "table_of s' va = table_of s va" for va by (simp add: table_of_def pde_pa_def assms)
  show "slot s' va = slot s va" by (simp add: slot_def t)
  show "selfmap s' = selfmap s" by (simp add: selfmap_def assms)
  show "tables s' = tables s" "data s' = data s" by (simp_all add: tables_def data_def w t)
qed

lemma used_cong: "bytes s' = bytes s \<Longrightarrow> used s' b i = used s b i"
  by (simp add: used_def)

lemma free_frames_cong: "bytes s' = bytes s \<Longrightarrow> free_frames s' p = free_frames s p"
  by (simp add: free_frames_def bm.free_slots_def used_def)

lemma mm_inv_cong:
  fixes s s' :: "'z kmem_scheme"
  assumes "pmem s' = pmem s" "cr3 s' = cr3 s" "bytes s' = bytes s" "kernel_pool s' = kernel_pool s" "user_pool s' = user_pool s"
  shows "mm_inv s' = mm_inv s"
proof -
  note w = walk_cong [OF assms(1,2)] and f = free_frames_cong [OF assms(3)]
  have "spare s' = spare s" "pools s' = pools s" "pools_ok s' = pools_ok s"
    by (simp_all add: spare_def pools_def pools_ok_def f assms(4,5))
  moreover have "one_slot s' = one_slot s" by (simp add: one_slot_def w \<open>pools s' = pools s\<close>)
  ultimately show ?thesis by (simp add: mm_inv_def w assms(2))
qed

lemma vspace_ok_cong:
  fixes s s' :: "'z kmem_scheme"
  assumes "pmem s' = pmem s" "cr3 s' = cr3 s" "bytes s' = bytes s" "kernel_pool s' = kernel_pool s" "user_pool s' = user_pool s"
  shows "vspace_ok s' va = vspace_ok s va"
  using walk_cong [OF assms(1,2)] used_cong [OF assms(3)] assms(4,5) by (simp add: vspace_ok_def apart_def)

end
