(* ===== verification/Lock_Facts.thy ===== *)
theory Lock_Facts
  imports Sync
begin

text \<open>
  A free lock, taken and given back straight through, and the console, which is guarded by one: printing while
  nobody holds the console only adds to what has been printed.
\<close>

section \<open>A free lock\<close>

definition locked :: "addr \<Rightarrow> 'z kernel_scheme \<Rightarrow> 'z kernel_scheme" where
  "locked l s = s\<lparr>sema_value := (sema_value s)(l + 4 := 0), lock_holder := (lock_holder s)(l := running_thread s),
     lock_repeat := (lock_repeat s)(l := 1)\<rparr>"

lemma lock_acquire_free:
  assumes "sema_value s (l + 4) = 1" "lock_holder s l \<noteq> running_thread s" "lock_repeat s l = 0"
  shows "lock_acquire_now l s = Inr (locked l s)"
  using assms by (simp add: lock_acquire_now_def lock_acquire_enter_def sema_down_now_def sema_take_def
      lock_acquire_tail_def lock_semaphore_def intr_norm set_value_def set_lock_def locked_def running_thread_def Let_def)

text \<open>The head of the waiters' list of the lock \<open>l\<close> is at \<open>l + 8\<close>.\<close>

lemma lock_release_free:
  assumes "sema_value s (l + 4) = 0" "lock_holder s l = running_thread s" "lock_repeat s l = 1" "mem s (l + 12) = l + 16"
  shows "lock_release l s = Inr (s\<lparr>lock_holder := (lock_holder s)(l := NULL), lock_repeat := (lock_repeat s)(l := 0),
      sema_value := (sema_value s)(l + 4 := 1)\<rparr>)"
  using assms by (simp add: lock_release_def lock_release_enter_def sema_up_def sema_wake_def list_empty_def waiters_def
      lock_semaphore_def list_head_def list_tail_def le_next_def intr_norm set_value_def set_lock_def Let_def add.assoc)

definition unlocked :: "addr \<Rightarrow> 'z kernel_scheme \<Rightarrow> 'z kernel_scheme" where
  "unlocked l s = s\<lparr>lock_holder := (lock_holder s)(l := NULL), lock_repeat := (lock_repeat s)(l := 0),
      sema_value := (sema_value s)(l + 4 := 1)\<rparr>"

definition held :: "addr \<Rightarrow> 'z kernel_scheme \<Rightarrow> bool" where
  "held l s = (sema_value s (l + 4) = 0 \<and> lock_holder s l = running_thread s \<and> lock_repeat s l = 1 \<and> mem s (l + 12) = l + 16)"

lemma unlocked_locked:
  fixes s :: "'z kernel_scheme"
  assumes "sema_value s (l + 4) = 1" "lock_holder s l = NULL" "lock_repeat s l = 0"
  shows "unlocked l (locked l s) = s"
proof -
  have "(sema_value s)(l + 4 := 1) = sema_value s" "(lock_holder s)(l := NULL) = lock_holder s" "(lock_repeat s)(l := 0) = lock_repeat s"
    using assms by auto
  then show ?thesis by (cases s) (simp add: unlocked_def locked_def)
qed

section \<open>Free locks\<close>

text \<open>The lock \<open>l\<close> is free and nobody waits for it.\<close>

definition free_lock :: "addr \<Rightarrow> 'z kernel_scheme \<Rightarrow> bool" where
  "free_lock l s = (sema_value s (l + 4) = 1 \<and> lock_holder s l = NULL \<and> lock_repeat s l = 0 \<and> mem s (l + 12) = l + 16)"

lemma lock_acquire_free_lock:
  assumes "free_lock l s" "running_thread s \<noteq> NULL"
  shows "lock_acquire_now l s = Inr (locked l s)" "held l (locked l s)"
proof -
  show "lock_acquire_now l s = Inr (locked l s)" by (rule lock_acquire_free) (use assms in \<open>auto simp: free_lock_def\<close>)
  show "held l (locked l s)" using assms by (simp add: free_lock_def held_def locked_def running_thread_def)
qed

lemma lock_release_held: "held l s \<Longrightarrow> lock_release l s = Inr (unlocked l s)"
  unfolding unlocked_def by (rule lock_release_free) (simp_all add: held_def)

lemma free_unlocked: "held l s \<Longrightarrow> free_lock l (unlocked l s)"
  by (simp add: held_def free_lock_def unlocked_def)

lemma list_init_eq:
  "list_init p s = s\<lparr>mem := (mem s)(p := NULL, p + 4 := p + 8, p + 8 := p, p + 12 := NULL)\<rparr>"
  by (rule machine.equality) (simp_all add: list_init_mem)

lemma lock_init_eq:
  "lock_init l s = s\<lparr>mem := (mem s)(l + 8 := NULL, l + 12 := l + 16, l + 16 := l + 8, l + 20 := NULL),
     sema_value := (sema_value s)(l + 4 := 1), lock_holder := (lock_holder s)(l := NULL), lock_repeat := (lock_repeat s)(l := 0)\<rparr>"
  by (simp add: lock_init_def sema_init_def list_init_eq set_value_def set_lock_def lock_semaphore_def waiters_def add.assoc)

lemma lock_init_free: "free_lock l (lock_init l s)"
  by (simp add: free_lock_def lock_init_eq)

lemma console_put_str_free:
  assumes "free_lock (console_lock s) s" "running_thread s \<noteq> NULL"
  shows "console_put_str str s = Inr (put_str str s)"
proof -
  let ?l = "console_lock s" and ?t = "locked (console_lock s) s"
  have acq: "lock_acquire_now ?l s = Inr ?t" and h: "held ?l ?t" using lock_acquire_free_lock [OF assms] by simp_all
  have "held ?l (put_str str ?t)" using h by (simp add: held_def put_str_def running_thread_def)
  then have "lock_release ?l (put_str str ?t) = Inr (unlocked ?l (put_str str ?t))" by (rule lock_release_held)
  moreover have "console_lock (put_str str ?t) = ?l" by (simp add: put_str_def locked_def)
  moreover have "unlocked ?l (put_str str ?t) = put_str str s"
  proof -
    have "put_str str ?t = locked ?l (put_str str s)" by (simp add: put_str_def locked_def running_thread_def)
    moreover have "unlocked ?l (locked ?l (put_str str s)) = put_str str s"
      by (rule unlocked_locked) (use assms(1) in \<open>simp_all add: free_lock_def put_str_def\<close>)
    ultimately show ?thesis by simp
  qed
  ultimately show ?thesis
    using acq by (simp add: console_put_str_def console_acquire_def console_release_def)
qed

lemma printk_free:
  assumes "free_lock (console_lock s) s" "running_thread s \<noteq> NULL" "render strs (bytes_of format) args = Some buf"
  shows "printk format strs args s = Inr (put_str buf s)"
  using console_put_str_free [OF assms(1,2)] assms(3) by (simp add: printk_def)

end
