(* ===== verification/Heap_Props.thy ===== *)
theory Heap_Props
  imports Heap Page_Fill Lock_Facts
begin

text \<open>
  Properties of the heap: the geometry of arenas and blocks, the free lists, and the allocation of a
  small block from a new arena.
\<close>

section \<open>Sizes\<close>

text \<open>Size and number of the blocks of class \<open>i\<close>.\<close>

definition bsize :: "nat \<Rightarrow> nat" where "bsize i = 16 * 2 ^ i"
definition bcount :: "nat \<Rightarrow> nat" where "bcount i = 4084 div bsize i"
definition desc_at :: "addr \<Rightarrow> nat \<Rightarrow> addr" where "desc_at descs i = descs + of_nat i * sizeof_desc"

lemma bsize_Suc: "bsize (Suc i) = 2 * bsize i"
  by (simp add: bsize_def)

lemma bsize_pos: "0 < bsize i"
  by (simp add: bsize_def)

lemma bsize_le: "i < 7 \<Longrightarrow> 16 \<le> bsize i \<and> bsize i \<le> 1024"
proof -
  assume "i < 7"
  then have "(2 :: nat) ^ i \<le> 2 ^ 6" by (intro power_increasing) simp_all
  then show ?thesis by (simp add: bsize_def)
qed

lemma bcount_fits: "k < bcount i \<Longrightarrow> 12 + k * bsize i + bsize i \<le> 4096"
proof -
  assume "k < bcount i"
  then have "Suc k * bsize i \<le> 4084 div bsize i * bsize i" by (intro mult_right_mono) (simp_all add: bcount_def)
  also have "\<dots> \<le> 4084" by (simp add: div_times_less_eq_dividend)
  finally show ?thesis by simp
qed

lemma bcount_pos: "i < 7 \<Longrightarrow> 0 < bcount i \<and> bcount i < 256"
proof -
  assume i: "i < 7"
  have "4084 div bsize i \<le> 4084 div 16" using bsize_le [OF i] by (intro div_le_mono2) simp_all
  moreover have "0 < 4084 div bsize i" using bsize_le [OF i] by (simp add: div_greater_zero_iff)
  ultimately show ?thesis by (simp add: bcount_def)
qed

section \<open>Descriptors\<close>

text \<open>The words of a descriptor: its size, its count and the sentinels of its free list.\<close>

definition desc_ok :: "(addr \<Rightarrow> u32) \<Rightarrow> addr \<Rightarrow> nat \<Rightarrow> bool" where
  "desc_ok m d i = (m (desc_block_size d) = of_nat (bsize i) \<and> m (desc_blocks_per_arena d) = of_nat (bcount i))"

lemma block_desc_init_loop_outside:
  assumes "unat (x - d) \<ge> n * 24" "n * 24 < 2 ^ 32"
  shows "mem (block_desc_init_loop n bs d s) x = mem s x"
  using assms
proof (induction n arbitrary: bs d s)
  case (Suc n)
  have w: "x \<noteq> d + of_nat j" if "j < 24" for j
  proof
    assume "x = d + of_nat j"
    then have "unat (x - d) = j" using that by (simp add: unat_of_nat_lt)
    then show False using Suc.prems(1) that by simp
  qed
  have "unat (x - (d + 24)) = unat (x - d) - 24"
  proof -
    have e: "x - (d + 24) = (x - d) - 24" by simp
    have "(24 :: u32) \<le> x - d" using Suc.prems(1) by (simp add: word_le_nat_alt)
    then show ?thesis unfolding e by (subst unat_sub) simp_all
  qed
  then have "n * 24 \<le> unat (x - (d + 24))" using Suc.prems(1) by simp
  then show ?case using Suc w [of 0] w [of 4] w [of 8] w [of 12] w [of 16] w [of 20]
    by (simp add: Let_def list_init_mem heap_layout sizeof_desc_def add.assoc)
qed simp

lemma unat_u16_size: "i \<le> 7 \<Longrightarrow> (of_nat (bsize i) :: u16) = 16 * 2 ^ i"
  by (simp add: bsize_def)

lemma block_desc_init_loop_desc:
  assumes "j < n" "k + n \<le> 7"
  shows "desc_ok (mem (block_desc_init_loop n (of_nat (bsize k)) d s)) (desc_at d j) (k + j) \<and>
         dlist (mem (block_desc_init_loop n (of_nat (bsize k)) d s)) (desc_free_list (desc_at d j)) []"
  using assms
proof (induction n arbitrary: j k d s)
  case (Suc n)
  define s1 where "s1 = list_init (desc_free_list d) (wr (desc_blocks_per_arena d)
      ((PG_SIZE - sizeof_arena) div ucast (of_nat (bsize k) :: u16)) (wr (desc_block_size d) (ucast (of_nat (bsize k) :: u16)) s))"
  have k: "k < 7" using Suc.prems by simp
  have uc: "ucast (of_nat (bsize k) :: u16) = (of_nat (bsize k) :: u32)"
    by (rule unat_eqI) (use bsize_le [OF k] in \<open>simp add: unat_u32_of_u16 unat_of_nat_lt\<close>)
  have cnt: "(PG_SIZE - sizeof_arena) div (of_nat (bsize k) :: u32) = of_nat (bcount k)"
    by (rule unat_eqI) (use bsize_le [OF k] bcount_pos [OF k] in \<open>simp add: PG_SIZE_def sizeof_arena_def unat_div unat_of_nat_lt bcount_def\<close>)
  have step: "block_desc_init_loop (Suc n) (of_nat (bsize k)) d s =
      block_desc_init_loop n (of_nat (bsize (Suc k))) (d + sizeof_desc) s1"
    by (simp add: s1_def bsize_Suc mult.commute Let_def)
  show ?case
  proof (cases j)
    case 0
    let ?t = "block_desc_init_loop n (of_nat (bsize (Suc k))) (d + sizeof_desc) s1"
    have keep: "mem ?t (d + of_nat r) = mem s1 (d + of_nat r)" if "r < 24" for r
    proof (rule block_desc_init_loop_outside)
      have e: "d + of_nat r - (d + sizeof_desc) = of_nat r - 24" by (simp add: sizeof_desc_def)
      have "unat (of_nat r - 24 :: u32) = 2 ^ 32 + r - 24"
        using that by (simp add: unat_sub_if_size word_size unat_of_nat_lt word_le_nat_alt)
      then show "n * 24 \<le> unat (d + of_nat r - (d + sizeof_desc))" unfolding e using Suc.prems by simp
    qed (use Suc.prems in simp)
    have m1: "mem s1 d = of_nat (bsize k)" "mem s1 (d + 4) = of_nat (bcount k)"
      by (simp_all add: s1_def list_init_mem heap_layout uc cnt add.assoc)
    have "dlist (mem s1) (d + 8) []" unfolding s1_def heap_layout by (rule list_init_dlist)
    then have "dlist (mem ?t) (d + 8) []"
      using keep [of 8] keep [of 12] keep [of 16] keep [of 20]
      by (subst dlist_frame [of _ _ _ "mem s1"]) (auto simp: words_of_def set_nodes nodes_def add.assoc)
    then show ?thesis using 0 m1 keep [of 0] keep [of 4] unfolding step
      by (simp add: desc_at_def desc_ok_def heap_layout)
  next
    case (Suc j')
    have "desc_at d j = desc_at (d + sizeof_desc) j'" using Suc by (simp add: desc_at_def algebra_simps)
    moreover have "k + j = Suc k + j'" using Suc by simp
    ultimately show ?thesis unfolding step using Suc.IH [of j' "Suc k" "d + sizeof_desc" s1] Suc.prems Suc by simp
  qed
qed simp

lemma block_desc_init_ok:
  assumes "i < 7"
  shows "desc_ok (mem (block_desc_init descs s)) (desc_at descs i) i" "dlist (mem (block_desc_init descs s)) (desc_at descs i + 8) []"
proof -
  have b0: "(16 :: u16) = of_nat (bsize 0)" by (simp add: bsize_def)
  from block_desc_init_loop_desc [of i 7 0 descs s] assms
  show "desc_ok (mem (block_desc_init descs s)) (desc_at descs i) i" "dlist (mem (block_desc_init descs s)) (desc_at descs i + 8) []"
    unfolding block_desc_init_def DESC_CNT_def b0 by (simp_all add: heap_layout)
qed

section \<open>Blocks of an arena\<close>

definition blk :: "addr \<Rightarrow> nat \<Rightarrow> nat \<Rightarrow> addr" where
  "blk a i k = a + of_nat (12 + k * bsize i)"

lemma arena2block_blk:
  assumes "mem s (arena_desc a) = d" "mem s (desc_block_size d) = of_nat (bsize i)"
  shows "arena2block a (of_nat k) s = blk a i k"
  using assms by (simp add: arena2block_def blk_def sizeof_arena_def)

lemma page_top:
  assumes "frame_of a = a"
  shows "unat a + 4096 \<le> 2 ^ 32"
proof -
  obtain b where b: "unat a = b * 4096" using frame_multiple [OF assms] .
  then have "b < 1048576" using unat_u32(3) [of a] by simp
  then show ?thesis using b by simp
qed

lemma unat_blk:
  assumes "frame_of a = a" "k < bcount i"
  shows "unat (blk a i k) = unat a + 12 + k * bsize i"
proof -
  have "12 + k * bsize i < 4096" using bcount_fits [OF assms(2)] bsize_pos [of i] by linarith
  then have "unat (of_nat (12 + k * bsize i) :: u32) = 12 + k * bsize i" by (intro unat_of_nat_lt) simp
  then show ?thesis unfolding blk_def using page_top [OF assms(1)] \<open>12 + k * bsize i < 4096\<close>
    by (subst unat_add_lt) simp_all
qed

lemma block2arena_blk:
  assumes "frame_of a = a" "k < bcount i"
  shows "block2arena (blk a i k) = a"
proof (rule unat_eqI)
  obtain b where b: "unat a = b * 4096" using frame_multiple [OF assms(1)] .
  have "12 + k * bsize i < 4096" using bcount_fits [OF assms(2)] bsize_pos [of i] by linarith
  then have "(b * 4096 + (12 + k * bsize i)) div 4096 = b" by simp
  then have "unat (blk a i k) div 4096 = b" using unat_blk [OF assms] b by (simp add: add.assoc)
  moreover have "block2arena (blk a i k) = frame_of (blk a i k)" by (simp add: block2arena_def frame_of_def)
  ultimately show "unat (block2arena (blk a i k)) = unat a" using b by (simp add: unat_frame_of)
qed

lemma blk_apart:
  assumes "frame_of a = a" "k < bcount i" "l < bcount i" "k < l"
  shows "unat (blk a i k) + bsize i \<le> unat (blk a i l)"
proof -
  have "Suc k * bsize i \<le> l * bsize i" using assms(4) by (intro mult_right_mono) simp_all
  then show ?thesis using unat_blk [OF assms(1,2)] unat_blk [OF assms(1,3)] by simp
qed

text \<open>The word of an address is outside the page \<open>a\<close>.\<close>

definition off_page :: "addr \<Rightarrow> addr \<Rightarrow> bool" where
  "off_page a x = (unat (x - a) \<ge> 4096)"

lemma off_page_unat: "frame_of a = a \<Longrightarrow> unat x < unat a \<Longrightarrow> off_page a x"
proof -
  assume a: "frame_of a = a" and x: "unat x < unat a"
  have "unat (x - a) = 2 ^ 32 + unat x - unat a" using x by (simp add: unat_sub_if_size word_size)
  then show ?thesis using page_top [OF a] by (simp add: off_page_def)
qed

lemma in_page_blk:
  assumes "frame_of a = a" "k < bcount i" "r < bsize i"
  shows "\<not> off_page a (blk a i k + of_nat r)"
proof -
  have l: "12 + k * bsize i + r < 4096" using bcount_fits [OF assms(2)] assms(3) by simp
  have e: "blk a i k + of_nat r - a = of_nat (12 + k * bsize i + r)" by (simp add: blk_def)
  have "unat (blk a i k + of_nat r - a) = 12 + k * bsize i + r" unfolding e using l by (intro unat_of_nat_lt) simp
  then show ?thesis using l by (simp add: off_page_def)
qed

lemma blk_node:
  assumes "frame_of a = a" "i < 7" "k < bcount i" "off_page a x"
  shows "x \<noteq> blk a i k" "x \<noteq> blk a i k + 4"
  using in_page_blk [OF assms(1,3), of 0] in_page_blk [OF assms(1,3), of 4] bsize_le [OF assms(2)] assms(4) by auto

lemma blks_spaced:
  assumes "frame_of a = a" "i < 7" "k < bcount i" "l < bcount i"
  shows "blk a i k \<noteq> blk a i l + 4"
proof
  assume e: "blk a i k = blk a i l + 4"
  have t: "unat (blk a i l) + 4 < 2 ^ 32"
    using unat_blk [OF assms(1,4)] bcount_fits [OF assms(4)] page_top [OF assms(1)] bsize_le [OF assms(2)] by simp
  then have u: "unat (blk a i k) = unat (blk a i l) + 4" unfolding e by (subst unat_add_lt) simp_all
  have "k = l \<or> k < l \<or> l < k" by auto
  then show False
    using u blk_apart [OF assms(1,3,4)] blk_apart [OF assms(1,4,3)] bsize_le [OF assms(2)] by auto
qed

text \<open>The free list of a class, linked through blocks of the arena \<open>a\<close>, with its sentinels outside that page.\<close>

definition fl_off :: "addr \<Rightarrow> addr \<Rightarrow> bool" where
  "fl_off a d = (\<forall>r\<in>{0, 4, 8, 12, 16, 20}. off_page a (d + r))"

lemma fresh_blk:
  assumes "frame_of a = a" "i < 7" "k < bcount i" "fl_off a d"
  shows "fresh_node (desc_free_list d) (map (blk a i) [0..<k]) (blk a i k)"
proof -
  let ?p = "d + 8"
  have o: "off_page a ?p" "off_page a (?p + 4)" "off_page a (?p + 8)" "off_page a (?p + 12)"
    using assms(4) by (simp_all add: fl_off_def add.assoc)
  note B = blk_node [OF assms(1,2)]
  have d: "blk a i l \<noteq> blk a i m" if "l < m" "m \<le> k" for l m
    using blk_apart [OF assms(1), of l i m] bsize_le [OF assms(2)] that assms(3) by auto
  have sp: "spaced (insert (blk a i k) (insert ?p (insert (?p + 8) (blk a i ` {0..<k}))))"
  proof -
    have lt: "l < bcount i" if "l \<in> {0..<k} \<or> l = k" for l using that assms(3) by auto
    show ?thesis
      using blks_spaced [OF assms(1,2)] B o lt assms(3) unfolding spaced_def
      by (auto simp: add.assoc) (metis add.commute add_diff_cancel_left' )+
  qed
  have "blk a i k \<notin> insert ?p (insert (?p + 8) (blk a i ` {0..<k}))"
  proof -
    have "blk a i k \<notin> blk a i ` {0..<k}" using d [of _ k] by force
    then show ?thesis using B(1) [OF assms(3) o(1)] B(1) [OF assms(3) o(3)] by auto
  qed
  then show ?thesis using sp by (simp add: fresh_node_def set_nodes desc_free_list_def)
qed

text \<open>What splitting leaves alone: everything outside the page and the sentinels, and the header of the page.\<close>

definition spared :: "addr \<Rightarrow> addr \<Rightarrow> addr \<Rightarrow> bool" where
  "spared a d x = (off_page a x \<and> x \<notin> {d + 8, d + 12, d + 16, d + 20} \<or> x \<in> {a, a + 4, a + 8})"

lemma header_not_blk:
  assumes "frame_of a = a" "i < 7" "l < bcount i" "x \<in> {a, a + 4, a + 8}"
  shows "x \<noteq> blk a i l" "x \<noteq> blk a i l + 4"
proof -
  have p: "unat a + 4096 \<le> 2 ^ 32" by (rule page_top [OF assms(1)])
  have u: "unat x \<le> unat a + 8"
    using assms(4) p by (auto simp: unat_add_lt)
  have t: "unat (blk a i l) + 4 < 2 ^ 32"
    using unat_blk [OF assms(1,3)] bcount_fits [OF assms(3)] p bsize_le [OF assms(2)] by simp
  show "x \<noteq> blk a i l" using u unat_blk [OF assms(1,3)] by auto
  show "x \<noteq> blk a i l + 4"
  proof
    assume "x = blk a i l + 4"
    then have "unat x = unat (blk a i l) + 4" using t by (simp add: unat_add_lt)
    then show False using u unat_blk [OF assms(1,3)] by simp
  qed
qed

lemma spared_words:
  assumes "frame_of a = a" "i < 7" "k \<le> bcount i" "fl_off a d" "spared a d x"
  shows "x \<notin> words_of (set (nodes (d + 8) (map (blk a i) [0..<k])))"
proof -
  have n: "x \<noteq> blk a i l" "x \<noteq> blk a i l + 4" if "l < k" for l
  proof -
    have l: "l < bcount i" using that assms(3) by simp
    consider "off_page a x" | "x \<in> {a, a + 4, a + 8}" using assms(5) by (auto simp: spared_def)
    then show "x \<noteq> blk a i l" "x \<noteq> blk a i l + 4"
      using blk_node [OF assms(1,2) l] header_not_blk [OF assms(1,2) l] by (cases, blast, blast)+
  qed
  have n1: "x \<notin> blk a i ` {0..<k}" using n(1) by (simp add: image_iff)
  have n2: "x \<notin> (\<lambda>y. y + 4) ` blk a i ` {0..<k}" using n(2) by (simp add: image_iff)
  have "x \<notin> {d + 8, d + 12, d + 16, d + 20}"
  proof
    assume x: "x \<in> {d + 8, d + 12, d + 16, d + 20}"
    then have "off_page a x" using assms(4) by (auto simp: fl_off_def)
    moreover have "x \<in> {a, a + 4, a + 8}" using assms(5) x by (auto simp: spared_def)
    ultimately show False by (auto simp: off_page_def)
  qed
  then show ?thesis using n1 n2 by (simp add: words_of_def set_nodes add.assoc)
qed

lemma split_arena_run:
  assumes a: "frame_of a = a" "i < 7" "fl_off a d" and k: "k + n \<le> bcount i"
    and s: "mem s a = d" "mem s d = of_nat (bsize i)" "dlist (mem s) (d + 8) (map (blk a i) [0..<k])"
  shows "\<exists>s'. split_arena n a (of_nat k) s = Inr s' \<and> dlist (mem s') (d + 8) (map (blk a i) [0..<k + n]) \<and>
    (\<forall>x. spared a d x \<longrightarrow> mem s' x = mem s x) \<and> eflags s' = eflags s \<and> bytes s' = bytes s \<and> machine.more s' = machine.more s"
  using k s
proof (induction n arbitrary: k s)
  case (Suc n)
  let ?b = "blk a i k" and ?p = "d + 8"
  have kb: "k < bcount i" using Suc.prems(1) by simp
  have b: "arena2block a (of_nat k) s = ?b"
    by (rule arena2block_blk) (use Suc.prems in \<open>simp_all add: heap_layout\<close>)
  note f = fresh_blk [OF a(1,2) kb a(3), unfolded desc_free_list_def]
  have nf: "?b \<notin> set (map (blk a i) [0..<k])" using f by (auto simp: fresh_node_def set_nodes)
  let ?s = "list_append ?p ?b s"
  have d1: "dlist (mem ?s) ?p (map (blk a i) [0..<Suc k])" using list_append_dlist(1) [OF Suc.prems(4) f] by simp
  have keep: "mem ?s x = mem s x" if "spared a d x" for x
    using list_append_dlist(2) [OF Suc.prems(4) f, of x] spared_words [OF a(1,2) _ a(3) that, of "Suc k"] kb
    by (auto simp: words_of_def set_nodes)
  have hd: "spared a d a" "spared a d d" using a(3) by (auto simp: spared_def fl_off_def)
  have "\<exists>s'. split_arena n a (of_nat (Suc k)) ?s = Inr s' \<and> dlist (mem s') ?p (map (blk a i) [0..<Suc k + n]) \<and>
      (\<forall>x. spared a d x \<longrightarrow> mem s' x = mem ?s x) \<and> eflags s' = eflags ?s \<and> bytes s' = bytes ?s \<and> machine.more s' = machine.more ?s"
    using Suc.prems d1 keep [OF hd(1)] keep [OF hd(2)] by (intro Suc.IH) simp_all
  then obtain s' where s': "split_arena n a (of_nat (Suc k)) ?s = Inr s'" "dlist (mem s') ?p (map (blk a i) [0..<Suc k + n])"
    "\<forall>x. spared a d x \<longrightarrow> mem s' x = mem ?s x" "eflags s' = eflags ?s" "bytes s' = bytes ?s" "machine.more s' = machine.more ?s"
    by blast
  have "split_arena (Suc n) a (of_nat k) s = Inr s'"
    using s'(1) b nf elem_find_dlist [OF Suc.prems(4), of ?b] Suc.prems(2)
    by (simp add: Let_def assert_absent_def heap_layout add.commute)
  then show ?case using s' keep by simp
qed simp

section \<open>The geometry of the heap\<close>

text \<open>The geometry of the heap.  \<open>block_desc_init\<close> makes seven classes of 16, 32, up to 1024 bytes with empty free
  lists.  In every arena of a class, that is a page whose header points to the descriptor, each of the \<open>blocks_per_arena\<close>
  blocks that \<open>arena2block\<close> gives lies behind the 12 byte header and inside the page, \<open>block2arena\<close> leads
  back from it to the arena, and different blocks do not overlap.\<close>

theorem heap_geometry:
  fixes s :: "'z machine_scheme" and t :: "'y machine_scheme"
  assumes "i < 7" and "frame_of a = a"
    and "mem t (arena_desc a) = descs + of_nat i * 24"
    and "mem t (descs + of_nat i * 24) = mem (block_desc_init descs s) (descs + of_nat i * 24)"
  shows "mem (block_desc_init descs s) (descs + of_nat i * 24) = of_nat (16 * 2 ^ i) \<and>
    mem (block_desc_init descs s) (descs + of_nat i * 24 + 4) = of_nat (4084 div (16 * 2 ^ i)) \<and>
    dlist (mem (block_desc_init descs s)) (descs + of_nat i * 24 + 8) [] \<and>
    (\<forall>k<4084 div (16 * 2 ^ i). let b = arena2block a (of_nat k) t in
       block2arena b = a \<and> unat a + 12 \<le> unat b \<and> unat b + 16 * 2 ^ i \<le> unat a + 4096 \<and>
       (\<forall>l. k < l \<and> l < 4084 div (16 * 2 ^ i) \<longrightarrow> unat b + 16 * 2 ^ i \<le> unat (arena2block a (of_nat l) t)))"
proof -
  let ?d = "descs + of_nat i * 24"
  have d: "desc_at descs i = ?d" by (simp add: desc_at_def sizeof_desc_def)
  have ok: "desc_ok (mem (block_desc_init descs s)) ?d i" "dlist (mem (block_desc_init descs s)) (?d + 8) []"
    using block_desc_init_ok [OF assms(1), of descs s] unfolding d by simp_all
  have A: "arena2block a (of_nat k) t = blk a i k" for k
    by (rule arena2block_blk) (use assms(3,4) ok(1) in \<open>simp_all add: desc_ok_def heap_layout\<close>)
  have B: "block2arena (blk a i k) = a \<and> unat a + 12 \<le> unat (blk a i k) \<and> unat (blk a i k) + bsize i \<le> unat a + 4096 \<and>
      (\<forall>l. k < l \<and> l < bcount i \<longrightarrow> unat (blk a i k) + bsize i \<le> unat (blk a i l))" if "k < bcount i" for k
    using block2arena_blk [OF assms(2) that] unat_blk [OF assms(2) that] bcount_fits [OF that] blk_apart [OF assms(2) that] by auto
  show ?thesis using ok B unfolding A Let_def desc_ok_def heap_layout bcount_def bsize_def by blast
qed

theorem heap_geometry_witness:
  "\<forall>s :: machine. let s = block_desc_init 0xc0007000 (wr 0xc0100000 0xc0007060 s) in
     mem s 0xc0007060 = 256 \<and> block2arena (arena2block 0xc0100000 14 (wr 0xc0100000 0xc0007060 s)) = 0xc0100000"
proof
  fix s :: machine
  let ?s = "block_desc_init 0xc0007000 (wr 0xc0100000 0xc0007060 s)"
  have f: "frame_of 0xc0100000 = 0xc0100000" by (simp add: frame_of_def)
  from heap_geometry [of 4 "0xc0100000" "wr 0xc0100000 0xc0007060 ?s" "0xc0007000" "wr 0xc0100000 0xc0007060 s"] f
  have g: "mem ?s 0xc0007060 = 256" and h: "\<forall>k<15. block2arena (arena2block 0xc0100000 (of_nat k) (wr 0xc0100000 0xc0007060 ?s)) = 0xc0100000"
    by (simp_all add: arena_desc_def Let_def)
  have "(14 :: nat) < 15" by simp
  then have "block2arena (arena2block 0xc0100000 14 (wr 0xc0100000 0xc0007060 ?s)) = 0xc0100000" using h by fastforce
  then show "let s = ?s in mem s 0xc0007060 = 256 \<and> block2arena (arena2block 0xc0100000 14 (wr 0xc0100000 0xc0007060 s)) = 0xc0100000"
    using g by (simp add: Let_def)
qed

section \<open>Choosing a class\<close>

definition class_of :: "nat \<Rightarrow> nat" where
  "class_of n = (LEAST i. n \<le> bsize i)"

lemma class_of_bound:
  assumes "n \<le> 1024"
  shows "class_of n < 7" "n \<le> bsize (class_of n)" "i < class_of n \<Longrightarrow> bsize i < n"
proof -
  have 6: "n \<le> bsize 6" using assms by (simp add: bsize_def)
  have "class_of n \<le> 6" unfolding class_of_def by (rule Least_le) (rule 6)
  then show "class_of n < 7" by simp
  show "n \<le> bsize (class_of n)" unfolding class_of_def by (rule LeastI) (rule 6)
  show "bsize i < n" if "i < class_of n" using not_less_Least [OF that [unfolded class_of_def]] by simp
qed

lemma find_desc_class:
  assumes "\<And>i. i < 7 \<Longrightarrow> mem s (desc_at descs i) = of_nat (bsize i)" "unat n \<le> 1024" "j \<le> class_of (unat n)" "j + m = 7"
  shows "find_desc m (desc_at descs j) n s = desc_at descs (class_of (unat n))"
  using assms(3,4)
proof (induction m arbitrary: j)
  case 0
  then show ?case using class_of_bound(1) [OF assms(2)] by simp
next
  case (Suc m)
  have j: "j < 7" using Suc.prems by simp
  have "unat (of_nat (bsize j) :: u32) = bsize j" using bsize_le [OF j] by (intro unat_of_nat_lt) simp
  then have t: "n \<le> mem s (desc_block_size (desc_at descs j)) \<longleftrightarrow> unat n \<le> bsize j"
    using assms(1) [OF j] by (simp add: heap_layout word_le_nat_alt)
  show ?case
  proof (cases "unat n \<le> bsize j")
    case True
    then have "class_of (unat n) \<le> j" unfolding class_of_def by (rule Least_le)
    then show ?thesis using Suc.prems t True by simp
  next
    case False
    then have "j < class_of (unat n)" using Suc.prems(1) class_of_bound(2) [OF assms(2)] by (cases "j = class_of (unat n)") auto
    moreover have "desc_at descs j + sizeof_desc = desc_at descs (Suc j)" by (simp add: desc_at_def algebra_simps)
    ultimately show ?thesis using Suc.IH [of "Suc j"] Suc.prems(2) t False by simp
  qed
qed

section \<open>Clearing a block\<close>

lemma walk_inside:
  assumes "page_walk s a = Some F" "frame_of a = a" "i < 1024"
  shows "page_walk s (a + of_nat (i * 4)) \<in> Some ` words F"
proof -
  have "page_walk s (a + of_nat i * 4) = Some (F + of_nat i * 4)" by (rule walk_word [OF assms])
  then show ?thesis using assms(3) by (auto simp: words_def)
qed

lemma memset_block:
  fixes s :: "'z pgmachine_scheme"
  assumes w: "page_walk s a = Some F" "frame_of a = a" and b: "k < bcount i" "i < 7"
  shows "\<exists>p. memset_mem (blk a i k) 0 (of_nat (bsize i)) s =
      Inr (s\<lparr>mem := (\<lambda>x. if in_block (blk a i k) (bsize i) x then 0 else mem s x),
             bytes := (\<lambda>x. if in_block (blk a i k) (bsize i) x then 0 else bytes s x), pmem := p\<rparr>) \<and>
      (\<forall>x. x \<notin> words F \<longrightarrow> p x = pmem s x)"
proof -
  let ?b = "blk a i k" and ?n = "of_nat (bsize i) :: u32"
  have n: "unat ?n = bsize i" using bsize_le [OF b(2)] by (intro unat_of_nat_lt) simp
  have o: "12 + k * bsize i + bsize i \<le> 4096" by (rule bcount_fits [OF b(1)])
  have q: "(bsize i + 4095) div 4096 = 1" using bsize_le [OF b(2)] by (intro div_nat_eqI) simp_all
  have n0: "?n \<noteq> 0" using n bsize_pos [of i] by auto
  have last: "?b + ?n - 1 = a + of_nat (12 + k * bsize i + (bsize i - 1))"
    using bsize_pos [of i] by (simp add: blk_def of_nat_diff)
  have t: "touched ?b ?n = [?b, ?b + ?n - 1]" using n0 by (simp add: touched_def n q)
  have w1: "page_walk s ?b = Some (F + of_nat (12 + k * bsize i))" unfolding blk_def
    by (rule walk_in_page [OF w]) (use o bsize_pos [of i] in linarith)
  have w2: "page_walk s (?b + ?n - 1) = Some (F + of_nat (12 + k * bsize i + (bsize i - 1)))" unfolding last
    by (rule walk_in_page [OF w]) (use o bsize_pos [of i] in linarith)
  have nn: "?b \<noteq> NULL" using unat_blk [OF w(2) b(1)] by auto
  have "memset_mem ?b 0 ?n s = Inr (s\<lparr>mem := (\<lambda>x. if in_block ?b (bsize i) x then ucast (0 :: u8) * 0x01010101 else mem s x),
      bytes := (\<lambda>x. if in_block ?b (bsize i) x then 0 else bytes s x), pmem := fill_words s ?b 0 (bsize i div 4)\<rparr>)"
    using nn w1 w2 by (simp add: memset_mem_def t n)
  moreover have "fill_words s ?b 0 (bsize i div 4) x = pmem s x" if "x \<notin> words F" for x
  proof (rule fill_words_off [OF _ that])
    fix j assume j: "j < bsize i div 4"
    define r where "r = 3 + k * (4 * 2 ^ i) + j"
    have e: "12 + k * bsize i + j * 4 = r * 4" by (simp add: r_def bsize_def)
    have "r * 4 < 4096" unfolding e [symmetric] using o j by linarith
    then have r: "r < 1024" by simp
    have "?b + of_nat (j * 4) = a + of_nat (12 + k * bsize i + j * 4)" by (simp add: blk_def)
    then show "page_walk s (?b + of_nat (j * 4)) \<in> Some ` words F" unfolding e using walk_inside [OF w r] by simp
  qed
  ultimately show ?thesis by (intro exI [of _ "fill_words s ?b 0 (bsize i div 4)"] conjI) (simp_all add: if_distrib cong: if_cong)
qed

section \<open>A new arena\<close>

lemma machine_mem_eq:
  fixes s s' :: "'z machine_scheme"
  assumes "eflags s' = eflags s" "bytes s' = bytes s" "machine.more s' = machine.more s"
  shows "s' = s\<lparr>mem := mem s'\<rparr>"
  by (rule machine.equality) (simp_all add: assms)

lemma in_block_page: "in_block a 4096 x \<longleftrightarrow> \<not> off_page a x"
  by (auto simp: in_block_def off_page_def)

lemma fl_off_below:
  assumes "frame_of a = a" "unat d + 24 \<le> unat a"
  shows "fl_off a d"
proof -
  have "off_page a (d + of_nat r)" if "r < 24" for r
  proof (rule off_page_unat [OF assms(1)])
    have "unat (d + of_nat r) = unat d + r"
      using assms(2) that unat_u32(1) [of a] by (subst unat_add_lt) (simp_all add: unat_of_nat_lt)
    then show "unat (d + of_nat r) < unat a" using assms(2) that by simp
  qed
  from this [of 0] this [of 4] this [of 8] this [of 12] this [of 16] this [of 20] show ?thesis by (simp add: fl_off_def)
qed

text \<open>The state from which an arena is split: the page is clear but for its header.\<close>

definition fresh_arena :: "addr \<Rightarrow> addr \<Rightarrow> u32 \<Rightarrow> 'z machine_scheme \<Rightarrow> 'z machine_scheme" where
  "fresh_arena a d n s = wr (arena_large a) 0 (wr (arena_cnt a) n (wr (arena_desc a) d s))"

lemma fresh_arena_mem:
  assumes "frame_of a = a"
  shows "mem (fresh_arena a d n s) a = d" "mem (fresh_arena a d n s) (a + 4) = n" "mem (fresh_arena a d n s) (a + 8) = 0"
    "off_page a x \<Longrightarrow> mem (fresh_arena a d n s) x = mem s x"
  by (auto simp: fresh_arena_def heap_layout off_page_def)

lemma off_page_header: "off_page a x \<Longrightarrow> x \<notin> {a, a + 4, a + 8}"
  by (auto simp: off_page_def)

lemma new_arena_run:
  fixes s :: "'z kmem_scheme"
  assumes inv: "mm_inv s" "vspace_ok s (kernel_vaddr s)" "j < vbits (kernel_vaddr s)"
      "\<not> used s (vaddr_bitmap (kernel_vaddr s)) j" "2 \<le> card (free_frames s (kernel_pool s))"
    and i: "i < 7" and d: "desc_ok (mem s) d i" "dlist (mem s) (d + 8) []"
    and low: "unat d + 24 \<le> unat (vaddr_start (kernel_vaddr s))"
  shows "\<exists>a F m b p. new_arena PF_KERNEL d s = Inr (True, s\<lparr>mem := m, bytes := b, pmem := p\<rparr>) \<and> frame_of a = a \<and>
    unat (vaddr_start (kernel_vaddr s)) \<le> unat a \<and> page_walk s a = None \<and> F \<in> free_frames s (kernel_pool s) \<and>
    page_walk (s\<lparr>mem := m, bytes := b, pmem := p\<rparr>) a = Some F \<and> frame_of F = F \<and>
    selfmap (s\<lparr>mem := m, bytes := b, pmem := p\<rparr>) \<and> F \<notin> tables (s\<lparr>mem := m, bytes := b, pmem := p\<rparr>) \<and> F \<noteq> frame_of (cr3 s) \<and>
    dlist m (d + 8) (map (blk a i) [0..<bcount i]) \<and> m a = d \<and> m (a + 4) = of_nat (bcount i) \<and>
    (\<forall>x. off_page a x \<and> x \<notin> {d + 8, d + 12, d + 16, d + 20} \<longrightarrow> m x = mem s x) \<and> m (a + 8) = 0 \<and>
    (\<exists>b1 p1. malloc_pages PF_KERNEL 1 s = Inr (a, s\<lparr>bytes := b1, pmem := p1\<rparr>) \<and> (\<forall>x. x \<notin> words F \<longrightarrow> p x = p1 x) \<and>
       (\<forall>x. off_page a x \<longrightarrow> b x = b1 x))"
proof -
  obtain a F s1 where m1: "malloc_pages PF_KERNEL 1 s = Inr (a, s1)" "mm_inv s1" and a: "page_walk s1 a = Some F" "frame_of a = a"
    "a \<noteq> NULL" "lower a" and F: "frame_of F = F" "F \<notin> tables s1" "F \<noteq> frame_of (cr3 s1)" "F \<in> free_frames s (kernel_pool s)"
    and fr: "pt_frame s s1" "page_walk s a = None" "unat (vaddr_start (kernel_vaddr s)) \<le> unat a"
    using kernel_page [OF inv] by blast
  obtain b1 p1 where s1: "s1 = s\<lparr>bytes := b1, pmem := p1\<rparr>" using fr(1) unfolding pt_frame_def by blast
  have sm: "selfmap s1" using m1(2) by (simp add: mm_inv_def)
  obtain s2 where s2: "memset_mem a 0 4096 s1 = Inr s2" "filled s1 s2 F {..<1024} (\<lambda>_. 0)"
    "mem s2 = (\<lambda>x. if in_block a 4096 x then 0 else mem s1 x)" "bytes s2 = (\<lambda>x. if in_block a 4096 x then 0 else bytes s1 x)"
    using memset_page [OF a(1,2) F(1) a(3)] by blast
  note w2 = filled_walk [OF sm F(1-3) s2(2)]
  obtain m2 b2 p2 where e2: "s2 = s\<lparr>mem := m2, bytes := b2, pmem := p2\<rparr>" using s2(2) s1 by (auto simp: filled_def)
  have off: "fl_off a d" by (rule fl_off_below [OF a(2)]) (use low fr(3) in simp)
  have sent: "off_page a d" "off_page a (d + 4)" "off_page a (d + 8)" "off_page a (d + 12)" "off_page a (d + 16)" "off_page a (d + 20)"
    using off by (simp_all add: fl_off_def)
  have keep2: "mem s2 x = mem s x" if "off_page a x" for x using that by (simp add: s2(3) in_block_page s1)
  let ?n = "of_nat (bcount i) :: u32"
  let ?s3 = "(fresh_arena a d ?n s2)\<lparr>eflags := with_if INTR_OFF (eflags s2)\<rparr>"
  have keep3: "mem ?s3 x = mem s x" if "off_page a x" for x
    using fresh_arena_mem(4) [OF a(2) that, of d ?n s2] keep2 [OF that] by simp
  have dl: "dlist (mem ?s3) (d + 8) []"
  proof -
    have "mem ?s3 x = mem s x" if "x \<in> words_of (set (nodes (d + 8) []))" for x
      using that sent keep3 by (auto simp: words_of_def nodes_def add.assoc)
    then show ?thesis using dlist_frame [of "d + 8" "[]" "mem ?s3" "mem s"] d(2) by blast
  qed
  have "\<exists>s'. split_arena (bcount i) a (of_nat 0) ?s3 = Inr s' \<and> dlist (mem s') (d + 8) (map (blk a i) [0..<0 + bcount i]) \<and>
      (\<forall>x. spared a d x \<longrightarrow> mem s' x = mem ?s3 x) \<and> eflags s' = eflags ?s3 \<and> bytes s' = bytes ?s3 \<and> machine.more s' = machine.more ?s3"
    by (rule split_arena_run [OF a(2) i off])
      (use d(1) dl keep3 [OF sent(1)] fresh_arena_mem(1) [OF a(2), of d ?n s2] in \<open>simp_all add: desc_ok_def heap_layout\<close>)
  then obtain s4 where s4: "split_arena (bcount i) a 0 ?s3 = Inr s4" "dlist (mem s4) (d + 8) (map (blk a i) [0..<bcount i])"
    "\<forall>x. spared a d x \<longrightarrow> mem s4 x = mem ?s3 x" "eflags s4 = eflags ?s3" "bytes s4 = bytes ?s3" "machine.more s4 = machine.more ?s3" by auto
  obtain m4 where m4: "s4 = ?s3\<lparr>mem := m4\<rparr>" using machine_mem_eq [OF s4(4-6)] by metis
  have un: "unat ?n = bcount i" using bcount_pos [OF i] by (intro unat_of_nat_lt) simp
  have cnt: "mem s2 (d + 4) = ?n" using keep2 [OF sent(2)] d(1) by (simp add: desc_ok_def heap_layout)
  have cnt1: "mem (wr a d s2) (d + 4) = ?n" using cnt off_page_header [OF sent(2)] by auto
  have cnt3: "mem (fresh_arena a d ?n s2) (d + 4) = ?n" using fresh_arena_mem(4) [OF a(2) sent(2), of d ?n s2] cnt by simp
  have run: "new_arena PF_KERNEL d s = Inr (True, s4\<lparr>eflags := eflags s2\<rparr>)"
  proof -
    have g: "mem ((fresh_arena a d ?n s2)\<lparr>eflags := with_if INTR_OFF (eflags s2)\<rparr>) (d + 4) = ?n" using cnt3 by simp
    have h: "wr (arena_large a) 0 (wr (arena_cnt a) ?n (wr (arena_desc a) d s2)) = fresh_arena a d ?n s2"
      by (simp add: fresh_arena_def)
    have ef: "eflags (fresh_arena a d ?n s2) = eflags s2" by (simp add: fresh_arena_def)
    show ?thesis using m1(1) a(3) s2(1) s4(1,4) cnt1 h g un ef off_page_header [OF sent(1)] off_page_header [OF sent(2)]
      by (simp add: new_arena_def PG_SIZE_def Let_def intr_norm heap_layout)
  qed
  have fin: "s4\<lparr>eflags := eflags s2\<rparr> = s\<lparr>mem := m4, bytes := b2, pmem := p2\<rparr>"
    unfolding m4 fresh_arena_def wr_def e2 by simp
  have mm: "mem s4 = m4" by (simp add: m4)
  have pw: "page_walk (s\<lparr>mem := m4, bytes := b2, pmem := p2\<rparr>) v = page_walk s2 v" "selfmap (s\<lparr>mem := m4, bytes := b2, pmem := p2\<rparr>) = selfmap s2"
    "tables (s\<lparr>mem := m4, bytes := b2, pmem := p2\<rparr>) = tables s2" for v
    by (rule walk_cong; simp add: e2)+
  have hdr: "m4 a = d" "m4 (a + 4) = ?n" "m4 (a + 8) = 0"
    using s4(3) fresh_arena_mem(1-3) [OF a(2), of d ?n s2] unfolding mm by (simp_all add: spared_def)
  have out: "m4 x = mem s x" if "off_page a x" "x \<notin> {d + 8, d + 12, d + 16, d + 20}" for x
    using s4(3) keep3 [OF that(1)] that unfolding mm by (simp add: spared_def)
  have last: "\<exists>b1 p1. malloc_pages PF_KERNEL 1 s = Inr (a, s\<lparr>bytes := b1, pmem := p1\<rparr>) \<and> (\<forall>x. x \<notin> words F \<longrightarrow> p2 x = p1 x) \<and>
       (\<forall>x. off_page a x \<longrightarrow> b2 x = b1 x)"
  proof (intro exI conjI)
    show "malloc_pages PF_KERNEL 1 s = Inr (a, s\<lparr>bytes := b1, pmem := p1\<rparr>)" using m1(1) s1 by simp
    show "\<forall>x. x \<notin> words F \<longrightarrow> p2 x = p1 x" using filled_sel(2) [OF s2(2)] by (simp add: e2 s1)
    show "\<forall>x. off_page a x \<longrightarrow> b2 x = b1 x" using s2(4) by (simp add: e2 s1 in_block_page)
  qed
  show ?thesis
    by (rule exI [of _ a], rule exI [of _ F], rule exI [of _ m4], rule exI [of _ b2], rule exI [of _ p2])
      (use run fin pw w2 a fr F s4(2) hdr out s1 mm last in simp)
qed


section \<open>Taking a block from a free list\<close>

lemma in_block_blk:
  assumes "frame_of a = a" "k < bcount i" "in_block (blk a i k) (bsize i) x"
  shows "\<not> off_page a x" "x \<notin> {a, a + 4, a + 8}"
proof -
  define r where "r = unat (x - blk a i k)"
  have r: "r < bsize i" and x: "x = blk a i k + of_nat r" using assms(3) by (simp_all add: in_block_def r_def)
  show "\<not> off_page a x" unfolding x by (rule in_page_blk [OF assms(1,2) r])
  have l: "12 + k * bsize i + r < 4096" using bcount_fits [OF assms(2)] r by simp
  have e: "x - a = of_nat (12 + k * bsize i + r)" by (simp add: x blk_def)
  have "unat (x - a) = 12 + k * bsize i + r" unfolding e using l by (intro unat_of_nat_lt) simp
  moreover have "unat (x - a) \<le> 8" if "x \<in> {a, a + 4, a + 8}" using that by auto
  ultimately show "x \<notin> {a, a + 4, a + 8}" by fastforce
qed

lemma malloc_small_hit:
  fixes t :: "'z kmem_scheme"
  defines "l \<equiv> pool_lock (kernel_pool t)"
  assumes w: "page_walk t a = Some F" "frame_of a = a" and k: "k < bcount i" "i < 7"
    and d: "find_desc DESC_CNT descs n t = d" "desc_ok (mem t) d i" "dlist (mem t) (d + 8) (blk a i k # bs)" "fl_off a d"
    and apart: "\<And>x. x \<in> words_of (set bs) \<Longrightarrow> \<not> in_block (blk a i k) (bsize i) x \<and> x \<notin> {a, a + 4, d, d + 4}"
    and lock: "held l t" "off_page a (l + 12)" "l + 12 \<notin> words_of (set (nodes (d + 8) bs))"
  shows "\<exists>m b p. malloc_small PF_KERNEL descs n t = Inr (blk a i k, (unlocked l t)\<lparr>mem := m, bytes := b, pmem := p\<rparr>) \<and>
    dlist m (d + 8) bs \<and> m a = mem t a \<and> m (a + 4) = mem t (a + 4) - 1 \<and>
    (\<forall>x. in_block (blk a i k) (bsize i) x \<longrightarrow> m x = 0 \<and> b x = 0) \<and> (\<forall>x. x \<notin> words F \<longrightarrow> p x = pmem t x) \<and>
    (\<forall>x. off_page a x \<and> x \<notin> words_of (set (nodes (d + 8) bs)) \<longrightarrow> m x = mem t x) \<and>
    (\<forall>x. \<not> in_block (blk a i k) (bsize i) x \<and> x \<noteq> a + 4 \<and> x \<notin> words_of (set (nodes (d + 8) bs)) \<longrightarrow> m x = mem t x) \<and>
    (\<forall>x. \<not> in_block (blk a i k) (bsize i) x \<longrightarrow> b x = bytes t x)"
proof -
  let ?b = "blk a i k"
  have sent: "off_page a d" "off_page a (d + 4)" "off_page a (d + 8)" "off_page a (d + 12)" "off_page a (d + 16)" "off_page a (d + 20)"
    using d(4) by (simp_all add: fl_off_def)
  have W: "words_of (set (nodes (d + 8) bs)) = {d + 8, d + 12, d + 16, d + 20} \<union> words_of (set bs)"
    by (auto simp: words_of_def nodes_def add.assoc)
  obtain t1 where t1: "list_pop (d + 8) t = (?b, t1)" using list_pop_dlist(1) [OF d(3)] by (metis prod.collapse)
  have p1: "dlist (mem t1) (d + 8) bs" "\<And>y. y \<notin> words_of (set (nodes (d + 8) bs)) \<Longrightarrow> mem t1 y = mem t y"
    using list_pop_dlist(2,3) [OF d(3)] t1 by simp_all
  obtain m1 where e1: "t1 = t\<lparr>mem := m1\<rparr>"
    using machine_mem_eq [of "snd (list_pop (d + 8) t)" t] t1 by (metis list_push_append_frame(7-9) snd_conv)
  have m1: "dlist m1 (d + 8) bs" "\<And>y. y \<notin> words_of (set (nodes (d + 8) bs)) \<Longrightarrow> m1 y = mem t y" using p1 by (simp_all add: e1)
  have w1: "page_walk t1 a = Some F" using w(1) walk_cong(1) [of t1 t a] by (simp add: e1)
  define m2 where "m2 = (\<lambda>x. if in_block ?b (bsize i) x then 0 else m1 x)"
  define b2 where "b2 = (\<lambda>x. if in_block ?b (bsize i) x then 0 else bytes t x)"
  obtain p where p: "memset_mem ?b 0 (of_nat (bsize i)) t1 = Inr (t\<lparr>mem := m2, bytes := b2, pmem := p\<rparr>)"
    "\<forall>x. x \<notin> words F \<longrightarrow> p x = pmem t x"
    using memset_block [OF w1 w(2) k] by (auto simp: e1 m2_def b2_def cong: if_cong)
  define m where "m = m2(a + 4 := m2 (a + 4) - 1)"
  note hd = off_page_header [OF sent(1)] off_page_header [OF sent(2)] off_page_header [OF sent(3)]
    off_page_header [OF sent(4)] off_page_header [OF sent(5)] off_page_header [OF sent(6)]
  note ib = in_block_blk [OF w(2) k(1)]
  have keep: "m x = m1 x" if "off_page a x" for x
    using that ib(1) [of x] off_page_header [OF that] by (auto simp: m_def m2_def)
  have frame: "m x = mem t x" if "off_page a x" "x \<notin> words_of (set (nodes (d + 8) bs))" for x
    using keep [OF that(1)] m1(2) [OF that(2)] by simp
  have a4: "a \<notin> words_of (set (nodes (d + 8) bs))" "a + 4 \<notin> words_of (set (nodes (d + 8) bs))" unfolding W using hd apart by auto
  have cnt: "m a = mem t a" "m (a + 4) = mem t (a + 4) - 1"
    using m1(2) [OF a4(1)] m1(2) [OF a4(2)] ib(2) [of a] ib(2) [of "a + 4"] by (auto simp: m_def m2_def)
  have zero: "m x = 0 \<and> b2 x = 0" if "in_block ?b (bsize i) x" for x
    using that ib(2) [OF that] by (simp add: m_def m2_def b2_def)
  have dl: "dlist m (d + 8) bs"
  proof -
    have "m x = m1 x" if "x \<in> words_of (set (nodes (d + 8) bs))" for x
    proof (cases "x \<in> words_of (set bs)")
      case True
      then show ?thesis using apart [OF True] by (simp add: m_def m2_def)
    next
      case False
      then have "off_page a x" using that sent unfolding W by blast
      then show ?thesis by (rule keep)
    qed
    then show ?thesis using dlist_frame [of "d + 8" bs m m1] m1(1) by blast
  qed
  have dsz: "mem t1 d = of_nat (bsize i)"
  proof -
    have "d \<notin> words_of (set (nodes (d + 8) bs))" unfolding W using apart by auto
    then show ?thesis using p1(2) [of d] d(2) by (simp add: desc_ok_def heap_layout)
  qed
  have ne: "\<not> list_empty (d + 8) t" using list_empty_dlist [OF d(3)] by simp
  have lk: "lock_release l (t\<lparr>mem := m, bytes := b2, pmem := p\<rparr>) = Inr ((unlocked l t)\<lparr>mem := m, bytes := b2, pmem := p\<rparr>)"
  proof -
    have "m (l + 12) = l + 16" using frame [OF lock(2,3)] lock(1) by (simp add: held_def)
    then show ?thesis using lock(1) by (subst lock_release_free) (simp_all add: held_def unlocked_def running_thread_def)
  qed
  have wr3: "wr (a + 4) (m2 (a + 4) - 1) (t\<lparr>mem := m2, bytes := b2, pmem := p\<rparr>) = t\<lparr>mem := m, bytes := b2, pmem := p\<rparr>"
    by (simp add: wr_def m_def)
  have "malloc_small PF_KERNEL descs n t = Inr (?b, (unlocked l t)\<lparr>mem := m, bytes := b2, pmem := p\<rparr>)"
    unfolding malloc_small_def d(1) Let_def desc_free_list_def
    using ne t1 p(1) dsz block2arena_blk [OF w(2) k(1)] wr3 lk
    by (simp add: elem2entry_def heap_layout pool_of_def l_def)
  then show ?thesis
    by (intro exI [of _ m] exI [of _ b2] exI [of _ p] conjI)
      (use dl cnt zero p(2) frame m1(2) in \<open>auto simp: m_def m2_def b2_def\<close>)
qed


section \<open>Allocation from a new arena\<close>

lemma blks_clear:
  assumes "frame_of a = a" "i < 7" "off_page a d" "off_page a (d + 4)" "x \<in> words_of (set (map (blk a i) [1..<bcount i]))"
  shows "\<not> in_block (blk a i 0) (bsize i) x \<and> x \<notin> {a, a + 4, d, d + 4}" "\<not> off_page a x"
proof -
  have "\<exists>k\<in>{1..<bcount i}. x = blk a i k \<or> x = blk a i k + 4" using assms(5) unfolding words_of_def set_map set_upt by blast
  then obtain k where "k \<in> {1..<bcount i}" and x: "x = blk a i k \<or> x = blk a i k + 4" by blast
  then have k: "0 < k" "k < bcount i" by simp_all
  show np: "\<not> off_page a x"
    using x in_page_blk [OF assms(1) k(2), of 0] in_page_blk [OF assms(1) k(2), of 4] bsize_le [OF assms(2)] by auto
  have h: "x \<noteq> a" "x \<noteq> a + 4" using x header_not_blk [OF assms(1,2) k(2), of a] header_not_blk [OF assms(1,2) k(2), of "a + 4"] by auto
  have t: "unat (blk a i k) + 4 < 2 ^ 32"
    using unat_blk [OF assms(1) k(2)] bcount_fits [OF k(2)] page_top [OF assms(1)] bsize_le [OF assms(2)] by simp
  then have "unat x = unat (blk a i k) \<or> unat x = unat (blk a i k) + 4" using x unat_add_lt [of "blk a i k" 4] by auto
  then have "unat (blk a i 0) + bsize i \<le> unat x" using blk_apart [OF assms(1) _ k(2,1)] k by auto
  then have "bsize i \<le> unat (x - blk a i 0)" by (simp add: unat_sub_if_size)
  then show "\<not> in_block (blk a i 0) (bsize i) x \<and> x \<notin> {a, a + 4, d, d + 4}"
    using h np assms(3,4) by (auto simp: in_block_def)
qed

lemma desc_at_apart:
  assumes "i < 7" "j < 7"
  shows "desc_at descs j \<notin> {desc_at descs i + 8, desc_at descs i + 12, desc_at descs i + 16, desc_at descs i + 20}"
proof -
  have "desc_at descs j \<noteq> desc_at descs i + of_nat r" if "0 < r" "r < 24" for r
  proof
    assume "desc_at descs j = desc_at descs i + of_nat r"
    then have "(of_nat (j * 24) :: u32) = of_nat (i * 24 + r)" by (simp add: desc_at_def sizeof_desc_def)
    then have "unat (of_nat (j * 24) :: u32) = unat (of_nat (i * 24 + r) :: u32)" by simp
    then have "j * 24 = i * 24 + r" using assms that by (subst (asm) (1 2) unat_of_nat_lt) simp_all
    then have "r = (j - i) * 24" by (simp add: diff_mult_distrib)
    then show False using that by (cases "j - i") auto
  qed
  from this [of 8] this [of 12] this [of 16] this [of 20] show ?thesis by simp
qed

lemma low_off_page:
  fixes v :: u32
  assumes "frame_of a = a" "unat v \<le> unat a" "unat x + r < unat v"
  shows "off_page a (x + of_nat r)"
proof (rule off_page_unat [OF assms(1)])
  have "unat x + r < 2 ^ 32" using assms(3) unat_u32(1) [of v] by simp
  then have "unat (x + of_nat r) = unat x + r" by (subst unat_add_lt) (simp_all add: unat_of_nat_lt)
  then show "unat (x + of_nat r) < unat a" using assms(2,3) by simp
qed

lemma kheap_sentinel:
  assumes "168 \<le> unat (x - descs)" "i < 7"
  shows "x \<notin> {desc_at descs i + 8, desc_at descs i + 12, desc_at descs i + 16, desc_at descs i + 20}"
proof -
  have "x \<noteq> desc_at descs i + of_nat r" if "r < 24" for r
  proof
    assume "x = desc_at descs i + of_nat r"
    then have "x - descs = of_nat (i * 24 + r)" by (simp add: desc_at_def sizeof_desc_def)
    then have "unat (x - descs) = i * 24 + r" using assms(2) that by (simp only:) (rule unat_of_nat_lt, simp)
    then show False using assms that by simp
  qed
  from this [of 8] this [of 12] this [of 16] this [of 20] show ?thesis by simp
qed

text \<open>The descriptors, which lie below the kernel's addresses, keep their sizes when an arena is made.\<close>

lemma descs_kept:
  fixes v :: u32
  assumes a: "frame_of a = a" "unat v \<le> unat a" and D: "\<And>c. c < 7 \<Longrightarrow> desc_ok m (desc_at descs c) c" "unat descs + 168 \<le> unat v"
    and i: "i < 7" and m': "\<And>x. off_page a x \<Longrightarrow> x \<notin> {desc_at descs i + 8, desc_at descs i + 12, desc_at descs i + 16, desc_at descs i + 20} \<Longrightarrow> m' x = m x"
    and c: "c < 7"
  shows "m' (desc_at descs c) = of_nat (bsize c)"
proof -
  have "off_page a (desc_at descs c)"
    using low_off_page [OF a, of descs "c * 24"] D(2) c by (simp add: desc_at_def sizeof_desc_def)
  then show ?thesis using m' desc_at_apart [OF i c] D(1) [OF c] by (simp add: desc_ok_def heap_layout)
qed

lemma malloc_small_grow:
  fixes t :: "'z kmem_scheme"
  defines "l \<equiv> pool_lock (kernel_pool t)" and "v \<equiv> vaddr_start (kernel_vaddr t)"
  assumes inv: "mm_inv t" "vspace_ok t (kernel_vaddr t)" "j < vbits (kernel_vaddr t)"
      "\<not> used t (vaddr_bitmap (kernel_vaddr t)) j" "2 \<le> card (free_frames t (kernel_pool t))"
    and D: "\<And>c. c < 7 \<Longrightarrow> desc_ok (mem t) (desc_at descs c) c" "unat descs + 168 \<le> unat v"
    and L: "held l t" "unat l + 20 \<le> unat v" "168 \<le> unat (l + 12 - descs)"
    and n: "unat n \<le> 1024" "i = class_of (unat n)" "d = desc_at descs i" "dlist (mem t) (d + 8) []"
  shows "\<exists>a F m b p. malloc_small PF_KERNEL descs n t = Inr (blk a i 0, (unlocked l t)\<lparr>mem := m, bytes := b, pmem := p\<rparr>) \<and>
    frame_of a = a \<and> page_walk t a = None \<and> F \<in> free_frames t (kernel_pool t) \<and> page_walk (t\<lparr>mem := m, bytes := b, pmem := p\<rparr>) a = Some F \<and>
    (\<forall>x. in_block (blk a i 0) (bsize i) x \<longrightarrow> m x = 0 \<and> b x = 0) \<and>
    dlist m (d + 8) (map (blk a i) [1..<bcount i]) \<and> m a = d \<and> m (a + 4) = of_nat (bcount i) - 1 \<and>
    (\<forall>x. off_page a x \<and> x \<notin> {d + 8, d + 12, d + 16, d + 20} \<longrightarrow> m x = mem t x)"
proof -
  have i: "i < 7" using class_of_bound(1) [OF n(1)] n(2) by simp
  have "unat d = unat descs + i * 24" unfolding n(3) desc_at_def sizeof_desc_def using D(2) i unat_u32(1) [of v]
    by (subst unat_add_lt) (simp_all add: unat_of_nat_lt unat_word_ariths)
  then have low: "unat d + 24 \<le> unat v" using D(2) i by simp
  have dok: "desc_ok (mem t) d i" using D(1) [OF i] n(3) by simp
  obtain a F m1 b1 p1 where na: "new_arena PF_KERNEL d t = Inr (True, t\<lparr>mem := m1, bytes := b1, pmem := p1\<rparr>)" "frame_of a = a"
      "unat v \<le> unat a" "page_walk t a = None" "F \<in> free_frames t (kernel_pool t)"
    and w1: "page_walk (t\<lparr>mem := m1, bytes := b1, pmem := p1\<rparr>) a = Some F" "frame_of F = F"
      "selfmap (t\<lparr>mem := m1, bytes := b1, pmem := p1\<rparr>)" "F \<notin> tables (t\<lparr>mem := m1, bytes := b1, pmem := p1\<rparr>)" "F \<noteq> frame_of (cr3 t)"
    and m1: "dlist m1 (d + 8) (map (blk a i) [0..<bcount i])" "m1 a = d" "m1 (a + 4) = of_nat (bcount i)"
      "\<forall>x. off_page a x \<and> x \<notin> {d + 8, d + 12, d + 16, d + 20} \<longrightarrow> m1 x = mem t x"
    using new_arena_run [OF inv i dok n(4) low [unfolded v_def]] unfolding v_def by blast
  define t1 where "t1 = t\<lparr>mem := m1, bytes := b1, pmem := p1\<rparr>"
  let ?bs = "map (blk a i) [1..<bcount i]"
  have fl: "fl_off a d" by (rule fl_off_below [OF na(2)]) (use low na(3) in simp)
  have out: "m1 x = mem t x" if "off_page a x" "x \<notin> {d + 8, d + 12, d + 16, d + 20}" for x using m1(4) that by simp
  have lk: "off_page a (l + 12)" "l + 12 \<notin> {d + 8, d + 12, d + 16, d + 20}"
    using low_off_page [OF na(2,3), of l 12] kheap_sentinel [OF L(3) i] L(2) n(3) by auto
  have od: "off_page a d" "off_page a (d + 4)" using fl by (simp_all add: fl_off_def)
  note sz = descs_kept [OF na(2,3) D i out [unfolded n(3)]]
  have fd: "find_desc DESC_CNT descs n t1 = d" "find_desc DESC_CNT descs n t = d"
    using find_desc_class [of t1 descs n 0 7] find_desc_class [of t descs n 0 7] sz n(1-3) D(1)
    by (simp_all add: t1_def DESC_CNT_def desc_at_def desc_ok_def heap_layout)
  have bs: "map (blk a i) [0..<bcount i] = blk a i 0 # ?bs" using bcount_pos [OF i] by (simp add: upt_conv_Cons)
  have nl: "\<not> list_empty (d + 8) t1" "list_empty (d + 8) t"
    using list_empty_dlist [of t1 "d + 8"] m1(1) bs list_empty_dlist [OF n(4)] by (simp_all add: t1_def)
  have grow: "malloc_small PF_KERNEL descs n t = malloc_small PF_KERNEL descs n t1"
    unfolding malloc_small_def fd Let_def using nl na(1) by (simp add: t1_def desc_free_list_def)
  have W: "words_of (set (nodes (d + 8) ?bs)) = {d + 8, d + 12, d + 16, d + 20} \<union> words_of (set ?bs)"
    by (auto simp: words_of_def nodes_def add.assoc)
  note bc = blks_clear [OF na(2) i od]
  have off: "x \<notin> words_of (set (nodes (d + 8) ?bs))" if "off_page a x" "x \<notin> {d + 8, d + 12, d + 16, d + 20}" for x
    using bc(2) that unfolding W by blast
  have hit: "\<exists>m b p. malloc_small PF_KERNEL descs n t1 =
      Inr (blk a i 0, (unlocked (pool_lock (kernel_pool t1)) t1)\<lparr>mem := m, bytes := b, pmem := p\<rparr>) \<and>
      dlist m (d + 8) ?bs \<and> m a = mem t1 a \<and> m (a + 4) = mem t1 (a + 4) - 1 \<and>
      (\<forall>x. in_block (blk a i 0) (bsize i) x \<longrightarrow> m x = 0 \<and> b x = 0) \<and> (\<forall>x. x \<notin> words F \<longrightarrow> p x = pmem t1 x) \<and>
      (\<forall>x. off_page a x \<and> x \<notin> words_of (set (nodes (d + 8) ?bs)) \<longrightarrow> m x = mem t1 x) \<and>
      (\<forall>x. \<not> in_block (blk a i 0) (bsize i) x \<and> x \<noteq> a + 4 \<and> x \<notin> words_of (set (nodes (d + 8) ?bs)) \<longrightarrow> m x = mem t1 x) \<and>
      (\<forall>x. \<not> in_block (blk a i 0) (bsize i) x \<longrightarrow> b x = bytes t1 x)"
  proof (rule malloc_small_hit [OF w1(1) [folded t1_def] na(2) _ i fd(1) _ _ fl bc(1)])
    show "0 < bcount i" using bcount_pos [OF i] by simp
    show "desc_ok (mem t1) d i" using out [OF od(1)] out [OF od(2)] dok by (simp add: t1_def desc_ok_def heap_layout)
    show "dlist (mem t1) (d + 8) (blk a i 0 # ?bs)" using m1(1) bs by (simp add: t1_def)
    show "held (pool_lock (kernel_pool t1)) t1" using out [OF lk] L(1) by (simp add: held_def t1_def l_def running_thread_def)
    show "off_page a (pool_lock (kernel_pool t1) + 12)" "pool_lock (kernel_pool t1) + 12 \<notin> words_of (set (nodes (d + 8) ?bs))"
      using lk(1) off [OF lk] by (simp_all add: t1_def l_def)
  qed
  then obtain m b p where r: "malloc_small PF_KERNEL descs n t1 =
      Inr (blk a i 0, (unlocked (pool_lock (kernel_pool t1)) t1)\<lparr>mem := m, bytes := b, pmem := p\<rparr>)"
      "dlist m (d + 8) ?bs" "m a = mem t1 a" "m (a + 4) = mem t1 (a + 4) - 1"
      "\<forall>x. in_block (blk a i 0) (bsize i) x \<longrightarrow> m x = 0 \<and> b x = 0" "\<forall>x. x \<notin> words F \<longrightarrow> p x = pmem t1 x"
      "\<forall>x. off_page a x \<and> x \<notin> words_of (set (nodes (d + 8) ?bs)) \<longrightarrow> m x = mem t1 x" by blast
  have st: "(unlocked (pool_lock (kernel_pool t1)) t1)\<lparr>mem := m, bytes := b, pmem := p\<rparr> = (unlocked l t)\<lparr>mem := m, bytes := b, pmem := p\<rparr>"
    by (simp add: t1_def unlocked_def l_def)
  have wk: "page_walk (t\<lparr>mem := m, bytes := b, pmem := p\<rparr>) a = Some F"
    using data_frame_write(1) [OF w1(3,2,4), of "t\<lparr>mem := m, bytes := b, pmem := p\<rparr>" a] w1(1,5) r(6) by (simp add: t1_def)
  have fr: "m x = mem t x" if "off_page a x" "x \<notin> {d + 8, d + 12, d + 16, d + 20}" for x
    using r(7) off [OF that] out [OF that] that(1) by (simp add: t1_def)
  have "m a = d" "m (a + 4) = of_nat (bcount i) - 1" using r(3,4) m1(2,3) by (simp_all add: t1_def)
  then show ?thesis using r(1,2,5) st grow na(2,4,5) wk fr by (intro exI [of _ a] exI [of _ F] exI [of _ m] exI [of _ b] exI [of _ p]) simp
qed

text \<open>
  The kernel heap is initialised: the seven descriptors have their sizes, they and the lock of the kernel pool lie below
  the addresses the kernel allocates, apart from each other, and nobody holds the lock or waits for it.
\<close>

definition kheap_ok :: "'z kmem_scheme \<Rightarrow> bool" where
  "kheap_ok s = (let descs = k_block_descs s; l = pool_lock (kernel_pool s); top = unat (vaddr_start (kernel_vaddr s)) in
     (\<forall>i<7. desc_ok (mem s) (desc_at descs i) i) \<and> unat descs + 168 \<le> top \<and>
     sema_value s (l + 4) = 1 \<and> lock_holder s l = NULL \<and> lock_repeat s l = 0 \<and> mem s (l + 12) = l + 16 \<and>
     unat l + 20 \<le> top \<and> 168 \<le> unat (l + 12 - descs) \<and> running_thread s \<noteq> NULL)"


text \<open>An allocation of at most 1024 bytes by a kernel thread, when the free list of its size class is empty, takes
  a fresh page of the kernel, maps it to a free frame of the kernel pool, cuts it into blocks and returns the first.  The
  class is the smallest that holds the request; the block is zero, the other blocks are the free list of the class in
  order, the arena counts them, the lock is free again, and no word outside the page and the head of that list changes.\<close>

theorem sys_malloc_new_arena:
  fixes s :: "'z kmem_scheme"
  assumes "mm_inv s" "vspace_ok s (kernel_vaddr s)" "j < vbits (kernel_vaddr s)"
      "\<not> used s (vaddr_bitmap (kernel_vaddr s)) j" "2 \<le> card (free_frames s (kernel_pool s))"
    and "kheap_ok s" "pgdir (tasks s (running_thread s)) = NULL" "0 < n" "n \<le> 1024" "n < pool_size (kernel_pool s)"
    and "i = class_of (unat n)" "d = desc_at (k_block_descs s) i" "dlist (mem s) (desc_free_list d) []"
  shows "\<exists>a F m b p. sys_malloc n s = Inr (a + sizeof_arena, s\<lparr>mem := m, bytes := b, pmem := p\<rparr>) \<and>
    frame_of a = a \<and> page_walk s a = None \<and> F \<in> free_frames s (kernel_pool s) \<and>
    page_walk (s\<lparr>mem := m, bytes := b, pmem := p\<rparr>) a = Some F \<and>
    unat n \<le> bsize i \<and> (\<forall>c<i. bsize c < unat n) \<and>
    (\<forall>x. in_block (a + sizeof_arena) (bsize i) x \<longrightarrow> m x = 0 \<and> b x = 0) \<and>
    dlist m (desc_free_list d) (map (blk a i) [1..<bcount i]) \<and> m (arena_desc a) = d \<and> m (arena_cnt a) = of_nat (bcount i) - 1 \<and>
    (\<forall>x. off_page a x \<and> x \<notin> {d + 8, d + 12, d + 16, d + 20} \<longrightarrow> m x = mem s x)"
proof -
  let ?l = "pool_lock (kernel_pool s)" and ?top = "unat (vaddr_start (kernel_vaddr s))"
  have n: "unat n \<le> 1024" using assms(9) by (simp add: word_le_nat_alt)
  have i: "i < 7" "unat n \<le> bsize i" "\<forall>c<i. bsize c < unat n" using class_of_bound [OF n] assms(11) by auto
  note K = assms(6) [unfolded kheap_ok_def Let_def]
  define t where "t = locked ?l s"
  have acq: "lock_acquire_now ?l s = Inr t" unfolding t_def by (rule lock_acquire_free) (use K in auto)
  have tsel: "mem t = mem s" "kernel_vaddr t = kernel_vaddr s" "kernel_pool t = kernel_pool s" "cr3 t = cr3 s" "pmem t = pmem s"
    "bytes t = bytes s" "user_pool t = user_pool s" "k_block_descs t = k_block_descs s" by (simp_all add: t_def locked_def)
  have inv: "mm_inv t" "vspace_ok t (kernel_vaddr t)" "j < vbits (kernel_vaddr t)"
    "\<not> used t (vaddr_bitmap (kernel_vaddr t)) j" "2 \<le> card (free_frames t (kernel_pool t))"
    using assms(1-5) mm_inv_cong [of t s] vspace_ok_cong [of t s] used_cong [of t s] free_frames_cong [of t s] by (simp_all add: tsel)
  have blk0: "a + sizeof_arena = blk a i 0" for a by (simp add: blk_def sizeof_arena_def)
  have "\<exists>a F m b p. malloc_small PF_KERNEL (k_block_descs s) n t = Inr (blk a i 0, (unlocked (pool_lock (kernel_pool t)) t)\<lparr>mem := m, bytes := b, pmem := p\<rparr>) \<and>
      frame_of a = a \<and> page_walk t a = None \<and> F \<in> free_frames t (kernel_pool t) \<and> page_walk (t\<lparr>mem := m, bytes := b, pmem := p\<rparr>) a = Some F \<and>
      (\<forall>x. in_block (blk a i 0) (bsize i) x \<longrightarrow> m x = 0 \<and> b x = 0) \<and>
      dlist m (d + 8) (map (blk a i) [1..<bcount i]) \<and> m a = d \<and> m (a + 4) = of_nat (bcount i) - 1 \<and>
      (\<forall>x. off_page a x \<and> x \<notin> {d + 8, d + 12, d + 16, d + 20} \<longrightarrow> m x = mem t x)"
    by (rule malloc_small_grow [OF inv _ _ _ _ _ n assms(11,12)])
      (use K assms(13) in \<open>simp_all add: tsel desc_free_list_def held_def t_def locked_def running_thread_def\<close>)
  then obtain a F m b p where r: "malloc_small PF_KERNEL (k_block_descs s) n t = Inr (blk a i 0, (unlocked ?l t)\<lparr>mem := m, bytes := b, pmem := p\<rparr>)"
      "frame_of a = a" "page_walk t a = None" "F \<in> free_frames t (kernel_pool t)" "page_walk (t\<lparr>mem := m, bytes := b, pmem := p\<rparr>) a = Some F"
      "\<forall>x. in_block (blk a i 0) (bsize i) x \<longrightarrow> m x = 0 \<and> b x = 0"
      "dlist m (d + 8) (map (blk a i) [1..<bcount i])" "m a = d" "m (a + 4) = of_nat (bcount i) - 1"
      "\<forall>x. off_page a x \<and> x \<notin> {d + 8, d + 12, d + 16, d + 20} \<longrightarrow> m x = mem s x" unfolding tsel by blast
  have st: "(unlocked ?l t)\<lparr>mem := m, bytes := b, pmem := p\<rparr> = s\<lparr>mem := m, bytes := b, pmem := p\<rparr>"
    using unlocked_locked [of s ?l] K by (simp add: t_def)
  have big: "\<not> 1024 < n" using assms(9) by simp
  have run: "sys_malloc n s = Inr (blk a i 0, s\<lparr>mem := m, bytes := b, pmem := p\<rparr>)"
    using assms(7,8,10) big acq r(1) st by (simp add: sys_malloc_def Let_def thread_pool_def pool_of_def)
  have w: "page_walk (s\<lparr>mem := m, bytes := b, pmem := p\<rparr>) a = Some F" "page_walk s a = None" "F \<in> free_frames s (kernel_pool s)"
    using r(3-5) walk_cong(1) [of "s\<lparr>mem := m, bytes := b, pmem := p\<rparr>" "t\<lparr>mem := m, bytes := b, pmem := p\<rparr>" a]
      walk_cong(1) [of s t a] free_frames_cong [of t s] by (simp_all add: tsel)
  show ?thesis unfolding blk0
    by (rule exI [of _ a], rule exI [of _ F], rule exI [of _ m], rule exI [of _ b], rule exI [of _ p])
      (use run w r i in \<open>simp add: desc_free_list_def heap_layout\<close>)
qed

text \<open>The kernel of three megabytes with its heap and pool lock initialised.\<close>

definition boot_heap :: kmem where
  "boot_heap = list_init 0xc0009088 (block_desc_init 0xc0007000 boot_kmem)"

lemma block_desc_init_rest:
  "eflags (block_desc_init_loop n k d s) = eflags s" "bytes (block_desc_init_loop n k d s) = bytes s"
  "machine.more (block_desc_init_loop n k d s) = machine.more s"
  by (induction n arbitrary: k d s) (simp_all add: Let_def)

lemma boot_heap_eq: "\<exists>m. boot_heap = boot_kmem\<lparr>mem := m\<rparr>"
  using machine_mem_eq [of boot_heap boot_kmem] unfolding boot_heap_def block_desc_init_def
  by (metis block_desc_init_rest list_op_frame(1-3))

lemma boot_heap_mem:
  "\<forall>c<7. desc_ok (mem boot_heap) (desc_at 0xc0007000 c) c" "mem boot_heap 0xc000908c = 0xc0009090" "dlist (mem boot_heap) 0xc0007080 []"
proof -
  let ?h = "block_desc_init 0xc0007000 boot_kmem"
  have far: "mem boot_heap x = mem ?h x" if "x \<notin> {0xc0009088, 0xc000908c, 0xc0009090, 0xc0009094}" for x
    using that by (simp add: boot_heap_def list_init_mem)
  have "mem boot_heap (desc_at 0xc0007000 c + r) = mem ?h (desc_at 0xc0007000 c + r)" if "c < 7" "r \<in> {0, 4}" for c r
  proof -
    have "c \<in> {0, 1, 2, 3, 4, 5, 6}" using that(1) by auto
    then show ?thesis using that(2) by (intro far) (auto simp: desc_at_def sizeof_desc_def)
  qed
  then have "mem boot_heap (desc_at 0xc0007000 c) = mem ?h (desc_at 0xc0007000 c)"
    "mem boot_heap (desc_at 0xc0007000 c + 4) = mem ?h (desc_at 0xc0007000 c + 4)" if "c < 7" for c using that by (metis add_0_right insertCI)+
  then show "\<forall>c<7. desc_ok (mem boot_heap) (desc_at 0xc0007000 c) c"
    using block_desc_init_ok(1) [of _ "0xc0007000" boot_kmem] by (simp add: desc_ok_def heap_layout)
  show "mem boot_heap 0xc000908c = 0xc0009090" by (simp add: boot_heap_def list_init_mem)
  have "dlist (mem ?h) 0xc0007080 []" using block_desc_init_ok(2) [of 5 "0xc0007000" boot_kmem] by (simp add: desc_at_def sizeof_desc_def)
  moreover have "mem boot_heap x = mem ?h x" if "x \<in> words_of (set (nodes 0xc0007080 []))" for x
    using that by (intro far) (auto simp: words_of_def nodes_def)
  ultimately show "dlist (mem boot_heap) 0xc0007080 []" using dlist_frame [of "0xc0007080" "[]" "mem boot_heap" "mem ?h"] by blast
qed

lemma class_of_300: "class_of 300 = 5"
  unfolding class_of_def
proof (rule Least_equality)
  fix i assume "300 \<le> bsize i"
  show "5 \<le> i"
  proof (rule ccontr)
    assume "\<not> 5 \<le> i"
    then have "i \<in> {0, 1, 2, 3, 4}" by auto
    with \<open>300 \<le> bsize i\<close> show False by (auto simp: bsize_def)
  qed
qed (simp add: bsize_def)

theorem sys_malloc_new_arena_witness:
  "\<exists>a F m b p. sys_malloc 300 boot_heap = Inr (a + sizeof_arena, boot_heap\<lparr>mem := m, bytes := b, pmem := p\<rparr>) \<and>
     page_walk boot_heap a = None \<and> page_walk (boot_heap\<lparr>mem := m, bytes := b, pmem := p\<rparr>) a = Some F \<and> m (arena_cnt a) = 6"
proof -
  obtain m0 where e: "boot_heap = boot_kmem\<lparr>mem := m0\<rparr>" using boot_heap_eq by blast
  have sel: "pmem boot_heap = pmem boot_kmem" "cr3 boot_heap = cr3 boot_kmem" "bytes boot_heap = bytes boot_kmem"
    "kernel_pool boot_heap = kernel_pool boot_kmem" "user_pool boot_heap = user_pool boot_kmem" "kernel_vaddr boot_heap = kernel_vaddr boot_kmem"
    by (simp_all add: e)
  have v: "vspace PF_KERNEL boot_kmem = kernel_vaddr boot_kmem" by (simp add: vspace_def)
  have b: "0 < vbits (kernel_vaddr boot_heap)" using boot_vbits unfolding v sel by simp
  have u: "\<not> used boot_heap (vaddr_bitmap (kernel_vaddr boot_heap)) 0"
    using boot_free_run [of "vaddr_bitmap (kernel_vaddr boot_kmem)" 1 0] used_cong [OF sel(3)] by (simp add: free_run_def sel)
  have r: "2 \<le> card (free_frames boot_heap (kernel_pool boot_heap))"
    using boot_room [of 1] by (simp add: room_def free_frames_cong [OF sel(3)] sel)
  have d: "desc_at 0xc0007000 5 = 0xc0007078" by (simp add: desc_at_def sizeof_desc_def)
  have ps: "300 < pool_size (kernel_pool boot_heap)" unfolding sel boot_kmem_sel
    by (simp add: boot_kpool_def free_pages_of_def word_less_nat_alt)
  have th: "pgdir (tasks boot_heap (running_thread boot_heap)) = NULL" "k_block_descs boot_heap = 0xc0007000"
    by (simp_all add: e boot_kmem_def blank_task_def)
  have inv: "mm_inv boot_heap" "vspace_ok boot_heap (kernel_vaddr boot_heap)"
    using mm_inv_cong [OF sel(1-5)] vspace_ok_cong [OF sel(1-5)] boot_kmem_inv boot_vspace_ok unfolding v sel by simp_all
  have k: "kheap_ok boot_heap"
    using boot_heap_mem(1,2) by (simp add: kheap_ok_def Let_def e boot_kmem_def boot_kpool_def running_thread_def K_HEAP_STACK_def)
  have "\<exists>a F m b p. sys_malloc 300 boot_heap = Inr (a + sizeof_arena, boot_heap\<lparr>mem := m, bytes := b, pmem := p\<rparr>) \<and>
      frame_of a = a \<and> page_walk boot_heap a = None \<and> F \<in> free_frames boot_heap (kernel_pool boot_heap) \<and>
      page_walk (boot_heap\<lparr>mem := m, bytes := b, pmem := p\<rparr>) a = Some F \<and>
      unat (300 :: u32) \<le> bsize 5 \<and> (\<forall>c<5. bsize c < unat (300 :: u32)) \<and>
      (\<forall>x. in_block (a + sizeof_arena) (bsize 5) x \<longrightarrow> m x = 0 \<and> b x = 0) \<and>
      dlist m (desc_free_list 0xc0007078) (map (blk a 5) [1..<bcount 5]) \<and> m (arena_desc a) = 0xc0007078 \<and>
      m (arena_cnt a) = of_nat (bcount 5) - 1 \<and>
      (\<forall>x. off_page a x \<and> x \<notin> {0xc0007078 + 8, 0xc0007078 + 12, 0xc0007078 + 16, 0xc0007078 + 20} \<longrightarrow> m x = mem boot_heap x)"
    by (rule sys_malloc_new_arena [OF inv b u r k th(1) _ _ ps])
      (use boot_heap_mem(3) class_of_300 d th(2) in \<open>simp_all add: desc_free_list_def\<close>)
  moreover have c: "of_nat (bcount 5) - 1 = (6 :: u32)" by (simp add: bcount_def bsize_def)
  ultimately show ?thesis unfolding c by blast
qed

end
