(* ===== verification/Mem_Bytes.thy ===== *)
theory Mem_Bytes
  imports Mem_Alloc
begin

text \<open>
  Which bytes the page allocator writes: those of the bitmaps and no others.  What a client keeps in mapped pages is
  therefore not touched when pages are allocated.  (For giving pages back this is part of \<open>freed_run\<close>.)
\<close>

lemma palloc_outside:
  fixes s :: "'z kmem_scheme"
  assumes "palloc p s = Inr (F, s')" "bm_ok (pool_bitmap p)"
  shows "\<exists>b. s' = s\<lparr>bytes := b\<rparr> \<and> (\<forall>x. x \<notin> bm_bytes (pool_bitmap p) \<longrightarrow> b x = bytes s x)"
proof -
  let ?b = "pool_bitmap p"
  have "F = NULL \<and> s' = s \<or> (\<exists>i<bm_bits ?b. bitmap_set ?b (of_nat i) 1 s = Inr s')"
    using assms(1) scan_one [OF assms(2), of s] Least_free_lt [of ?b s]
    by (auto simp: palloc_def bind_r_eq_Inr split: if_splits)
  then show ?thesis
  proof (elim disjE exE conjE)
    fix i assume i: "i < bm_bits ?b" "bitmap_set ?b (of_nat i) 1 s = Inr s'"
    have u: "unat (of_nat i :: u32) = i" using i(1) assms(2) by (simp add: bm_ok_def unat_of_nat_lt)
    obtain b where b: "s' = s\<lparr>bytes := b\<rparr>" using bitmap_set_bytes [OF i(2)] by blast
    have "b x = bytes s x" if "x \<notin> bm_bytes ?b" for x
      using bitmap_set_outside [OF i(2) _ that] i(1) u b by simp
    then show ?thesis using b by blast
  qed (metis bytes_sets(1) machine.surjective machine.update_convs(3))
qed

lemma vwrite_pmem: "vwrite va v s = Inr s' \<Longrightarrow> \<exists>p. s' = s\<lparr>pmem := p\<rparr>"
  by (auto simp: vwrite_def pwr_def split: option.splits)

lemma vfill_pmem:
  fixes s :: "'z pgmachine_scheme"
  shows "vfill n va v s = Inr s' \<Longrightarrow> \<exists>p. s' = s\<lparr>pmem := p\<rparr>"
proof (induction n arbitrary: va s)
  case 0
  then show ?case by (intro exI [of _ "pmem s"]) simp
next
  case (Suc n)
  then obtain s1 where s1: "vwrite va v s = Inr s1" "vfill n (va + 4) v s1 = Inr s'" by (auto simp: bind_r_eq_Inr)
  then show ?case using Suc.IH [OF s1(2)] vwrite_pmem [OF s1(1)] by auto
qed

text \<open>The states that differ from \<open>s\<close> in physical memory and in bytes of \<open>B\<close>.\<close>

definition only_bytes :: "addr set \<Rightarrow> 'z kmem_scheme \<Rightarrow> 'z kmem_scheme \<Rightarrow> bool" where
  "only_bytes B s s' = (\<exists>b p. s' = s\<lparr>bytes := b, pmem := p\<rparr> \<and> (\<forall>x. x \<notin> B \<longrightarrow> b x = bytes s x))"

lemma only_bytes_refl: "only_bytes B s s"
  unfolding only_bytes_def by (intro exI [of _ "bytes s"] exI [of _ "pmem s"]) simp

lemma only_bytes_trans: "only_bytes B s s1 \<Longrightarrow> only_bytes B s1 s2 \<Longrightarrow> only_bytes B s s2"
  unfolding only_bytes_def by fastforce

lemma only_bytes_pmem: "only_bytes B s (s\<lparr>pmem := p\<rparr>)"
  unfolding only_bytes_def by (intro exI [of _ "bytes s"] exI [of _ p]) simp

lemma only_bytes_sel:
  assumes "only_bytes B s s'"
  shows "x \<notin> B \<Longrightarrow> bytes s' x = bytes s x" "kernel_pool s' = kernel_pool s" "user_pool s' = user_pool s"
  using assms by (auto simp: only_bytes_def)

lemma only_bytes_mono: "only_bytes B s s' \<Longrightarrow> B \<subseteq> C \<Longrightarrow> only_bytes C s s'"
  unfolding only_bytes_def by blast

lemma palloc_only_bytes:
  fixes s :: "'z kmem_scheme"
  assumes "palloc p s = Inr (F, s')" "bm_ok (pool_bitmap p)"
  shows "only_bytes (bm_bytes (pool_bitmap p)) s s'"
proof -
  obtain b where b: "s' = s\<lparr>bytes := b\<rparr>" "\<forall>x. x \<notin> bm_bytes (pool_bitmap p) \<longrightarrow> b x = bytes s x"
    using palloc_outside [OF assms] by blast
  then show ?thesis unfolding only_bytes_def by (intro exI [of _ b] exI [of _ "pmem s"]) simp
qed

lemma page_table_add_only_bytes:
  fixes s :: "'z kmem_scheme"
  assumes "page_table_add va phy s = Inr s'" "bm_ok (pool_bitmap (kernel_pool s))"
  shows "only_bytes (bm_bytes (pool_bitmap (kernel_pool s))) s s'"
proof -
  let ?B = "bm_bytes (pool_bitmap (kernel_pool s))"
  have step: "only_bytes ?B t t'" if "vwrite a v t = Inr t'" for a v and t t' :: "'z kmem_scheme"
    using vwrite_pmem [OF that] only_bytes_pmem by auto
  have fill: "only_bytes ?B t t'" if "vfill n a v t = Inr t'" for n a v and t t' :: "'z kmem_scheme"
    using vfill_pmem [OF that] only_bytes_pmem by auto
  obtain e where e: "vread (pde_ptr va) s = Inr e" using assms(1) by (auto simp: page_table_add_def bind_r_eq_Inr Let_def)
  show ?thesis
  proof (cases "present e")
    case True
    then show ?thesis using assms(1) e step by (auto simp: page_table_add_def bind_r_eq_Inr ASSERT_eq_Inr Let_def)
  next
    case False
    then obtain T s1 s2 s3 where r: "palloc (kernel_pool s) s = Inr (T, s1)" "vwrite (pde_ptr va) (T OR PG_US_U OR PG_RW_W OR PG_P_1) s1 = Inr s2"
      "vfill 1024 (pte_ptr va AND 0xfffff000) 0 s2 = Inr s3" "vwrite (pte_ptr va) (phy OR PG_US_U OR PG_RW_W OR PG_P_1) s3 = Inr s'"
      using assms(1) e by (fastforce simp: page_table_add_def bind_r_eq_Inr ASSERT_eq_Inr Let_def)
    show ?thesis
      by (rule only_bytes_trans [OF palloc_only_bytes [OF r(1) assms(2)]], rule only_bytes_trans [OF step [OF r(2)]],
          rule only_bytes_trans [OF fill [OF r(3)] step [OF r(4)]])
  qed
qed

definition pool_bytes :: "'z kmem_scheme \<Rightarrow> addr set" where
  "pool_bytes s = bm_bytes (pool_bitmap (kernel_pool s)) \<union> bm_bytes (pool_bitmap (user_pool s))"

lemma map_pages_only_bytes:
  fixes s :: "'z kmem_scheme"
  assumes "map_pages pf n va s = Inr (ok, s')" "pools_ok s"
  shows "only_bytes (pool_bytes s) s s'"
  using assms
proof (induction n arbitrary: va s)
  case 0
  then show ?case using only_bytes_refl by simp
next
  case (Suc n)
  let ?p = "if pf = PF_KERNEL then kernel_pool s else user_pool s"
  have ok: "bm_ok (pool_bitmap (kernel_pool s))" "bm_ok (pool_bitmap ?p)" using Suc.prems(2) by (auto simp: pools_ok_def pool_ok_def)
  obtain F s1 where p: "palloc ?p s = Inr (F, s1)" using Suc.prems(1) by (auto simp: bind_r_eq_Inr)
  have o1: "only_bytes (pool_bytes s) s s1"
    by (rule only_bytes_mono [OF palloc_only_bytes [OF p ok(2)]]) (auto simp: pool_bytes_def)
  show ?case
  proof (cases "F = NULL")
    case True
    then show ?thesis using Suc.prems(1) p o1 by simp
  next
    case False
    then obtain s2 where s2: "page_table_add va F s1 = Inr s2" "map_pages pf n (va + PG_SIZE) s2 = Inr (ok, s')"
      using Suc.prems(1) p by (auto simp: bind_r_eq_Inr)
    note 1 = only_bytes_sel(2,3) [OF o1]
    have o2: "only_bytes (pool_bytes s) s1 s2"
      by (rule only_bytes_mono [OF page_table_add_only_bytes [OF s2(1)]]) (use ok 1 in \<open>auto simp: pool_bytes_def\<close>)
    note 2 = only_bytes_sel(2,3) [OF o2]
    have "only_bytes (pool_bytes s2) s2 s'" by (rule Suc.IH [OF s2(2)]) (use Suc.prems(2) 1 2 in \<open>simp add: pools_ok_def\<close>)
    moreover have "pool_bytes s2 = pool_bytes s" by (simp add: pool_bytes_def 1 2)
    ultimately show ?thesis using only_bytes_trans [OF o1 only_bytes_trans [OF o2]] by simp
  qed
qed

lemma malloc_pages_only_bytes:
  fixes s :: "'z kmem_scheme"
  assumes inv: "mm_inv s" and va: "vspace_ok s (vspace pf s)" and c: "1 \<le> unat n"
    and j: "j + unat n \<le> vbits (vspace pf s)" "free_run s (vaddr_bitmap (vspace pf s)) (unat n) j"
    and low: "pf = PF_USER \<Longrightarrow> unat (vpage (vspace pf s) j) < 0xc0000000 - 4096"
    and m: "malloc_pages pf n s = Inr (a, s')"
  shows "only_bytes (pool_bytes s \<union> bm_bytes (vaddr_bitmap (vspace pf s))) s s'"
proof -
  let ?B = "pool_bytes s \<union> bm_bytes (vaddr_bitmap (vspace pf s))"
  from vaddr_get_run [OF inv va c j low] obtain k b where get: "vaddr_get pf n s = Inr (vpage (vspace pf s) k, s\<lparr>bytes := b\<rparr>)"
    and b: "\<forall>x. x \<notin> bm_bytes (vaddr_bitmap (vspace pf s)) \<longrightarrow> b x = bytes s x" by blast
  have o1: "only_bytes ?B s (s\<lparr>bytes := b\<rparr>)" unfolding only_bytes_def
    by (intro exI [of _ b] exI [of _ "pmem s"]) (use b in simp)
  consider "s' = s\<lparr>bytes := b\<rparr>" | ok where "map_pages pf (unat n) (vpage (vspace pf s) k) (s\<lparr>bytes := b\<rparr>) = Inr (ok, s')"
    using m get by (auto simp: malloc_pages_def bind_r_eq_Inr ASSERT_eq_Inr split: if_splits)
  then show ?thesis
  proof cases
    case 2
    have p: "pools_ok (s\<lparr>bytes := b\<rparr>)" using inv by (simp add: mm_inv_def pools_ok_def)
    have "only_bytes ?B (s\<lparr>bytes := b\<rparr>) s'"
      by (rule only_bytes_mono [OF map_pages_only_bytes [OF 2 p]]) (simp add: pool_bytes_def)
    then show ?thesis by (rule only_bytes_trans [OF o1])
  qed (use o1 in simp)
qed

end
