(* ===== verification/Heap_Place.thy ===== *)
theory Heap_Place
  imports Heap_Props Mem_Bytes
begin

text \<open>
  Where the words of the kernel heap are.  The heap is described by its arenas, a map from addresses to kinds, and the
  free list of each size class.  \<open>place\<close> gives to each address the part of the heap it belongs to, so that
  two words are different when their places are.
\<close>

lemma unat_add_of_nat: "unat (a :: u32) + n < 2 ^ 32 \<Longrightarrow> unat (a + of_nat n) = unat a + n"
  by (subst unat_add_lt) (simp_all add: unat_of_nat_lt)

section \<open>Arenas\<close>

text \<open>An arena is a page of blocks of one class, or a run of \<open>n\<close> pages that is one large block.\<close>

datatype arena_kind = Blocks nat | Pages nat

fun span :: "arena_kind \<Rightarrow> nat" where
  "span (Blocks i) = 1"
| "span (Pages n) = n"

fun kind_ok :: "arena_kind \<Rightarrow> bool" where
  "kind_ok (Blocks i) = (i < 7)"
| "kind_ok (Pages n) = (0 < n)"

type_synonym arenas = "addr \<Rightarrow> arena_kind option"
type_synonym free_lists = "nat \<Rightarrow> addr list"

text \<open>The descriptors at \<open>D\<close> lie below \<open>lim\<close>, the arenas above it and apart from each other.\<close>

definition arenas_ok :: "nat \<Rightarrow> addr \<Rightarrow> arenas \<Rightarrow> bool" where
  "arenas_ok lim D A = (unat D + 168 \<le> lim \<and>
     (\<forall>a \<kappa>. A a = Some \<kappa> \<longrightarrow> kind_ok \<kappa> \<and> frame_of a = a \<and> lim \<le> unat a \<and> unat a + span \<kappa> * 4096 \<le> 2 ^ 32) \<and>
     (\<forall>a \<kappa> a' \<kappa>'. A a = Some \<kappa> \<and> A a' = Some \<kappa>' \<and> a \<noteq> a' \<longrightarrow> set (pages a (span \<kappa>)) \<inter> set (pages a' (span \<kappa>')) = {}))"

lemma arenas_okD:
  assumes "arenas_ok lim D A" "A a = Some \<kappa>"
  shows "kind_ok \<kappa>" "frame_of a = a" "lim \<le> unat a" "unat a + span \<kappa> * 4096 \<le> 2 ^ 32" "0 < span \<kappa>"
  using assms unfolding arenas_ok_def by blast+ (use assms in \<open>cases \<kappa>; fastforce simp: arenas_ok_def\<close>)

lemma arenas_ok_restrict: "arenas_ok lim D A \<Longrightarrow> arenas_ok lim D (A(a := None))"
  unfolding arenas_ok_def by (auto split: if_splits)

lemma pages_head: "0 < n \<Longrightarrow> a \<in> set (pages a n)"
  by (cases n) (simp_all add: pages_Suc)

section \<open>Places\<close>

datatype place = Desc nat nat | Head addr nat | Block addr nat

definition place :: "nat \<Rightarrow> addr \<Rightarrow> arenas \<Rightarrow> addr \<Rightarrow> place" where
  "place lim D A x =
     (if unat x < lim then Desc ((unat x - unat D) div 24) ((unat x - unat D) mod 24)
      else let r = unat x mod 4096 in
        if A (frame_of x) \<noteq> None \<and> r < 12 then Head (frame_of x) r
        else Block (frame_of x) (case A (frame_of x) of Some (Blocks i) \<Rightarrow> (r - 12) div bsize i | _ \<Rightarrow> 0))"

lemma unat_desc_at:
  assumes "unat D + 168 \<le> lim" "lim \<le> 2 ^ 32" "c < 7" "r < 24"
  shows "unat (desc_at D c + of_nat r) = unat D + c * 24 + r"
proof -
  have e: "desc_at D c + of_nat r = D + of_nat (c * 24 + r)" by (simp add: desc_at_def sizeof_desc_def)
  have "c * 24 + r < 168" using assms(3,4) by simp
  then show ?thesis unfolding e using assms(1,2) by (subst unat_add_of_nat) simp_all
qed

lemma place_desc:
  assumes "arenas_ok lim D A" "lim \<le> 2 ^ 32" "c < 7" "r < 24"
  shows "place lim D A (desc_at D c + of_nat r) = Desc c r"
proof -
  have D: "unat D + 168 \<le> lim" using assms(1) by (simp add: arenas_ok_def)
  have "(unat D + c * 24 + r - unat D) div 24 = c" "(unat D + c * 24 + r - unat D) mod 24 = r" using assms(4) by (simp_all add: add.assoc)
  moreover have "unat D + c * 24 + r < lim" using D assms(3,4) by simp
  ultimately show ?thesis unfolding place_def unat_desc_at [OF D assms(2-4)] by simp
qed

lemma page_offset:
  assumes "frame_of a = a" "r < 4096"
  shows "frame_of (a + of_nat r) = a" "unat (a + of_nat r) = unat a + r" "(unat a + r) mod 4096 = r"
proof -
  obtain q where q: "unat a = q * 4096" using frame_multiple [OF assms(1)] .
  show u: "unat (a + of_nat r) = unat a + r"
    using page_top [OF assms(1)] assms(2) by (subst unat_add_lt) (simp_all add: unat_of_nat_lt)
  show "(unat a + r) mod 4096 = r" using q assms(2) by simp
  have "unat (frame_of (a + of_nat r)) = unat a"
    unfolding unat_frame_of u using q assms(2) by simp
  then show "frame_of (a + of_nat r) = a" by (rule unat_eqI)
qed

lemma page_offset_obtain:
  obtains r where "r < 4096" "x = frame_of x + of_nat r" "unat x mod 4096 = r"
proof
  show "unat x mod 4096 < 4096" by simp
  have "x = frame_of x + (x - frame_of x)" by simp
  also have "x - frame_of x = of_nat (unat x mod 4096)"
    by (rule unat_eqI) (simp add: page_split [symmetric] unat_offset unat_of_nat_lt)
  finally show "x = frame_of x + of_nat (unat x mod 4096)" .
qed simp

lemma place_page:
  assumes "arenas_ok lim D A" "A a = Some \<kappa>" "p \<in> set (pages a (span \<kappa>))"
  shows "frame_of p = p" "lim \<le> unat p" "p \<noteq> a \<Longrightarrow> A p = None"
proof -
  note A = arenas_okD [OF assms(1,2)]
  obtain q where q: "unat a = q * 4096" using frame_multiple [OF A(2)] .
  obtain j where j: "j < span \<kappa>" "p = a + of_nat j * PG_SIZE" using assms(3) by (auto simp: pages_def)
  have e: "p = a + of_nat (j * 4096)" by (simp add: j(2) PG_SIZE_def)
  have u: "unat p = (q + j) * 4096" unfolding e using A(4) j(1) q by (subst unat_add_of_nat) simp_all
  then show "frame_of p = p" by (simp add: frame_of_eq)
  show "lim \<le> unat p" using u q A(3) by simp
  show "A p = None" if ne: "p \<noteq> a"
  proof (rule ccontr)
    assume "A p \<noteq> None"
    then obtain \<kappa>' where k: "A p = Some \<kappa>'" by blast
    have "p \<in> set (pages p (span \<kappa>'))" using arenas_okD(5) [OF assms(1) k] by (rule pages_head)
    moreover have "set (pages a (span \<kappa>)) \<inter> set (pages p (span \<kappa>')) = {}"
      using assms(1,2) k ne unfolding arenas_ok_def by metis
    ultimately show False using assms(3) by blast
  qed
qed

lemma place_head:
  assumes "arenas_ok lim D A" "A a = Some \<kappa>" "r < 12"
  shows "place lim D A (a + of_nat r) = Head a r"
  using arenas_okD(2,3) [OF assms(1,2)] page_offset [of a r] assms by (simp add: place_def)

lemma place_in_page:
  assumes "arenas_ok lim D A" "A a = Some (Blocks i)" "12 \<le> r" "r < 4096"
  shows "place lim D A (a + of_nat r) = Block a ((r - 12) div bsize i)"
  using arenas_okD(2,3) [OF assms(1,2)] page_offset [of a r] assms by (simp add: place_def)

lemma in_block_blk_obtain:
  assumes "in_block (blk a i j) (bsize i) x"
  obtains r where "r < bsize i" "x = a + of_nat (12 + j * bsize i + r)"
proof
  show "unat (x - blk a i j) < bsize i" using assms by (simp add: in_block_def)
  show "x = a + of_nat (12 + j * bsize i + unat (x - blk a i j))" by (simp add: blk_def)
qed

lemma place_blk:
  assumes "arenas_ok lim D A" "A a = Some (Blocks i)" "j < bcount i" "in_block (blk a i j) (bsize i) x"
  shows "place lim D A x = Block a j"
proof -
  obtain r where r: "r < bsize i" "x = a + of_nat (12 + j * bsize i + r)" using in_block_blk_obtain [OF assms(4)] .
  have "12 + j * bsize i + r < 4096" using bcount_fits [OF assms(3)] r(1) by simp
  then have "place lim D A x = Block a ((12 + j * bsize i + r - 12) div bsize i)"
    unfolding r(2) by (intro place_in_page [OF assms(1,2)]) simp_all
  then show ?thesis using r(1) bsize_pos [of i] by (simp add: add.assoc)
qed

lemma place_node:
  assumes "arenas_ok lim D A" "A a = Some (Blocks i)" "j < bcount i"
  shows "place lim D A (blk a i j) = Block a j" "place lim D A (blk a i j + 4) = Block a j"
proof -
  have i: "i < 7" using arenas_okD(1) [OF assms(1,2)] by simp
  have "in_block (blk a i j) (bsize i) (blk a i j + of_nat r)" if "r < 16" for r
    using that bsize_le [OF i] by (intro in_block_offset) simp_all
  from this [of 0] this [of 4] show "place lim D A (blk a i j) = Block a j" "place lim D A (blk a i j + 4) = Block a j"
    using place_blk [OF assms] by simp_all
qed

lemma frame_in_run:
  assumes "frame_of a = a" "unat a + n * 4096 \<le> 2 ^ 32" "unat a \<le> unat x" "unat x < unat a + n * 4096"
  shows "frame_of x \<in> set (pages a n)"
proof -
  obtain q where q: "unat a = q * 4096" using frame_multiple [OF assms(1)] .
  define j where "j = unat x div 4096 - q"
  have j: "j < n" "unat x div 4096 = q + j"
  proof -
    have "q \<le> unat x div 4096" using assms(3) q by (simp add: less_eq_div_iff_mult_less_eq)
    moreover have "unat x div 4096 < q + n" using assms(4) q by (simp add: div_less_iff_less_mult algebra_simps)
    ultimately show "j < n" "unat x div 4096 = q + j" by (simp_all add: j_def)
  qed
  have "frame_of x = a + of_nat j * PG_SIZE"
  proof (rule unat_eqI)
    have e: "a + of_nat j * PG_SIZE = a + of_nat (j * 4096)" by (simp add: PG_SIZE_def)
    have "unat (a + of_nat (j * 4096)) = q * 4096 + j * 4096"
      using assms(2) j(1) q by (subst unat_add_of_nat) simp_all
    then show "unat (frame_of x) = unat (a + of_nat j * PG_SIZE)" unfolding e unat_frame_of by (simp add: j(2))
  qed
  then show ?thesis unfolding pages_def using j(1) by auto
qed

lemma place_large:
  assumes "arenas_ok lim D A" "A a = Some (Pages n)" "in_block (a + 12) (n * 4096 - 12) x"
  shows "\<exists>p\<in>set (pages a n). place lim D A x = Block p 0 \<and> frame_of x = p"
proof -
  note A = arenas_okD [OF assms(1,2), unfolded span.simps]
  have u12: "unat (a + 12) = unat a + 12" using page_offset(2) [OF A(2), of 12] by simp
  have x: "unat a + 12 \<le> unat x" "unat x < unat a + n * 4096"
    using assms(3) A(4,5) in_block_unat [of "a + 12" "n * 4096 - 12" x] u12 by auto
  obtain r where r: "r < 4096" "x = frame_of x + of_nat r" "unat x mod 4096 = r" by (rule page_offset_obtain)
  have p: "frame_of x \<in> set (pages a n)" by (rule frame_in_run [OF A(2,4)]) (use x in simp_all)
  have "\<not> (A (frame_of x) \<noteq> None \<and> r < 12)"
  proof
    assume h: "A (frame_of x) \<noteq> None \<and> r < 12"
    then have fa: "frame_of x = a" using place_page(3) [OF assms(1,2), of "frame_of x"] p by (cases "frame_of x = a") auto
    have "x = a + of_nat r" using r(2) unfolding fa .
    then have "unat x = unat a + r" using page_offset(2) [OF A(2) r(1)] by simp
    then show False using x(1) h by simp
  qed
  moreover have "A (frame_of x) \<in> {None, Some (Pages n)}"
    using place_page(3) [OF assms(1,2), of "frame_of x"] p assms(2) by (cases "frame_of x = a") auto
  moreover have "\<not> unat x < lim" using x(1) A(3) by simp
  ultimately have "place lim D A x = Block (frame_of x) 0" using r(3) by (auto simp: place_def)
  then show ?thesis using p by blast
qed

end
