(* ===== verification/Heap_Rep.thy ===== *)
theory Heap_Rep
  imports Heap_Place
begin

text \<open>
  When a state of the kernel represents a heap: \<open>heap_ok s A fl\<close>.  The paging part says that the pages of the arenas are
  in use and mapped to frames of the kernel pool; the word part gives the contents of descriptors, headers and free lists.
  \<open>live A fl\<close> is the abstract heap: the blocks that are not free, with their sizes.
\<close>

section \<open>Words\<close>

definition blocks_of :: "arenas \<Rightarrow> nat \<Rightarrow> addr set" where
  "blocks_of A i = {b. \<exists>a j. A a = Some (Blocks i) \<and> j < bcount i \<and> b = blk a i j}"

definition free_in :: "free_lists \<Rightarrow> addr \<Rightarrow> nat \<Rightarrow> nat set" where
  "free_in fl a i = {j. j < bcount i \<and> blk a i j \<in> set (fl i)}"

fun header_ok :: "(addr \<Rightarrow> u32) \<Rightarrow> addr \<Rightarrow> free_lists \<Rightarrow> addr \<Rightarrow> arena_kind \<Rightarrow> bool" where
  "header_ok m D fl a (Blocks i) = (m a = desc_at D i \<and> m (a + 4) = of_nat (card (free_in fl a i)) \<and> m (a + 8) = 0)"
| "header_ok m D fl a (Pages n) = (m a = NULL \<and> m (a + 4) = of_nat n \<and> m (a + 8) = 1)"

definition heap_words :: "(addr \<Rightarrow> u32) \<Rightarrow> addr \<Rightarrow> arenas \<Rightarrow> free_lists \<Rightarrow> bool" where
  "heap_words m D A fl = ((\<forall>i<7. desc_ok m (desc_at D i) i) \<and> (\<forall>a \<kappa>. A a = Some \<kappa> \<longrightarrow> header_ok m D fl a \<kappa>) \<and>
     (\<forall>i<7. dlist m (desc_at D i + 8) (fl i) \<and> set (fl i) \<subseteq> blocks_of A i))"

lemma finite_free_in [simp]: "finite (free_in fl a i)"
  by (simp add: free_in_def)

lemma blk_inj:
  assumes "frame_of a = a" "i < 7" "j < bcount i" "k < bcount i" "blk a i j = blk a i k"
  shows "j = k"
  using blk_apart [OF assms(1,3,4)] blk_apart [OF assms(1,4,3)] bsize_pos [of i] assms(5) by (cases j k rule: linorder_cases) auto

lemma node_places:
  assumes ok: "arenas_ok lim D A" "lim \<le> 2 ^ 32" "i < 7" and xs: "set xs \<subseteq> blocks_of A i"
    and x: "x \<in> words_of (set (nodes (desc_at D i + 8) xs))"
  shows "(\<exists>r. place lim D A x = Desc i r \<and> 8 \<le> r) \<or>
    (\<exists>a j. A a = Some (Blocks i) \<and> j < bcount i \<and> blk a i j \<in> set xs \<and> place lim D A x = Block a j)"
proof -
  note d = place_desc [OF ok(1,2,3)]
  from d [of 8] d [of 12] d [of 16] d [of 20]
  have ds: "place lim D A (desc_at D i + 8) = Desc i 8" "place lim D A (desc_at D i + 12) = Desc i 12"
    "place lim D A (desc_at D i + 16) = Desc i 16" "place lim D A (desc_at D i + 20) = Desc i 20" by simp_all
  consider "x \<in> {desc_at D i + 8, desc_at D i + 12, desc_at D i + 16, desc_at D i + 20}" | b where "b \<in> set xs" "x = b \<or> x = b + 4"
    using x by (auto simp: words_of_def set_nodes add.assoc)
  then show ?thesis
  proof cases
    case 1
    then show ?thesis using ds by auto
  next
    case 2
    then obtain a j where a: "A a = Some (Blocks i)" "j < bcount i" "b = blk a i j" using xs by (auto simp: blocks_of_def)
    have "place lim D A x = Block a j" using place_node [OF ok(1) a(1,2)] 2(2) a(3) by auto
    then show ?thesis using a 2(1) by blast
  qed
qed

text \<open>
  A step that works on one arena \<open>a\<close> and the class \<open>i\<close>: it writes the header and the pages of \<open>a\<close>, the sentinels of the
  class and free blocks of it.  \<open>B\<close> is the arenas before and after together.
\<close>

definition touched_by :: "arenas \<Rightarrow> nat \<Rightarrow> addr \<Rightarrow> arena_kind \<Rightarrow> place set" where
  "touched_by B i a \<kappa> = {Desc i r | r. 8 \<le> r} \<union> {Head a r | r. True} \<union> {Block p j | p j. B p = Some (Blocks i)} \<union>
     {Block p j | p j. p \<in> set (pages a (span \<kappa>))}"

lemma heap_words_step:
  assumes W: "heap_words m D A fl" and ok: "arenas_ok lim D B" "lim \<le> 2 ^ 32" "B a = Some \<kappa>"
    and same: "\<And>a'. a' \<noteq> a \<Longrightarrow> A a' = B a' \<and> A' a' = B a'" "\<And>c. c \<noteq> i \<Longrightarrow> \<kappa> \<noteq> Blocks c" "A a \<in> {None, B a}" "A' a \<in> {None, B a}"
    and ch: "\<And>x. place lim D B x \<notin> touched_by B i a \<kappa> \<Longrightarrow> m' x = m x"
    and fl: "\<And>c. c \<noteq> i \<Longrightarrow> fl' c = fl c"
    and new: "i < 7 \<Longrightarrow> dlist m' (desc_at D i + 8) (fl' i) \<and> set (fl' i) \<subseteq> blocks_of A' i"
    and head: "A' a = Some \<kappa> \<Longrightarrow> header_ok m' D fl' a \<kappa>"
    and cnt: "\<And>a'. a' \<noteq> a \<Longrightarrow> B a' = Some (Blocks i) \<Longrightarrow> free_in fl' a' i = free_in fl a' i"
  shows "heap_words m' D A' fl'"
  unfolding heap_words_def
proof (intro conjI allI impI)
  have sz: "\<forall>c<7. desc_ok m (desc_at D c) c" and hd: "\<And>a \<kappa>. A a = Some \<kappa> \<Longrightarrow> header_ok m D fl a \<kappa>"
    and ls: "\<And>c. c < 7 \<Longrightarrow> dlist m (desc_at D c + 8) (fl c) \<and> set (fl c) \<subseteq> blocks_of A c" using W by (auto simp: heap_words_def)
  have AB: "A p = B p" if "p \<noteq> a" for p using same(1) [OF that] by simp
  fix c :: nat assume c: "c < 7"
  have "place lim D B (desc_at D c + of_nat r) \<notin> touched_by B i a \<kappa>" if "r < 8" for r
    using place_desc [OF ok(1,2) c, of r] that by (auto simp: touched_by_def)
  from this [of 0] this [of 4] show "desc_ok m' (desc_at D c) c"
    using sz c ch by (simp add: desc_ok_def heap_layout)
  show "dlist m' (desc_at D c + 8) (fl' c)" "set (fl' c) \<subseteq> blocks_of A' c"
  proof -
    have bo: "blocks_of A c = blocks_of A' c" if "c \<noteq> i"
    proof -
      have "A p = Some (Blocks c) \<longleftrightarrow> A' p = Some (Blocks c)" for p
        using same(1) [of p] same(2) [OF that] same(3,4) ok(3) by (cases "p = a") auto
      then show ?thesis by (simp add: blocks_of_def)
    qed
    have "B p = Some k" if "A p = Some k" for p k using AB [of p] same(3) that by (cases "p = a") auto
    then have bB: "blocks_of A c \<subseteq> blocks_of B c" unfolding blocks_of_def by blast
    have keep: "m' x = m x" if "c \<noteq> i" "x \<in> words_of (set (nodes (desc_at D c + 8) (fl c)))" for x
    proof (rule ch)
      have "set (fl c) \<subseteq> blocks_of B c" using ls [OF c] bB by blast
      from node_places [OF ok(1,2) c this that(2)] that(1) same(2) [OF that(1)] ok(3) place_page(3) [OF ok(1,3)]
      show "place lim D B x \<notin> touched_by B i a \<kappa>" by (fastforce simp: touched_by_def)
    qed
    show "dlist m' (desc_at D c + 8) (fl' c)" "set (fl' c) \<subseteq> blocks_of A' c"
      using new c fl [of c] ls [OF c] bo dlist_frame [OF keep] by (cases "c = i"; auto)+
  qed
next
  have hd: "\<And>a \<kappa>. A a = Some \<kappa> \<Longrightarrow> header_ok m D fl a \<kappa>" using W by (auto simp: heap_words_def)
  fix p \<kappa>' assume p: "A' p = Some \<kappa>'"
  show "header_ok m' D fl' p \<kappa>'"
  proof (cases "p = a")
    case True
    then show ?thesis using head p same(4) ok(3) by auto
  next
    case False
    then have B: "B p = Some \<kappa>'" "A p = Some \<kappa>'" using same(1) p by auto
    have "place lim D B (p + of_nat r) \<notin> touched_by B i a \<kappa>" if "r < 12" for r
      using place_head [OF ok(1) B(1) that] False by (auto simp: touched_by_def)
    then have k: "m' (p + of_nat r) = m (p + of_nat r)" if "r < 12" for r using ch that by blast
    have f: "free_in fl' p c = free_in fl p c" if "\<kappa>' = Blocks c" for c
      using cnt [OF False] B(1) that fl [of c] by (cases "c = i") (auto simp: free_in_def)
    show ?thesis using hd [OF B(2)] k [of 0] k [of 4] k [of 8] f by (cases \<kappa>') auto
  qed
qed

section \<open>The abstract heap\<close>

definition live :: "arenas \<Rightarrow> free_lists \<Rightarrow> addr \<Rightarrow> nat option" where
  "live A fl b = (case A (block2arena b) of
       None \<Rightarrow> None
     | Some (Blocks i) \<Rightarrow> if b \<in> blk (block2arena b) i ` {..<bcount i} \<and> b \<notin> set (fl i) then Some (bsize i) else None
     | Some (Pages n) \<Rightarrow> if b = block2arena b + sizeof_arena then Some (n * 4096 - 12) else None)"


lemma live_small:
  assumes "A a = Some (Blocks i)" "frame_of a = a" "j < bcount i" "blk a i j \<notin> set (fl i)"
  shows "live A fl (blk a i j) = Some (bsize i)"
  using assms block2arena_blk [OF assms(2,3)] by (simp add: live_def)

lemma frame_of_large: "frame_of a = a \<Longrightarrow> block2arena (a + sizeof_arena) = a"
  using page_offset(1) [of a 12] by (simp add: block2arena_def frame_of_def sizeof_arena_def)

lemma live_large:
  assumes "A a = Some (Pages n)" "frame_of a = a"
  shows "live A fl (a + sizeof_arena) = Some (n * 4096 - 12)"
  using assms frame_of_large [OF assms(2)] by (simp add: live_def)

lemma live_cases:
  assumes "live A fl b = Some n"
  obtains (small) a i j where "A a = Some (Blocks i)" "j < bcount i" "b = blk a i j" "b \<notin> set (fl i)" "n = bsize i"
    | (large) a k where "A a = Some (Pages k)" "b = a + 12" "n = k * 4096 - 12"
  using assms by (auto simp: live_def sizeof_arena_def split: option.splits arena_kind.splits if_splits)

lemma live_place:
  assumes ok: "arenas_ok lim D A" and l: "live A fl b = Some n" and x: "in_block b n x"
  shows "\<exists>p j. place lim D A x = Block p j \<and>
    ((\<exists>i. A p = Some (Blocks i) \<and> j < bcount i \<and> b = blk p i j \<and> b \<notin> set (fl i)) \<or>
     (\<exists>a k. A a = Some (Pages k) \<and> b = a + 12 \<and> p \<in> set (pages a k)))"
  using l
proof (cases rule: live_cases)
  case (small a i j)
  then show ?thesis using place_blk [OF ok small(1,2)] x by blast
next
  case (large a k)
  then show ?thesis using place_large [OF ok large(1)] x by blast
qed

text \<open>Different live blocks do not overlap.\<close>

lemma live_disjoint:
  assumes ok: "arenas_ok lim D A" and b: "live A fl b = Some n" and c: "live A fl c = Some k" and ne: "b \<noteq> c"
  shows "disjoint_blocks b n c k"
  unfolding disjoint_blocks_def
proof (intro allI notI)
  fix x assume x: "in_block b n x \<and> in_block c k x"
  obtain p j where p: "place lim D A x = Block p j"
    "(\<exists>i. A p = Some (Blocks i) \<and> j < bcount i \<and> b = blk p i j \<and> b \<notin> set (fl i)) \<or>
     (\<exists>a k. A a = Some (Pages k) \<and> b = a + 12 \<and> p \<in> set (pages a k))" using live_place [OF ok b] x by blast
  obtain q l where q: "place lim D A x = Block q l"
    "(\<exists>i. A q = Some (Blocks i) \<and> l < bcount i \<and> c = blk q i l \<and> c \<notin> set (fl i)) \<or>
     (\<exists>a k. A a = Some (Pages k) \<and> c = a + 12 \<and> q \<in> set (pages a k))" using live_place [OF ok c] x by blast
  have e: "q = p" "l = j" using p(1) q(1) by simp_all
  have uniq: "a = a'" if "A a = Some (Pages k)" "p \<in> set (pages a k)" "A a' = Some (Pages k')" "p \<in> set (pages a' k')" for a k a' k'
  proof (rule ccontr)
    assume "a \<noteq> a'"
    then have "set (pages a (span (Pages k))) \<inter> set (pages a' (span (Pages k'))) = {}"
      using ok that unfolding arenas_ok_def by blast
    then show False using that by auto
  qed
  have mix: "\<not> (A a = Some (Pages k) \<and> p \<in> set (pages a k) \<and> A p = Some (Blocks i))" for a k i
    using place_page(3) [OF ok, of a "Pages k" p] by (cases "p = a") auto
  from p(2) show False
  proof
    assume "\<exists>i. A p = Some (Blocks i) \<and> j < bcount i \<and> b = blk p i j \<and> b \<notin> set (fl i)"
    then obtain i where i: "A p = Some (Blocks i)" "b = blk p i j" by blast
    then have "\<exists>i. A p = Some (Blocks i) \<and> c = blk p i j" using q(2) mix unfolding e by blast
    then show False using i ne by auto
  next
    assume "\<exists>a k. A a = Some (Pages k) \<and> b = a + 12 \<and> p \<in> set (pages a k)"
    then obtain a k where a: "A a = Some (Pages k)" "b = a + 12" "p \<in> set (pages a k)" by blast
    then obtain a' k' where a': "A a' = Some (Pages k')" "c = a' + 12" "p \<in> set (pages a' k')" using q(2) mix unfolding e by blast
    then show False using uniq [OF a(1,3) a'(1,3)] a(2) ne by simp
  qed
qed

section \<open>Paging\<close>

definition heap_limit :: "'z kmem_scheme \<Rightarrow> nat" where
  "heap_limit s = unat (vaddr_start (kernel_vaddr s))"

definition heap_base :: "'z kmem_scheme \<Rightarrow> bool" where
  "heap_base s = (mm_inv s \<and> vspace_ok s (kernel_vaddr s) \<and> pools_ordered s \<and> 0x102000 \<le> unat (phy_addr_start (kernel_pool s)) \<and>
     (\<forall>x\<in>pool_bytes s \<union> bm_bytes (vaddr_bitmap (kernel_vaddr s)). unat x < heap_limit s))"

text \<open>The \<open>n\<close> pages from \<open>a\<close> on are in use and mapped to frames of the kernel pool.\<close>

definition page_run :: "'z kmem_scheme \<Rightarrow> addr \<Rightarrow> nat \<Rightarrow> bool" where
  "page_run s a n = (\<exists>k. a = vpage (kernel_vaddr s) k \<and> k + n \<le> vbits (kernel_vaddr s) \<and>
     (\<forall>j. k \<le> j \<and> j < k + n \<longrightarrow> used s (vaddr_bitmap (kernel_vaddr s)) j \<and>
        (\<exists>F\<in>pool_frames (kernel_pool s). page_walk s (vpage (kernel_vaddr s) j) = Some F)))"

definition heap_pages :: "'z kmem_scheme \<Rightarrow> arenas \<Rightarrow> bool" where
  "heap_pages s A = (arenas_ok (heap_limit s) (k_block_descs s) A \<and> (\<forall>a \<kappa>. A a = Some \<kappa> \<longrightarrow> page_run s a (span \<kappa>)))"

definition heap_ok :: "'z kmem_scheme \<Rightarrow> arenas \<Rightarrow> free_lists \<Rightarrow> bool" where
  "heap_ok s A fl = (heap_base s \<and> heap_pages s A \<and> heap_words (mem s) (k_block_descs s) A fl)"

lemma heap_limit_le: "heap_limit s \<le> 2 ^ 32"
  unfolding heap_limit_def using unat_u32(1) [of "vaddr_start (kernel_vaddr s)"] by simp

lemma page_write_base:
  fixes s s' :: "'z kmem_scheme"
  assumes base: "heap_base s"
    and sel: "cr3 s' = cr3 s" "kernel_pool s' = kernel_pool s" "user_pool s' = user_pool s" "kernel_vaddr s' = kernel_vaddr s"
    and p: "\<And>x. x \<notin> (\<Union>F\<in>data s. words F) \<Longrightarrow> pmem s' x = pmem s x"
    and b: "\<And>x. unat x < heap_limit s \<Longrightarrow> bytes s' x = bytes s x"
  shows "heap_base s'" "page_walk s' v = page_walk s v" "page_run s' a n = page_run s a n"
    "free_frames s' (kernel_pool s) = free_frames s (kernel_pool s)"
    "i < vbits (kernel_vaddr s) \<Longrightarrow> used s' (vaddr_bitmap (kernel_vaddr s)) i = used s (vaddr_bitmap (kernel_vaddr s)) i"
proof -
  let ?va = "kernel_vaddr s"
  have inv: "mm_inv s" "vspace_ok s ?va" and low: "\<And>x. x \<in> pool_bytes s \<union> bm_bytes (vaddr_bitmap ?va) \<Longrightarrow> unat x < heap_limit s"
    using base by (simp_all add: heap_base_def)
  have sm: "selfmap s" using inv(1) by (simp add: mm_inv_def)
  have Fs: "frame_of F = F \<and> F \<notin> tables s \<and> F \<noteq> frame_of (cr3 s)" if "F \<in> data s" for F
  proof -
    have "frame_of F = F" using that by (auto simp: data_def)
    then show ?thesis using inv(1) that unfolding mm_inv_def by blast
  qed
  have w: "page_walk s' v = page_walk s v" "table_of s' v = table_of s v" "selfmap s'" "tables s' = tables s" for v
    using data_frames_write [OF sm, of "data s" s'] Fs sel(1) p by blast+
  have us: "used s' bm k = used s bm k" if "k < bm_bits bm" "\<And>x. x \<in> bm_bytes bm \<Longrightarrow> unat x < heap_limit s" for bm k
    using b [OF that(2)] used_byte_in_block [OF that(1)] by (simp add: used_def bm_bytes_def)
  have fs: "bm.free_slots s' bm = bm.free_slots s bm" if "\<And>x. x \<in> bm_bytes bm \<Longrightarrow> unat x < heap_limit s" for bm
    using us [OF _ that] by (auto simp: bm.free_slots_def)
  have ff: "free_frames s' (kernel_pool s) = free_frames s (kernel_pool s)" "free_frames s' (user_pool s) = free_frames s (user_pool s)"
    using fs low by (simp_all add: free_frames_def pool_bytes_def)
  then show "free_frames s' (kernel_pool s) = free_frames s (kernel_pool s)" by simp
  have sl: "slot s' v = slot s v" for v by (simp add: slot_def w(2))
  have dt: "data s' = data s" by (simp add: data_def w(1))
  have pl: "pools s' = pools s" "pools_ok s' = pools_ok s" "spare s' = spare s" by (simp_all add: pools_def pools_ok_def spare_def sel ff)
  have os: "one_slot s' = one_slot s" by (simp add: one_slot_def w(1) sl pl)
  have mm: "mm_inv s'" using inv(1) w(3) unfolding mm_inv_def sel w(4) dt pl os by simp
  show uv: "used s' (vaddr_bitmap ?va) i = used s (vaddr_bitmap ?va) i" if "i < vbits ?va" for i
    using us [of i "vaddr_bitmap ?va"] that low by (simp add: vbits_def)
  have "vspace_ok s' ?va" using inv(2) uv by (simp add: vspace_ok_def apart_def sel w(1) sl)
  then show "heap_base s'" using base mm by (simp add: heap_base_def sel pools_ordered_def pool_bytes_def heap_limit_def)
  show "page_walk s' v = page_walk s v" by (rule w(1))
  have "used s' (vaddr_bitmap ?va) j = used s (vaddr_bitmap ?va) j" if "k + n \<le> vbits ?va" "k \<le> j \<and> j < k + n" for k j
    using uv that by simp
  then have "(\<forall>j. k \<le> j \<and> j < k + n \<longrightarrow> used s' (vaddr_bitmap ?va) j \<and> Q j) = (\<forall>j. k \<le> j \<and> j < k + n \<longrightarrow> used s (vaddr_bitmap ?va) j \<and> Q j)"
    if "k + n \<le> vbits ?va" for k Q using that by blast
  then show "page_run s' a n = page_run s a n" unfolding page_run_def sel w(1) by blast
qed

end
