(* ===== verification/Heap_Alloc.thy ===== *)
theory Heap_Alloc
  imports Heap_Rep
begin

text \<open>
  Small allocations on a represented heap: making an arena for an empty class, and taking the first block of a free
  list.  Both keep \<open>heap_ok\<close>.
\<close>

section \<open>Facts about a represented heap\<close>

lemma heap_okD:
  assumes "heap_ok s A fl"
  shows "mm_inv s" "vspace_ok s (kernel_vaddr s)" "arenas_ok (heap_limit s) (k_block_descs s) A" "heap_base s"
    "A a = Some \<kappa> \<Longrightarrow> page_run s a (span \<kappa>)" "A a = Some \<kappa> \<Longrightarrow> header_ok (mem s) (k_block_descs s) fl a \<kappa>"
    "i < 7 \<Longrightarrow> desc_ok (mem s) (desc_at (k_block_descs s) i) i" "i < 7 \<Longrightarrow> dlist (mem s) (desc_at (k_block_descs s) i + 8) (fl i)"
    "i < 7 \<Longrightarrow> set (fl i) \<subseteq> blocks_of A i"
  using assms by (simp_all add: heap_ok_def heap_base_def heap_pages_def heap_words_def)

lemma page_run_walk:
  assumes "heap_base s" "page_run s a n" "p \<in> set (pages a n)"
  obtains F where "page_walk s p = Some F" "frame_of F = F" "F \<in> data s" "F \<in> pool_frames (kernel_pool s)" "lower p" "frame_of p = p"
proof -
  let ?va = "kernel_vaddr s"
  have inv: "mm_inv s" "vspace_ok s ?va" using assms(1) by (simp_all add: heap_base_def)
  obtain k where k: "a = vpage ?va k" "k + n \<le> vbits ?va"
    "\<And>j. k \<le> j \<Longrightarrow> j < k + n \<Longrightarrow> \<exists>F\<in>pool_frames (kernel_pool s). page_walk s (vpage ?va j) = Some F"
    using assms(2) unfolding page_run_def by blast
  obtain j where j: "k \<le> j" "j < k + n" "p = vpage ?va j" using assms(3) unfolding k(1) pages_vpage by auto
  obtain F where F: "F \<in> pool_frames (kernel_pool s)" "page_walk s p = Some F" using k(3) [OF j(1,2)] j(3) by blast
  have jb: "j < vbits ?va" using j(2) k(2) by simp
  note V = vspace_page [OF inv(2) jb]
  have "pool_ok (kernel_pool s)" using inv(1) by (simp add: mm_inv_def pools_ok_def)
  then have f: "frame_of F = F" using F(1) by (rule pool_frame_of)
  have "lower p" using V(4) j(3) by simp
  then have "F \<in> data s" using F(2) f unfolding data_def by force
  then show ?thesis using that F f V(2) \<open>lower p\<close> j(3) by simp
qed

lemma arena_walk:
  assumes "heap_ok s A fl" "A a = Some (Blocks i)"
  obtains F where "page_walk s a = Some F" "frame_of F = F" "F \<in> data s"
  using page_run_walk [OF heap_okD(4) [OF assms(1)] heap_okD(5) [OF assms]] pages_head [of 1 a] by auto

lemma not_low: "place lim D A x = Block p j \<Longrightarrow> lim \<le> unat x"
  by (auto simp: place_def Let_def split: if_splits)

lemma free_in_insert:
  assumes ok: "arenas_ok lim D A" and a: "A a = Some (Blocks i)" "j < bcount i" and a': "A a' = Some (Blocks i)"
    and s: "set (fl i) = insert (blk a i j) (set (fl' i))"
  shows "free_in fl a' i = (if a' = a then insert j (free_in fl' a' i) else free_in fl' a' i)"
proof -
  have "blk a' i k = blk a i j \<longleftrightarrow> a' = a \<and> k = j" if "k < bcount i" for k
    using place_node(1) [OF ok a] place_node(1) [OF ok a' that] by auto
  then show ?thesis using a(2) unfolding free_in_def s by auto
qed

text \<open>A class and its sentinels lie below the arenas, and so does a lock that is apart from the descriptors.\<close>

lemma class_off_page:
  assumes "arenas_ok lim D A" "lim \<le> 2 ^ 32" "A a = Some (Blocks i)"
  shows "fl_off a (desc_at D i)"
proof (rule fl_off_below)
  note A = arenas_okD [OF assms(1,3)]
  show "frame_of a = a" by (rule A(2))
  have i: "i < 7" using A(1) by simp
  have D: "unat D + 168 \<le> lim" using assms(1) by (simp add: arenas_ok_def)
  have "unat (desc_at D i + of_nat 0) = unat D + i * 24 + 0" by (rule unat_desc_at [OF D assms(2) i]) simp
  then show "unat (desc_at D i) + 24 \<le> unat a" using D A(3) i by simp
qed

lemma lock_word_off:
  assumes ok: "arenas_ok lim D A" "lim \<le> 2 ^ 32" and i: "i < 7" "set xs \<subseteq> blocks_of A i"
    and l: "unat l + 20 \<le> lim" "168 \<le> unat (l + 12 - D)"
  shows "l + 12 \<notin> words_of (set (nodes (desc_at D i + 8) xs))"
proof
  assume x: "l + 12 \<in> words_of (set (nodes (desc_at D i + 8) xs))"
  have "unat (l + of_nat 12) = unat l + 12" by (rule unat_add_of_nat) (use l(1) ok(2) in simp)
  then have "unat (l + 12) < lim" using l(1) by simp
  then have p: "place lim D A (l + 12) = Desc ((unat (l + 12) - unat D) div 24) ((unat (l + 12) - unat D) mod 24)"
    by (simp add: place_def)
  then obtain r where "place lim D A (l + 12) = Desc i r" "8 \<le> r" using node_places [OF ok i x] by auto
  then have e: "(unat (l + 12) - unat D) div 24 = i" "8 \<le> (unat (l + 12) - unat D) mod 24" using p by simp_all
  have "unat D \<le> unat (l + 12)"
  proof (rule ccontr)
    assume "\<not> unat D \<le> unat (l + 12)"
    then show False using e(2) by simp
  qed
  then have "unat (l + 12 - D) = unat (l + 12) - unat D" by (simp add: unat_sub word_le_nat_alt)
  then have "7 \<le> (unat (l + 12) - unat D) div 24" using l(2) by simp
  then show False using e(1) i(1) by simp
qed

section \<open>Taking a block\<close>

lemma take_block:
  fixes t :: "'z kmem_scheme"
  defines "D \<equiv> k_block_descs t" and "l \<equiv> pool_lock (kernel_pool t)"
  assumes H: "heap_ok t A fl" and i: "i < 7" "fl i = b # bs" and fd: "find_desc DESC_CNT D n t = desc_at D i"
    and L: "held l t" "unat l + 20 \<le> heap_limit t" "168 \<le> unat (l + 12 - D)"
  shows "\<exists>m by p. malloc_small PF_KERNEL D n t = Inr (b, (unlocked l t)\<lparr>mem := m, bytes := by, pmem := p\<rparr>) \<and>
    heap_ok ((unlocked l t)\<lparr>mem := m, bytes := by, pmem := p\<rparr>) A (fl(i := bs)) \<and>
    (\<forall>x. in_block b (bsize i) x \<longrightarrow> m x = 0 \<and> by x = 0) \<and> (\<forall>x. \<not> in_block b (bsize i) x \<longrightarrow> by x = bytes t x) \<and>
    (\<forall>x. \<not> in_block b (bsize i) x \<and> x \<noteq> block2arena b + 4 \<and> x \<notin> words_of (set (nodes (desc_at D i + 8) bs)) \<longrightarrow> m x = mem t x)"
proof -
  let ?d = "desc_at D i" and ?lim = "heap_limit t"
  let ?W = "words_of (set (nodes (?d + 8) bs))"
  note ok = heap_okD(3) [OF H, folded D_def] and lim = heap_limit_le [of t]
  have sub: "set (b # bs) \<subseteq> blocks_of A i" using heap_okD(9) [OF H i(1)] i(2) by simp
  then obtain a j where a: "A a = Some (Blocks i)" "j < bcount i" and b: "b = blk a i j" by (auto simp: blocks_of_def)
  have fa: "frame_of a = a" by (rule arenas_okD(2) [OF ok a(1)])
  have b2a: "block2arena b = a" unfolding b by (rule block2arena_blk [OF fa a(2)])
  obtain F where F: "page_walk t a = Some F" "frame_of F = F" "F \<in> data t" by (rule arena_walk [OF H a(1)])
  have dl: "dlist (mem t) (?d + 8) (blk a i j # bs)" using heap_okD(8) [OF H i(1)] i(2) b by (simp add: D_def)
  then have nb: "b \<notin> set bs" by (simp add: dlist_def nodes_def b)
  have off: "fl_off a ?d" by (rule class_off_page [OF ok lim a(1)])
  note pb = place_blk [OF ok a, folded b] and nd = node_places [OF ok lim i(1)]
  note h = place_head [OF ok a(1), of 0] place_head [OF ok a(1), of 4] place_head [OF ok a(1), of 8]
  note ds = place_desc [OF ok lim i(1), of 0] place_desc [OF ok lim i(1), of 4]
  have W: "(\<exists>r. place ?lim D A x = Desc i r \<and> 8 \<le> r) \<or> (\<exists>p k. A p = Some (Blocks i) \<and> place ?lim D A x = Block p k \<and> (p = a \<longrightarrow> k \<noteq> j))"
    if "x \<in> ?W" for x
  proof -
    have "set bs \<subseteq> blocks_of A i" using sub by simp
    from nd [OF this that] nb b show ?thesis by blast
  qed
  have sw: "words_of (set bs) \<subseteq> ?W" by (auto simp: words_of_def set_nodes)
  have apart: "\<not> in_block (blk a i j) (bsize i) x \<and> x \<notin> {a, a + 4, ?d, ?d + 4}" if "x \<in> words_of (set bs)" for x
  proof -
    have "x \<in> ?W" using that sw by blast
    then have "place ?lim D A x \<noteq> Block a j" "place ?lim D A x \<notin> {Head a 0, Head a 4, Desc i 0, Desc i 4}" using W [of x] by auto
    then show ?thesis using pb h ds by (auto simp: b)
  qed
  have lk: "off_page a (l + 12)" "l + 12 \<notin> ?W"
    using low_off_page [OF fa, of "vaddr_start (kernel_vaddr t)" l 12] arenas_okD(3) [OF ok a(1)] L(2)
      lock_word_off [OF ok lim i(1) _ L(2,3), of bs] sub by (simp_all add: heap_limit_def)
  have dok: "desc_ok (mem t) ?d i" using heap_okD(7) [OF H i(1)] by (simp add: D_def)
  obtain m "by" p where r: "malloc_small PF_KERNEL D n t = Inr (blk a i j, (unlocked l t)\<lparr>mem := m, bytes := by, pmem := p\<rparr>)"
    "dlist m (?d + 8) bs" "m a = mem t a" "m (a + 4) = mem t (a + 4) - 1"
    "\<forall>x. in_block (blk a i j) (bsize i) x \<longrightarrow> m x = 0 \<and> by x = 0" "\<forall>x. x \<notin> words F \<longrightarrow> p x = pmem t x"
    "\<forall>x. \<not> in_block (blk a i j) (bsize i) x \<and> x \<noteq> a + 4 \<and> x \<notin> ?W \<longrightarrow> m x = mem t x"
    "\<forall>x. \<not> in_block (blk a i j) (bsize i) x \<longrightarrow> by x = bytes t x"
    using malloc_small_hit [OF F(1) fa a(2) i(1) fd dok dl off apart L(1) [unfolded l_def] lk [unfolded l_def]] unfolding l_def by blast
  let ?s = "(unlocked l t)\<lparr>mem := m, bytes := by, pmem := p\<rparr>"
  have sel: "cr3 ?s = cr3 t" "kernel_pool ?s = kernel_pool t" "user_pool ?s = user_pool t" "kernel_vaddr ?s = kernel_vaddr t"
    "k_block_descs ?s = D" "heap_limit ?s = ?lim" by (simp_all add: unlocked_def D_def heap_limit_def)
  have low: "by x = bytes t x" if "unat x < ?lim" for x
  proof -
    have "\<not> in_block b (bsize i) x" using not_low pb that by fastforce
    then show ?thesis using r(8) by (simp add: b)
  qed
  have pm: "pmem ?s x = pmem t x" if "x \<notin> (\<Union>F\<in>data t. words F)" for x using r(6) F(3) that by auto
  have lw: "bytes ?s x = bytes t x" if "unat x < ?lim" for x using low [OF that] by simp
  note P = page_write_base [OF heap_okD(4) [OF H] sel(1-4) pm lw]
  have hw: "heap_words m D A (fl(i := bs))"
  proof (rule heap_words_step [where a = a and i = i and \<kappa> = "Blocks i" and B = A and lim = ?lim])
    show "heap_words (mem t) D A fl" using H by (simp add: heap_ok_def D_def)
    show "m x = mem t x" if "place ?lim D A x \<notin> touched_by A i a (Blocks i)" for x
    proof -
      have "\<not> in_block b (bsize i) x" using pb that by (auto simp: touched_by_def pages_Suc)
      moreover have "x \<noteq> a + 4" using h(2) that by (auto simp: touched_by_def)
      moreover have "x \<notin> ?W"
      proof
        assume "x \<in> ?W"
        from W [OF this] that show False by (auto simp: touched_by_def)
      qed
      ultimately show ?thesis using r(7) by (simp add: b)
    qed
    have fi: "free_in fl a' i = (if a' = a then insert j (free_in (fl(i := bs)) a' i) else free_in (fl(i := bs)) a' i)"
      if "A a' = Some (Blocks i)" for a' by (rule free_in_insert [OF ok a that]) (simp add: i(2) b)
    then show "free_in (fl(i := bs)) a' i = free_in fl a' i" if "a' \<noteq> a" "A a' = Some (Blocks i)" for a' using that by simp
    have "j \<notin> free_in (fl(i := bs)) a i" using nb by (simp add: free_in_def b)
    then have "card (free_in fl a i) = Suc (card (free_in (fl(i := bs)) a i))" using fi [OF a(1)] by simp
    moreover have "header_ok (mem t) D fl a (Blocks i)" using heap_okD(6) [OF H a(1)] by (simp add: D_def)
    moreover have "m (a + 8) = mem t (a + 8)"
    proof -
      have "place ?lim D A (a + 8) = Head a 8" using h(3) by simp
      then have "\<not> in_block b (bsize i) (a + 8)" "a + 8 \<notin> ?W" using pb W by fastforce+
      then show ?thesis using r(7) by (simp add: b)
    qed
    ultimately show "header_ok m D (fl(i := bs)) a (Blocks i)" using r(3,4) by simp
  qed (use ok lim a r(2) sub in simp_all)
  have "heap_pages ?s A" unfolding heap_pages_def sel(5,6) using ok P(3) heap_okD(5) [OF H] by blast
  then have "heap_ok ?s A (fl(i := bs))" using P(1) hw unfolding heap_ok_def sel(5) by simp
  then show ?thesis using r unfolding b2a by (intro exI [of _ m] exI [of _ "by"] exI [of _ p]) (simp add: b)
qed


section \<open>Making an arena\<close>

lemma page_run_frame:
  assumes "page_run s a n" "kernel_vaddr s' = kernel_vaddr s" "kernel_pool s' = kernel_pool s"
    and "\<And>j. j < vbits (kernel_vaddr s) \<Longrightarrow> vpage (kernel_vaddr s) j \<in> set (pages a n) \<Longrightarrow> used s (vaddr_bitmap (kernel_vaddr s)) j \<Longrightarrow>
      used s' (vaddr_bitmap (kernel_vaddr s)) j \<and> page_walk s' (vpage (kernel_vaddr s) j) = page_walk s (vpage (kernel_vaddr s) j)"
  shows "page_run s' a n"
proof -
  let ?va = "kernel_vaddr s"
  obtain k where k: "a = vpage ?va k" "k + n \<le> vbits ?va" "\<And>j. k \<le> j \<and> j < k + n \<Longrightarrow> used s (vaddr_bitmap ?va) j \<and>
      (\<exists>F\<in>pool_frames (kernel_pool s). page_walk s (vpage ?va j) = Some F)" using assms(1) unfolding page_run_def by blast
  have "vpage ?va j \<in> set (pages a n)" if "k \<le> j \<and> j < k + n" for j using that unfolding k(1) pages_vpage by simp
  then have "used s' (vaddr_bitmap ?va) j \<and> page_walk s' (vpage ?va j) = page_walk s (vpage ?va j)" if "k \<le> j \<and> j < k + n" for j
    using assms(4) [of j] k(2) k(3) [OF that] that by simp
  then show ?thesis unfolding page_run_def assms(2,3) using k by (intro exI [of _ k]) auto
qed

text \<open>Pages of arenas are in use, so a page that is not in use belongs to none.\<close>

lemma unused_not_in_arena:
  assumes "vspace_ok s (kernel_vaddr s)" "page_run s a n" "k < vbits (kernel_vaddr s)" "\<not> used s (vaddr_bitmap (kernel_vaddr s)) k"
  shows "vpage (kernel_vaddr s) k \<notin> set (pages a n)"
proof
  assume p: "vpage (kernel_vaddr s) k \<in> set (pages a n)"
  obtain q where q: "a = vpage (kernel_vaddr s) q" "q + n \<le> vbits (kernel_vaddr s)"
    "\<And>j. q \<le> j \<and> j < q + n \<Longrightarrow> used s (vaddr_bitmap (kernel_vaddr s)) j" using assms(2) unfolding page_run_def by blast
  obtain j where j: "q \<le> j" "j < q + n" "vpage (kernel_vaddr s) k = vpage (kernel_vaddr s) j" using p unfolding q(1) pages_vpage by auto
  then have "k = j" using vpage_inj [OF assms(1,3)] q(2) by simp
  then show False using q(3) j assms(4) by blast
qed

lemma arenas_ok_insert:
  assumes ok: "arenas_ok lim D A" and a: "kind_ok \<kappa>" "frame_of a = a" "lim \<le> unat a" "unat a + span \<kappa> * 4096 \<le> 2 ^ 32"
    and new: "\<And>p \<kappa>'. A p = Some \<kappa>' \<Longrightarrow> set (pages a (span \<kappa>)) \<inter> set (pages p (span \<kappa>')) = {}"
  shows "arenas_ok lim D (A(a \<mapsto> \<kappa>))"
  unfolding arenas_ok_def
proof (intro conjI allI impI)
  show "unat D + 168 \<le> lim" using ok by (simp add: arenas_ok_def)
next
  fix p \<kappa>' assume p: "(A(a \<mapsto> \<kappa>)) p = Some \<kappa>'"
  show "kind_ok \<kappa>'" "frame_of p = p" "lim \<le> unat p" "unat p + span \<kappa>' * 4096 \<le> 2 ^ 32"
    using p a arenas_okD [OF ok, of p \<kappa>'] by (cases "p = a"; simp)+
next
  fix p \<kappa>1 q \<kappa>2 assume h: "(A(a \<mapsto> \<kappa>)) p = Some \<kappa>1 \<and> (A(a \<mapsto> \<kappa>)) q = Some \<kappa>2 \<and> p \<noteq> q"
  show "set (pages p (span \<kappa>1)) \<inter> set (pages q (span \<kappa>2)) = {}"
  proof (cases "p = a \<or> q = a")
    case True
    then show ?thesis using h new [of p \<kappa>1] new [of q \<kappa>2] by (auto split: if_splits)
  next
    case False
    then have "A p = Some \<kappa>1 \<and> A q = Some \<kappa>2 \<and> p \<noteq> q" using h by simp
    then show ?thesis using ok unfolding arenas_ok_def by blast
  qed
qed

lemma pages_1: "pages a 1 = [a]" "pages a (Suc 0) = [a]"
  using pages_Suc [of a 0] by simp_all

text \<open>What allocating pages for the kernel keeps of a heap.\<close>

lemma heap_malloc_pages:
  fixes t :: "'z kmem_scheme"
  assumes H: "heap_ok t A fl" and c: "0 < unat n" "unat n < 57600" and j: "j + unat n \<le> vbits (kernel_vaddr t)"
      "free_run t (vaddr_bitmap (kernel_vaddr t)) (unat n) j" and room: "2 * unat n \<le> card (free_frames t (kernel_pool t))"
  shows "\<exists>a s1. malloc_pages PF_KERNEL n t = Inr (a, s1) \<and> pt_frame t s1 \<and> heap_base s1 \<and>
    page_run s1 a (unat n) \<and> frame_of a = a \<and> a \<noteq> NULL \<and> heap_limit t \<le> unat a \<and>
    unat a + unat n * 4096 \<le> 2 ^ 32 \<and> (\<forall>q\<in>set (pages a (unat n)). page_walk t q = None) \<and>
    (\<forall>q \<kappa>. A q = Some \<kappa> \<longrightarrow> page_run s1 q (span \<kappa>) \<and> set (pages a (unat n)) \<inter> set (pages q (span \<kappa>)) = {}) \<and>
    (\<forall>x. heap_limit t \<le> unat x \<longrightarrow> bytes s1 x = bytes t x)"
proof -
  let ?va = "kernel_vaddr t" and ?n = "unat n"
  have vs: "vspace PF_KERNEL t = ?va" by (simp add: vspace_def)
  note inv = heap_okD(1,2,4) [OF H]
  have c1: "1 \<le> ?n" using c(1) by simp
  have "\<exists>k s'. k + ?n \<le> vbits (vspace PF_KERNEL t) \<and> malloc_pages PF_KERNEL n t = Inr (vpage (vspace PF_KERNEL t) k, s') \<and>
      mm_inv s' \<and> vspace_ok s' (vspace PF_KERNEL t) \<and> alloc_run t s' (vspace PF_KERNEL t) k ?n (free_frames t (pool_of PF_KERNEL t))"
    by (rule malloc_pages_run [OF inv(1) _ c, of PF_KERNEL j]) (use inv(2) j room in \<open>simp_all add: vs room_def\<close>)
  then obtain k s1 where k: "k + ?n \<le> vbits ?va" and m: "malloc_pages PF_KERNEL n t = Inr (vpage ?va k, s1)" "mm_inv s1" "vspace_ok s1 ?va"
    and ar: "alloc_run t s1 ?va k ?n (free_frames t (kernel_pool t))" unfolding vs by (auto simp: pool_of_def)
  have "only_bytes (pool_bytes t \<union> bm_bytes (vaddr_bitmap (vspace PF_KERNEL t))) t s1"
    by (rule malloc_pages_only_bytes [OF inv(1) _ c1 _ _ _ m(1)]) (use inv(2) j in \<open>simp_all add: vs\<close>)
  then obtain b p where s1: "s1 = t\<lparr>bytes := b, pmem := p\<rparr>"
    and b: "\<And>x. x \<notin> pool_bytes t \<union> bm_bytes (vaddr_bitmap ?va) \<Longrightarrow> b x = bytes t x" unfolding only_bytes_def vs by blast
  have low: "unat x < heap_limit t" if "x \<in> pool_bytes t \<union> bm_bytes (vaddr_bitmap ?va)" for x
    using inv(3) that by (simp add: heap_base_def)
  have hb: "heap_base s1" using inv(3) m(2,3) by (simp add: heap_base_def s1 pools_ordered_def pool_bytes_def heap_limit_def)
  have kb: "k < vbits ?va" using k c(1) by simp
  note V = vspace_page [OF inv(2) kb]
  have us: "used s1 (vaddr_bitmap ?va) i = (k \<le> i \<and> i < k + ?n \<or> used t (vaddr_bitmap ?va) i)" if "i < vbits ?va" for i
    using ar that by (simp add: alloc_run_def)
  have fresh: "\<not> used t (vaddr_bitmap ?va) i" "page_walk t (vpage ?va i) = None"
    "\<exists>F\<in>free_frames t (kernel_pool t). page_walk s1 (vpage ?va i) = Some F" if "k \<le> i" "i < k + ?n" for i
    using ar that by (auto simp: alloc_run_def)
  have pf: "\<exists>F\<in>pool_frames (kernel_pool t). page_walk s1 (vpage ?va i) = Some F" if "k \<le> i" "i < k + ?n" for i
    using fresh(3) [OF that] free_frames_pool [of t "kernel_pool t"] by blast
  have sv: "kernel_vaddr s1 = ?va" "kernel_pool s1 = kernel_pool t" by (simp_all add: s1)
  have run: "page_run s1 (vpage ?va k) ?n" unfolding page_run_def sv
    by (intro exI [of _ k] conjI) (use k us pf in auto)
  have ap: "apart s1 (vpage ?va ` {..<vbits ?va})" using m(3) by (simp add: vspace_ok_def)
  have keep: "page_walk s1 (vpage ?va i) = page_walk t (vpage ?va i)" if i: "i < vbits ?va" "used t (vaddr_bitmap ?va) i" for i
  proof -
    have "slot s1 (vpage ?va i) \<noteq> slot s1 (vpage ?va q)" if q: "k \<le> q" "q < k + ?n" for q
    proof -
      have qb: "q < vbits ?va" using q k by simp
      have ne: "q \<noteq> i" using fresh(1) [OF q] i(2) by auto
      have "frame_of (vpage ?va q) \<noteq> frame_of (vpage ?va i)"
        using vspace_page(2) [OF inv(2)] i(1) qb vpage_inj [OF inv(2) qb i(1)] ne by auto
      moreover have "slot s1 (vpage ?va q) \<noteq> None" using fresh(3) [OF q] by (auto simp: walk_slot split: option.splits)
      ultimately show ?thesis using ap i(1) qb unfolding apart_def by (metis imageI lessThan_iff)
    qed
    then show ?thesis using ar vspace_page(4) [OF inv(2) i(1)] unfolding alloc_run_def by blast
  qed
  have old: "page_run s1 q (span \<kappa>) \<and> set (pages (vpage ?va k) ?n) \<inter> set (pages q (span \<kappa>)) = {}" if q: "A q = Some \<kappa>" for q \<kappa>
  proof
    note R = heap_okD(5) [OF H q]
    show "page_run s1 q (span \<kappa>)" by (rule page_run_frame [OF R]) (use us keep in \<open>auto simp: s1\<close>)
    show "set (pages (vpage ?va k) ?n) \<inter> set (pages q (span \<kappa>)) = {}"
      using unused_not_in_arena [OF inv(2) R] fresh(1) k unfolding pages_vpage by fastforce
  qed
  have "heap_limit t \<le> unat (vpage ?va k)" using V(1) by (simp add: heap_limit_def)
  moreover have "unat (vpage ?va k) + ?n * 4096 \<le> 2 ^ 32"
  proof -
    have "unat (vaddr_start ?va) + vbits ?va * 4096 \<le> 0xffc00000" using inv(2) by (simp add: vspace_ok_def)
    then show ?thesis unfolding V(1) using k by simp
  qed
  moreover have "\<forall>q\<in>set (pages (vpage ?va k) ?n). page_walk t q = None" using fresh(2) by (auto simp: pages_vpage)
  moreover have "bytes s1 x = bytes t x" if "heap_limit t \<le> unat x" for x using b low [of x] that by (fastforce simp: s1)
  moreover have "pt_frame t s1" using ar by (simp add: alloc_run_def)
  ultimately show ?thesis using m(1) hb run V(2,3) old by blast
qed


lemma not_in_page: "frame_of a = a \<Longrightarrow> frame_of x \<noteq> a \<Longrightarrow> off_page a x"
proof (rule ccontr)
  assume a: "frame_of a = a" "frame_of x \<noteq> a" "\<not> off_page a x"
  then have r: "unat (x - a) < 4096" by (simp add: off_page_def)
  have "x = a + of_nat (unat (x - a))" by simp
  then show False using page_offset(1) [OF a(1) r] a(2) by metis
qed

lemma place_own_page:
  assumes "arenas_ok lim D A" "A a = Some (Blocks i)" "\<not> off_page a x"
  shows "(\<exists>r. place lim D A x = Head a r) \<or> (\<exists>j. place lim D A x = Block a j)"
proof -
  obtain r where r: "r < 4096" "x = frame_of x + of_nat r" by (rule page_offset_obtain)
  have "frame_of x = a" using not_in_page [OF arenas_okD(2) [OF assms(1,2)]] assms(3) by blast
  then have x: "x = a + of_nat r" using r(2) by simp
  show ?thesis
    using place_head [OF assms(1,2), of r] place_in_page [OF assms(1,2), of r] r(1) unfolding x by (cases "r < 12") auto
qed

lemma grow_class:
  fixes t :: "'z kmem_scheme"
  defines "D \<equiv> k_block_descs t"
  assumes H: "heap_ok t A fl" and i: "i < 7" "fl i = []" and j: "j < vbits (kernel_vaddr t)"
      "\<not> used t (vaddr_bitmap (kernel_vaddr t)) j" and room: "2 \<le> card (free_frames t (kernel_pool t))"
  shows "\<exists>a m by p. new_arena PF_KERNEL (desc_at D i) t = Inr (True, t\<lparr>mem := m, bytes := by, pmem := p\<rparr>) \<and>
    (\<forall>q \<kappa>. A q = Some \<kappa> \<longrightarrow> a \<notin> set (pages q (span \<kappa>))) \<and> page_walk t a = None \<and>
    arenas_ok (heap_limit t) D (A(a \<mapsto> Blocks i)) \<and>
    heap_ok (t\<lparr>mem := m, bytes := by, pmem := p\<rparr>) (A(a \<mapsto> Blocks i)) (fl(i := map (blk a i) [0..<bcount i])) \<and>
    (\<forall>x. off_page a x \<and> x \<notin> {desc_at D i + 8, desc_at D i + 12, desc_at D i + 16, desc_at D i + 20} \<longrightarrow> m x = mem t x) \<and>
    (\<forall>x. heap_limit t \<le> unat x \<and> off_page a x \<longrightarrow> by x = bytes t x)"
proof -
  let ?d = "desc_at D i" and ?lim = "heap_limit t" and ?va = "kernel_vaddr t"
  note inv = heap_okD(1,2,4) [OF H] and ok = heap_okD(3) [OF H, folded D_def] and lim = heap_limit_le [of t]
  have dok: "desc_ok (mem t) ?d i" and dl: "dlist (mem t) (?d + 8) []"
    using heap_okD(7,8) [OF H i(1)] i(2) by (simp_all add: D_def)
  have dlow: "unat ?d + 24 \<le> unat (vaddr_start ?va)"
  proof -
    have D: "unat D + 168 \<le> ?lim" using ok by (simp add: arenas_ok_def)
    have "unat (?d + of_nat 0) = unat D + i * 24 + 0" by (rule unat_desc_at [OF D lim i(1)]) simp
    then show ?thesis using D i(1) by (simp add: heap_limit_def)
  qed
  obtain a F m "by" p b1 p1 where na: "new_arena PF_KERNEL ?d t = Inr (True, t\<lparr>mem := m, bytes := by, pmem := p\<rparr>)" "frame_of a = a"
      "page_walk t a = None" "page_walk (t\<lparr>mem := m, bytes := by, pmem := p\<rparr>) a = Some F" "frame_of F = F"
    and dl': "dlist m (?d + 8) (map (blk a i) [0..<bcount i])" and hd: "m a = ?d" "m (a + 4) = of_nat (bcount i)" "m (a + 8) = 0"
    and fr: "\<forall>x. off_page a x \<and> x \<notin> {?d + 8, ?d + 12, ?d + 16, ?d + 20} \<longrightarrow> m x = mem t x"
    and sm: "selfmap (t\<lparr>mem := m, bytes := by, pmem := p\<rparr>)" "F \<notin> tables (t\<lparr>mem := m, bytes := by, pmem := p\<rparr>)" "F \<noteq> frame_of (cr3 t)"
    and mp: "malloc_pages PF_KERNEL 1 t = Inr (a, t\<lparr>bytes := b1, pmem := p1\<rparr>)" "\<forall>x. x \<notin> words F \<longrightarrow> p x = p1 x"
      "\<forall>x. off_page a x \<longrightarrow> by x = b1 x"
    using new_arena_run [OF inv(1,2) j room i(1) dok dl dlow] by blast
  have fr1: "free_run t (vaddr_bitmap ?va) (unat (1 :: u32)) j" using j(2) by (auto simp: free_run_def le_less_Suc_eq)
  let ?s1 = "t\<lparr>bytes := b1, pmem := p1\<rparr>" and ?s = "t\<lparr>mem := m, bytes := by, pmem := p\<rparr>"
  have "\<exists>a s1. malloc_pages PF_KERNEL 1 t = Inr (a, s1) \<and> pt_frame t s1 \<and> heap_base s1 \<and>
    page_run s1 a (unat (1 :: u32)) \<and> frame_of a = a \<and> a \<noteq> NULL \<and> ?lim \<le> unat a \<and>
    unat a + unat (1 :: u32) * 4096 \<le> 2 ^ 32 \<and> (\<forall>q\<in>set (pages a (unat (1 :: u32))). page_walk t q = None) \<and>
    (\<forall>q \<kappa>. A q = Some \<kappa> \<longrightarrow> page_run s1 q (span \<kappa>) \<and> set (pages a (unat (1 :: u32))) \<inter> set (pages q (span \<kappa>)) = {}) \<and>
    (\<forall>x. ?lim \<le> unat x \<longrightarrow> bytes s1 x = bytes t x)"
    by (rule heap_malloc_pages [OF H _ _ _ fr1]) (use j room in simp_all)
  then obtain s1 where e1: "s1 = ?s1" and s1: "heap_base s1" "page_run s1 a 1" "?lim \<le> unat a" "unat a + 1 * 4096 \<le> 2 ^ 32"
    and old: "\<And>q \<kappa>. A q = Some \<kappa> \<Longrightarrow> page_run s1 q (span \<kappa>) \<and> set (pages a 1) \<inter> set (pages q (span \<kappa>)) = {}"
    and b1: "\<And>x. ?lim \<le> unat x \<Longrightarrow> bytes s1 x = bytes t x" unfolding mp(1) by auto
  have wF: "page_walk s1 a = Some F"
    using data_frame_write(1) [OF sm(1) na(5) sm(2), of s1 a] sm(3) mp(2) na(4) by (simp add: e1)
  have "a \<in> set (pages a 1)" by (rule pages_head) simp
  then obtain F' where "page_walk s1 a = Some F'" "F' \<in> data s1" using page_run_walk [OF s1(1,2)] by metis
  then have dF: "F \<in> data s1" using wF by simp
  have sel: "cr3 ?s = cr3 s1" "kernel_pool ?s = kernel_pool s1" "user_pool ?s = user_pool s1" "kernel_vaddr ?s = kernel_vaddr s1"
    "k_block_descs ?s = D" "heap_limit ?s = ?lim" "heap_limit s1 = ?lim" by (simp_all add: e1 D_def heap_limit_def)
  have pm: "pmem ?s x = pmem s1 x" if "x \<notin> (\<Union>F\<in>data s1. words F)" for x using mp(2) dF that by (auto simp: e1)
  have lw: "bytes ?s x = bytes s1 x" if "unat x < heap_limit s1" for x
    using mp(3) off_page_unat [OF na(2), of x] that s1(3) by (simp add: e1 sel(7) [unfolded e1])
  note P = page_write_base [OF s1(1) sel(1-4) pm lw]
  let ?B = "A(a \<mapsto> Blocks i)" and ?fl = "fl(i := map (blk a i) [0..<bcount i])"
  have out: "a \<notin> set (pages q (span \<kappa>))" if "A q = Some \<kappa>" for q \<kappa> using old [OF that] by (simp add: pages_1)
  have Aa: "A a = None"
  proof (cases "A a")
    case (Some \<kappa>)
    then show ?thesis using out [OF Some] pages_head [OF arenas_okD(5) [OF ok Some]] by blast
  qed
  have okB: "arenas_ok ?lim D ?B"
    by (rule arenas_ok_insert [OF ok]) (use i(1) na(2) s1(3,4) old in \<open>simp_all add: pages_1\<close>)
  have Ba: "?B a = Some (Blocks i)" by simp
  have hw: "heap_words m D ?B ?fl"
  proof (rule heap_words_step [where a = a and i = i and \<kappa> = "Blocks i" and A = A and B = ?B and lim = ?lim])
    show "heap_words (mem t) D A fl" using H by (simp add: heap_ok_def D_def)
    show "m x = mem t x" if x: "place ?lim D ?B x \<notin> touched_by ?B i a (Blocks i)" for x
    proof -
      have "off_page a x"
      proof (rule ccontr)
        assume "\<not> off_page a x"
        from place_own_page [OF okB Ba this] x show False unfolding touched_by_def span.simps pages_1 by (elim disjE exE) simp_all
      qed
      moreover have "x \<noteq> desc_at D i + of_nat r" if "8 \<le> r" "r < 24" for r
        using place_desc [OF okB lim i(1) that(2)] x that(1) by (auto simp: touched_by_def)
      from this [of 8] this [of 12] this [of 16] this [of 20] have "x \<notin> {?d + 8, ?d + 12, ?d + 16, ?d + 20}" by simp
      ultimately show ?thesis using fr by blast
    qed
    have "free_in ?fl a i = {..<bcount i}" by (auto simp: free_in_def)
    then show "header_ok m D ?fl a (Blocks i)" using hd by simp
    show "dlist m (?d + 8) (?fl i) \<and> set (?fl i) \<subseteq> blocks_of ?B i" using dl' by (fastforce simp: blocks_of_def)
    show "free_in ?fl a' i = free_in fl a' i" if "a' \<noteq> a" "?B a' = Some (Blocks i)" for a'
    proof -
      have "blk a' i k \<noteq> blk a i l" if "k < bcount i" "l < bcount i" for k l
        using place_node(1) [OF okB Ba that(2)] place_node(1) [OF okB \<open>?B a' = Some (Blocks i)\<close> that(1)] \<open>a' \<noteq> a\<close> by auto
      then show ?thesis using i(2) by (auto simp: free_in_def)
    qed
  qed (use okB lim Aa in simp_all)
  have "page_run s1 q (span \<kappa>)" if "?B q = Some \<kappa>" for q \<kappa> using that old [of q \<kappa>] s1(2) by (cases "q = a") auto
  then have "heap_pages ?s ?B" unfolding heap_pages_def sel(5,6) using okB P(3) by blast
  then have "heap_ok ?s ?B ?fl" using P(1) hw unfolding heap_ok_def sel(5) by simp
  moreover have "by x = bytes t x" if "?lim \<le> unat x" "off_page a x" for x using b1 [OF that(1)] mp(3) that(2) by (simp add: e1)
  ultimately show ?thesis using na(1,3) out okB fr by (intro exI [of _ a] exI [of _ m] exI [of _ "by"] exI [of _ p]) simp
qed


section \<open>The effect on the abstract heap\<close>

lemma live_cong:
  assumes "A' (block2arena c) = A (block2arena c)"
    and "\<And>i. A (block2arena c) = Some (Blocks i) \<Longrightarrow> c \<in> blk (block2arena c) i ` {..<bcount i} \<Longrightarrow> c \<in> set (fl' i) \<longleftrightarrow> c \<in> set (fl i)"
  shows "live A' fl' c = live A fl c"
proof (cases "A (block2arena c)")
  case (Some \<kappa>)
  then show ?thesis using assms by (cases \<kappa>) (auto simp: live_def)
qed (use assms(1) in \<open>simp add: live_def\<close>)

lemma live_take:
  assumes ok: "arenas_ok lim D A" and i: "fl i = b # bs" "distinct (fl i)" "set (fl i) \<subseteq> blocks_of A i"
  shows "live A (fl(i := bs)) = (live A fl)(b \<mapsto> bsize i)" "live A fl b = None"
proof -
  obtain a j where a: "A a = Some (Blocks i)" "j < bcount i" "b = blk a i j" using i(1,3) by (auto simp: blocks_of_def)
  have ba: "block2arena b = a" unfolding a(3) by (rule block2arena_blk [OF arenas_okD(2) [OF ok a(1)] a(2)])
  show "live A fl b = None" using i(1) a(1) by (simp add: live_def ba)
  show "live A (fl(i := bs)) = (live A fl)(b \<mapsto> bsize i)"
  proof
    fix c show "live A (fl(i := bs)) c = ((live A fl)(b \<mapsto> bsize i)) c"
    proof (cases "c = b")
      case True
      have "b \<in> blk a i ` {..<bcount i}" using a(2,3) by blast
      then show ?thesis using True i(1,2) a(1) by (simp add: live_def ba)
    next
      case False
      have "live A (fl(i := bs)) c = live A fl c" by (rule live_cong) (use False i(1) in auto)
      then show ?thesis using False by simp
    qed
  qed
qed

lemma live_grow:
  assumes ok: "arenas_ok lim D (A(a \<mapsto> Blocks i))" and i: "fl i = []" and a: "A a = None"
  shows "live (A(a \<mapsto> Blocks i)) (fl(i := map (blk a i) [0..<bcount i])) = live A fl"
proof
  have fa: "frame_of a = a" by (rule arenas_okD(2) [OF ok]) simp
  fix c show "live (A(a \<mapsto> Blocks i)) (fl(i := map (blk a i) [0..<bcount i])) c = live A fl c"
  proof (cases "block2arena c = a")
    case True
    then show ?thesis using a by (auto simp: live_def)
  next
    case False
    then have "c \<notin> set (map (blk a i) [0..<bcount i])" using block2arena_blk [OF fa] by auto
    then show ?thesis using False i by (intro live_cong) auto
  qed
qed

section \<open>What an operation keeps\<close>

definition sentinels :: "addr \<Rightarrow> nat \<Rightarrow> addr set" where
  "sentinels D i = {desc_at D i + 8, desc_at D i + 12, desc_at D i + 16, desc_at D i + 20}"

definition arena_pages :: "arenas \<Rightarrow> addr set" where
  "arena_pages A = {p. \<exists>a \<kappa>. A a = Some \<kappa> \<and> p \<in> set (pages a (span \<kappa>))}"

text \<open>
  Memory outside the heap, and blocks live before and after, are unchanged.  (Below the limit of the heap lie
  the bitmaps, whose bytes do change.)
\<close>

definition kept :: "'z kmem_scheme \<Rightarrow> arenas \<Rightarrow> free_lists \<Rightarrow> 'z kmem_scheme \<Rightarrow> arenas \<Rightarrow> free_lists \<Rightarrow> bool" where
  "kept s A fl s' A' fl' =
     ((\<forall>x. (\<forall>i<7. x \<notin> sentinels (k_block_descs s) i) \<and> frame_of x \<notin> arena_pages A \<union> arena_pages A' \<longrightarrow>
         mem s' x = mem s x \<and> (heap_limit s \<le> unat x \<longrightarrow> bytes s' x = bytes s x)) \<and>
      (\<forall>b n x. live A fl b = Some n \<and> live A' fl' b = Some n \<and> in_block b n x \<longrightarrow> mem s' x = mem s x \<and> bytes s' x = bytes s x))"

lemma sentinel_words: "words_of (set (nodes (desc_at D i + 8) xs)) = sentinels D i \<union> words_of (set xs)"
  by (auto simp: words_of_def set_nodes sentinels_def add.assoc)

lemma sentinel_place:
  assumes "arenas_ok lim D A" "lim \<le> 2 ^ 32" "i < 7" "x \<in> sentinels D i"
  shows "\<exists>r. place lim D A x = Desc i r \<and> 8 \<le> r"
  using node_places [OF assms(1-3), of "[]" x] assms(4) unfolding sentinel_words by auto

lemma arena_page_in: "arenas_ok lim D A \<Longrightarrow> A a = Some \<kappa> \<Longrightarrow> a \<in> arena_pages A"
  unfolding arena_pages_def using pages_head arenas_okD(5) by blast

lemma place_frame: "place lim D A x = Block p j \<Longrightarrow> frame_of x = p"
  by (auto simp: place_def Let_def split: if_splits)

lemma live_where:
  assumes ok: "arenas_ok lim D A" "lim \<le> 2 ^ 32" and l: "live A fl b = Some n" "in_block b n x"
  shows "frame_of x \<in> arena_pages A" "lim \<le> unat x" "i < 7 \<Longrightarrow> x \<notin> sentinels D i"
proof -
  obtain p j where p: "place lim D A x = Block p j"
    and k: "(\<exists>i. A p = Some (Blocks i)) \<or> (\<exists>a k. A a = Some (Pages k) \<and> p \<in> set (pages a k))" using live_place [OF ok(1) l] by blast
  have "p \<in> arena_pages A" using k arena_page_in [OF ok(1)] by (fastforce simp: arena_pages_def)
  then show "frame_of x \<in> arena_pages A" using place_frame [OF p] by simp
  show "lim \<le> unat x" by (rule not_low [OF p])
  show "x \<notin> sentinels D i" if "i < 7" using sentinel_place [OF ok that, of x] p by auto
qed

lemma kept_grow:
  fixes t :: "'z kmem_scheme"
  assumes H: "heap_ok t A fl" and new: "\<forall>q \<kappa>'. A q = Some \<kappa>' \<longrightarrow> set (pages a (span \<kappa>)) \<inter> set (pages q (span \<kappa>')) = {}"
    and m: "\<And>x. frame_of x \<notin> set (pages a (span \<kappa>)) \<Longrightarrow> \<forall>i<7. x \<notin> sentinels (k_block_descs t) i \<Longrightarrow> mem s x = mem t x"
    and b: "\<And>x. heap_limit t \<le> unat x \<Longrightarrow> frame_of x \<notin> set (pages a (span \<kappa>)) \<Longrightarrow> bytes s x = bytes t x"
  shows "kept t A fl s (A(a \<mapsto> \<kappa>)) fl'"
proof -
  note ok = heap_okD(3) [OF H] heap_limit_le [of t]
  have ain: "set (pages a (span \<kappa>)) \<subseteq> arena_pages (A(a \<mapsto> \<kappa>))" unfolding arena_pages_def by auto
  have out: "set (pages a (span \<kappa>)) \<inter> arena_pages A = {}" using new by (auto simp: arena_pages_def)
  have off: "frame_of x \<notin> set (pages a (span \<kappa>))" if "frame_of x \<in> arena_pages A \<or> frame_of x \<notin> arena_pages (A(a \<mapsto> \<kappa>))" for x
    using that ain out by blast
  show ?thesis unfolding kept_def
  proof (intro conjI allI impI; elim conjE)
    fix x assume x: "\<forall>i<7. x \<notin> sentinels (k_block_descs t) i" "frame_of x \<notin> arena_pages A \<union> arena_pages (A(a \<mapsto> \<kappa>))"
    then show "mem s x = mem t x" using off [of x] m by blast
    show "bytes s x = bytes t x" if "heap_limit t \<le> unat x" using off [of x] b x that by blast
  next
    fix c n x assume l: "live A fl c = Some n" "in_block c n x"
    note L = live_where [OF ok l]
    show "mem s x = mem t x" "bytes s x = bytes t x" using off [of x] L(1,2) L(3) m b by blast+
  qed
qed

lemma kept_trans:
  assumes "kept s A fl s1 A1 fl1" "kept s1 A1 fl1 s2 A2 fl2" "k_block_descs s1 = k_block_descs s" "heap_limit s1 = heap_limit s"
    and "arena_pages A1 \<subseteq> arena_pages A \<union> arena_pages A2" "\<And>b. live A1 fl1 b = live A fl b \<or> live A1 fl1 b = live A2 fl2 b"
  shows "kept s A fl s2 A2 fl2"
  unfolding kept_def
proof (intro conjI allI impI; elim conjE)
  fix x assume x: "\<forall>i<7. x \<notin> sentinels (k_block_descs s) i" "frame_of x \<notin> arena_pages A \<union> arena_pages A2"
  have x1: "frame_of x \<notin> arena_pages A \<union> arena_pages A1" "frame_of x \<notin> arena_pages A1 \<union> arena_pages A2" using x(2) assms(5) by auto
  have 1: "mem s1 x = mem s x \<and> (heap_limit s \<le> unat x \<longrightarrow> bytes s1 x = bytes s x)" using assms(1) x(1) x1(1) unfolding kept_def by blast
  have 2: "mem s2 x = mem s1 x \<and> (heap_limit s \<le> unat x \<longrightarrow> bytes s2 x = bytes s1 x)"
    using assms(2) x(1) x1(2) unfolding kept_def assms(3,4) by blast
  show "mem s2 x = mem s x" using 1 2 by simp
  show "bytes s2 x = bytes s x" if "heap_limit s \<le> unat x" using 1 2 that by simp
next
  fix b n x assume l: "live A fl b = Some n" "live A2 fl2 b = Some n" "in_block b n x"
  then have "live A1 fl1 b = Some n" using assms(6) [of b] by auto
  then have "mem s1 x = mem s x \<and> bytes s1 x = bytes s x" "mem s2 x = mem s1 x \<and> bytes s2 x = bytes s1 x"
    using assms(1,2) l unfolding kept_def by blast+
  then show "mem s2 x = mem s x" "bytes s2 x = bytes s x" by simp_all
qed


text \<open>The words of a live block are not those of free blocks, nor headers.\<close>

lemma live_not_node:
  assumes ok: "arenas_ok lim D A" "lim \<le> 2 ^ 32" and l: "live A fl c = Some n" "in_block c n x"
    and i: "i < 7" "set xs \<subseteq> blocks_of A i" "set xs \<subseteq> set (fl i)"
  shows "x \<notin> words_of (set (nodes (desc_at D i + 8) xs))" "A a = Some \<kappa> \<Longrightarrow> r < 12 \<Longrightarrow> x \<noteq> a + of_nat r"
proof -
  obtain p j where p: "place lim D A x = Block p j"
    and k: "(\<exists>i. A p = Some (Blocks i) \<and> j < bcount i \<and> c = blk p i j \<and> c \<notin> set (fl i)) \<or>
      (\<exists>a k. A a = Some (Pages k) \<and> c = a + 12 \<and> p \<in> set (pages a k))" using live_place [OF ok(1) l] by blast
  show "x \<noteq> a + of_nat r" if "A a = Some \<kappa>" "r < 12" using place_head [OF ok(1) that] p by auto
  show "x \<notin> words_of (set (nodes (desc_at D i + 8) xs))"
  proof
    assume "x \<in> words_of (set (nodes (desc_at D i + 8) xs))"
    from node_places [OF ok i(1,2) this] p obtain a j' where a: "A a = Some (Blocks i)" "blk a i j' \<in> set xs" "a = p" "j' = j" by auto
    have "\<not> (A a' = Some (Pages k) \<and> p \<in> set (pages a' k))" for a' k
      using place_page(3) [OF ok(1), of a' "Pages k" p] a(1,3) by (cases "p = a'") auto
    then show False using k a i(3) by auto
  qed
qed

lemma kept_take:
  fixes t :: "'z kmem_scheme"
  defines "D \<equiv> k_block_descs t"
  assumes H: "heap_ok t A fl" and i: "i < 7" "fl i = b # bs"
    and b: "\<forall>x. \<not> in_block b (bsize i) x \<longrightarrow> bytes s x = bytes t x"
    and m: "\<forall>x. \<not> in_block b (bsize i) x \<and> x \<noteq> block2arena b + 4 \<and> x \<notin> words_of (set (nodes (desc_at D i + 8) bs)) \<longrightarrow> mem s x = mem t x"
  shows "kept t A fl s A (fl(i := bs))"
proof -
  note ok = heap_okD(3) [OF H, folded D_def] heap_limit_le [of t]
  note nd = node_places [OF ok i(1)]
  have sub: "set (b # bs) \<subseteq> blocks_of A i" using heap_okD(9) [OF H i(1)] i(2) by simp
  then obtain a j where a: "A a = Some (Blocks i)" "j < bcount i" and bb: "b = blk a i j" by (auto simp: blocks_of_def)
  have b2a: "block2arena b = a" unfolding bb by (rule block2arena_blk [OF arenas_okD(2) [OF ok(1) a(1)] a(2)])
  note pb = place_blk [OF ok(1) a, folded bb]
  have "distinct (fl i)" using heap_okD(8) [OF H i(1)] by (simp add: dlist_def nodes_def)
  note lt = live_take(2) [where fl = fl and i = i, OF ok(1) i(2) this heap_okD(9) [OF H i(1)]]
  have ain: "p \<in> arena_pages A" if "A p = Some (Blocks k)" for p k using arena_page_in [OF ok(1) that] .
  have fh: "frame_of (a + 4) = a" using page_offset(1) [OF arenas_okD(2) [OF ok(1) a(1)], of 4] by simp
  show ?thesis unfolding kept_def
  proof (intro conjI allI impI; elim conjE)
    fix x assume x: "\<forall>i<7. x \<notin> sentinels (k_block_descs t) i" "frame_of x \<notin> arena_pages A \<union> arena_pages A"
    have nb: "\<not> in_block b (bsize i) x" using pb [of x] place_frame [of _ D A x a j] ain [OF a(1)] x(2) by blast
    have n4: "x \<noteq> a + 4" using fh ain [OF a(1)] x(2) by auto
    have nw: "x \<notin> words_of (set (nodes (desc_at D i + 8) bs))"
    proof
      assume w: "x \<in> words_of (set (nodes (desc_at D i + 8) bs))"
      then have "x \<in> words_of (set bs)" using x(1) i(1) unfolding sentinel_words D_def by blast
      then obtain b' where b': "b' \<in> set bs" "x = b' \<or> x = b' + 4" by (auto simp: words_of_def)
      then obtain p k where p: "A p = Some (Blocks i)" "k < bcount i" "b' = blk p i k" using sub by (auto simp: blocks_of_def)
      then have "place (heap_limit t) D A x = Block p k" using place_node [OF ok(1) p(1,2)] b'(2) by auto
      then show False using place_frame [of _ D A x p k] ain [OF p(1)] x(2) by blast
    qed
    show "mem s x = mem t x" using m nb n4 nw by (simp add: b2a)
    show "bytes s x = bytes t x" using b nb by simp
  next
    fix c n x assume l: "live A fl c = Some n" "live A (fl(i := bs)) c = Some n" "in_block c n x"
    have ne: "c \<noteq> b" using lt l(1) by auto
    have "live A (fl(i := bs)) b = Some (bsize i)" using live_take(1) [where fl = fl and i = i, OF ok(1) i(2)] \<open>distinct (fl i)\<close> heap_okD(9) [OF H i(1)] by simp
    then have nb: "\<not> in_block b (bsize i) x" using live_disjoint [OF ok(1) l(2) _ ne] l(3) by (auto simp: disjoint_blocks_def)
    have bs: "set bs \<subseteq> blocks_of A i" "set bs \<subseteq> set (fl i)" using sub i(2) by auto
    have "x \<notin> words_of (set (nodes (desc_at D i + 8) bs))" "x \<noteq> a + of_nat 4"
      using live_not_node(1) [OF ok l(1,3) i(1) bs] live_not_node(2) [OF ok l(1,3) i(1) bs a(1), of 4] by simp_all
    then show "mem s x = mem t x" "bytes s x = bytes t x" using m b nb by (simp_all add: b2a)
  qed
qed

lemma malloc_small_heap:
  fixes t :: "'z kmem_scheme"
  defines "D \<equiv> k_block_descs t" and "l \<equiv> pool_lock (kernel_pool t)"
  assumes H: "heap_ok t A fl" and n: "unat n \<le> 1024" and L: "held l t" "unat l + 20 \<le> heap_limit t" "168 \<le> unat (l + 12 - D)"
    and room: "fl (class_of (unat n)) = [] \<Longrightarrow> (\<exists>j<vbits (kernel_vaddr t). \<not> used t (vaddr_bitmap (kernel_vaddr t)) j) \<and>
      2 \<le> card (free_frames t (kernel_pool t))"
  shows "\<exists>b m by p A' fl'. malloc_small PF_KERNEL D n t = Inr (b, (unlocked l t)\<lparr>mem := m, bytes := by, pmem := p\<rparr>) \<and>
    heap_ok ((unlocked l t)\<lparr>mem := m, bytes := by, pmem := p\<rparr>) A' fl' \<and> live A fl b = None \<and>
    live A' fl' = (live A fl)(b \<mapsto> bsize (class_of (unat n))) \<and>
    (\<forall>x. in_block b (bsize (class_of (unat n))) x \<longrightarrow> m x = 0 \<and> by x = 0) \<and>
    kept t A fl ((unlocked l t)\<lparr>mem := m, bytes := by, pmem := p\<rparr>) A' fl'"
proof -
  let ?i = "class_of (unat n)"
  have i: "?i < 7" by (rule class_of_bound(1) [OF n])
  have fd: "find_desc DESC_CNT (k_block_descs s) n s = desc_at (k_block_descs s) ?i" if "heap_ok s B fl'" for s :: "'z kmem_scheme" and B fl'
  proof -
    have "find_desc 7 (desc_at (k_block_descs s) 0) n s = desc_at (k_block_descs s) ?i"
      by (rule find_desc_class [OF _ n]) (use heap_okD(7) [OF that] in \<open>simp_all add: desc_ok_def heap_layout\<close>)
    then show ?thesis by (simp add: DESC_CNT_def desc_at_def)
  qed
  have take: "\<exists>b m by p. malloc_small PF_KERNEL D n t1 = Inr (b, (unlocked l t)\<lparr>mem := m, bytes := by, pmem := p\<rparr>) \<and>
      heap_ok ((unlocked l t)\<lparr>mem := m, bytes := by, pmem := p\<rparr>) B (fl1(?i := tl (fl1 ?i))) \<and> live B fl1 b = None \<and>
      live B (fl1(?i := tl (fl1 ?i))) = (live B fl1)(b \<mapsto> bsize ?i) \<and>
      (\<forall>x. in_block b (bsize ?i) x \<longrightarrow> m x = 0 \<and> by x = 0) \<and>
      kept t1 B fl1 ((unlocked l t)\<lparr>mem := m, bytes := by, pmem := p\<rparr>) B (fl1(?i := tl (fl1 ?i)))"
    if t1: "t1 = t\<lparr>mem := m1, bytes := b1, pmem := p1\<rparr>" "m1 (l + 12) = mem t (l + 12)" and H1: "heap_ok t1 B fl1" and ne: "fl1 ?i \<noteq> []"
    for t1 m1 b1 p1 B fl1
  proof -
    have sel: "k_block_descs t1 = D" "pool_lock (kernel_pool t1) = l" "heap_limit t1 = heap_limit t" by (simp_all add: t1 D_def l_def heap_limit_def)
    have un: "(unlocked l t1)\<lparr>mem := m, bytes := by, pmem := p\<rparr> = (unlocked l t)\<lparr>mem := m, bytes := by, pmem := p\<rparr>" for m "by" p
      by (simp add: t1 unlocked_def)
    obtain b bs where b: "fl1 ?i = b # bs" using ne by (cases "fl1 ?i") auto
    have h1: "held l t1" using L(1) t1 by (simp add: held_def running_thread_def)
    have dist: "distinct (fl1 ?i)" using heap_okD(8) [OF H1 i] by (simp add: dlist_def nodes_def)
    have "\<exists>m by p. malloc_small PF_KERNEL D n t1 = Inr (b, (unlocked l t1)\<lparr>mem := m, bytes := by, pmem := p\<rparr>) \<and>
        heap_ok ((unlocked l t1)\<lparr>mem := m, bytes := by, pmem := p\<rparr>) B (fl1(?i := bs)) \<and>
        (\<forall>x. in_block b (bsize ?i) x \<longrightarrow> m x = 0 \<and> by x = 0) \<and> (\<forall>x. \<not> in_block b (bsize ?i) x \<longrightarrow> by x = bytes t1 x) \<and>
        (\<forall>x. \<not> in_block b (bsize ?i) x \<and> x \<noteq> block2arena b + 4 \<and> x \<notin> words_of (set (nodes (desc_at D ?i + 8) bs)) \<longrightarrow> m x = mem t1 x)"
      using take_block [OF H1 i b, of n] fd [OF H1] h1 L(2,3) unfolding sel by blast
    then obtain m "by" p where r: "malloc_small PF_KERNEL D n t1 = Inr (b, (unlocked l t)\<lparr>mem := m, bytes := by, pmem := p\<rparr>)"
        "heap_ok ((unlocked l t)\<lparr>mem := m, bytes := by, pmem := p\<rparr>) B (fl1(?i := bs))"
        "\<forall>x. in_block b (bsize ?i) x \<longrightarrow> m x = 0 \<and> by x = 0" "\<forall>x. \<not> in_block b (bsize ?i) x \<longrightarrow> by x = bytes t1 x"
        "\<forall>x. \<not> in_block b (bsize ?i) x \<and> x \<noteq> block2arena b + 4 \<and> x \<notin> words_of (set (nodes (desc_at D ?i + 8) bs)) \<longrightarrow> m x = mem t1 x"
      unfolding un by blast
    have "kept t1 B fl1 ((unlocked l t)\<lparr>mem := m, bytes := by, pmem := p\<rparr>) B (fl1(?i := bs))"
      by (rule kept_take [OF H1 i b]) (use r(4,5) in \<open>simp_all add: sel\<close>)
    moreover note live_take [where fl = fl1 and i = ?i, OF heap_okD(3) [OF H1] b dist heap_okD(9) [OF H1 i]]
    ultimately show ?thesis using r(1-3) b by (intro exI [of _ b] exI [of _ m] exI [of _ "by"] exI [of _ p]) simp
  qed
  show ?thesis
  proof (cases "fl ?i = []")
    case False
    have "t = t\<lparr>mem := mem t, bytes := bytes t, pmem := pmem t\<rparr>" by simp
    from take [OF this _ H False] show ?thesis by blast
  next
    case True
    let ?d = "desc_at D ?i"
    obtain j where j: "j < vbits (kernel_vaddr t)" "\<not> used t (vaddr_bitmap (kernel_vaddr t)) j" and rm: "2 \<le> card (free_frames t (kernel_pool t))"
      using room [OF True] by blast
    obtain a m1 b1 p1 where g: "new_arena PF_KERNEL ?d t = Inr (True, t\<lparr>mem := m1, bytes := b1, pmem := p1\<rparr>)"
        "\<forall>q \<kappa>. A q = Some \<kappa> \<longrightarrow> a \<notin> set (pages q (span \<kappa>))" "arenas_ok (heap_limit t) D (A(a \<mapsto> Blocks ?i))"
        "heap_ok (t\<lparr>mem := m1, bytes := b1, pmem := p1\<rparr>) (A(a \<mapsto> Blocks ?i)) (fl(?i := map (blk a ?i) [0..<bcount ?i]))"
        "\<forall>x. off_page a x \<and> x \<notin> {?d + 8, ?d + 12, ?d + 16, ?d + 20} \<longrightarrow> m1 x = mem t x"
        "\<forall>x. heap_limit t \<le> unat x \<and> off_page a x \<longrightarrow> b1 x = bytes t x"
      using grow_class [OF H i True j rm] unfolding D_def by blast
    let ?t1 = "t\<lparr>mem := m1, bytes := b1, pmem := p1\<rparr>" and ?B = "A(a \<mapsto> Blocks ?i)" and ?fl = "fl(?i := map (blk a ?i) [0..<bcount ?i])"
    have fa: "frame_of a = a" "heap_limit t \<le> unat a" using arenas_okD(2,3) [OF g(3), of a] by simp_all
    have ne: "?fl ?i \<noteq> []" using bcount_pos [OF i] by simp
    have lk: "m1 (l + 12) = mem t (l + 12)"
    proof -
      have "l + 12 \<notin> {?d + 8, ?d + 12, ?d + 16, ?d + 20}" using kheap_sentinel [OF L(3) i] .
      moreover have "off_page a (l + 12)"
        using low_off_page [OF fa(1) fa(2) [unfolded heap_limit_def], of l 12] L(2) by (simp add: heap_limit_def)
      ultimately show ?thesis using g(5) by blast
    qed
    have k1: "kept t A fl ?t1 ?B ?fl"
    proof (rule kept_grow [OF H])
      show "\<forall>q \<kappa>'. A q = Some \<kappa>' \<longrightarrow> set (pages a (span (Blocks ?i))) \<inter> set (pages q (span \<kappa>')) = {}" using g(2) by (simp add: pages_1)
      show "mem ?t1 x = mem t x" if "frame_of x \<notin> set (pages a (span (Blocks ?i)))" "\<forall>i<7. x \<notin> sentinels (k_block_descs t) i" for x
        using g(5) not_in_page [OF fa(1), of x] that i by (auto simp: pages_1 sentinels_def D_def)
      show "bytes ?t1 x = bytes t x" if "heap_limit t \<le> unat x" "frame_of x \<notin> set (pages a (span (Blocks ?i)))" for x
        using g(6) not_in_page [OF fa(1), of x] that by (simp add: pages_1)
    qed
    have Aa: "A a = None"
    proof (cases "A a")
      case (Some \<kappa>)
      then show ?thesis using g(2) pages_head [OF arenas_okD(5) [OF heap_okD(3) [OF H] Some]] by blast
    qed
    have lg: "live ?B ?fl = live A fl" by (rule live_grow) (use g(3) True Aa in auto)
    obtain b m "by" p fl' where r: "malloc_small PF_KERNEL D n ?t1 = Inr (b, (unlocked l t)\<lparr>mem := m, bytes := by, pmem := p\<rparr>)"
        "heap_ok ((unlocked l t)\<lparr>mem := m, bytes := by, pmem := p\<rparr>) ?B fl'" "live A fl b = None" "live ?B fl' = (live A fl)(b \<mapsto> bsize ?i)"
        "\<forall>x. in_block b (bsize ?i) x \<longrightarrow> m x = 0 \<and> by x = 0"
        "kept ?t1 ?B ?fl ((unlocked l t)\<lparr>mem := m, bytes := by, pmem := p\<rparr>) ?B fl'"
      using take [OF refl lk g(4) ne] unfolding lg by blast
    have ms: "malloc_small PF_KERNEL D n t = malloc_small PF_KERNEL D n ?t1"
    proof -
      have f: "find_desc DESC_CNT D n t = ?d" "find_desc DESC_CNT D n ?t1 = ?d" using fd [OF H] fd [OF g(4)] by (simp_all add: D_def)
      have "list_empty (?d + 8) t" using list_empty_dlist [OF heap_okD(8) [OF H i]] True by (simp add: D_def)
      moreover have "\<not> list_empty (?d + 8) ?t1" using list_empty_dlist [OF heap_okD(8) [OF g(4) i]] ne by (simp add: D_def)
      ultimately show ?thesis unfolding malloc_small_def f Let_def desc_free_list_def using g(1) by simp
    qed
    have "kept t A fl ((unlocked l t)\<lparr>mem := m, bytes := by, pmem := p\<rparr>) ?B fl'"
      by (rule kept_trans [OF k1 r(6)]) (use lg in \<open>simp_all add: heap_limit_def\<close>)
    then show ?thesis using r(1-5) unfolding ms by blast
  qed
qed

end
