(* ===== verification/Heap_Large.thy ===== *)
theory Heap_Large
  imports Heap_Alloc
begin

text \<open>
  Requests of more than 1024 bytes on a represented heap: \<open>malloc_large\<close> gives a run of pages of their own.
\<close>

section \<open>Clearing a run of pages\<close>

lemma fill_words_off_set:
  assumes "\<And>i. i < n \<Longrightarrow> page_walk s (dst + of_nat (i * 4)) \<in> Some ` W" "x \<notin> W"
  shows "fill_words s dst w n x = pmem s x"
  using assms(1)
proof (induction n)
  case (Suc n)
  obtain pa where "page_walk s (dst + of_nat (n * 4)) = Some pa" "pa \<in> W" using Suc.prems [of n] by auto
  moreover have "fill_words s dst w n x = pmem s x" using Suc by simp
  ultimately show ?case using assms(2) by auto
qed simp

lemma run_page:
  assumes "q < n"
  shows "a + of_nat (q * 4096) \<in> set (pages a n)"
  using assms by (auto simp: pages_def PG_SIZE_def)

lemma memset_run:
  fixes s :: "'z kmem_scheme"
  assumes base: "heap_base s" and run: "page_run s a n" and a: "a \<noteq> NULL" "0 < n" "n < 57600"
  shows "\<exists>p. memset_mem a 0 (of_nat n * PG_SIZE) s =
      Inr (s\<lparr>mem := (\<lambda>x. if in_block a (n * 4096) x then 0 else mem s x),
             bytes := (\<lambda>x. if in_block a (n * 4096) x then 0 else bytes s x), pmem := p\<rparr>) \<and>
      (\<forall>x. x \<notin> (\<Union>F\<in>data s. words F) \<longrightarrow> p x = pmem s x)"
proof -
  let ?N = "of_nat n * PG_SIZE :: u32"
  have u: "unat ?N = n * 4096"
  proof -
    have e: "?N = of_nat (n * 4096)" by (simp add: PG_SIZE_def)
    show ?thesis unfolding e by (rule unat_of_nat_lt) (use a(3) in simp)
  qed
  have N0: "?N \<noteq> 0" using u a(2) by (metis unat_0 mult_is_0 not_gr_zero zero_neq_numeral)
  have walk: "\<exists>F\<in>data s. page_walk s (a + of_nat (q * 4096)) = Some F \<and> frame_of F = F \<and> frame_of (a + of_nat (q * 4096)) = a + of_nat (q * 4096)"
    if "q < n" for q using page_run_walk [OF base run run_page [OF that]] by metis
  have bytes_walk: "page_walk s (a + of_nat (q * 4096) + of_nat r) \<noteq> None" if q: "q < n" "r < 4096" for q r
  proof -
    obtain F where "page_walk s (a + of_nat (q * 4096)) = Some F" "frame_of (a + of_nat (q * 4096)) = a + of_nat (q * 4096)"
      using walk [OF q(1)] by blast
    then show ?thesis using walk_in_page [OF _ _ q(2)] by auto
  qed
  have last: "a + ?N - 1 = a + of_nat ((n - 1) * 4096) + of_nat 4095"
  proof -
    have "a + ?N - 1 = a + of_nat (n * 4096 - 1)" using a(2) by (simp add: of_nat_diff PG_SIZE_def)
    also have "n * 4096 - 1 = (n - 1) * 4096 + 4095" using a(2) by (cases n) simp_all
    finally show ?thesis by simp
  qed
  have t: "\<forall>x\<in>set (touched a ?N). page_walk s x \<noteq> None"
  proof
    fix x assume x: "x \<in> set (touched a ?N)"
    have d: "(n * 4096 + 4095) div 4096 = n" by simp
    from x N0 consider q where "q < n" "x = a + of_nat (q * 4096)" | "x = a + ?N - 1" by (auto simp: touched_def u d)
    then show "page_walk s x \<noteq> None"
    proof cases
      case 1
      then show ?thesis using bytes_walk [of q 0] by simp
    next
      case 2
      then show ?thesis unfolding last using bytes_walk [of "n - 1" 4095] a(2) by simp
    qed
  qed
  have f: "find (\<lambda>x. page_walk s x = None) (touched a ?N) = None" using t by (simp add: find_None_iff)
  have w: "page_walk s (a + of_nat (i * 4)) \<in> Some ` (\<Union>F\<in>data s. words F)" if i: "i < n * 1024" for i
  proof -
    define q r where "q = i div 1024" and "r = i mod 1024"
    have q: "q < n" "r < 1024" using i by (simp_all add: q_def r_def less_mult_imp_div_less)
    have e: "i * 4 = q * 4096 + r * 4" using div_mult_mod_eq [of i 1024] unfolding q_def r_def by linarith
    obtain F where F: "F \<in> data s" "page_walk s (a + of_nat (q * 4096)) = Some F" "frame_of (a + of_nat (q * 4096)) = a + of_nat (q * 4096)"
      using walk [OF q(1)] by blast
    have eq: "a + of_nat (i * 4) = a + of_nat (q * 4096) + of_nat (r * 4)" unfolding e by simp
    have "page_walk s (a + of_nat (i * 4)) \<in> Some ` words F" unfolding eq by (rule walk_inside [OF F(2,3) q(2)])
    then show ?thesis using F(1) by blast
  qed
  let ?p = "fill_words s a 0 (n * 4096 div 4)"
  have "memset_mem a 0 ?N s = Inr (s\<lparr>mem := (\<lambda>x. if in_block a (n * 4096) x then 0 else mem s x),
      bytes := (\<lambda>x. if in_block a (n * 4096) x then 0 else bytes s x), pmem := ?p\<rparr>)"
    using a(1) f by (simp add: memset_mem_def u cong: if_cong)
  moreover have "\<forall>x. x \<notin> (\<Union>F\<in>data s. words F) \<longrightarrow> ?p x = pmem s x"
  proof (intro allI impI)
    fix x assume "x \<notin> (\<Union>F\<in>data s. words F)"
    then show "?p x = pmem s x" by (intro fill_words_off_set [where W = "\<Union>F\<in>data s. words F"]) (use w in simp_all)
  qed
  ultimately show ?thesis by blast
qed

section \<open>Large blocks\<close>

definition pages_for :: "nat \<Rightarrow> nat" where
  "pages_for n = (n + 12 + 4095) div 4096"

lemma pages_for_bounds: "n + 12 \<le> pages_for n * 4096" "0 < pages_for n"
  unfolding pages_for_def by simp_all

lemma page_cnt_eq:
  assumes "pages_for (unat n) < 57600"
  shows "DIV_ROUND_UP (n + sizeof_arena) PG_SIZE = of_nat (pages_for (unat n))" "unat (of_nat (pages_for (unat n)) :: u32) = pages_for (unat n)"
proof -
  have "unat n + 12 \<le> 57600 * 4096" using pages_for_bounds(1) [of "unat n"] assms by linarith
  then have "unat (n + sizeof_arena + PG_SIZE - 1) = unat n + 12 + 4095"
    using unat_add_of_nat [of n 4107] by (simp add: sizeof_arena_def PG_SIZE_def ac_simps)
  then have "unat (DIV_ROUND_UP (n + sizeof_arena) PG_SIZE) = pages_for (unat n)"
    by (simp add: DIV_ROUND_UP_def unat_div pages_for_def) (simp add: PG_SIZE_def)
  moreover show u: "unat (of_nat (pages_for (unat n)) :: u32) = pages_for (unat n)" using assms by (simp add: unat_of_nat_lt)
  ultimately show "DIV_ROUND_UP (n + sizeof_arena) PG_SIZE = of_nat (pages_for (unat n))" by (metis word_unat_eq_iff)
qed


lemma live_add_large:
  assumes "frame_of a = a" "A a = None"
  shows "live (A(a \<mapsto> Pages n)) fl = (live A fl)(a + sizeof_arena \<mapsto> n * 4096 - 12)" "live A fl (a + sizeof_arena) = None"
proof -
  note f = frame_of_large [OF assms(1)]
  show "live A fl (a + sizeof_arena) = None" using assms(2) f by (simp add: live_def)
  show "live (A(a \<mapsto> Pages n)) fl = (live A fl)(a + sizeof_arena \<mapsto> n * 4096 - 12)"
  proof
    fix c show "live (A(a \<mapsto> Pages n)) fl c = ((live A fl)(a + sizeof_arena \<mapsto> n * 4096 - 12)) c"
    proof (cases "block2arena c = a")
      case True
      then show ?thesis using assms(2) by (auto simp: live_def)
    next
      case False
      have "live (A(a \<mapsto> Pages n)) fl c = live A fl c" by (rule live_cong) (use False in simp_all)
      then show ?thesis using False f by auto
    qed
  qed
qed

lemma arena_absent:
  assumes "arenas_ok lim D A" "0 < n" "\<And>q \<kappa>. A q = Some \<kappa> \<Longrightarrow> set (pages a n) \<inter> set (pages q (span \<kappa>)) = {}"
  shows "A a = None"
proof (cases "A a")
  case (Some \<kappa>)
  then show ?thesis using assms(3) [OF Some] pages_head [OF assms(2), of a] pages_head [OF arenas_okD(5) [OF assms(1) Some], of a] by blast
qed

lemma in_run:
  assumes "frame_of a = a" "unat a + n * 4096 \<le> 2 ^ 32" "in_block a (n * 4096) x"
  shows "frame_of x \<in> set (pages a n)" "unat a \<le> unat x"
proof -
  have x: "unat a \<le> unat x" "unat x < unat a + n * 4096" using assms(2,3) in_block_unat [of a "n * 4096" x] by auto
  show "unat a \<le> unat x" by (rule x(1))
  show "frame_of x \<in> set (pages a n)" by (rule frame_in_run [OF assms(1,2) x])
qed

lemma malloc_large_heap:
  fixes t :: "'z kmem_scheme"
  defines "l \<equiv> pool_lock (kernel_pool t)" and "D \<equiv> k_block_descs t"
  assumes H: "heap_ok t A fl" and n: "k = pages_for (unat nb)" "k < 57600" and L: "held l t" "unat l + 20 \<le> heap_limit t"
    and j: "j + k \<le> vbits (kernel_vaddr t)" "free_run t (vaddr_bitmap (kernel_vaddr t)) k j"
    and room: "2 * k \<le> card (free_frames t (kernel_pool t))"
  shows "\<exists>a m by p. malloc_large PF_KERNEL nb t = Inr (a + sizeof_arena, (unlocked l t)\<lparr>mem := m, bytes := by, pmem := p\<rparr>) \<and>
    heap_ok ((unlocked l t)\<lparr>mem := m, bytes := by, pmem := p\<rparr>) (A(a \<mapsto> Pages k)) fl \<and> frame_of a = a \<and>
    A a = None \<and> (\<forall>x. in_block (a + sizeof_arena) (k * 4096 - 12) x \<longrightarrow> m x = 0 \<and> by x = 0) \<and>
    kept t A fl ((unlocked l t)\<lparr>mem := m, bytes := by, pmem := p\<rparr>) (A(a \<mapsto> Pages k)) fl"
proof -
  let ?lim = "heap_limit t"
  note ok = heap_okD(3) [OF H, folded D_def] and lim = heap_limit_le [of t]
  have k0: "0 < k" unfolding n(1) by (rule pages_for_bounds(2))
  define c where "c = (of_nat k :: u32)"
  have c: "DIV_ROUND_UP (nb + sizeof_arena) PG_SIZE = c" "unat c = k" using page_cnt_eq [of nb] n by (simp_all add: c_def)
  obtain a s1 where m: "malloc_pages PF_KERNEL c t = Inr (a, s1)" "pt_frame t s1" and b1: "heap_base s1"
    and r1: "page_run s1 a k" and a: "frame_of a = a" "a \<noteq> NULL" "?lim \<le> unat a" "unat a + k * 4096 \<le> 2 ^ 32"
    and old: "\<And>q \<kappa>. A q = Some \<kappa> \<Longrightarrow> page_run s1 q (span \<kappa>) \<and> set (pages a k) \<inter> set (pages q (span \<kappa>)) = {}"
    and by1: "\<And>x. ?lim \<le> unat x \<Longrightarrow> bytes s1 x = bytes t x"
    using heap_malloc_pages [OF H, of c j] c(2) k0 n(2) j room by metis
  obtain b' p' where s1: "s1 = t\<lparr>bytes := b', pmem := p'\<rparr>" using m(2) unfolding pt_frame_def by blast
  obtain p where ms: "memset_mem a 0 (c * PG_SIZE) s1 = Inr (s1\<lparr>mem := (\<lambda>x. if in_block a (k * 4096) x then 0 else mem s1 x),
      bytes := (\<lambda>x. if in_block a (k * 4096) x then 0 else bytes s1 x), pmem := p\<rparr>)"
    and p: "\<And>x. x \<notin> (\<Union>F\<in>data s1. words F) \<Longrightarrow> p x = pmem s1 x" using memset_run [OF b1 r1 a(2) k0 n(2)] unfolding c_def by blast
  define m2 where "m2 = (\<lambda>x. if in_block a (k * 4096) x then 0 else mem t x)"
  define "by" where "by = (\<lambda>x. if in_block a (k * 4096) x then 0 else bytes s1 x)"
  define mm where "mm = m2(a := NULL, a + 4 := c, a + 8 := 1)"
  let ?s = "(unlocked l t)\<lparr>mem := mm, bytes := by, pmem := p\<rparr>" and ?B = "A(a \<mapsto> Pages k)"
  have Aa: "A a = None" by (rule arena_absent [OF ok k0]) (use old in blast)
  have okB: "arenas_ok ?lim D ?B" by (rule arenas_ok_insert [OF ok]) (use k0 a old in \<open>simp_all add: Int_commute\<close>)
  have Ba: "?B a = Some (Pages k)" by simp
  have h: "place ?lim D ?B (a + of_nat r) = Head a r" if "r < 12" for r by (rule place_head [OF okB Ba that])
  have hd: "\<exists>r. place ?lim D ?B x = Head a r" if "x \<in> {a, a + 4, a + 8}" for x
  proof -
    have "x = a + of_nat 0 \<or> x = a + of_nat 4 \<or> x = a + of_nat 8" using that by simp
    then show ?thesis using h [of 0] h [of 4] h [of 8] by (elim disjE) (simp_all only:, blast+)
  qed
  have frame: "mm x = mem t x" if "frame_of x \<notin> set (pages a k)" for x
  proof -
    have "\<not> in_block a (k * 4096) x" using in_run(1) [OF a(1,4)] that by blast
    moreover have "x \<notin> {a, a + 4, a + 8}"
      using page_offset(1) [OF a(1), of 0] page_offset(1) [OF a(1), of 4] page_offset(1) [OF a(1), of 8] pages_head [OF k0] that by auto
    ultimately show ?thesis by (simp add: mm_def m2_def)
  qed
  have lw: "unat (l + 12) = unat l + 12"
    using unat_add_of_nat [of l 12] L(2) lim by simp
  have mlk: "mm (l + 12) = mem t (l + 12)"
  proof (rule frame)
    show "frame_of (l + 12) \<notin> set (pages a k)"
    proof
      assume f: "frame_of (l + 12) \<in> set (pages a k)"
      have "?lim \<le> unat (frame_of (l + 12))" using place_page(2) [OF okB Ba, of "frame_of (l + 12)"] f by simp
      then show False using lw L(2) div_times_less_eq_dividend [of "unat (l + 12)" 4096] by (simp add: unat_frame_of)
    qed
  qed
  have run: "malloc_large PF_KERNEL nb t = Inr (a + sizeof_arena, ?s)"
  proof -
    let ?s2 = "s1\<lparr>mem := (\<lambda>x. if in_block a (k * 4096) x then 0 else mem s1 x), bytes := by, pmem := p\<rparr>"
    have e: "wr (arena_large a) 1 (wr (arena_cnt a) c (wr (arena_desc a) NULL ?s2)) = t\<lparr>mem := mm, bytes := by, pmem := p\<rparr>"
      by (simp add: s1 wr_def heap_layout mm_def m2_def cong: if_cong)
    have ms': "memset_mem a 0 (c * PG_SIZE) s1 = Inr ?s2" using ms by (simp add: by_def)
    have "held l (t\<lparr>mem := mm, bytes := by, pmem := p\<rparr>)" using L(1) mlk by (simp add: held_def running_thread_def)
    from lock_release_held [OF this] have "lock_release l (t\<lparr>mem := mm, bytes := by, pmem := p\<rparr>) = Inr ?s" by (simp add: unlocked_def)
    then show ?thesis
      using m(1) ms' e a(2) by (simp add: malloc_large_def c(1) Let_def pool_of_def l_def)
  qed
  have sel: "cr3 ?s = cr3 s1" "kernel_pool ?s = kernel_pool s1" "user_pool ?s = user_pool s1" "kernel_vaddr ?s = kernel_vaddr s1"
    "k_block_descs ?s = D" "heap_limit ?s = ?lim" "heap_limit s1 = ?lim" by (simp_all add: s1 unlocked_def D_def heap_limit_def)
  have pm: "pmem ?s x = pmem s1 x" if "x \<notin> (\<Union>F\<in>data s1. words F)" for x using p [OF that] by simp
  have lb: "bytes ?s x = bytes s1 x" if "unat x < heap_limit s1" for x
    using in_run(2) [OF a(1,4), of x] that a(3) sel(7) by (auto simp: by_def)
  note P = page_write_base [OF b1 sel(1-4) pm lb]
  have hw: "heap_words mm D ?B fl"
  proof (rule heap_words_step [where a = a and i = 7 and \<kappa> = "Pages k" and A = A and B = ?B and lim = ?lim])
    show "heap_words (mem t) D A fl" using H by (simp add: heap_ok_def D_def)
    show "mm x = mem t x" if x: "place ?lim D ?B x \<notin> touched_by ?B 7 a (Pages k)" for x
    proof (rule frame, rule notI)
      assume f: "frame_of x \<in> set (pages a k)"
      have ux: "?lim \<le> unat x"
        using place_page(2) [OF okB Ba, of "frame_of x"] f div_times_less_eq_dividend [of "unat x" 4096] unat_frame_of [of x] by simp
      have "place ?lim D ?B x = Block (frame_of x) 0 \<or> (\<exists>r. place ?lim D ?B x = Head a r)"
      proof (cases "frame_of x = a")
        case True
        then show ?thesis using ux by (simp add: place_def Let_def)
      next
        case False
        then have "A (frame_of x) = None" using place_page(3) [OF okB Ba, of "frame_of x"] f by simp
        then show ?thesis using ux False by (simp add: place_def Let_def)
      qed
      then show False using x f by (auto simp: touched_by_def)
    qed
    have n0: "a + 4 \<noteq> a" "a + 8 \<noteq> a" "a + 4 \<noteq> a + 8" by simp_all
    show "header_ok mm D fl a (Pages k)" using n0 by (simp add: mm_def c_def)
    show "free_in fl a' 7 = free_in fl a' 7" for a' ..
  qed (use okB lim Aa in simp_all)
  have "page_run s1 q (span \<kappa>)" if "?B q = Some \<kappa>" for q \<kappa> using that old [of q \<kappa>] r1 by (cases "q = a") auto
  then have "heap_pages ?s ?B" unfolding heap_pages_def sel(5,6) using okB P(3) by blast
  then have hok: "heap_ok ?s ?B fl" using P(1) hw unfolding heap_ok_def sel(5) by simp
  have zero: "mm x = 0 \<and> by x = 0" if x: "in_block (a + sizeof_arena) (k * 4096 - 12) x" for x
  proof -
    have "\<exists>q\<in>set (pages a k). place ?lim D ?B x = Block q 0 \<and> frame_of x = q"
      by (rule place_large [OF okB Ba]) (use x in \<open>simp add: sizeof_arena_def\<close>)
    then have "x \<notin> {a, a + 4, a + 8}" using hd [of x] by (metis place.distinct(5))
    moreover have "in_block a (k * 4096) x"
    proof -
      have u: "unat (a + 12) = unat a + 12" using page_offset(2) [OF a(1), of 12] by simp
      have "unat (a + 12) + (k * 4096 - 12) \<le> 2 ^ 32" using u a(4) k0 by simp
      then have "unat a + 12 \<le> unat x" "unat x < unat a + 12 + (k * 4096 - 12)"
        using in_block_unat [of "a + 12" "k * 4096 - 12" x] x u by (auto simp: sizeof_arena_def)
      then show ?thesis using in_block_unat [OF a(4), of x] k0 by simp
    qed
    ultimately show ?thesis by (simp add: mm_def m2_def by_def)
  qed
  have "kept t A fl ?s ?B fl"
  proof (rule kept_grow [OF H])
    show "\<forall>q \<kappa>'. A q = Some \<kappa>' \<longrightarrow> set (pages a (span (Pages k))) \<inter> set (pages q (span \<kappa>')) = {}" using old by simp
    show "mem ?s x = mem t x" if "frame_of x \<notin> set (pages a (span (Pages k)))" for x using frame that by simp
    show "bytes ?s x = bytes t x" if "heap_limit t \<le> unat x" "frame_of x \<notin> set (pages a (span (Pages k)))" for x
      using by1 [OF that(1)] in_run(1) [OF a(1,4), of x] that(2) by (auto simp: by_def)
  qed
  then show ?thesis using run hok a(1) Aa zero by blast
qed

end
