(* ===== verification/Heap_Free.thy ===== *)
theory Heap_Free
  imports Heap_Large
begin

text \<open>
  Giving blocks back on a represented heap: the block joins its free list; an arena whose blocks are all free is
  taken apart and its page given back, and so are the pages of a large block.
\<close>

section \<open>Giving pages back\<close>

lemma heap_mfree_pages:
  fixes s :: "'z kmem_scheme"
  assumes base: "heap_base s" and run: "page_run s a (unat n)" and n: "0 < unat n"
  shows "\<exists>s'. mfree_page PF_KERNEL a n s = Inr s' \<and> pt_frame s s' \<and> heap_base s' \<and>
    (\<forall>q m. page_run s q m \<and> set (pages a (unat n)) \<inter> set (pages q m) = {} \<longrightarrow> page_run s' q m) \<and>
    (\<forall>x. heap_limit s \<le> unat x \<longrightarrow> bytes s' x = bytes s x) \<and> (\<forall>q\<in>set (pages a (unat n)). page_walk s' q = None)"
proof -
  let ?va = "kernel_vaddr s" and ?n = "unat n"
  have inv: "mm_inv s" "vspace_ok s ?va" "pools_ordered s" "0x102000 \<le> unat (phy_addr_start (kernel_pool s))"
    and low: "\<And>x. x \<in> pool_bytes s \<union> bm_bytes (vaddr_bitmap ?va) \<Longrightarrow> unat x < heap_limit s"
    using base by (simp_all add: heap_base_def)
  have vs: "vspace PF_KERNEL s = ?va" by (simp add: vspace_def)
  obtain k where k: "a = vpage ?va k" "k + ?n \<le> vbits ?va" "\<And>j. k \<le> j \<and> j < k + ?n \<Longrightarrow> used s (vaddr_bitmap ?va) j \<and>
      (\<exists>F\<in>pool_frames (kernel_pool s). page_walk s (vpage ?va j) = Some F)" using run unfolding page_run_def by blast
  have fr: "freeable PF_KERNEL s (vpage ?va i)" if "k \<le> i \<and> i < k + ?n" for i
    using k(3) [OF that] by (auto simp: freeable_def pool_of_def)
  have "\<exists>s'. mfree_page PF_KERNEL (vpage (vspace PF_KERNEL s) k) n s = Inr s' \<and> mm_inv s' \<and> vspace_ok s' (vspace PF_KERNEL s) \<and>
      freed_run s s' (vspace PF_KERNEL s) k ?n PF_KERNEL"
    by (rule mfree_page_run [OF inv(1,3,4) _ n]) (use inv(2) k(2) fr in \<open>simp_all add: vs\<close>)
  then obtain s' where s': "mfree_page PF_KERNEL a n s = Inr s'" "mm_inv s'" "vspace_ok s' ?va" and f: "freed_run s s' ?va k ?n PF_KERNEL"
    unfolding vs k(1) by blast
  have pt: "pt_frame s s'" using f by (simp add: freed_run_def)
  then obtain b p where e: "s' = s\<lparr>bytes := b, pmem := p\<rparr>" unfolding pt_frame_def by blast
  have hb: "heap_base s'" using base s'(2,3) by (simp add: heap_base_def e pools_ordered_def pool_bytes_def heap_limit_def)
  have ap: "apart s (vpage ?va ` {..<vbits ?va})" using inv(2) by (simp add: vspace_ok_def)
  have keep: "page_walk s' (vpage ?va i) = page_walk s (vpage ?va i)" if i: "i < vbits ?va" "\<not> (k \<le> i \<and> i < k + ?n)" for i
  proof -
    have "slot s (vpage ?va i) \<noteq> slot s (vpage ?va q)" if q: "k \<le> q" "q < k + ?n" for q
    proof -
      have qb: "q < vbits ?va" using q k(2) by simp
      have "frame_of (vpage ?va q) \<noteq> frame_of (vpage ?va i)"
        using vspace_page(2) [OF inv(2)] i qb q vpage_inj [OF inv(2) qb i(1)] by auto
      moreover have "slot s (vpage ?va q) \<noteq> None" using k(3) [of q] q by (auto simp: walk_slot split: option.splits)
      ultimately show ?thesis using ap i(1) qb unfolding apart_def by (metis imageI lessThan_iff)
    qed
    then show ?thesis using f vspace_page(4) [OF inv(2) i(1)] unfolding freed_run_def by blast
  qed
  have us: "used s' (vaddr_bitmap ?va) i = used s (vaddr_bitmap ?va) i" if "i < vbits ?va" "\<not> (k \<le> i \<and> i < k + ?n)" for i
    using f that unfolding freed_run_def by blast
  have "page_run s' q m" if q: "page_run s q m" "set (pages a ?n) \<inter> set (pages q m) = {}" for q m
  proof (rule page_run_frame [OF q(1)])
    fix j assume j: "j < vbits ?va" "vpage ?va j \<in> set (pages q m)" "used s (vaddr_bitmap ?va) j"
    have "vpage ?va j \<notin> set (pages a ?n)" using j(2) q(2) by blast
    then have "\<not> (k \<le> j \<and> j < k + ?n)" unfolding k(1) pages_vpage by auto
    then show "used s' (vaddr_bitmap ?va) j \<and> page_walk s' (vpage ?va j) = page_walk s (vpage ?va j)" using us keep j by simp
  qed (simp_all add: e)
  moreover have "bytes s' x = bytes s x" if "heap_limit s \<le> unat x" for x
  proof -
    have "x \<notin> pool_bytes s \<union> bm_bytes (vaddr_bitmap ?va)" using low [of x] that by fastforce
    then show ?thesis using f unfolding freed_run_def pool_bytes_def pool_of_def by simp
  qed
  moreover have "\<forall>q\<in>set (pages a ?n). page_walk s' q = None" using f unfolding freed_run_def k(1) pages_vpage by auto
  ultimately show ?thesis using s'(1) pt hb by blast
qed

section \<open>Taking an arena apart\<close>

lemma header_not_node:
  assumes ok: "arenas_ok lim D A" "lim \<le> 2 ^ 32" "i < 7" "set xs \<subseteq> blocks_of A i" "A a = Some \<kappa>"
  shows "r < 12 \<Longrightarrow> a + of_nat r \<notin> words_of (set (nodes (desc_at D i + 8) xs))"
    "c < 7 \<Longrightarrow> r < 8 \<Longrightarrow> desc_at D c + of_nat r \<notin> words_of (set (nodes (desc_at D i + 8) xs))"
proof -
  show "a + of_nat r \<notin> words_of (set (nodes (desc_at D i + 8) xs))" if "r < 12"
    using node_places [OF ok(1-4), of "a + of_nat r"] place_head [OF ok(1,5) that] by auto
  show "desc_at D c + of_nat r \<notin> words_of (set (nodes (desc_at D i + 8) xs))" if "c < 7" "r < 8"
    using node_places [OF ok(1-4), of "desc_at D c + of_nat r"] place_desc [OF ok(1,2) that(1), of r] that(2) by auto
qed

lemma unlink_run:
  assumes ok: "arenas_ok lim D A" "lim \<le> 2 ^ 32" and a: "A a = Some (Blocks i)"
    and s: "mem s a = desc_at D i" "mem s (desc_at D i) = of_nat (bsize i)" "dlist (mem s) (desc_at D i + 8) xs"
    and xs: "set xs \<subseteq> blocks_of A i" "k + n \<le> bcount i" "\<And>j. k \<le> j \<Longrightarrow> j < k + n \<Longrightarrow> blk a i j \<in> set xs"
  shows "\<exists>m. unlink_blocks n a (of_nat k) s = Inr (s\<lparr>mem := m\<rparr>) \<and>
    dlist m (desc_at D i + 8) (filter (\<lambda>x. x \<notin> blk a i ` {k..<k + n}) xs) \<and>
    (\<forall>x. x \<notin> words_of (set (nodes (desc_at D i + 8) xs)) \<longrightarrow> m x = mem s x)"
  using s xs
proof (induction n arbitrary: k s xs)
  case 0
  then show ?case by (intro exI [of _ "mem s"]) simp
next
  case (Suc n)
  let ?d = "desc_at D i" and ?b = "blk a i k"
  note A = arenas_okD [OF ok(1) a]
  have i: "i < 7" using A(1) by simp
  have bin: "?b \<in> set xs" using Suc.prems(6) by simp
  then obtain us vs where sp: "xs = us @ ?b # vs" by (meson split_list)
  have dist: "distinct xs" using Suc.prems(3) by (simp add: dlist_def nodes_def)
  note R = list_remove_dlist [of s "?d + 8" us ?b vs, folded sp, OF Suc.prems(3)]
  let ?s = "list_remove ?b s"
  have "?s = s\<lparr>mem := mem ?s\<rparr>" by (rule machine_mem_eq) simp_all
  then obtain m where m: "?s = s\<lparr>mem := m\<rparr>" by blast
  have sub: "words_of (set (nodes (?d + 8) (us @ vs))) \<subseteq> words_of (set (nodes (?d + 8) xs))"
    unfolding sp by (auto simp: words_of_def set_nodes)
  have keep: "m x = mem s x" if "x \<notin> words_of (set (nodes (?d + 8) xs))" for x
    using R(2) [of x] sub that m by auto
  note hn = header_not_node [OF ok i Suc.prems(4) a]
  have "m (a + of_nat 0) = mem s (a + of_nat 0)" by (rule keep) (rule hn(1), simp)
  then have ma: "m a = ?d" using Suc.prems(1) by simp
  have "m (?d + of_nat 0) = mem s (?d + of_nat 0)" by (rule keep) (rule hn(2) [OF i], simp)
  then have md: "m ?d = of_nat (bsize i)" using Suc.prems(2) by simp
  have d1: "dlist (mem (s\<lparr>mem := m\<rparr>)) (?d + 8) (us @ vs)" using R(1) m by simp
  have j1: "blk a i j \<in> set (us @ vs)" if "Suc k \<le> j" "j < Suc k + n" for j
  proof -
    have "blk a i j \<noteq> ?b" using blk_inj [OF A(2) i, of j k] that Suc.prems(5) by auto
    moreover have "blk a i j \<in> set xs" using that by (intro Suc.prems(6)) simp_all
    ultimately show ?thesis unfolding sp by simp
  qed
  have "\<exists>m'. unlink_blocks n a (of_nat (Suc k)) (s\<lparr>mem := m\<rparr>) = Inr (s\<lparr>mem := m\<rparr>\<lparr>mem := m'\<rparr>) \<and>
      dlist m' (?d + 8) (filter (\<lambda>x. x \<notin> blk a i ` {Suc k..<Suc k + n}) (us @ vs)) \<and>
      (\<forall>x. x \<notin> words_of (set (nodes (?d + 8) (us @ vs))) \<longrightarrow> m' x = mem (s\<lparr>mem := m\<rparr>) x)"
    by (rule Suc.IH) (use ma md d1 j1 Suc.prems(4,5) sp in auto)
  then obtain m' where m': "unlink_blocks n a (of_nat (Suc k)) (s\<lparr>mem := m\<rparr>) = Inr (s\<lparr>mem := m'\<rparr>)"
      "dlist m' (?d + 8) (filter (\<lambda>x. x \<notin> blk a i ` {Suc k..<Suc k + n}) (us @ vs))"
      "\<forall>x. x \<notin> words_of (set (nodes (?d + 8) (us @ vs))) \<longrightarrow> m' x = m x" by auto
  have b: "arena2block a (of_nat k) s = ?b" by (rule arena2block_blk) (use Suc.prems(1,2) in \<open>simp_all add: heap_layout\<close>)
  have run: "unlink_blocks (Suc n) a (of_nat k) s = Inr (s\<lparr>mem := m'\<rparr>)"
    using m'(1) elem_find_dlist [OF Suc.prems(3), of ?b] bin b Suc.prems(1) m
    by (simp add: Let_def heap_layout add.commute [of 1])
  have im: "blk a i ` {k..<k + Suc n} = insert ?b (blk a i ` {Suc k..<Suc k + n})"
  proof -
    have "{k..<k + Suc n} = insert k {Suc k..<Suc k + n}" by auto
    then show ?thesis by simp
  qed
  have fl: "filter (\<lambda>x. x \<notin> insert ?b B) zs = filter (\<lambda>x. x \<notin> B) zs" if "?b \<notin> set zs" for B zs
    using that by (intro filter_cong) auto
  have nb: "?b \<notin> set us" "?b \<notin> set vs" using dist unfolding sp by auto
  have "filter (\<lambda>x. x \<notin> blk a i ` {k..<k + Suc n}) xs = filter (\<lambda>x. x \<notin> blk a i ` {Suc k..<Suc k + n}) (us @ vs)"
    unfolding im sp filter_append filter.simps fl [OF nb(1)] fl [OF nb(2)] by simp
  then show ?case using run m'(2,3) keep sub by (intro exI [of _ m']) auto
qed

end
