(* ===== verification/Heap_Release.thy ===== *)
theory Heap_Release
  imports Heap_Free
begin

text \<open>
  Freeing on a represented heap: the block of \<open>free_block\<close> leaves the abstract heap, everything else is kept, and so is
  the representation, whether or not the arena is given back.
\<close>

section \<open>What writing nodes keeps\<close>

lemma kept_nodes:
  fixes t :: "'z kmem_scheme"
  defines "D \<equiv> k_block_descs t"
  assumes ok: "arenas_ok (heap_limit t) D A" and i: "i < 7" "set xs \<subseteq> blocks_of A i" "set xs \<subseteq> set (fl i)" and a: "A a = Some \<kappa>"
    and m: "\<And>x. x \<notin> words_of (set (nodes (desc_at D i + 8) xs)) \<Longrightarrow> x \<noteq> a + 4 \<Longrightarrow> mem s x = mem t x"
    and b: "\<And>x. heap_limit t \<le> unat x \<Longrightarrow> bytes s x = bytes t x"
    and pg: "arena_pages A \<subseteq> arena_pages A1 \<union> arena_pages A2"
    and lv: "\<And>c n. live A1 fl1 c = Some n \<Longrightarrow> live A2 fl2 c = Some n \<Longrightarrow> live A fl c = Some n"
  shows "kept t A1 fl1 s A2 fl2"
  unfolding kept_def
proof (intro conjI allI impI; elim conjE)
  note lim = heap_limit_le [of t]
  fix x assume x: "\<forall>i<7. x \<notin> sentinels (k_block_descs t) i" "frame_of x \<notin> arena_pages A1 \<union> arena_pages A2"
  then have nf: "frame_of x \<notin> arena_pages A" using pg by blast
  have "x \<notin> words_of (set (nodes (desc_at D i + 8) xs))"
  proof
    assume w: "x \<in> words_of (set (nodes (desc_at D i + 8) xs))"
    then have "x \<in> words_of (set xs)" using x(1) i(1) unfolding sentinel_words D_def by blast
    then obtain b' where b': "b' \<in> set xs" "x = b' \<or> x = b' + 4" by (auto simp: words_of_def)
    then obtain p k where p: "A p = Some (Blocks i)" "k < bcount i" "b' = blk p i k" using i(2) by (auto simp: blocks_of_def)
    then have "place (heap_limit t) D A x = Block p k" using place_node [OF ok p(1,2)] b'(2) by auto
    then show False using place_frame [of _ D A x p k] arena_page_in [OF ok p(1)] nf by blast
  qed
  moreover have "x \<noteq> a + 4"
    using page_offset(1) [OF arenas_okD(2) [OF ok a], of 4] arena_page_in [OF ok a] nf by auto
  ultimately show "mem s x = mem t x" by (rule m)
  show "bytes s x = bytes t x" if "heap_limit t \<le> unat x" by (rule b [OF that])
next
  note lim = heap_limit_le [of t]
  fix c n x assume l: "live A1 fl1 c = Some n" "live A2 fl2 c = Some n" "in_block c n x"
  note L = lv [OF l(1,2)]
  have "x \<noteq> a + of_nat 4" by (rule live_not_node(2) [OF ok lim L l(3) i a]) simp
  then show "mem s x = mem t x" using live_not_node(1) [OF ok lim L l(3) i] by (intro m) simp_all
  show "bytes s x = bytes t x" by (rule b) (rule live_where(2) [OF ok lim L l(3)])
qed

section \<open>Joining the free list\<close>

lemma live_free:
  assumes fa: "frame_of a = a" and a: "A a = Some (Blocks i)" "j < bcount i" and s: "set (fl' i) = insert (blk a i j) (set (fl i))"
    and o: "\<And>c. c \<noteq> i \<Longrightarrow> fl' c = fl c"
  shows "live A fl' = (live A fl)(blk a i j := None)"
proof
  fix c show "live A fl' c = ((live A fl)(blk a i j := None)) c"
  proof (cases "c = blk a i j")
    case True
    then show ?thesis using block2arena_blk [OF fa a(2)] a(1) s by (simp add: live_def)
  next
    case False
    have "live A fl' c = live A fl c"
    proof (rule live_cong)
      fix k assume "A (block2arena c) = Some (Blocks k)"
      show "c \<in> set (fl' k) \<longleftrightarrow> c \<in> set (fl k)" using False s o [of k] by (cases "k = i") auto
    qed simp
    then show ?thesis using False by simp
  qed
qed

lemma free_node:
  assumes ok: "arenas_ok lim D A" "lim \<le> 2 ^ 32" and a: "A a = Some (Blocks i)" "j < bcount i"
    and xs: "set xs \<subseteq> blocks_of A i" "blk a i j \<notin> set xs" "dlist m (desc_at D i + 8) xs"
  shows "fresh_node (desc_at D i + 8) xs (blk a i j)"
proof -
  let ?b = "blk a i j" and ?N = "set (nodes (desc_at D i + 8) xs)"
  have i: "i < 7" using arenas_okD(1) [OF ok(1) a(1)] by simp
  have off: "off_page a (desc_at D i + of_nat r)" if "r \<in> {8, 12, 16, 20}" for r
    using class_off_page [OF ok a(1)] that by (auto simp: fl_off_def)
  note pn = place_node [OF ok(1)]
  have s: "?b \<noteq> y \<and> ?b \<noteq> y + 4 \<and> y \<noteq> ?b + 4" if "y \<in> ?N" for y
  proof -
    from that consider "y = desc_at D i + 8" | "y = desc_at D i + 16" | p k where "A p = Some (Blocks i)" "k < bcount i" "y = blk p i k" "y \<in> set xs"
      using xs(1) by (auto simp: set_nodes blocks_of_def)
    then show ?thesis
    proof cases
      case 1
      then have "place lim D A y = Desc i 8" "place lim D A (y + 4) = Desc i 12"
        using place_desc [OF ok i, of 8] place_desc [OF ok i, of 12] by (simp_all add: add.assoc)
      then show ?thesis using pn [OF a] by (metis place.distinct(3))
    next
      case 2
      then have "place lim D A y = Desc i 16" "place lim D A (y + 4) = Desc i 20"
        using place_desc [OF ok i, of 16] place_desc [OF ok i, of 20] by (simp_all add: add.assoc)
      then show ?thesis using pn [OF a] by (metis place.distinct(3))
    next
      case 3
      have ne: "y \<noteq> ?b" using 3(4) xs(2) by auto
      then have "Block p k \<noteq> Block a j" using 3(3) by auto
      then show ?thesis using pn [OF a] pn [OF 3(1,2)] 3(3) ne by auto
    qed
  qed
  have sp: "spaced ?N" using xs(3) by (simp add: dlist_def)
  have "spaced (insert ?b ?N)" unfolding spaced_def
  proof (intro ballI)
    fix x y assume "x \<in> insert ?b ?N" "y \<in> insert ?b ?N"
    then show "x \<noteq> y + 4" using s [of x] s [of y] spacedD [OF sp, of x y] by auto
  qed
  moreover have "?b \<notin> ?N" using s by blast
  ultimately show ?thesis by (simp add: fresh_node_def)
qed


lemma join_free:
  fixes t :: "'z kmem_scheme"
  defines "D \<equiv> k_block_descs t"
  assumes H: "heap_ok t A fl" and a: "A a = Some (Blocks i)" "j < bcount i" and b: "b = blk a i j" "b \<notin> set (fl i)"
  shows "\<exists>m. wr (arena_cnt a) (mem (list_append (desc_at D i + 8) b t) (arena_cnt a) + 1) (list_append (desc_at D i + 8) b t) = t\<lparr>mem := m\<rparr> \<and>
    heap_ok (t\<lparr>mem := m\<rparr>) A (fl(i := fl i @ [b])) \<and> live A (fl(i := fl i @ [b])) = (live A fl)(b := None) \<and>
    kept t A fl (t\<lparr>mem := m\<rparr>) A (fl(i := fl i @ [b])) \<and> free_in (fl(i := fl i @ [b])) a i = insert j (free_in fl a i)"
proof -
  let ?d = "desc_at D i" and ?lim = "heap_limit t" and ?xs = "fl i @ [b]" and ?fl = "fl(i := fl i @ [b])"
  note ok = heap_okD(3) [OF H, folded D_def] heap_limit_le [of t]
  note A = arenas_okD [OF ok(1) a(1)]
  have i: "i < 7" using A(1) by simp
  have sub: "set (fl i) \<subseteq> blocks_of A i" by (rule heap_okD(9) [OF H i])
  have subx: "set ?xs \<subseteq> blocks_of A i" using sub a b(1) by (auto simp: blocks_of_def)
  have dl: "dlist (mem t) (?d + 8) (fl i)" using heap_okD(8) [OF H i] by (simp add: D_def)
  have fresh: "fresh_node (?d + 8) (fl i) b" unfolding b(1) by (rule free_node [OF ok a sub _ dl]) (use b in simp)
  let ?s = "list_append (?d + 8) b t"
  note R = list_append_dlist [OF dl fresh]
  have "?s = t\<lparr>mem := mem ?s\<rparr>" by (rule machine_mem_eq) simp_all
  then obtain m1 where m1: "?s = t\<lparr>mem := m1\<rparr>" by blast
  define m where "m = m1(a + 4 := m1 (a + 4) + 1)"
  have e: "wr (arena_cnt a) (mem ?s (arena_cnt a) + 1) ?s = t\<lparr>mem := m\<rparr>" by (simp add: m1 wr_def heap_layout m_def)
  let ?W = "words_of (set (nodes (?d + 8) ?xs))"
  have W: "insert b (set (nodes (?d + 8) (fl i))) = set (nodes (?d + 8) ?xs)" by (auto simp: set_nodes)
  have fr1: "m1 x = mem t x" if "x \<notin> ?W" for x using R(2) [of x] that m1 unfolding W by simp
  have fr: "m x = mem t x" if "x \<notin> ?W" "x \<noteq> a + 4" for x using fr1 [OF that(1)] that(2) by (simp add: m_def)
  note hn = header_not_node [OF ok i subx a(1)]
  have hd: "m1 (a + of_nat r) = mem t (a + of_nat r)" if "r < 12" for r by (rule fr1) (rule hn(1) [OF that])
  have dl': "dlist m (?d + 8) ?xs"
  proof -
    have "m x = m1 x" if "x \<in> ?W" for x using hn(1) [of 4] that by (auto simp: m_def)
    then show ?thesis using dlist_frame [of "?d + 8" ?xs m m1] R(1) m1 by simp
  qed
  have fi: "free_in ?fl a' i = (if a' = a then insert j (free_in fl a' i) else free_in fl a' i)" if "A a' = Some (Blocks i)" for a'
    by (rule free_in_insert [OF ok(1) a that]) (simp add: b(1))
  have nj: "j \<notin> free_in fl a i" using b by (simp add: free_in_def)
  have hw: "heap_words m D A ?fl"
  proof (rule heap_words_step [where a = a and i = i and \<kappa> = "Blocks i" and A = A and B = A and lim = ?lim])
    show "heap_words (mem t) D A fl" using H by (simp add: heap_ok_def D_def)
    show "m x = mem t x" if x: "place ?lim D A x \<notin> touched_by A i a (Blocks i)" for x
    proof (rule fr)
      show "x \<notin> ?W"
      proof
        assume "x \<in> ?W"
        from node_places [OF ok i subx this] x show False by (auto simp: touched_by_def)
      qed
      show "x \<noteq> a + 4" using place_head [OF ok(1) a(1), of 4] x by (auto simp: touched_by_def)
    qed
    show "free_in ?fl a' i = free_in fl a' i" if "a' \<noteq> a" "A a' = Some (Blocks i)" for a' using fi [OF that(2)] that(1) by simp
    have "header_ok (mem t) D fl a (Blocks i)" using heap_okD(6) [OF H a(1)] by (simp add: D_def)
    then show "header_ok m D ?fl a (Blocks i)"
      using fi [OF a(1)] nj hd [of 0] hd [of 4] hd [of 8] by (simp add: m_def)
  qed (use ok a dl' subx in simp_all)
  have eqs: "pmem (t\<lparr>mem := m\<rparr>) = pmem t" "cr3 (t\<lparr>mem := m\<rparr>) = cr3 t" "bytes (t\<lparr>mem := m\<rparr>) = bytes t" by simp_all
  have hb: "heap_base (t\<lparr>mem := m\<rparr>)" "\<And>q n. page_run (t\<lparr>mem := m\<rparr>) q n = page_run t q n"
    by (rule page_write_base [OF heap_okD(4) [OF H]]; simp)+
  have "heap_ok (t\<lparr>mem := m\<rparr>) A ?fl"
    using hb(1) hw ok(1) heap_okD(5) [OF H] unfolding heap_ok_def heap_pages_def hb(2) by (simp add: D_def heap_limit_def)
  moreover have lv: "live A ?fl = (live A fl)(b := None)" unfolding b(1)
    by (rule live_free [where A = A, OF A(2) a]) simp_all
  moreover have "kept t A fl (t\<lparr>mem := m\<rparr>) A ?fl"
  proof (rule kept_nodes [where A = A and xs = ?xs and fl = ?fl and i = i])
    show "live A ?fl c = Some n" if "live A fl c = Some n" "live A ?fl c = Some n" for c n by (rule that(2))
  qed (use ok a i subx fr in \<open>simp_all add: D_def\<close>)
  ultimately show ?thesis using e fi [OF a(1)] by (intro exI [of _ m]) simp
qed


section \<open>Giving an arena back\<close>

lemma live_release:
  assumes fa: "frame_of a = a" and a: "A a = Some (Blocks i)" and full: "blk a i ` {..<bcount i} \<subseteq> set (fl i)"
  shows "live (A(a := None)) (fl(i := filter (\<lambda>x. x \<notin> blk a i ` {0..<bcount i}) (fl i))) = live A fl"
proof
  fix c show "live (A(a := None)) (fl(i := filter (\<lambda>x. x \<notin> blk a i ` {0..<bcount i}) (fl i))) c = live A fl c"
  proof (cases "block2arena c = a")
    case True
    then show ?thesis using a full by (auto simp: live_def)
  next
    case False
    have "c \<notin> blk a i ` {0..<bcount i}" using False block2arena_blk [OF fa] by auto
    then show ?thesis using False by (intro live_cong) auto
  qed
qed

lemma release_arena:
  fixes t :: "'z kmem_scheme"
  defines "D \<equiv> k_block_descs t"
  assumes H: "heap_ok t A fl" and a: "A a = Some (Blocks i)" and full: "blk a i ` {..<bcount i} \<subseteq> set (fl i)"
  shows "\<exists>m by p. bind_r (unlink_blocks (bcount i) a 0 t) (mfree_page PF_KERNEL a 1) = Inr (t\<lparr>mem := m, bytes := by, pmem := p\<rparr>) \<and>
    heap_ok (t\<lparr>mem := m, bytes := by, pmem := p\<rparr>) (A(a := None)) (fl(i := filter (\<lambda>x. x \<notin> blk a i ` {0..<bcount i}) (fl i))) \<and>
    live (A(a := None)) (fl(i := filter (\<lambda>x. x \<notin> blk a i ` {0..<bcount i}) (fl i))) = live A fl \<and>
    kept t A fl (t\<lparr>mem := m, bytes := by, pmem := p\<rparr>) (A(a := None)) (fl(i := filter (\<lambda>x. x \<notin> blk a i ` {0..<bcount i}) (fl i)))"
proof -
  let ?d = "desc_at D i" and ?lim = "heap_limit t" and ?xs = "filter (\<lambda>x. x \<notin> blk a i ` {0..<bcount i}) (fl i)"
  let ?A = "A(a := None)" and ?fl = "fl(i := filter (\<lambda>x. x \<notin> blk a i ` {0..<bcount i}) (fl i))"
  note ok = heap_okD(3) [OF H, folded D_def] heap_limit_le [of t]
  note A = arenas_okD [OF ok(1) a]
  have i: "i < 7" using A(1) by simp
  have sub: "set (fl i) \<subseteq> blocks_of A i" by (rule heap_okD(9) [OF H i])
  have dl: "dlist (mem t) (?d + 8) (fl i)" using heap_okD(8) [OF H i] by (simp add: D_def)
  have hdr: "mem t a = ?d" using heap_okD(6) [OF H a] by (simp add: D_def)
  have sz: "mem t ?d = of_nat (bsize i)" using heap_okD(7) [OF H i] by (simp add: D_def desc_ok_def heap_layout)
  have "\<exists>m. unlink_blocks (bcount i) a (of_nat 0) t = Inr (t\<lparr>mem := m\<rparr>) \<and>
      dlist m (?d + 8) (filter (\<lambda>x. x \<notin> blk a i ` {0..<0 + bcount i}) (fl i)) \<and>
      (\<forall>x. x \<notin> words_of (set (nodes (?d + 8) (fl i))) \<longrightarrow> m x = mem t x)"
    by (rule unlink_run [OF ok a hdr sz dl sub]) (use full in auto)
  then obtain m where m: "unlink_blocks (bcount i) a 0 t = Inr (t\<lparr>mem := m\<rparr>)" "dlist m (?d + 8) ?xs"
    "\<And>x. x \<notin> words_of (set (nodes (?d + 8) (fl i))) \<Longrightarrow> m x = mem t x" by auto
  let ?t = "t\<lparr>mem := m\<rparr>"
  have hb: "heap_base ?t" "\<And>q n. page_run ?t q n = page_run t q n"
    by (rule page_write_base [OF heap_okD(4) [OF H]]; simp)+
  have r1: "page_run ?t a (unat (1 :: u32))" using heap_okD(5) [OF H a] hb(2) by simp
  obtain s' where s': "mfree_page PF_KERNEL a 1 ?t = Inr s'" "pt_frame ?t s'" "heap_base s'"
      "\<And>q n. page_run ?t q n \<Longrightarrow> set (pages a (unat (1 :: u32))) \<inter> set (pages q n) = {} \<Longrightarrow> page_run s' q n"
      "\<And>x. ?lim \<le> unat x \<Longrightarrow> bytes s' x = bytes ?t x"
    using heap_mfree_pages [OF hb(1) r1] by (auto simp: heap_limit_def)
  obtain "by" p where e: "s' = t\<lparr>mem := m, bytes := by, pmem := p\<rparr>" using s'(2) unfolding pt_frame_def by auto
  have dist: "\<And>q \<kappa>. ?A q = Some \<kappa> \<Longrightarrow> set (pages a 1) \<inter> set (pages q (span \<kappa>)) = {}"
  proof -
    fix q \<kappa> assume q: "?A q = Some \<kappa>"
    then have "A q = Some \<kappa> \<and> q \<noteq> a" by (auto split: if_splits)
    then have "set (pages a (span (Blocks i))) \<inter> set (pages q (span \<kappa>)) = {}" using ok(1) a unfolding arenas_ok_def by metis
    then show "set (pages a 1) \<inter> set (pages q (span \<kappa>)) = {}" by simp
  qed
  have hw: "heap_words m D ?A ?fl"
  proof (rule heap_words_step [where a = a and i = i and \<kappa> = "Blocks i" and A = A and B = A and lim = ?lim])
    show "heap_words (mem t) D A fl" using H by (simp add: heap_ok_def D_def)
    show "m x = mem t x" if x: "place ?lim D A x \<notin> touched_by A i a (Blocks i)" for x
    proof (rule m(3), rule notI)
      assume "x \<in> words_of (set (nodes (?d + 8) (fl i)))"
      from node_places [OF ok i sub this] x show False by (auto simp: touched_by_def)
    qed
    show "free_in ?fl a' i = free_in fl a' i" if "a' \<noteq> a" "A a' = Some (Blocks i)" for a'
    proof -
      have "blk a' i k \<noteq> blk a i l" if "k < bcount i" "l < bcount i" for k l
        using place_node(1) [OF ok(1) a that(2)] place_node(1) [OF ok(1) \<open>A a' = Some (Blocks i)\<close> that(1)] \<open>a' \<noteq> a\<close> by auto
      then show ?thesis by (auto simp: free_in_def)
    qed
    have "b \<in> blocks_of ?A i" if b: "b \<in> set ?xs" for b
    proof -
      obtain q k where q: "A q = Some (Blocks i)" "k < bcount i" "b = blk q i k" using sub b by (auto simp: blocks_of_def)
      then have "q \<noteq> a" using b by auto
      then show ?thesis using q by (auto simp: blocks_of_def)
    qed
    then show "dlist m (?d + 8) (?fl i) \<and> set (?fl i) \<subseteq> blocks_of ?A i" using m(2) by auto
  qed (use ok a in simp_all)
  have "page_run s' q (span \<kappa>)" if q: "?A q = Some \<kappa>" for q \<kappa>
  proof (rule s'(4))
    have "A q = Some \<kappa>" using q by (auto split: if_splits)
    then show "page_run ?t q (span \<kappa>)" using heap_okD(5) [OF H] hb(2) by simp
    show "set (pages a (unat (1 :: u32))) \<inter> set (pages q (span \<kappa>)) = {}" using dist [OF q] by simp
  qed
  moreover have "k_block_descs s' = D" "heap_limit s' = ?lim" "mem s' = m" by (simp_all add: e D_def heap_limit_def)
  ultimately have hok: "heap_ok s' ?A ?fl" using s'(3) hw arenas_ok_restrict [OF ok(1), of a] unfolding heap_ok_def heap_pages_def by simp
  have lv: "live ?A ?fl = live A fl" by (rule live_release [where A = A and fl = fl, OF A(2) a full])
  have "kept t A fl s' ?A ?fl"
  proof (rule kept_nodes [where A = A and xs = "fl i" and fl = fl and i = i])
    show "mem s' x = mem t x" if "x \<notin> words_of (set (nodes (desc_at (k_block_descs t) i + 8) (fl i)))" for x
      using m(3) [of x] that by (simp add: e D_def)
    show "bytes s' x = bytes t x" if "?lim \<le> unat x" for x using s'(5) [OF that] by simp
    show "A a = Some (Blocks i)" by (rule a)
  qed (use ok i sub in \<open>auto simp: D_def\<close>)
  then show ?thesis using m(1) s'(1) hok lv unfolding e by (intro exI [of _ m] exI [of _ "by"] exI [of _ p]) simp
qed


section \<open>Freeing a block\<close>

lemma card_free_full:
  assumes "i < 7"
  shows "(of_nat (card (free_in fl a i)) :: u32) = of_nat (bcount i) \<longleftrightarrow> free_in fl a i = {..<bcount i}"
proof -
  have s: "free_in fl a i \<subseteq> {..<bcount i}" by (auto simp: free_in_def)
  then have "card (free_in fl a i) \<le> bcount i" using card_mono [of "{..<bcount i}"] by fastforce
  moreover have "bcount i < 2 ^ 32" using bcount_pos [OF assms] by simp
  ultimately have "(of_nat (card (free_in fl a i)) :: u32) = of_nat (bcount i) \<longleftrightarrow> card (free_in fl a i) = bcount i"
    by (intro of_nat_word_inj) simp_all
  also have "\<dots> \<longleftrightarrow> free_in fl a i = {..<bcount i}" using card_subset_eq [OF finite_lessThan s] by (metis card_lessThan)
  finally show ?thesis .
qed

lemma free_block_heap:
  fixes t :: "'z kmem_scheme"
  defines "D \<equiv> k_block_descs t"
  assumes H: "heap_ok t A fl" and a: "A a = Some (Blocks i)" "j < bcount i" and b: "b = blk a i j" "b \<notin> set (fl i)"
  shows "\<exists>m by p A' fl'. free_block PF_KERNEL a b t = Inr (t\<lparr>mem := m, bytes := by, pmem := p\<rparr>) \<and>
    heap_ok (t\<lparr>mem := m, bytes := by, pmem := p\<rparr>) A' fl' \<and> live A' fl' = (live A fl)(b := None) \<and>
    kept t A fl (t\<lparr>mem := m, bytes := by, pmem := p\<rparr>) A' fl'"
proof -
  let ?d = "desc_at D i" and ?fl = "fl(i := fl i @ [b])"
  note ok = heap_okD(3) [OF H, folded D_def]
  have i: "i < 7" using arenas_okD(1) [OF ok a(1)] by simp
  obtain m where m: "wr (arena_cnt a) (mem (list_append (?d + 8) b t) (arena_cnt a) + 1) (list_append (?d + 8) b t) = t\<lparr>mem := m\<rparr>"
    "heap_ok (t\<lparr>mem := m\<rparr>) A ?fl" "live A ?fl = (live A fl)(b := None)" "kept t A fl (t\<lparr>mem := m\<rparr>) A ?fl"
    "free_in ?fl a i = insert j (free_in fl a i)" using join_free [OF H a b] unfolding D_def by blast
  let ?t = "t\<lparr>mem := m\<rparr>"
  have D': "k_block_descs ?t = D" by (simp add: D_def)
  have h: "m a = ?d" "m (a + 4) = of_nat (card (free_in ?fl a i))" using heap_okD(6) [OF m(2) a(1)] by (simp_all add: D_def)
  have n: "m (?d + 4) = of_nat (bcount i)" using heap_okD(7) [OF m(2) i] by (simp add: D_def desc_ok_def heap_layout)
  have hd: "mem t (arena_desc a) = ?d" using heap_okD(6) [OF H a(1)] by (simp add: D_def heap_layout)
  have un: "unat (of_nat (bcount i) :: u32) = bcount i" using bcount_pos [OF i] by (intro unat_of_nat_lt) simp
  have run: "free_block PF_KERNEL a b t = (if free_in ?fl a i = {..<bcount i}
      then bind_r (unlink_blocks (bcount i) a 0 ?t) (mfree_page PF_KERNEL a 1) else Inr ?t)"
  proof -
    have e: "free_block PF_KERNEL a b t = (let s = ?t; n = mem s (desc_blocks_per_arena (mem s (arena_desc a)))
        in if mem s (arena_cnt a) = n then bind_r (unlink_blocks (unat n) a 0 s) (mfree_page PF_KERNEL a 1) else Inr s)"
      unfolding free_block_def hd desc_free_list_def Let_def m(1) ..
    have c: "m (a + 4) = m (m a + 4) \<longleftrightarrow> free_in ?fl a i = {..<bcount i}" unfolding h n by (rule card_free_full [OF i])
    show ?thesis unfolding e Let_def using c h n un by (simp add: heap_layout)
  qed
  show ?thesis
  proof (cases "free_in ?fl a i = {..<bcount i}")
    case False
    have e: "t\<lparr>mem := m, bytes := bytes t, pmem := pmem t\<rparr> = ?t" by simp
    show ?thesis by (intro exI [of _ m] exI [of _ "bytes t"] exI [of _ "pmem t"] exI [of _ A] exI [of _ ?fl], unfold e)
      (use run False m(2-4) in simp)
  next
    case True
    have full: "blk a i ` {..<bcount i} \<subseteq> set (?fl i)" using True unfolding free_in_def by blast
    obtain m' "by" p fl' where r: "bind_r (unlink_blocks (bcount i) a 0 ?t) (mfree_page PF_KERNEL a 1) = Inr (?t\<lparr>mem := m', bytes := by, pmem := p\<rparr>)"
      "heap_ok (?t\<lparr>mem := m', bytes := by, pmem := p\<rparr>) (A(a := None)) fl'" "live (A(a := None)) fl' = live A ?fl"
      "kept ?t A ?fl (?t\<lparr>mem := m', bytes := by, pmem := p\<rparr>) (A(a := None)) fl'"
      using release_arena [OF m(2) a(1) full] by blast
    have "kept t A fl (?t\<lparr>mem := m', bytes := by, pmem := p\<rparr>) (A(a := None)) fl'"
      by (rule kept_trans [OF m(4) r(4)]) (use r(3) in \<open>auto simp: heap_limit_def\<close>)
    then show ?thesis using run True r m(3) by (intro exI [of _ m'] exI [of _ "by"] exI [of _ p] exI [of _ "A(a := None)"] exI [of _ fl']) simp
  qed
qed

lemma free_large_heap:
  fixes t :: "'z kmem_scheme"
  assumes H: "heap_ok t A fl" and a: "A a = Some (Pages k)"
  shows "\<exists>by p. mfree_page PF_KERNEL a (mem t (a + 4)) t = Inr (t\<lparr>mem := mem t, bytes := by, pmem := p\<rparr>) \<and>
    heap_ok (t\<lparr>mem := mem t, bytes := by, pmem := p\<rparr>) (A(a := None)) fl \<and> live (A(a := None)) fl = (live A fl)(a + sizeof_arena := None) \<and>
    kept t A fl (t\<lparr>mem := mem t, bytes := by, pmem := p\<rparr>) (A(a := None)) fl"
proof -
  let ?lim = "heap_limit t" and ?A = "A(a := None)" and ?D = "k_block_descs t"
  note ok = heap_okD(3) [OF H] heap_limit_le [of t]
  note A = arenas_okD [OF ok(1) a]
  have c: "mem t (a + 4) = of_nat k" using heap_okD(6) [OF H a] by simp
  have "k * 4096 \<le> 2 ^ 32" using A(4) by simp
  then have uk: "unat (of_nat k :: u32) = k" by (intro unat_of_nat_lt) simp
  have k0: "0 < k" using A(5) by simp
  have r1: "page_run t a (unat (of_nat k :: u32))" using heap_okD(5) [OF H a] uk by simp
  obtain s' where s': "mfree_page PF_KERNEL a (of_nat k) t = Inr s'" "pt_frame t s'" "heap_base s'"
      "\<And>q n. page_run t q n \<Longrightarrow> set (pages a k) \<inter> set (pages q n) = {} \<Longrightarrow> page_run s' q n"
      "\<And>x. ?lim \<le> unat x \<Longrightarrow> bytes s' x = bytes t x"
    using heap_mfree_pages [OF heap_okD(4) [OF H] r1] uk k0 by auto
  obtain "by" p where e: "s' = t\<lparr>bytes := by, pmem := p\<rparr>" using s'(2) unfolding pt_frame_def by blast
  have "page_run s' q (span \<kappa>)" if q: "?A q = Some \<kappa>" for q \<kappa>
  proof (rule s'(4))
    have Aq: "A q = Some \<kappa> \<and> q \<noteq> a" using q by (auto split: if_splits)
    then show "page_run t q (span \<kappa>)" using heap_okD(5) [OF H] by simp
    have "set (pages a (span (Pages k))) \<inter> set (pages q (span \<kappa>)) = {}" using ok(1) a Aq unfolding arenas_ok_def by metis
    then show "set (pages a k) \<inter> set (pages q (span \<kappa>)) = {}" by simp
  qed
  moreover have "k_block_descs s' = ?D" "heap_limit s' = ?lim" "mem s' = mem t" by (simp_all add: e heap_limit_def)
  moreover have "heap_words (mem t) ?D ?A fl"
  proof (rule heap_words_step [where a = a and i = 7 and \<kappa> = "Pages k" and A = A and B = A and lim = ?lim])
    show "heap_words (mem t) ?D A fl" using H by (simp add: heap_ok_def)
  qed (use ok a in simp_all)
  ultimately have hok: "heap_ok s' ?A fl" using s'(3) arenas_ok_restrict [OF ok(1), of a] unfolding heap_ok_def heap_pages_def by simp
  have f: "block2arena (a + sizeof_arena) = a" by (rule frame_of_large [OF A(2)])
  have lv: "live ?A fl = (live A fl)(a + sizeof_arena := None)"
  proof
    fix c show "live ?A fl c = ((live A fl)(a + sizeof_arena := None)) c"
    proof (cases "block2arena c = a")
      case True
      then show ?thesis using a by (auto simp: live_def)
    next
      case False
      have "live ?A fl c = live A fl c" by (rule live_cong) (use False in simp_all)
      then show ?thesis using False f by auto
    qed
  qed
  have "kept t A fl s' ?A fl" unfolding kept_def
  proof (intro conjI allI impI; elim conjE)
    show "mem s' x = mem t x" for x by (simp add: e)
    then show "mem s' x = mem t x" for x .
    show "bytes s' x = bytes t x" if "?lim \<le> unat x" for x by (rule s'(5) [OF that])
    show "bytes s' x = bytes t x" if "live A fl b = Some n" "in_block b n x" for b n x by (rule s'(5)) (rule live_where(2) [OF ok that])
  qed
  then show ?thesis using s'(1) hok lv c by (intro exI [of _ "by"] exI [of _ p]) (simp add: e)
qed

end
