(* ===== verification/Heap_Spec.thy ===== *)
theory Heap_Spec
  imports Heap_Release
begin

text \<open>
  The kernel heap as an allocator.  The interface is the locale \<open>allocator\<close>: an abstract heap is a map from the
  addresses of live blocks to their sizes.  \<open>kernel_heap s H\<close> says that a state in which a kernel thread runs represents
  \<open>H\<close>; \<open>sys_malloc\<close> and \<open>sys_free\<close> keep the laws of the interface, for small and for large requests.
\<close>

section \<open>The interface\<close>

datatype heap_request = Malloc u32 | Free nat

text \<open>A client that keeps a list of the blocks it holds and frees them by their index.\<close>

fun serve :: "(u32 \<Rightarrow> 's \<Rightarrow> (addr \<times> 's) result) \<Rightarrow> (addr \<Rightarrow> 's \<Rightarrow> 's result) \<Rightarrow> heap_request list \<Rightarrow> addr list \<Rightarrow> 's \<Rightarrow> (addr list \<times> 's) result" where
  "serve alloc release [] hs s = Inr (hs, s)"
| "serve alloc release (Malloc n # rs) hs s = bind_r (alloc n s) (\<lambda>(b, s). serve alloc release rs (hs @ [b]) s)"
| "serve alloc release (Free k # rs) hs s =
     bind_r (release (hs ! k) s) (\<lambda>s. serve alloc release rs (take k hs @ drop (Suc k) hs) s)"

text \<open>The client only frees what it holds, and asks only when there is room.\<close>

fun sensible :: "(u32 \<Rightarrow> 's \<Rightarrow> (addr \<times> 's) result) \<Rightarrow> (addr \<Rightarrow> 's \<Rightarrow> 's result) \<Rightarrow> (u32 \<Rightarrow> 's \<Rightarrow> bool) \<Rightarrow>
    heap_request list \<Rightarrow> addr list \<Rightarrow> 's \<Rightarrow> bool" where
  "sensible alloc release fits [] hs s = True"
| "sensible alloc release fits (Malloc n # rs) hs s = (fits n s \<and>
     (case alloc n s of Inl e \<Rightarrow> True | Inr (b, s) \<Rightarrow> sensible alloc release fits rs (hs @ [b]) s))"
| "sensible alloc release fits (Free k # rs) hs s = (k < length hs \<and>
     (case release (hs ! k) s of Inl e \<Rightarrow> True | Inr s \<Rightarrow> sensible alloc release fits rs (take k hs @ drop (Suc k) hs) s))"

locale allocator =
  fixes inv :: "'s \<Rightarrow> (addr \<Rightarrow> nat option) \<Rightarrow> bool"
    and alloc :: "u32 \<Rightarrow> 's \<Rightarrow> (addr \<times> 's) result"
    and release :: "addr \<Rightarrow> 's \<Rightarrow> 's result"
    and fits :: "u32 \<Rightarrow> 's \<Rightarrow> bool"
    and size_of :: "u32 \<Rightarrow> nat"
    and content :: "addr \<Rightarrow> nat \<Rightarrow> 's \<Rightarrow> 'c"
  assumes alloc_ok: "inv s H \<Longrightarrow> fits n s \<Longrightarrow> \<exists>b s'. alloc n s = Inr (b, s') \<and> H b = None \<and> inv s' (H(b \<mapsto> size_of n)) \<and>
      (\<forall>c k. H c = Some k \<longrightarrow> content c k s' = content c k s)"
    and release_ok: "inv s H \<Longrightarrow> H b = Some m \<Longrightarrow> \<exists>s'. release b s = Inr s' \<and> inv s' (H(b := None)) \<and>
      (\<forall>c k. c \<noteq> b \<and> H c = Some k \<longrightarrow> content c k s' = content c k s)"
    and apart: "inv s H \<Longrightarrow> H b = Some m \<Longrightarrow> H c = Some k \<Longrightarrow> b \<noteq> c \<Longrightarrow> disjoint_blocks b m c k"

context allocator
begin

text \<open>Freeing what was just allocated gives the heap before, with the same contents.\<close>

lemma alloc_release:
  assumes "inv s H" "fits n s"
  shows "\<exists>b s1 s2. alloc n s = Inr (b, s1) \<and> release b s1 = Inr s2 \<and> inv s2 H \<and> (\<forall>c k. H c = Some k \<longrightarrow> content c k s2 = content c k s)"
proof -
  obtain b s1 where a: "alloc n s = Inr (b, s1)" "H b = None" "inv s1 (H(b \<mapsto> size_of n))" "\<forall>c k. H c = Some k \<longrightarrow> content c k s1 = content c k s"
    using alloc_ok [OF assms] by blast
  have "(H(b \<mapsto> size_of n)) b = Some (size_of n)" by simp
  from release_ok [OF a(3) this] obtain s2 where r: "release b s1 = Inr s2" "inv s2 ((H(b \<mapsto> size_of n))(b := None))"
    "\<forall>c k. c \<noteq> b \<and> (H(b \<mapsto> size_of n)) c = Some k \<longrightarrow> content c k s2 = content c k s1" by blast
  have e: "(H(b \<mapsto> size_of n))(b := None) = H" using a(2) by auto
  have "content c k s2 = content c k s" if "H c = Some k" for c k
  proof -
    have "c \<noteq> b" using that a(2) by auto
    then show ?thesis using r(3) a(4) that by simp
  qed
  then show ?thesis using a(1) r(1,2) unfolding e by blast
qed

text \<open>A new block overlaps none of those that are live.\<close>

lemma alloc_apart:
  assumes "inv s H" "fits n s"
  shows "\<exists>b s'. alloc n s = Inr (b, s') \<and> (\<forall>c k. H c = Some k \<longrightarrow> disjoint_blocks b (size_of n) c k)"
proof -
  obtain b s' where a: "alloc n s = Inr (b, s')" "H b = None" "inv s' (H(b \<mapsto> size_of n))" using alloc_ok [OF assms] by blast
  have "disjoint_blocks b (size_of n) c k" if c: "H c = Some k" for c k
  proof -
    have "c \<noteq> b" using c a(2) by auto
    then show ?thesis using apart [OF a(3), of b "size_of n" c k] c by auto
  qed
  then show ?thesis using a(1) by blast
qed

text \<open>
  A sensible client is served to the end; it then holds exactly the live blocks it has not freed, and a block it
  holds throughout keeps its contents.
\<close>

lemma serve_ok:
  assumes "inv s H" "sensible alloc release fits rs hs s" "distinct hs" "set hs \<subseteq> dom H"
  shows "\<exists>hs' s' H'. serve alloc release rs hs s = Inr (hs', s') \<and> inv s' H' \<and> distinct hs' \<and> set hs' \<subseteq> dom H' \<and>
    (\<forall>c k. H c = Some k \<and> c \<notin> set hs \<longrightarrow> H' c = Some k \<and> c \<notin> set hs' \<and> content c k s' = content c k s)"
  using assms
proof (induction rs arbitrary: hs s H)
  case Nil
  then show ?case by auto
next
  case (Cons r rs)
  show ?case
  proof (cases r)
    case (Malloc n)
    then have "fits n s" using Cons.prems(2) by simp
    from alloc_ok [OF Cons.prems(1) this] obtain b s1 where a: "alloc n s = Inr (b, s1)" "H b = None" "inv s1 (H(b \<mapsto> size_of n))"
      "\<forall>c k. H c = Some k \<longrightarrow> content c k s1 = content c k s" by blast
    let ?H = "H(b \<mapsto> size_of n)"
    have d: "distinct (hs @ [b])" "set (hs @ [b]) \<subseteq> dom ?H" using Cons.prems(3,4) a(2) by auto
    have "sensible alloc release fits rs (hs @ [b]) s1" using Cons.prems(2) Malloc a(1) by simp
    from Cons.IH [OF a(3) this d] obtain hs' s' H' where r: "serve alloc release rs (hs @ [b]) s1 = Inr (hs', s')" "inv s' H'" "distinct hs'"
      "set hs' \<subseteq> dom H'" "\<forall>c k. ?H c = Some k \<and> c \<notin> set (hs @ [b]) \<longrightarrow> H' c = Some k \<and> c \<notin> set hs' \<and> content c k s' = content c k s1" by blast
    have "H' c = Some k \<and> c \<notin> set hs' \<and> content c k s' = content c k s" if "H c = Some k" "c \<notin> set hs" for c k
    proof -
      have "c \<noteq> b" using that(1) a(2) by auto
      then show ?thesis using r(5) a(4) that by simp
    qed
    then show ?thesis using Malloc a(1) r(1-4) by auto
  next
    case (Free k)
    then have k: "k < length hs" using Cons.prems(2) by simp
    let ?b = "hs ! k" and ?hs = "take k hs @ drop (Suc k) hs"
    have sp: "hs = take k hs @ ?b # drop (Suc k) hs" using k by (rule id_take_nth_drop)
    have ds: "distinct (take k hs @ ?b # drop (Suc k) hs)" by (simp only: sp [symmetric] Cons.prems(3))
    have st: "set (take k hs @ ?b # drop (Suc k) hs) = set hs" by (simp only: sp [symmetric])
    have d: "distinct ?hs" "?b \<notin> set ?hs" "set hs = insert ?b (set ?hs)"
      using ds st by auto
    have "?b \<in> dom H" using k Cons.prems(4) nth_mem by blast
    then obtain m where "H ?b = Some m" by blast
    from release_ok [OF Cons.prems(1) this] obtain s1 where a: "release ?b s = Inr s1" "inv s1 (H(?b := None))"
      "\<forall>c k. c \<noteq> ?b \<and> H c = Some k \<longrightarrow> content c k s1 = content c k s" by blast
    let ?H = "H(?b := None)"
    have s: "set ?hs \<subseteq> dom ?H" using d Cons.prems(4) by auto
    have "sensible alloc release fits rs ?hs s1" using Cons.prems(2) Free a(1) by simp
    from Cons.IH [OF a(2) this d(1) s] obtain hs' s' H' where r: "serve alloc release rs ?hs s1 = Inr (hs', s')" "inv s' H'" "distinct hs'"
      "set hs' \<subseteq> dom H'" "\<forall>c k. ?H c = Some k \<and> c \<notin> set ?hs \<longrightarrow> H' c = Some k \<and> c \<notin> set hs' \<and> content c k s' = content c k s1" by blast
    have "H' c = Some k \<and> c \<notin> set hs' \<and> content c k s' = content c k s" if "H c = Some k" "c \<notin> set hs" for c k
    proof -
      have "c \<noteq> ?b" "c \<notin> set ?hs" using that(2) d(3) by auto
      then show ?thesis using r(5) a(3) that(1) by simp
    qed
    then show ?thesis using Free a(1) r(1-4) by auto
  qed
qed

end


section \<open>The model\<close>

text \<open>The lock of the kernel pool is free and apart from the heap, and a kernel thread runs.\<close>

definition kheap_idle :: "'z kmem_scheme \<Rightarrow> bool" where
  "kheap_idle s = (let l = pool_lock (kernel_pool s) in free_lock l s \<and> unat l + 20 \<le> heap_limit s \<and>
     168 \<le> unat (l + 12 - k_block_descs s) \<and> running_thread s \<noteq> NULL \<and> pgdir (tasks s (running_thread s)) = NULL \<and>
     unat K_HEAP_STACK \<le> heap_limit s)"

definition kernel_heap :: "'z kmem_scheme \<Rightarrow> (addr \<Rightarrow> nat option) \<Rightarrow> bool" where
  "kernel_heap s H = (kheap_idle s \<and> (\<exists>A fl. heap_ok s A fl \<and> H = live A fl))"

definition granted :: "u32 \<Rightarrow> nat" where
  "granted n = (if n \<le> 1024 then bsize (class_of (unat n)) else pages_for (unat n) * 4096 - 12)"

text \<open>There are \<open>k\<close> free virtual pages in a row, and frames for them and for the page tables they may need.\<close>

definition pages_free :: "nat \<Rightarrow> 'z kmem_scheme \<Rightarrow> bool" where
  "pages_free k s = (k < 57600 \<and> 2 * k \<le> card (free_frames s (kernel_pool s)) \<and>
     (\<exists>j. j + k \<le> vbits (kernel_vaddr s) \<and> free_run s (vaddr_bitmap (kernel_vaddr s)) k j))"

definition heap_fits :: "u32 \<Rightarrow> 'z kmem_scheme \<Rightarrow> bool" where
  "heap_fits n s = (0 < n \<and> n < pool_size (kernel_pool s) \<and>
     (if n \<le> 1024 then list_empty (desc_free_list (desc_at (k_block_descs s) (class_of (unat n)))) s \<longrightarrow> pages_free 1 s
      else pages_free (pages_for (unat n)) s))"

definition heap_content :: "addr \<Rightarrow> nat \<Rightarrow> 'z machine_scheme \<Rightarrow> addr \<Rightarrow> (u32 \<times> u8) option" where
  "heap_content c k s x = (if in_block c k x then Some (mem s x, bytes s x) else None)"

lemma heap_ok_cong:
  fixes s s' :: "'z kmem_scheme"
  assumes H: "heap_ok s A fl" and e: "pmem s' = pmem s" "cr3 s' = cr3 s" "bytes s' = bytes s" "mem s' = mem s"
    "kernel_pool s' = kernel_pool s" "user_pool s' = user_pool s" "kernel_vaddr s' = kernel_vaddr s" "k_block_descs s' = k_block_descs s"
  shows "heap_ok s' A fl"
proof -
  have "heap_base s'" "\<And>q n. page_run s' q n = page_run s q n"
    by (rule page_write_base [OF heap_okD(4) [OF H]]; simp add: e)+
  then show ?thesis using H by (simp add: heap_ok_def heap_pages_def heap_limit_def e)
qed

lemma low_not_arena:
  assumes "arenas_ok lim D A" "unat x < lim"
  shows "frame_of x \<notin> arena_pages A"
proof
  assume "frame_of x \<in> arena_pages A"
  then obtain a \<kappa> where "A a = Some \<kappa>" "frame_of x \<in> set (pages a (span \<kappa>))" by (auto simp: arena_pages_def)
  then have "lim \<le> unat (frame_of x)" using place_page(2) [OF assms(1)] by blast
  then show False using assms(2) div_times_less_eq_dividend [of "unat x" 4096] by (simp add: unat_frame_of)
qed

lemma lock_kept:
  fixes s s' :: "'z kmem_scheme"
  assumes H: "heap_ok s A fl" and H': "heap_ok s' A' fl'" and e: "heap_limit s' = heap_limit s" and k: "kept s A fl s' A' fl'"
    and l: "unat l + 20 \<le> heap_limit s" "168 \<le> unat (l + 12 - k_block_descs s)"
  shows "mem s' (l + 12) = mem s (l + 12)"
proof -
  have "unat (l + of_nat 12) = unat l + 12" by (rule unat_add_of_nat) (use l(1) heap_limit_le [of s] in simp)
  then have low: "unat (l + 12) < heap_limit s" using l(1) by simp
  have "frame_of (l + 12) \<notin> arena_pages A \<union> arena_pages A'"
    using low_not_arena [OF heap_okD(3) [OF H] low] low_not_arena [OF heap_okD(3) [OF H']] low e by simp
  moreover have "\<forall>i<7. l + 12 \<notin> sentinels (k_block_descs s) i" using kheap_sentinel [OF l(2)] by (simp add: sentinels_def)
  ultimately show ?thesis using k unfolding kept_def by blast
qed

lemma kept_cong:
  "mem t = mem s \<Longrightarrow> bytes t = bytes s \<Longrightarrow> k_block_descs t = k_block_descs s \<Longrightarrow> heap_limit t = heap_limit s \<Longrightarrow>
    kept t A fl s' A' fl' = kept s A fl s' A' fl'"
  by (simp add: kept_def)

lemma idle_kept:
  fixes s :: "'z kmem_scheme"
  assumes I: "kheap_idle s" and H: "heap_ok s A fl" and H': "heap_ok (s\<lparr>mem := m, bytes := by, pmem := p\<rparr>) A' fl'"
    and k: "kept s A fl (s\<lparr>mem := m, bytes := by, pmem := p\<rparr>) A' fl'"
  shows "kheap_idle (s\<lparr>mem := m, bytes := by, pmem := p\<rparr>)"
proof -
  let ?s = "s\<lparr>mem := m, bytes := by, pmem := p\<rparr>" and ?l = "pool_lock (kernel_pool s)"
  have e: "heap_limit ?s = heap_limit s" by (simp add: heap_limit_def)
  have "mem ?s (?l + 12) = mem s (?l + 12)" by (rule lock_kept [OF H H' e k]) (use I in \<open>simp_all add: kheap_idle_def Let_def\<close>)
  then show ?thesis using I by (simp add: kheap_idle_def Let_def free_lock_def e running_thread_def)
qed

lemma sys_malloc_heap:
  fixes s :: "'z kmem_scheme"
  assumes I: "kheap_idle s" and H: "heap_ok s A fl" and F: "heap_fits n s"
  shows "\<exists>b m by p A' fl'. sys_malloc n s = Inr (b, s\<lparr>mem := m, bytes := by, pmem := p\<rparr>) \<and>
    heap_ok (s\<lparr>mem := m, bytes := by, pmem := p\<rparr>) A' fl' \<and> live A fl b = None \<and> live A' fl' = (live A fl)(b \<mapsto> granted n) \<and>
    (\<forall>x. in_block b (granted n) x \<longrightarrow> m x = 0 \<and> by x = 0) \<and> kept s A fl (s\<lparr>mem := m, bytes := by, pmem := p\<rparr>) A' fl'"
proof -
  let ?l = "pool_lock (kernel_pool s)" and ?D = "k_block_descs s"
  have L: "free_lock ?l s" "unat ?l + 20 \<le> heap_limit s" "168 \<le> unat (?l + 12 - ?D)" "running_thread s \<noteq> NULL" "thread_pool s = PF_KERNEL"
    using I by (simp_all add: kheap_idle_def Let_def thread_pool_def)
  define t where "t = locked ?l s"
  note acq = lock_acquire_free_lock [OF L(1,4), folded t_def]
  have sel: "pmem t = pmem s" "cr3 t = cr3 s" "bytes t = bytes s" "mem t = mem s" "kernel_pool t = kernel_pool s" "user_pool t = user_pool s"
    "kernel_vaddr t = kernel_vaddr s" "k_block_descs t = ?D" "heap_limit t = heap_limit s" by (simp_all add: t_def locked_def heap_limit_def)
  have Ht: "heap_ok t A fl" by (rule heap_ok_cong [OF H sel(1-8)])
  have un: "(unlocked ?l t)\<lparr>mem := m, bytes := by, pmem := p\<rparr> = s\<lparr>mem := m, bytes := by, pmem := p\<rparr>" for m "by" p
    using unlocked_locked [of s ?l] L(1) by (simp add: t_def free_lock_def)
  note kc = kept_cong [OF sel(4,3,8,9)]
  have sm: "sys_malloc n s = (if n > 1024 then malloc_large PF_KERNEL n t else malloc_small PF_KERNEL ?D n t)"
    using F L acq(1) by (simp add: sys_malloc_def Let_def pool_of_def heap_fits_def thread_pool_def split: if_splits)
  have hl: "held (pool_lock (kernel_pool t)) t" "unat (pool_lock (kernel_pool t)) + 20 \<le> heap_limit t"
    "168 \<le> unat (pool_lock (kernel_pool t) + 12 - k_block_descs t)" using acq(2) L(2,3) by (simp_all add: sel)
  show ?thesis
  proof (cases "n \<le> 1024")
    case True
    then have n: "unat n \<le> 1024" by (simp add: word_le_nat_alt)
    have i: "class_of (unat n) < 7" by (rule class_of_bound(1) [OF n])
    have rm: "(\<exists>j<vbits (kernel_vaddr t). \<not> used t (vaddr_bitmap (kernel_vaddr t)) j) \<and> 2 \<le> card (free_frames t (kernel_pool t))"
      if "fl (class_of (unat n)) = []"
    proof -
      have "list_empty (desc_free_list (desc_at ?D (class_of (unat n)))) s"
        using list_empty_dlist [OF heap_okD(8) [OF H i]] that by (simp add: heap_layout)
      then have "pages_free 1 s" using F True by (simp add: heap_fits_def)
      then obtain j where "2 \<le> card (free_frames s (kernel_pool s))" "j + 1 \<le> vbits (kernel_vaddr s)" "free_run s (vaddr_bitmap (kernel_vaddr s)) 1 j"
        by (auto simp: pages_free_def)
      then show ?thesis using used_cong [OF sel(3)] free_frames_cong [OF sel(3)]
        by (intro conjI exI [of _ j]) (simp_all add: sel free_run_def)
    qed
    show ?thesis using malloc_small_heap [OF Ht n hl rm] True unfolding sm sel un kc granted_def by auto
  next
    case False
    let ?k = "pages_for (unat n)"
    have pf: "pages_free ?k s" using F False by (simp add: heap_fits_def)
    then obtain j where j: "j + ?k \<le> vbits (kernel_vaddr s)" "free_run s (vaddr_bitmap (kernel_vaddr s)) ?k j" "?k < 57600"
      "2 * ?k \<le> card (free_frames s (kernel_pool s))" by (auto simp: pages_free_def)
    have "\<exists>a m by p. malloc_large PF_KERNEL n t = Inr (a + sizeof_arena, (unlocked (pool_lock (kernel_pool t)) t)\<lparr>mem := m, bytes := by, pmem := p\<rparr>) \<and>
        heap_ok ((unlocked (pool_lock (kernel_pool t)) t)\<lparr>mem := m, bytes := by, pmem := p\<rparr>) (A(a \<mapsto> Pages ?k)) fl \<and> frame_of a = a \<and>
        A a = None \<and> (\<forall>x. in_block (a + sizeof_arena) (?k * 4096 - 12) x \<longrightarrow> m x = 0 \<and> by x = 0) \<and>
        kept t A fl ((unlocked (pool_lock (kernel_pool t)) t)\<lparr>mem := m, bytes := by, pmem := p\<rparr>) (A(a \<mapsto> Pages ?k)) fl"
      by (rule malloc_large_heap [OF Ht refl j(3) hl(1,2), of j])
        (use j used_cong [OF sel(3)] free_frames_cong [OF sel(3)] in \<open>simp_all add: sel free_run_def\<close>)
    then obtain a m "by" p where r: "malloc_large PF_KERNEL n t = Inr (a + sizeof_arena, s\<lparr>mem := m, bytes := by, pmem := p\<rparr>)"
        "heap_ok (s\<lparr>mem := m, bytes := by, pmem := p\<rparr>) (A(a \<mapsto> Pages ?k)) fl" "frame_of a = a" "A a = None"
        "\<forall>x. in_block (a + sizeof_arena) (?k * 4096 - 12) x \<longrightarrow> m x = 0 \<and> by x = 0"
        "kept s A fl (s\<lparr>mem := m, bytes := by, pmem := p\<rparr>) (A(a \<mapsto> Pages ?k)) fl" unfolding sel un kc by blast
    have big: "n > 1024" "\<not> n \<le> 1024" using False by simp_all
    have g: "granted n = ?k * 4096 - 12" using False by (simp add: granted_def)
    show ?thesis
      by (intro exI [of _ "a + sizeof_arena"] exI [of _ m] exI [of _ "by"] exI [of _ p] exI [of _ "A(a \<mapsto> Pages ?k)"] exI [of _ fl])
        (use r big live_add_large [where A = A, OF r(3,4)] in \<open>simp add: sm g\<close>)
  qed
qed


lemma live_above:
  assumes ok: "arenas_ok lim D A" and l: "live A fl b = Some n"
  shows "lim \<le> unat b" "\<exists>\<kappa>. A (block2arena b) = Some \<kappa>"
proof -
  show "\<exists>\<kappa>. A (block2arena b) = Some \<kappa>" using l by (auto simp: live_def split: option.splits)
  then obtain \<kappa> where k: "A (block2arena b) = Some \<kappa>" by blast
  have "unat (block2arena b) \<le> unat b"
    using div_times_less_eq_dividend [of "unat b" 4096] unat_frame_of [of b] by (simp add: block2arena_def frame_of_def)
  then show "lim \<le> unat b" using arenas_okD(3) [OF ok k] by simp
qed

lemma sys_free_heap:
  fixes s :: "'z kmem_scheme"
  assumes I: "kheap_idle s" and H: "heap_ok s A fl" and b: "live A fl b = Some n"
  shows "\<exists>m by p A' fl'. sys_free b s = Inr (s\<lparr>mem := m, bytes := by, pmem := p\<rparr>) \<and>
    heap_ok (s\<lparr>mem := m, bytes := by, pmem := p\<rparr>) A' fl' \<and> live A' fl' = (live A fl)(b := None) \<and>
    kept s A fl (s\<lparr>mem := m, bytes := by, pmem := p\<rparr>) A' fl'"
proof -
  let ?l = "pool_lock (kernel_pool s)" and ?D = "k_block_descs s" and ?a = "block2arena b"
  have L: "free_lock ?l s" "unat ?l + 20 \<le> heap_limit s" "168 \<le> unat (?l + 12 - ?D)" "running_thread s \<noteq> NULL" "thread_pool s = PF_KERNEL"
    "unat K_HEAP_STACK \<le> heap_limit s" using I by (simp_all add: kheap_idle_def Let_def thread_pool_def)
  define t where "t = locked ?l s"
  note acq = lock_acquire_free_lock [OF L(1,4), folded t_def]
  have sel: "pmem t = pmem s" "cr3 t = cr3 s" "bytes t = bytes s" "mem t = mem s" "kernel_pool t = kernel_pool s" "user_pool t = user_pool s"
    "kernel_vaddr t = kernel_vaddr s" "k_block_descs t = ?D" "heap_limit t = heap_limit s" by (simp_all add: t_def locked_def heap_limit_def)
  have Ht: "heap_ok t A fl" by (rule heap_ok_cong [OF H sel(1-8)])
  note ok = heap_okD(3) [OF Ht]
  note kc = kept_cong [OF sel(4,3,8,9)]
  have bl: "b \<noteq> NULL" "K_HEAP_STACK \<le> b"
    using live_above(1) [OF ok b] L(6) by (auto simp: sel word_le_nat_alt K_HEAP_STACK_def)
  have run: "\<exists>m by p A' fl'. (if mem t (arena_desc ?a) = NULL \<and> mem t (arena_large ?a) = 1
        then mfree_page PF_KERNEL ?a (mem t (arena_cnt ?a)) t else free_block PF_KERNEL ?a b t) = Inr (t\<lparr>mem := m, bytes := by, pmem := p\<rparr>) \<and>
      (mem t (arena_large ?a) = 0 \<or> mem t (arena_large ?a) = 1) \<and>
      heap_ok (t\<lparr>mem := m, bytes := by, pmem := p\<rparr>) A' fl' \<and> live A' fl' = (live A fl)(b := None) \<and>
      kept t A fl (t\<lparr>mem := m, bytes := by, pmem := p\<rparr>) A' fl'"
    using b
  proof (cases rule: live_cases)
    case (small a i j)
    have fa: "frame_of a = a" by (rule arenas_okD(2) [OF ok small(1)])
    have a: "?a = a" unfolding small(3) by (rule block2arena_blk [OF fa small(2)])
    have h: "mem t (a + 8) = 0" using heap_okD(6) [OF Ht small(1)] by simp
    show ?thesis using free_block_heap [OF Ht small(1,2,3,4)] h unfolding a by (auto simp: heap_layout)
  next
    case (large a k)
    have fa: "frame_of a = a" by (rule arenas_okD(2) [OF ok large(1)])
    have b': "b = a + sizeof_arena" using large(2) by (simp add: sizeof_arena_def)
    have a: "?a = a" unfolding b' by (rule frame_of_large [OF fa])
    have h: "mem t a = NULL" "mem t (a + 8) = 1" using heap_okD(6) [OF Ht large(1)] by simp_all
    obtain "by" p where r: "mfree_page PF_KERNEL a (mem t (a + 4)) t = Inr (t\<lparr>mem := mem t, bytes := by, pmem := p\<rparr>)"
      "heap_ok (t\<lparr>mem := mem t, bytes := by, pmem := p\<rparr>) (A(a := None)) fl" "live (A(a := None)) fl = (live A fl)(a + sizeof_arena := None)"
      "kept t A fl (t\<lparr>mem := mem t, bytes := by, pmem := p\<rparr>) (A(a := None)) fl"
      using free_large_heap [OF Ht large(1)] by blast
    have c: "mem t (arena_desc a) = NULL" "mem t (arena_large a) = 1" "arena_cnt a = a + 4" using h by (simp_all add: heap_layout)
    show ?thesis unfolding a
      by (intro exI [of _ "mem t"] exI [of _ "by"] exI [of _ p] exI [of _ "A(a := None)"] exI [of _ fl])
        (simp only: c r b' simp_thms if_True)
  qed
  then obtain m "by" p A' fl' where r: "(if mem t (arena_desc ?a) = NULL \<and> mem t (arena_large ?a) = 1
        then mfree_page PF_KERNEL ?a (mem t (arena_cnt ?a)) t else free_block PF_KERNEL ?a b t) = Inr (t\<lparr>mem := m, bytes := by, pmem := p\<rparr>)"
      "mem t (arena_large ?a) = 0 \<or> mem t (arena_large ?a) = 1"
      "heap_ok (t\<lparr>mem := m, bytes := by, pmem := p\<rparr>) A' fl'" "live A' fl' = (live A fl)(b := None)"
      "kept t A fl (t\<lparr>mem := m, bytes := by, pmem := p\<rparr>) A' fl'" by blast
  let ?t = "t\<lparr>mem := m, bytes := by, pmem := p\<rparr>" and ?s = "s\<lparr>mem := m, bytes := by, pmem := p\<rparr>"
  have lk: "mem ?t (?l + 12) = mem t (?l + 12)"
    by (rule lock_kept [OF Ht r(3) _ r(5)]) (use L(2,3) in \<open>simp_all add: sel heap_limit_def\<close>)
  have "held ?l ?t" using acq(2) lk by (simp add: held_def running_thread_def)
  then have rel: "lock_release ?l ?t = Inr (unlocked ?l ?t)" by (rule lock_release_held)
  have "unlocked ?l ?t = (unlocked ?l t)\<lparr>mem := m, bytes := by, pmem := p\<rparr>" by (simp add: unlocked_def)
  moreover have "unlocked ?l t = s" unfolding t_def by (rule unlocked_locked) (use L(1) in \<open>simp_all add: free_lock_def\<close>)
  ultimately have un: "unlocked ?l ?t = ?s" by simp
  have pl: "pool_lock (pool_of PF_KERNEL s) = ?l" "pool_lock (pool_of PF_KERNEL ?t) = ?l" by (simp_all add: pool_of_def sel)
  have "sys_free b s = Inr ?s"
    unfolding sys_free_def Let_def L(5) pl acq(1) bind_r.simps r(1) rel un using bl r(2) by (simp only: ASSERT_def simp_thms if_True)
  moreover have "heap_ok ?s A' fl'" by (rule heap_ok_cong [OF r(3)]) (simp_all add: sel)
  moreover have "kept s A fl ?s A' fl'" using r(5) unfolding kc by (simp add: kept_def)
  ultimately show ?thesis using r(4) by blast
qed

section \<open>The model keeps the interface\<close>

lemma granted_enough:
  shows "unat n \<le> granted n"
proof (cases "n \<le> 1024")
  case True
  then have "unat n \<le> 1024" by (simp add: word_le_nat_alt)
  then show ?thesis using class_of_bound(2) True by (simp add: granted_def)
next
  case False
  then show ?thesis using pages_for_bounds(1) [of "unat n"] by (simp add: granted_def)
qed

lemma heap_content_kept:
  assumes "kept s A fl s' A' fl'" "live A fl c = Some k" "live A' fl' c = Some k"
  shows "heap_content c k s' = heap_content c k s"
  using assms unfolding kept_def by (auto simp: heap_content_def fun_eq_iff)

lemma sys_malloc_kernel_heap:
  assumes "kernel_heap s H" "heap_fits n s"
  shows "\<exists>b s'. sys_malloc n s = Inr (b, s') \<and> H b = None \<and> kernel_heap s' (H(b \<mapsto> granted n)) \<and>
    (\<forall>c k. H c = Some k \<longrightarrow> heap_content c k s' = heap_content c k s) \<and>
    (\<forall>x. in_block b (granted n) x \<longrightarrow> mem s' x = 0 \<and> bytes s' x = 0)"
proof -
  obtain A fl where A: "kheap_idle s" "heap_ok s A fl" "H = live A fl" using assms(1) by (auto simp: kernel_heap_def)
  obtain b m "by" p A' fl' where r: "sys_malloc n s = Inr (b, s\<lparr>mem := m, bytes := by, pmem := p\<rparr>)"
    "heap_ok (s\<lparr>mem := m, bytes := by, pmem := p\<rparr>) A' fl'" "live A fl b = None" "live A' fl' = (live A fl)(b \<mapsto> granted n)"
    "\<forall>x. in_block b (granted n) x \<longrightarrow> m x = 0 \<and> by x = 0"
    "kept s A fl (s\<lparr>mem := m, bytes := by, pmem := p\<rparr>) A' fl'" using sys_malloc_heap [OF A(1,2) assms(2)] by blast
  let ?s = "s\<lparr>mem := m, bytes := by, pmem := p\<rparr>"
  have "kernel_heap ?s (H(b \<mapsto> granted n))"
    unfolding kernel_heap_def by (intro conjI exI [of _ A'] exI [of _ fl'], rule idle_kept [OF A(1,2) r(2,6)]) (use r(2,4) A(3) in simp_all)
  moreover have "heap_content c k ?s = heap_content c k s" if "H c = Some k" for c k
    by (rule heap_content_kept [OF r(6)]) (use that r(3,4) A(3) in auto)
  moreover have "mem ?s x = 0 \<and> bytes ?s x = 0" if "in_block b (granted n) x" for x using r(5) that by simp
  ultimately show ?thesis using r(1,3) A(3) by blast
qed

lemma sys_free_kernel_heap:
  assumes "kernel_heap s H" "H b = Some m"
  shows "\<exists>s'. sys_free b s = Inr s' \<and> kernel_heap s' (H(b := None)) \<and>
    (\<forall>c k. c \<noteq> b \<and> H c = Some k \<longrightarrow> heap_content c k s' = heap_content c k s)"
proof -
  obtain A fl where A: "kheap_idle s" "heap_ok s A fl" "H = live A fl" using assms(1) by (auto simp: kernel_heap_def)
  have lb: "live A fl b = Some m" using assms(2) A(3) by simp
  obtain m' "by" p A' fl' where r: "sys_free b s = Inr (s\<lparr>mem := m', bytes := by, pmem := p\<rparr>)"
    "heap_ok (s\<lparr>mem := m', bytes := by, pmem := p\<rparr>) A' fl'" "live A' fl' = (live A fl)(b := None)"
    "kept s A fl (s\<lparr>mem := m', bytes := by, pmem := p\<rparr>) A' fl'" using sys_free_heap [OF A(1,2) lb] by blast
  let ?s = "s\<lparr>mem := m', bytes := by, pmem := p\<rparr>"
  have "kernel_heap ?s (H(b := None))"
    unfolding kernel_heap_def by (intro conjI exI [of _ A'] exI [of _ fl'], rule idle_kept [OF A(1,2) r(2,4)]) (use r(2,3) A(3) in simp_all)
  moreover have "heap_content c k ?s = heap_content c k s" if "c \<noteq> b" "H c = Some k" for c k
    by (rule heap_content_kept [OF r(4)]) (use that r(3) A(3) in auto)
  ultimately show ?thesis using r(1) by blast
qed

lemma kernel_heap_apart:
  assumes "kernel_heap s H" "H b = Some m" "H c = Some k" "b \<noteq> c"
  shows "disjoint_blocks b m c k"
proof -
  obtain A fl where A: "heap_ok s A fl" "H = live A fl" using assms(1) by (auto simp: kernel_heap_def)
  show ?thesis by (rule live_disjoint [OF heap_okD(3) [OF A(1)] _ _ assms(4)]) (use assms A(2) in auto)
qed

text \<open>A byte of a live block is mapped kernel memory.\<close>

lemma live_mapped:
  fixes s :: "'z kmem_scheme"
  assumes H: "heap_ok s A fl" and b: "live A fl b = Some n" "in_block b n x"
  shows "page_walk s x \<noteq> None" "heap_limit s \<le> unat x"
proof -
  note L = live_where [OF heap_okD(3) [OF H] heap_limit_le b]
  show "heap_limit s \<le> unat x" by (rule L(2))
  obtain a \<kappa> where a: "A a = Some \<kappa>" "frame_of x \<in> set (pages a (span \<kappa>))" using L(1) by (auto simp: arena_pages_def)
  obtain F where F: "page_walk s (frame_of x) = Some F" "frame_of (frame_of x) = frame_of x"
    using page_run_walk [OF heap_okD(4) [OF H] heap_okD(5) [OF H a(1)] a(2)] by metis
  obtain r where "r < 4096" "x = frame_of x + of_nat r" by (rule page_offset_obtain)
  then show "page_walk s x \<noteq> None" using walk_in_page [OF F, of r] by simp
qed

interpretation kheap: allocator kernel_heap sys_malloc sys_free heap_fits granted heap_content
proof unfold_locales
  show "\<exists>b s'. sys_malloc n s = Inr (b, s') \<and> H b = None \<and> kernel_heap s' (H(b \<mapsto> granted n)) \<and>
      (\<forall>c k. H c = Some k \<longrightarrow> heap_content c k s' = heap_content c k s)"
    if "kernel_heap s H" "heap_fits n s" for s :: "'z kmem_scheme" and H n using sys_malloc_kernel_heap [OF that] by metis
qed (fact sys_free_kernel_heap kernel_heap_apart)+

section \<open>Theorems\<close>

text \<open>C10. A request of a kernel thread for which there is room is served from a block that is not live, is at least as large
  as asked, is clear, overlaps no live block, and is live afterwards; every other live block keeps its size and
  its contents.  This holds for small requests, whether the free list of the class is empty or not, and for large ones.\<close>

theorem sys_malloc_refines:
  fixes s :: "'z kmem_scheme"
  assumes "kernel_heap s H" and "heap_fits n s"
  shows "\<exists>b s'. sys_malloc n s = Inr (b, s') \<and> H b = None \<and> unat n \<le> granted n \<and> kernel_heap s' (H(b \<mapsto> granted n)) \<and>
    (\<forall>x. in_block b (granted n) x \<longrightarrow> mem s' x = 0 \<and> bytes s' x = 0) \<and>
    (\<forall>c k. H c = Some k \<longrightarrow> disjoint_blocks b (granted n) c k \<and> heap_content c k s' = heap_content c k s)"
proof -
  obtain b s' where r: "sys_malloc n s = Inr (b, s')" "H b = None" "kernel_heap s' (H(b \<mapsto> granted n))"
    "\<forall>c k. H c = Some k \<longrightarrow> heap_content c k s' = heap_content c k s" "\<forall>x. in_block b (granted n) x \<longrightarrow> mem s' x = 0 \<and> bytes s' x = 0"
    using sys_malloc_kernel_heap [OF assms] by blast
  moreover have "unat n \<le> granted n" by (rule granted_enough)
  moreover have "disjoint_blocks b (granted n) c k" if "H c = Some k" for c k
    using kheap.alloc_apart [OF assms] r(1) that by auto
  ultimately show ?thesis by blast
qed

text \<open>C11. Freeing a live block succeeds and removes exactly it from the heap; every other live block keeps its size and contents.
  This holds whether the block is small or large and whether or not its arena is given back.\<close>

theorem sys_free_refines:
  fixes s :: "'z kmem_scheme"
  assumes "kernel_heap s H" and "H b = Some m"
  shows "\<exists>s'. sys_free b s = Inr s' \<and> kernel_heap s' (H(b := None)) \<and>
    (\<forall>c k. c \<noteq> b \<and> H c = Some k \<longrightarrow> heap_content c k s' = heap_content c k s)"
  using kheap.release_ok [OF assms] .

text \<open>C12. Freeing a block right after it was allocated gives the heap before: the same live blocks with the same contents.\<close>

theorem sys_malloc_free_roundtrip:
  fixes s :: "'z kmem_scheme"
  assumes "kernel_heap s H" and "heap_fits n s"
  shows "\<exists>b s1 s2. sys_malloc n s = Inr (b, s1) \<and> sys_free b s1 = Inr s2 \<and> kernel_heap s2 H \<and>
    (\<forall>c k. H c = Some k \<longrightarrow> heap_content c k s2 = heap_content c k s)"
  by (rule kheap.alloc_release [OF assms])


text \<open>C13. A client that asks only when there is room and frees only what it holds is served to the end.  Then it holds
  distinct live blocks, and every block that others held at the start is still live and has its contents.\<close>

theorem heap_requests_served:
  fixes s :: "'z kmem_scheme"
  assumes "kernel_heap s H" and "sensible sys_malloc sys_free heap_fits rs hs s" and "distinct hs" and "set hs \<subseteq> dom H"
  shows "\<exists>hs' s' H'. serve sys_malloc sys_free rs hs s = Inr (hs', s') \<and> kernel_heap s' H' \<and> distinct hs' \<and> set hs' \<subseteq> dom H' \<and>
    (\<forall>c k. H c = Some k \<and> c \<notin> set hs \<longrightarrow> H' c = Some k \<and> c \<notin> set hs' \<and> heap_content c k s' = heap_content c k s)"
  by (rule kheap.serve_ok [OF assms])

section \<open>A kernel with an empty heap\<close>

lemma boot_heap_dlist: "c < 7 \<Longrightarrow> dlist (mem boot_heap) (desc_at 0xc0007000 c + 8) []"
proof -
  assume c: "c < 7"
  let ?h = "block_desc_init 0xc0007000 boot_kmem"
  have far: "mem boot_heap x = mem ?h x" if "x \<notin> {0xc0009088, 0xc000908c, 0xc0009090, 0xc0009094}" for x
    using that by (simp add: boot_heap_def list_init_mem)
  have "c \<in> {0, 1, 2, 3, 4, 5, 6}" using c by auto
  then have "mem boot_heap x = mem ?h x" if "x \<in> words_of (set (nodes (desc_at 0xc0007000 c + 8) []))" for x
    using that by (intro far) (auto simp: words_of_def nodes_def desc_at_def sizeof_desc_def)
  then show ?thesis using dlist_frame [of "desc_at 0xc0007000 c + 8" "[]" "mem boot_heap" "mem ?h"] block_desc_init_ok(2) [OF c] by blast
qed

lemma boot_heap_sel:
  "pmem boot_heap = pmem boot_kmem" "cr3 boot_heap = cr3 boot_kmem" "bytes boot_heap = bytes boot_kmem" "kernel_pool boot_heap = kernel_pool boot_kmem"
  "user_pool boot_heap = user_pool boot_kmem" "kernel_vaddr boot_heap = kernel_vaddr boot_kmem" "k_block_descs boot_heap = 0xc0007000"
  "running_thread boot_heap = running_thread boot_kmem" "tasks boot_heap = tasks boot_kmem" "esp boot_heap = esp boot_kmem" "free_lock 0xc0009080 boot_heap"
proof -
  obtain m0 where e: "boot_heap = boot_kmem\<lparr>mem := m0\<rparr>" using boot_heap_eq by blast
  show "pmem boot_heap = pmem boot_kmem" "cr3 boot_heap = cr3 boot_kmem" "bytes boot_heap = bytes boot_kmem" "kernel_pool boot_heap = kernel_pool boot_kmem"
    "user_pool boot_heap = user_pool boot_kmem" "kernel_vaddr boot_heap = kernel_vaddr boot_kmem" "k_block_descs boot_heap = 0xc0007000"
    "running_thread boot_heap = running_thread boot_kmem" "tasks boot_heap = tasks boot_kmem" "esp boot_heap = esp boot_kmem"
    by (simp_all add: e boot_kmem_def running_thread_def)
  show "free_lock 0xc0009080 boot_heap" using boot_heap_mem(2) by (simp add: free_lock_def e boot_kmem_def)
qed

lemma boot_bitmap_low:
  assumes "x \<in> bm_bytes (kbm 0x300000) \<union> bm_bytes (ubm 0x300000) \<union> bm_bytes (vbm 0x300000)"
  shows "unat x < 0xc0100000"
proof -
  have "in_block 0xc009a000 16 x \<or> in_block 0xc009a010 16 x \<or> in_block 0xc009a020 16 x"
    using assms by (auto simp: bm_bytes_def kbm_def ubm_def vbm_def boot_free_pages MEM_BITMAP_BASE_def)
  then show ?thesis by (auto simp: in_block_unat)
qed

lemma boot_heap_empty: "kernel_heap boot_heap (\<lambda>_. None)"
proof -
  have v: "vspace PF_KERNEL boot_kmem = kernel_vaddr boot_kmem" by (simp add: vspace_def)
  have lim: "heap_limit boot_heap = 0xc0100000" by (simp add: heap_limit_def boot_heap_sel K_HEAP_STACK_def)
  have inv: "mm_inv boot_heap" "vspace_ok boot_heap (kernel_vaddr boot_heap)"
    using mm_inv_cong [OF boot_heap_sel(1-5)] vspace_ok_cong [OF boot_heap_sel(1-5)] boot_kmem_inv boot_vspace_ok unfolding v boot_heap_sel(6) by simp_all
  have "unat x < heap_limit boot_heap" if "x \<in> pool_bytes boot_heap \<union> bm_bytes (vaddr_bitmap (kernel_vaddr boot_heap))" for x
    unfolding lim by (rule boot_bitmap_low) (use that in \<open>simp add: pool_bytes_def boot_heap_sel\<close>)
  moreover have "pools_ordered boot_heap" using boot_kmem_pools(2) by (simp add: pools_ordered_def boot_heap_sel)
  ultimately have base: "heap_base boot_heap" using inv by (simp add: heap_base_def boot_heap_sel(4))
  have "heap_pages boot_heap (\<lambda>_. None)" unfolding heap_pages_def arenas_ok_def lim by (simp add: boot_heap_sel)
  moreover have "heap_words (mem boot_heap) 0xc0007000 (\<lambda>_. None) (\<lambda>_. [])"
    using boot_heap_mem(1) boot_heap_dlist by (simp add: heap_words_def)
  ultimately have "heap_ok boot_heap (\<lambda>_. None) (\<lambda>_. [])" using base by (simp add: heap_ok_def boot_heap_sel(7))
  moreover have "live (\<lambda>_. None) (\<lambda>_. []) = (\<lambda>_. None)" by (simp add: live_def fun_eq_iff)
  moreover have "kheap_idle boot_heap"
    using boot_heap_sel(11) by (simp add: kheap_idle_def Let_def lim boot_heap_sel boot_kpool_def boot_kmem_def running_thread_def K_HEAP_STACK_def blank_task_def)
  ultimately show ?thesis unfolding kernel_heap_def by metis
qed


lemma granted_300: "granted 300 = 512"
  using class_of_300 by (simp add: granted_def bsize_def)

lemma boot_pages_free: "k \<le> 64 \<Longrightarrow> pages_free k boot_heap"
proof -
  assume k: "k \<le> 64"
  have v: "vspace PF_KERNEL boot_kmem = kernel_vaddr boot_kmem" by (simp add: vspace_def)
  have "2 * k \<le> card (free_frames boot_heap (kernel_pool boot_heap))"
    using boot_room [OF k] by (simp add: room_def free_frames_cong [OF boot_heap_sel(3)] boot_heap_sel(4))
  moreover have "0 + k \<le> vbits (kernel_vaddr boot_heap)" using boot_vbits k unfolding v boot_heap_sel(6) by simp
  moreover have "free_run boot_heap (vaddr_bitmap (kernel_vaddr boot_heap)) k 0"
    using used_cong [OF boot_heap_sel(3)] by (simp add: free_run_def)
  ultimately show ?thesis using k unfolding pages_free_def by (intro conjI exI [of _ 0]) simp_all
qed

lemma boot_fits: "heap_fits 300 boot_heap" "heap_fits 5000 boot_heap"
proof -
  have ps: "pool_size (kernel_pool boot_heap) = 0x80000"
    unfolding boot_heap_sel(4) boot_kmem_sel by (simp add: boot_kpool_def boot_free_pages)
  have "pages_for 5000 = 2" by (simp add: pages_for_def)
  then show "heap_fits 300 boot_heap" "heap_fits 5000 boot_heap" using boot_pages_free [of 1] boot_pages_free [of 2] by (simp_all add: heap_fits_def ps)
qed

section \<open>Witnesses\<close>

theorem sys_malloc_refines_witness:
  "(\<exists>b s'. sys_malloc 300 boot_heap = Inr (b, s') \<and> kernel_heap s' [b \<mapsto> 512]) \<and>
   (\<exists>b s'. sys_malloc 5000 boot_heap = Inr (b, s') \<and> kernel_heap s' [b \<mapsto> 8180])"
proof
  have "granted 5000 = 8180" by (simp add: granted_def pages_for_def)
  with sys_malloc_refines [OF boot_heap_empty boot_fits(2)]
  show "\<exists>b s'. sys_malloc 5000 boot_heap = Inr (b, s') \<and> kernel_heap s' [b \<mapsto> 8180]" by auto
  from sys_malloc_refines [OF boot_heap_empty boot_fits(1)]
  show "\<exists>b s'. sys_malloc 300 boot_heap = Inr (b, s') \<and> kernel_heap s' [b \<mapsto> 512]" unfolding granted_300 by auto
qed

theorem sys_free_refines_witness:
  "\<exists>b s s'. sys_malloc 300 boot_heap = Inr (b, s) \<and> sys_free b s = Inr s' \<and> kernel_heap s' (\<lambda>_. None)"
proof -
  obtain b s where s: "sys_malloc 300 boot_heap = Inr (b, s)" "kernel_heap s [b \<mapsto> granted 300]"
    using sys_malloc_kernel_heap [OF boot_heap_empty boot_fits(1)] by blast
  have "[b \<mapsto> granted 300] b = Some (granted 300)" by simp
  from sys_free_refines [OF s(2) this] obtain s' where "sys_free b s = Inr s'" "kernel_heap s' ([b \<mapsto> granted 300](b := None))" by blast
  moreover have "[b \<mapsto> granted 300](b := None) = (\<lambda>_. None)" by auto
  ultimately show ?thesis using s(1) by auto
qed

theorem sys_malloc_free_roundtrip_witness:
  "\<exists>b s1 s2. sys_malloc 5000 boot_heap = Inr (b, s1) \<and> sys_free b s1 = Inr s2 \<and> kernel_heap s2 (\<lambda>_. None)"
  using sys_malloc_free_roundtrip [OF boot_heap_empty boot_fits(2)] by blast


theorem heap_requests_served_witness:
  "\<exists>hs s' H'. serve sys_malloc sys_free [Malloc 300, Free 0] [] boot_heap = Inr (hs, s') \<and> kernel_heap s' H'"
proof -
  obtain b s where s: "sys_malloc 300 boot_heap = Inr (b, s)" using sys_malloc_kernel_heap [OF boot_heap_empty boot_fits(1)] by blast
  have "sensible sys_malloc sys_free heap_fits [Malloc 300, Free 0] [] boot_heap" using boot_fits(1) s by (simp split: sum.split)
  from heap_requests_served [OF boot_heap_empty this] show ?thesis by auto
qed

end
