(* ===== verification/Boot_Heap.thy ===== *)
theory Boot_Heap
  imports Loader Heap_Spec
begin

text \<open>
  From the loader's page tables to the memory invariants: with the pools \<open>mem_pool_init\<close> makes, whatever the size of memory,
  the page tables of \<^verbatim>\<open>boot/loader.S\<close> and the free kernel address space satisfy \<open>heap_base\<close>.
\<close>

section \<open>Frames and tables\<close>

lemma boot_tables_sets:
  assumes "boot_tables s"
  shows "selfmap s" "T \<in> tables s \<Longrightarrow> 0x101000 \<le> unat T \<and> unat T < 0x200000" "f \<in> data s \<Longrightarrow> unat f < 0x100000"
proof -
  have "pmem s (0x100000 + of_nat 1023 * 4) = boot_pde 1023" by (rule boot_tablesD(2) [OF assms]) simp
  then show "selfmap s" using boot_tablesD(1) [OF assms] by (simp add: selfmap_def boot_pde_def frame_of_def present_def)
  show "0x101000 \<le> unat T \<and> unat T < 0x200000" if "T \<in> tables s"
  proof -
    obtain va where va: "lower va" "table_of s va = Some T" using \<open>T \<in> tables s\<close> by (auto simp: tables_def)
    then obtain k where k: "boot_table (unat (PDE_IDX va)) = Some k" "T = of_nat k * 0x1000" using boot_tables_table [OF assms va(1)] by auto
    then have "257 \<le> k" "k < 512" using lower_index [OF va(1)] by (auto simp: boot_table_def split: if_splits)
    then show ?thesis using page_entry(4) [of k] k(2) by simp
  qed
  show "unat f < 0x100000" if "f \<in> data s"
  proof -
    obtain va pa where va: "lower va" "page_walk s va = Some pa" "f = frame_of pa" using \<open>f \<in> data s\<close> by (auto simp: data_def)
    have "unat pa < 0x100000"
      using boot_tables_walk [OF assms va(1)] va(2) by (auto simp: unat_sub word_le_nat_alt split: if_splits)
    moreover have "unat (frame_of pa) \<le> unat pa" by (simp add: unat_frame_of)
    ultimately show ?thesis using va(3) by simp
  qed
qed

lemma boot_spare:
  fixes s :: "'z kmem_scheme"
  assumes "kernel_pool s = boot_kpool M l" "user_pool s = boot_upool M l'"
  shows "f \<in> pools s \<Longrightarrow> 0x200000 \<le> unat f" "f \<in> spare s \<Longrightarrow> 0x200000 \<le> unat f"
proof -
  show p: "0x200000 \<le> unat f" if "f \<in> pools s" for f
    using that boot_pools(4) [of f M l] boot_pools(5) [of f M l'] by (auto simp: pools_def assms)
  show "0x200000 \<le> unat f" if "f \<in> spare s" using that p free_frames_pool by (fastforce simp: spare_def pools_def)
qed

lemma boot_mm_inv:
  fixes s :: "'z kmem_scheme"
  assumes B: "boot_tables s" and p: "kernel_pool s = boot_kpool M l" "user_pool s = boot_upool M l'"
  shows "mm_inv s" "pools_ordered s"
proof -
  note S = boot_tables_sets [OF B] and P = boot_spare [OF p]
  have c: "frame_of (cr3 s) = 0x100000" by (rule boot_tablesD(1) [OF B])
  have "pools_ok s" using boot_pools(2,3) boot_pools_disjoint boot_bitmaps(7) by (simp add: pools_ok_def p)
  moreover have "frame_of (cr3 s) \<notin> tables s \<union> data s \<union> spare s" using S(2,3) P(2) unfolding c by fastforce
  moreover have "tables s \<inter> data s = {}" using S(2,3) by fastforce
  moreover have "(tables s \<union> data s) \<inter> spare s = {}" using S(2,3) P(2) by fastforce
  moreover have "one_slot s"
    unfolding one_slot_def
  proof (intro allI impI, elim conjE)
    fix va va' pa pa' assume a: "lower va" "page_walk s va = Some pa" "frame_of pa \<in> pools s"
    then have "frame_of pa \<in> data s" by (auto simp: data_def)
    then show "slot s va = slot s va'" using S(3) P(1) [OF a(3)] by fastforce
  qed
  ultimately show "mm_inv s" using S(1) by (simp add: mm_inv_def)
  have "8 * (free_pages_of M div 2 div 8) \<le> free_pages_of M div 2" by simp
  then show "pools_ordered s" using boot_pools(1) [of M l'] boot_bitmaps(1) [of M] by (simp add: pools_ordered_def p)
qed

section \<open>The kernel's address space\<close>

lemma boot_vaddr:
  fixes s :: "'z kmem_scheme"
  assumes B: "boot_tables s" and p: "kernel_pool s = boot_kpool M l" "user_pool s = boot_upool M l'"
    and va: "va = \<lparr>vaddr_bitmap = vbm M, vaddr_start = K_HEAP_STACK\<rparr>"
  shows "vspace_ok s va"
proof -
  let ?n = "vbits va"
  have n: "?n \<le> 32767" using boot_bitmaps(3) [of M] by (simp add: va vbits_def free_pages_of_def)
  have lim: "unat (vaddr_start va) + ?n * 4096 \<le> 0xffc00000" using n by (simp add: va K_HEAP_STACK_def)
  have u: "unat (vpage va i) = 0xc0100000 + i * 4096" if "i < ?n" for i
    using unat_vpage [OF lim that] by (simp add: va K_HEAP_STACK_def)
  have low: "lower (vpage va i)" if "i < ?n" for i by (rule lower_unat) (use u [OF that] that n in simp)
  have T: "table_of s (vpage va i) = Some (of_nat (unat (PDE_IDX (vpage va i)) - 511) * 0x1000)" "768 \<le> unat (PDE_IDX (vpage va i))" if "i < ?n" for i
  proof -
    show g: "768 \<le> unat (PDE_IDX (vpage va i))" unfolding unat_PDE_IDX using u [OF that] by (simp add: less_eq_div_iff_mult_less_eq)
    then have "unat (PDE_IDX (vpage va i)) \<noteq> 0" by linarith
    then show "table_of s (vpage va i) = Some (of_nat (unat (PDE_IDX (vpage va i)) - 511) * 0x1000)"
      using boot_tables_table [OF B low [OF that]] g by (simp add: boot_table_def)
  qed
  have fr: "frame_of (vpage va i) = frame_of (vpage va j)" if ij: "i < ?n" "j < ?n" and sl: "slot s (vpage va i) = slot s (vpage va j)" for i j
  proof (rule same_page)
    let ?a = "unat (PDE_IDX (vpage va i))" and ?b = "unat (PDE_IDX (vpage va j))"
    have "slot s (vpage va i) \<noteq> None" using T(1) [OF ij(1)] by (simp add: slot_def)
    then obtain a where a: "slot s (vpage va i) = Some a" "slot s (vpage va j) = Some a" using sl by auto
    show "PTE_IDX (vpage va i) = PTE_IDX (vpage va j)" by (rule slot_eq_table(2) [OF a])
    have "(of_nat (?a - 511) * 0x1000 :: addr) = of_nat (?b - 511) * 0x1000"
      using slot_eq_table(1) [OF a] T(1) [OF ij(1)] T(1) [OF ij(2)] by simp
    then have "?a - 511 = ?b - 511"
      unfolding word_unat_eq_iff using page_entry(4) [of "?a - 511"] page_entry(4) [of "?b - 511"] lower_index [OF low [OF ij(1)]] lower_index [OF low [OF ij(2)]] by simp
    then have "?a = ?b" using T(2) [OF ij(1)] T(2) [OF ij(2)] by simp
    then show "PDE_IDX (vpage va i) = PDE_IDX (vpage va j)" by (rule unat_eqI)
  qed
  have "apart s (vpage va ` {..<?n})"
    unfolding apart_def
  proof (intro ballI conjI impI notI)
    fix a assume "a \<in> vpage va ` {..<?n}"
    then obtain i where i: "i < ?n" "a = vpage va i" by auto
    then show "lower a" using low by simp
    fix b assume "b \<in> vpage va ` {..<?n}"
    then obtain j where j: "j < ?n" "b = vpage va j" by auto
    assume "frame_of a \<noteq> frame_of b \<and> slot s a \<noteq> None" "slot s a = slot s b"
    then show False using fr [OF i(1) j(1)] i j by simp
  qed
  moreover have "page_walk s (vpage va i) = None" if "i < ?n" for i
    using boot_tables_walk [OF B low [OF that]] u [OF that] by simp
  ultimately show ?thesis using boot_bitmaps(6,8,9) [of M] lim
    unfolding vspace_ok_def by (simp add: va p K_HEAP_STACK_def frame_of_eq)
qed

lemma boot_bitmaps_low:
  assumes "x \<in> bm_bytes (kbm M) \<union> bm_bytes (ubm M) \<union> bm_bytes (vbm M)"
  shows "unat x < 0xc009e000"
proof -
  note B = boot_bitmaps(10) [of M]
  have le: "unat (bits (kbm M)) + unat (btmp_bytes_len (kbm M)) \<le> 0xc009e000" "unat (bits (ubm M)) + unat (btmp_bytes_len (ubm M)) \<le> 0xc009e000"
  proof -
    have f: "free_pages_of M < 65536" by (simp add: free_pages_of_def)
    have l: "unat (btmp_bytes_len (kbm M)) \<le> 4096" "unat (btmp_bytes_len (ubm M)) \<le> 4096"
      using boot_bitmaps(1,2) [of M] f by (simp_all add: bm_bits_def)
    have "bits (kbm M) = 0xc009a000" "bits (ubm M) = 0xc009a000 + btmp_bytes_len (kbm M)" by (simp_all add: kbm_def ubm_def MEM_BITMAP_BASE_def)
    moreover have "unat (0xc009a000 + btmp_bytes_len (kbm M)) = 0xc009a000 + unat (btmp_bytes_len (kbm M))"
      using l by (subst unat_add_lt) simp_all
    ultimately show "unat (bits (kbm M)) + unat (btmp_bytes_len (kbm M)) \<le> 0xc009e000" "unat (bits (ubm M)) + unat (btmp_bytes_len (ubm M)) \<le> 0xc009e000"
      using l by simp_all
  qed
  show ?thesis using assms B le by (auto simp: bm_bytes_def in_block_unat)
qed

lemma boot_heap_base:
  fixes s :: "'z kmem_scheme"
  assumes B: "boot_tables s" and p: "kernel_pool s = boot_kpool M l" "user_pool s = boot_upool M l'"
    and va: "kernel_vaddr s = \<lparr>vaddr_bitmap = vbm M, vaddr_start = K_HEAP_STACK\<rparr>"
  shows "heap_base s"
proof -
  have lim: "heap_limit s = 0xc0100000" by (simp add: heap_limit_def va K_HEAP_STACK_def)
  have "unat x < 0xc0100000" if "x \<in> pool_bytes s \<union> bm_bytes (vaddr_bitmap (kernel_vaddr s))" for x
    using boot_bitmaps_low [of x M] that by (auto simp: pool_bytes_def p va)
  then show ?thesis using boot_mm_inv [OF B p] boot_vaddr [OF B p va] by (simp add: heap_base_def lim p)
qed

end
