(* ===== verification/Thread_Init.thy ===== *)
theory Thread_Init
  imports Thread Heap_Props
begin

text \<open>
  What making a thread does to the state: \<open>init_thread\<close> clears and fills a PCB, \<open>thread_create\<close> builds the stack the
  thread starts on.  Both work inside the page of the thread.  \<open>fresh_task\<close> is the PCB they leave.
\<close>

section \<open>The PCB\<close>

lemma memset_pcb:
  fixes s :: "'z pgmachine_scheme"
  assumes w: "page_walk s t = Some F" "frame_of t = t" "frame_of F = F" "t \<noteq> NULL"
  shows "\<exists>p. memset_mem t 0 240 s = Inr (s\<lparr>mem := (\<lambda>x. if in_block t 240 x then 0 else mem s x),
      bytes := (\<lambda>x. if in_block t 240 x then 0 else bytes s x), pmem := p\<rparr>) \<and> (\<forall>x. x \<notin> words F \<longrightarrow> p x = pmem s x)"
proof -
  have t: "touched t 240 = [t, t + 239]" by (simp add: touched_def)
  have "page_walk s (t + 239) = Some (F + 239)" using walk_in_page [OF w(1,2), of 239] by simp
  then have "memset_mem t 0 240 s = Inr (s\<lparr>mem := (\<lambda>x. if in_block t 240 x then ucast (0 :: u8) * 0x01010101 else mem s x),
      bytes := (\<lambda>x. if in_block t 240 x then 0 else bytes s x), pmem := fill_words s t 0 60\<rparr>)"
    using w(1,4) by (simp add: memset_mem_def t)
  moreover have "fill_words s t 0 60 x = pmem s x" if "x \<notin> words F" for x
    using fill_words_frame [OF w(1-3), of 60 0] that by simp
  ultimately show ?thesis by (intro exI [of _ "fill_words s t 0 60"] conjI) (simp_all add: if_distrib cong: if_cong)
qed

text \<open>\<open>allocate_pid\<close> with nobody in its way.\<close>

lemma allocate_pid_free:
  fixes s :: "'z kernel_scheme"
  assumes "free_lock (pid_lock s) s" "running_thread s \<noteq> NULL"
  shows "allocate_pid s = Inr (next_pid s + 1, s\<lparr>next_pid := next_pid s + 1\<rparr>)"
proof -
  let ?l = "pid_lock s" and ?n = "next_pid s + 1"
  let ?t = "(locked ?l s)\<lparr>next_pid := ?n\<rparr>"
  have a: "lock_acquire_now ?l s = Inr (locked ?l s)" and h: "held ?l (locked ?l s)" using lock_acquire_free_lock [OF assms] by simp_all
  have "held ?l ?t" using h by (simp add: held_def running_thread_def)
  then have r: "lock_release ?l ?t = Inr (unlocked ?l ?t)" by (rule lock_release_held)
  have e: "?t = locked ?l (s\<lparr>next_pid := ?n\<rparr>)" by (simp add: locked_def running_thread_def)
  have "unlocked ?l ?t = s\<lparr>next_pid := ?n\<rparr>" unfolding e
    by (rule unlocked_locked) (use assms(1) in \<open>simp_all add: free_lock_def\<close>)
  moreover have "pid_lock (locked ?l s) = ?l" "next_pid (locked ?l s) = next_pid s" by (simp_all add: locked_def)
  ultimately show ?thesis using a r by (simp add: allocate_pid_def Let_def)
qed

definition fresh_task :: "addr \<Rightarrow> pid_t \<Rightarrow> task_status \<Rightarrow> u8 list \<Rightarrow> u16 \<Rightarrow> task" where
  "fresh_task t p st name prio = (let q = (if prio = 0 then default_thread_priority else prio) in
     \<lparr>self_kstack = t + PG_SIZE, pid = p, status = st, tname = name, priority = ucast q, ticks = ucast q, elapsed_ticks = 0,
      pgdir = NULL, userprog_vaddr = \<lparr>vaddr_bitmap = \<lparr>btmp_bytes_len = 0, bits = NULL\<rparr>, vaddr_start = 0\<rparr>, stack_magic = 0x19870916\<rparr>)"

lemma init_thread_run:
  fixes s :: "'z kernel_scheme"
  assumes w: "page_walk s t = Some F" "frame_of t = t" "frame_of F = F" "t \<noteq> NULL" and n: "length name < 16"
    and l: "free_lock (pid_lock s) s" "\<not> in_block t 240 (pid_lock s + 12)" "running_thread s \<noteq> NULL"
  shows "\<exists>p. init_thread t name prio s = Inr (s\<lparr>mem := (\<lambda>x. if in_block t 240 x then 0 else mem s x),
      bytes := (\<lambda>x. if in_block t 240 x then 0 else bytes s x), pmem := p,
      tasks := (tasks s)(t := fresh_task t (next_pid s + 1) (if t = main_thread s then TASK_RUNNING else TASK_READY) name prio),
      next_pid := next_pid s + 1\<rparr>) \<and> (\<forall>x. x \<notin> words F \<longrightarrow> p x = pmem s x)"
proof -
  obtain p where p: "memset_mem t 0 240 s = Inr (s\<lparr>mem := (\<lambda>x. if in_block t 240 x then 0 else mem s x),
      bytes := (\<lambda>x. if in_block t 240 x then 0 else bytes s x), pmem := p\<rparr>)" "\<forall>x. x \<notin> words F \<longrightarrow> p x = pmem s x"
    using memset_pcb [OF w] by blast
  let ?s = "s\<lparr>mem := (\<lambda>x. if in_block t 240 x then 0 else mem s x),
      bytes := (\<lambda>x. if in_block t 240 x then 0 else bytes s x), pmem := p, tasks := (tasks s)(t := zero_task)\<rparr>"
  have c: "clear_pcb t s = Inr ?s" using p(1) by (simp add: clear_pcb_def sizeof_task_struct_def upd_task_def)
  have "free_lock (pid_lock ?s) ?s" "running_thread ?s \<noteq> NULL"
    using l by (simp_all add: free_lock_def running_thread_def)
  note a = allocate_pid_free [OF this]
  have "init_thread t name prio s = Inr (s\<lparr>mem := (\<lambda>x. if in_block t 240 x then 0 else mem s x),
      bytes := (\<lambda>x. if in_block t 240 x then 0 else bytes s x), pmem := p,
      tasks := (tasks s)(t := fresh_task t (next_pid s + 1) (if t = main_thread s then TASK_RUNNING else TASK_READY) name prio),
      next_pid := next_pid s + 1\<rparr>)"
    using n unfolding init_thread_def c bind_r.simps a prod.case
    by (cases "t = main_thread s") (simp_all add: copy_name_def task_upds Let_def fresh_task_def zero_task_def)
  then show ?thesis using p(2) by blast
qed

section \<open>The first stack\<close>

definition first_stack :: "addr \<Rightarrow> addr" where
  "first_stack t = t + PG_SIZE - sizeof_intr_stack * 4 - sizeof_thread_stack * 4"

lemma first_stack_in: "first_stack t = t + of_nat 3664"
  by (simp add: first_stack_def PG_SIZE_def sizeof_intr_stack_def sizeof_thread_stack_def)

lemma self_kstack_set: "self_kstack r = a \<Longrightarrow> self_kstack_update f r = r\<lparr>self_kstack := f a\<rparr>"
  by (cases r) simp

lemma thread_create_run:
  fixes s :: "'z kernel_scheme"
  assumes "self_kstack (tasks s t) = t + PG_SIZE"
  shows "\<exists>m. thread_create kt t function func_arg s = s\<lparr>mem := m, tasks := (tasks s)(t := (tasks s t)\<lparr>self_kstack := first_stack t\<rparr>),
      frames := (frames s)(t := [F_start function func_arg])\<rparr> \<and>
    m (ts_eip (first_stack t)) = kt \<and> m (ts_function (first_stack t)) = function \<and> m (ts_func_arg (first_stack t)) = func_arg \<and>
    (\<forall>x. \<not> in_block (first_stack t) 32 x \<longrightarrow> m x = mem s x)"
proof -
  let ?k = "first_stack t"
  let ?m = "(mem s)(?k + 16 := kt, ?k + 24 := function, ?k + 28 := func_arg, ?k + 12 := 0, ?k + 8 := 0, ?k + 4 := 0, ?k := 0)"
  have k: "t + PG_SIZE - sizeof_intr_stack * 4 - sizeof_thread_stack * 4 = ?k" by (simp add: first_stack_def)
  have "thread_create kt t function func_arg s = s\<lparr>mem := ?m, tasks := (tasks s)(t := (tasks s t)\<lparr>self_kstack := ?k\<rparr>),
      frames := (frames s)(t := [F_start function func_arg])\<rparr>"
    by (simp add: assms thread_create_def upd_task_def Let_def k wr_def thread_stack_layout
        self_kstack_set [OF assms, of "(\<lambda>k. k - sizeof_thread_stack * 4) \<circ> (\<lambda>k. k - sizeof_intr_stack * 4)"])
  moreover have off: "in_block ?k 32 (?k + r)" if "unat r < 32" for r using that by (simp add: in_block_def)
  then have "\<not> in_block ?k 32 x \<Longrightarrow> x \<notin> {?k, ?k + 4, ?k + 8, ?k + 12, ?k + 16, ?k + 24, ?k + 28}" for x
    using off [of 0] by auto
  then have "\<forall>x. \<not> in_block ?k 32 x \<longrightarrow> ?m x = mem s x" by auto
  ultimately show ?thesis by (intro exI [of _ ?m] conjI) (simp_all add: thread_stack_layout)
qed

end
