(* ===== verification/Sched_Inv.thy ===== *)
theory Sched_Inv
  imports Scheduler
begin

text \<open>
  The invariant of the thread system and its preservation by every step.  \<open>T\<close> is the set of PCBs, \<open>L\<close>
  the set of locks, \<open>q\<close> the contents of the ready list and of the waiter lists.
\<close>

section \<open>The invariant\<close>

definition heads :: "addr set \<Rightarrow> addr \<Rightarrow> addr set" where
  "heads L r = insert r ((\<lambda>l. l + 8) ` L)"

definition sentinels :: "addr set \<Rightarrow> addr \<Rightarrow> addr set" where
  "sentinels L r = (\<Union>h\<in>heads L r. {h, h + 8})"

text \<open>PCBs are pages, and the lists and locks of the kernel lie apart from them and from each other.\<close>

definition layout_ok :: "addr set \<Rightarrow> addr set \<Rightarrow> addr \<Rightarrow> bool" where
  "layout_ok T L r =
     (finite T \<and> NULL \<notin> T \<and> (\<forall>t\<in>T. frame_of t = t) \<and> r \<notin> (\<lambda>l. l + 8) ` L \<and>
      spaced (sentinels L r \<union> general_tag ` T) \<and> sentinels L r \<inter> general_tag ` T = {} \<and>
      (\<forall>h\<in>heads L r. \<forall>k\<in>heads L r. h \<noteq> k \<longrightarrow> {h, h + 8} \<inter> {k, k + 8} = {}))"

text \<open>The frame stacks a thread can have: at points where interrupts may be on, and at points where
  they are off.\<close>

definition open_frames :: "addr set \<Rightarrow> frame list \<Rightarrow> bool" where
  "open_frames L fs =
     (fs = [] \<or> (\<exists>l\<in>L. fs = [F_sema_down (l + 4), F_lock l] \<or> fs = [F_lock l] \<or> fs = [F_sema_up (l + 4)]))"

definition closed_frames :: "addr set \<Rightarrow> frame list \<Rightarrow> bool" where
  "closed_frames L fs =
     ((\<exists>a b. fs = [F_start a b]) \<or> (\<exists>st. fs = [F_set_status st]) \<or>
      (\<exists>f fs'. fs = F_iret f # fs' \<and> open_frames L fs') \<or>
      (\<exists>l\<in>L. \<exists>old. fs = [F_sema_loop (l + 4) old, F_lock l]) \<or>
      (\<exists>l\<in>L. \<exists>old. fs = [F_set_status INTR_OFF, F_sema_loop (l + 4) old, F_lock l]))"

text \<open>\<open>tokens l fs\<close>: a thread with frames \<open>fs\<close> owns lock \<open>l\<close> without being its recorded holder, because it
  has passed \<open>sema_down\<close> and not yet set \<open>holder\<close>, or has reset \<open>holder\<close> and not yet called \<open>sema_up\<close>.\<close>

fun tokens :: "addr \<Rightarrow> frame list \<Rightarrow> nat" where
  "tokens l [] = 0"
| "tokens l (F_sema_down p # F_lock k # fs) = tokens l fs"
| "tokens l (F_sema_loop p old # F_lock k # fs) = tokens l fs"
| "tokens l (F_lock k # fs) = of_bool (k = l) + tokens l fs"
| "tokens l (F_sema_up p # fs) = of_bool (p = l + 4) + tokens l fs"
| "tokens l (f # fs) = tokens l fs"

definition lock_count :: "addr set \<Rightarrow> addr \<Rightarrow> 'z kernel_scheme \<Rightarrow> nat" where
  "lock_count T l s =
     (\<Sum>t\<in>T. tokens l (frames s t)) + of_bool (lock_holder s l \<noteq> NULL) + unat (sema_value s (l + 4))"

definition lock_inv :: "addr set \<Rightarrow> addr \<Rightarrow> 'z kernel_scheme \<Rightarrow> bool" where
  "lock_inv T l s =
     (lock_count T l s = 1 \<and>
      (if lock_holder s l = NULL then lock_repeat s l = 0
       else lock_holder s l \<in> T \<and> lock_repeat s l \<noteq> 0))"

text \<open>A thread on its way to test the semaphore of \<open>l\<close> again.\<close>

fun pending :: "addr \<Rightarrow> frame list \<Rightarrow> bool" where
  "pending l (F_set_status st # F_sema_loop p old # fs) = (p = l + 4)"
| "pending l (F_sema_loop p old # fs) = (p = l + 4)"
| "pending l fs = False"

definition awake :: "task_status \<Rightarrow> bool" where
  "awake st = (st = TASK_READY \<or> st = TASK_RUNNING)"

definition wake_inv :: "addr set \<Rightarrow> (addr \<Rightarrow> addr list) \<Rightarrow> addr \<Rightarrow> 'z kernel_scheme \<Rightarrow> bool" where
  "wake_inv T q l s =
     (sema_value s (l + 4) \<noteq> 0 \<and> q (l + 8) \<noteq> [] \<longrightarrow>
       (\<exists>t\<in>T. pending l (frames s t) \<and> awake (status (tasks s t))))"

text \<open>\<open>c\<close> is the only thread that may have the status \<open>TASK_RUNNING\<close>; it differs from the running thread
  inside \<open>schedule\<close>, between the choice of the next thread and the switch.\<close>

definition queue_inv :: "addr set \<Rightarrow> addr set \<Rightarrow> (addr \<Rightarrow> addr list) \<Rightarrow> addr \<Rightarrow> 'z kernel_scheme \<Rightarrow> bool" where
  "queue_inv T L q c s =
     (queues (mem s) (heads L (thread_ready_list s)) q \<and>
      (\<forall>h\<in>heads L (thread_ready_list s). set (q h) \<subseteq> general_tag ` T) \<and>
      (\<forall>t\<in>T. (status (tasks s t) = TASK_READY \<longleftrightarrow> general_tag t \<in> set (q (thread_ready_list s))) \<and>
             (status (tasks s t) = TASK_RUNNING \<longrightarrow> t = c)) \<and>
      (\<forall>l\<in>L. \<forall>t\<in>T. general_tag t \<in> set (q (l + 8)) \<longleftrightarrow>
         status (tasks s t) = TASK_BLOCKED \<and> waits_on (frames s t) = Some (l + 4)))"

definition sched_core :: "addr set \<Rightarrow> addr set \<Rightarrow> (addr \<Rightarrow> addr list) \<Rightarrow> addr \<Rightarrow> 'z kernel_scheme \<Rightarrow> bool" where
  "sched_core T L q c s =
     (layout_ok T L (thread_ready_list s) \<and> console_lock s \<in> L \<and> idle_thread s = NULL \<and>
      running_thread s \<in> T \<and>
      (\<forall>t\<in>T. t \<noteq> running_thread s \<longrightarrow> frame_of (self_kstack (tasks s t)) = t) \<and>
      queue_inv T L q c s \<and>
      (\<forall>t\<in>T. (open_frames L (frames s t) \<or> closed_frames L (frames s t)) \<and>
             (t \<noteq> running_thread s \<longrightarrow> closed_frames L (frames s t))) \<and>
      (\<forall>l\<in>L. wake_inv T q l s))"

text \<open>Frames that must run with interrupts off do.\<close>

definition flag_ok :: "addr set \<Rightarrow> 'z kernel_scheme \<Rightarrow> bool" where
  "flag_ok L s = (closed_frames L (frames s (running_thread s)) \<longrightarrow> if_status (eflags s) = INTR_OFF)"

definition sched_inv0 :: "addr set \<Rightarrow> addr set \<Rightarrow> (addr \<Rightarrow> addr list) \<Rightarrow> addr \<Rightarrow> 'z kernel_scheme \<Rightarrow> bool" where
  "sched_inv0 T L q c s = (sched_core T L q c s \<and> (\<forall>l\<in>L. lock_inv T l s))"

definition sched_inv :: "addr set \<Rightarrow> addr set \<Rightarrow> (addr \<Rightarrow> addr list) \<Rightarrow> 'z kernel_scheme \<Rightarrow> bool" where
  "sched_inv T L q s =
     (sched_inv0 T L q (running_thread s) s \<and> flag_ok L s \<and>
      status (tasks s (running_thread s)) = TASK_RUNNING)"

section \<open>Basic facts\<close>

lemma general_tag_inj [simp]: "general_tag t = general_tag u \<longleftrightarrow> t = u"
  by (simp add: general_tag_def)

lemma elem2entry_tag [simp]: "elem2entry 36 (general_tag t) = t"
  by (simp add: elem2entry_def general_tag_def)

lemma heads_simps [simp]: "r \<in> heads L r" "l \<in> L \<Longrightarrow> l + 8 \<in> heads L r"
  by (auto simp: heads_def)

lemma sched_coreD:
  assumes "sched_core T L q c s"
  shows "layout_ok T L (thread_ready_list s)" and "console_lock s \<in> L" and "running_thread s \<in> T"
    and "queue_inv T L q c s" and "idle_thread s = NULL"
    and "t \<in> T \<Longrightarrow> t \<noteq> running_thread s \<Longrightarrow> frame_of (self_kstack (tasks s t)) = t"
    and "t \<in> T \<Longrightarrow> open_frames L (frames s t) \<or> closed_frames L (frames s t)"
    and "t \<in> T \<Longrightarrow> t \<noteq> running_thread s \<Longrightarrow> closed_frames L (frames s t)"
    and "l \<in> L \<Longrightarrow> wake_inv T q l s"
  using assms by (simp_all add: sched_core_def)

lemma sched_core_cong:
  assumes "mem s' = mem s" "tasks s' = tasks s" "frames s' = frames s" "esp s' = esp s"
    "thread_ready_list s' = thread_ready_list s" "console_lock s' = console_lock s"
    "idle_thread s' = idle_thread s" "sema_value s' = sema_value s"
  shows "sched_core T L q c s' = sched_core T L q c s"
  by (simp add: sched_core_def queue_inv_def wake_inv_def running_thread_def assms)

lemma wake_inv_mono:
  assumes "wake_inv T q l s" and "sema_value s' (l + 4) \<noteq> 0 \<Longrightarrow> sema_value s (l + 4) \<noteq> 0"
    and "q' (l + 8) = q (l + 8)"
    and "\<And>t. sema_value s' (l + 4) \<noteq> 0 \<Longrightarrow> t \<in> T \<Longrightarrow> pending l (frames s t) \<Longrightarrow> awake (status (tasks s t)) \<Longrightarrow>
      pending l (frames s' t) \<and> awake (status (tasks s' t))"
  shows "wake_inv T q' l s'"
  using assms unfolding wake_inv_def by metis

lemma sched_core_upd [simp]:
  "sched_core T L q c (s\<lparr>screen := a\<rparr>) = sched_core T L q c s"
  "sched_core T L q c (s\<lparr>eflags := b\<rparr>) = sched_core T L q c s"
  "sched_core T L q c (s\<lparr>thread_tag := d\<rparr>) = sched_core T L q c s"
  "sched_core T L q c (s\<lparr>cr3 := e\<rparr>) = sched_core T L q c s"
  "sched_core T L q c (s\<lparr>tss_esp0 := f\<rparr>) = sched_core T L q c s"
  "sched_core T L q c (s\<lparr>total_ticks := g\<rparr>) = sched_core T L q c s"
  by (rule sched_core_cong; simp)+

lemma lock_inv_cong:
  assumes "frames s' = frames s" "lock_holder s' = lock_holder s" "lock_repeat s' = lock_repeat s"
    "sema_value s' = sema_value s"
  shows "lock_inv T l s' = lock_inv T l s"
  by (simp add: lock_inv_def lock_count_def assms)

lemma lock_inv_upd [simp]:
  "lock_inv T l (s\<lparr>screen := a\<rparr>) = lock_inv T l s"
  "lock_inv T l (s\<lparr>eflags := b\<rparr>) = lock_inv T l s"
  "lock_inv T l (s\<lparr>thread_tag := d\<rparr>) = lock_inv T l s"
  "lock_inv T l (s\<lparr>cr3 := e\<rparr>) = lock_inv T l s"
  "lock_inv T l (s\<lparr>tss_esp0 := f\<rparr>) = lock_inv T l s"
  "lock_inv T l (s\<lparr>total_ticks := g\<rparr>) = lock_inv T l s"
  "lock_inv T l (s\<lparr>mem := h\<rparr>) = lock_inv T l s"
  "lock_inv T l (s\<lparr>tasks := i\<rparr>) = lock_inv T l s"
  "lock_inv T l (s\<lparr>esp := j\<rparr>) = lock_inv T l s"
  by (rule lock_inv_cong; simp)+

lemma all_nodes_eq: "all_nodes (heads L r) q = sentinels L r \<union> (\<Union>h\<in>heads L r. set (q h))"
  unfolding all_nodes_def sentinels_def set_nodes by blast

lemma layout_linkable:
  assumes lay: "layout_ok T L r" and t: "t \<in> T"
    and el: "\<forall>h\<in>heads L r. set (q h) \<subseteq> general_tag ` T"
    and no: "\<forall>h\<in>heads L r. general_tag t \<notin> set (q h)"
  shows "linkable (heads L r) q (general_tag t)"
proof -
  have tg: "general_tag t \<in> general_tag ` T" using t by (rule imageI)
  have dj: "sentinels L r \<inter> general_tag ` T = {}" and sp: "spaced (sentinels L r \<union> general_tag ` T)"
    using lay by (simp_all only: layout_ok_def)
  have sub: "all_nodes (heads L r) q \<subseteq> sentinels L r \<union> general_tag ` T"
    using el unfolding all_nodes_eq by blast
  have "general_tag t \<notin> all_nodes (heads L r) q"
    using no dj tg unfolding all_nodes_eq by blast
  moreover have "spaced (insert (general_tag t) (all_nodes (heads L r) q))"
    by (rule spaced_mono [OF sp]) (use sub tg in blast)
  ultimately show ?thesis by (simp add: linkable_def)
qed

text \<open>A node is in at most one list.\<close>

lemma one_queue:
  assumes "queues m H q" and "h \<in> H" and "k \<in> H" and "e \<in> set (q h)" and "e \<in> set (q k)"
  shows "h = k"
  using queuesD(3) [OF assms(1,2,3)] assms(4,5) by (auto simp: set_nodes)

lemma queue_distinct:
  assumes "queues m H q" and "h \<in> H"
  shows "distinct (q h)"
  using queuesD(1) [OF assms] by (simp add: dlist_def nodes_def)

lemma queue_invD:
  assumes "queue_inv T L q c s"
  shows "queues (mem s) (heads L (thread_ready_list s)) q"
    and "\<forall>h\<in>heads L (thread_ready_list s). set (q h) \<subseteq> general_tag ` T"
    and "t \<in> T \<Longrightarrow> status (tasks s t) = TASK_READY \<longleftrightarrow> general_tag t \<in> set (q (thread_ready_list s))"
    and "t \<in> T \<Longrightarrow> status (tasks s t) = TASK_RUNNING \<Longrightarrow> t = c"
    and "l \<in> L \<Longrightarrow> t \<in> T \<Longrightarrow> general_tag t \<in> set (q (l + 8)) \<longleftrightarrow>
      status (tasks s t) = TASK_BLOCKED \<and> waits_on (frames s t) = Some (l + 4)"
  using assms by (simp_all add: queue_inv_def)

section \<open>Waking a thread\<close>

lemma unblock_norm:
  assumes q: "queues (mem s) H q" and r: "thread_ready_list s \<in> H"
    and t: "t \<noteq> NULL" "is_blocked (status (tasks s t))" "general_tag t \<notin> set (q (thread_ready_list s))"
  shows "thread_unblock t s = Inr (s\<lparr>mem := push_m (thread_ready_list s) (general_tag t) (mem s),
           tasks := (tasks s)(t := (tasks s t)\<lparr>status := TASK_READY\<rparr>)\<rparr>)"
proof -
  let ?s = "s\<lparr>eflags := with_if INTR_OFF (eflags s)\<rparr>"
  have "elem_find (thread_ready_list s) (general_tag t) ?s = Some False"
    using queues_tests(1) [of ?s H q] q r t(3) by simp
  moreover have "status (tasks s t) \<noteq> TASK_READY" using t(2) by (auto simp: is_blocked_def)
  ultimately show ?thesis using t
    by (simp add: thread_unblock_def intr_norm assert_absent_def list_norm task_upds Let_def)
qed

lemma wake_norm:
  assumes inv: "queue_inv T L q c s" and lay: "layout_ok T L (thread_ready_list s)" and l: "l \<in> L"
    and ne: "q (l + 8) = general_tag t # ws" and t: "t \<in> T"
  shows "sema_wake (l + 4) s = Inr (s\<lparr>
      mem := push_m (thread_ready_list s) (general_tag t) (remove_m (general_tag t) (mem s)),
      tasks := (tasks s)(t := (tasks s t)\<lparr>status := TASK_READY\<rparr>)\<rparr>)"
    and "queues (push_m (thread_ready_list s) (general_tag t) (remove_m (general_tag t) (mem s)))
      (heads L (thread_ready_list s)) (q(l + 8 := ws, thread_ready_list s := general_tag t # q (thread_ready_list s)))"
proof -
  let ?r = "thread_ready_list s" and ?e = "general_tag t"
  let ?H = "heads L ?r" and ?m = "remove_m (general_tag t) (mem s)" and ?q = "q(l + 8 := ws)"
  note q = queue_invD(1) [OF inv] and el = queue_invD(2) [OF inv]
  have st: "status (tasks s t) = TASK_BLOCKED" using queue_invD(5) [OF inv l t] ne by simp
  have h: "l + 8 \<in> ?H" "?r \<in> ?H" using l by simp_all
  have rl: "?r \<noteq> l + 8" using lay l by (auto simp: layout_ok_def)
  note pop = queues_pop [OF q h(1) ne]
  have tn: "t \<noteq> NULL" using lay t by (auto simp: layout_ok_def)
  have el': "\<forall>k\<in>?H. set (?q k) \<subseteq> general_tag ` T" using el bspec [OF el h(1)] ne by simp
  have no: "?e \<notin> set (?q k)" if k: "k \<in> ?H" for k
    using one_queue [OF q h(1) k, of ?e] queue_distinct [OF q h(1)] ne by (auto split: if_splits)
  have lk: "linkable ?H ?q ?e" using layout_linkable [OF lay t el'] no by blast
  from queues_push [OF pop(2) h(2) lk] rl
  show "queues (push_m ?r ?e ?m) ?H (q(l + 8 := ws, ?r := ?e # q ?r))" by simp
  have ne': "mem s (l + 12) \<noteq> l + 16"
    using queues_tests(2) [OF q h(1)] ne by (simp add: add.assoc)
  have pop1: "mem s (l + 12) = ?e" using pop(1) by (simp add: add.assoc)
  have "thread_unblock t (s\<lparr>mem := ?m\<rparr>) = Inr (s\<lparr>mem := push_m ?r ?e ?m,
      tasks := (tasks s)(t := (tasks s t)\<lparr>status := TASK_READY\<rparr>)\<rparr>)"
    using unblock_norm [of "s\<lparr>mem := ?m\<rparr>" ?H ?q t] pop(2) h(2) tn st no [OF h(2)] rl
    by (simp add: is_blocked_def)
  then show "sema_wake (l + 4) s = Inr (s\<lparr>mem := push_m ?r ?e ?m,
      tasks := (tasks s)(t := (tasks s t)\<lparr>status := TASK_READY\<rparr>)\<rparr>)"
    using ne' pop1 by (simp add: sema_wake_def waiters_def list_norm add.assoc)
qed

lemma wake_norm_empty:
  assumes "queue_inv T L q c s" and "l \<in> L" and "q (l + 8) = []"
  shows "sema_wake (l + 4) s = Inr s"
  using assms queues_tests(2) [of s "heads L (thread_ready_list s)" q "l + 8"]
  by (simp add: sema_wake_def waiters_def list_norm add.assoc queue_inv_def)

text \<open>Waking the first waiter of a lock keeps the invariant, and afterwards a thread is on its way to the
  semaphore if any is still waiting.\<close>

lemma sched_core_tasks:
  assumes inv: "sched_core T L q c s"
    and qi: "queue_inv T L q' c s'"
    and fr: "frames s' = frames s" "thread_ready_list s' = thread_ready_list s"
      "console_lock s' = console_lock s" "idle_thread s' = idle_thread s" "esp s' = esp s"
    and ks: "\<And>t. self_kstack (tasks s' t) = self_kstack (tasks s t)"
    and wk: "\<And>l. l \<in> L \<Longrightarrow> wake_inv T q' l s'"
  shows "sched_core T L q' c s'"
proof -
  have r: "running_thread s' = running_thread s" by (simp add: running_thread_def fr)
  from inv qi wk show ?thesis by (simp add: sched_core_def fr ks r)
qed

lemma pending_waits: "waits_on fs = Some (l + 4) \<Longrightarrow> pending l fs"
  by (induction fs rule: waits_on.induct) auto

lemma task_status_id: "\<exists>st. (t :: task) = t\<lparr>status := st\<rparr>"
  by (rule exI [of _ "status t"]) simp

text \<open>The difference a wake-up makes: memory, and the status of threads that were blocked.\<close>

definition woke :: "'z kernel_scheme \<Rightarrow> 'z kernel_scheme \<Rightarrow> bool" where
  "woke s s' =
     (\<exists>m ts. s' = s\<lparr>mem := m, tasks := ts\<rparr> \<and> (\<forall>t. \<exists>st. ts t = (tasks s t)\<lparr>status := st\<rparr>) \<and>
       (\<forall>t. status (tasks s t) \<noteq> TASK_BLOCKED \<longrightarrow> ts t = tasks s t))"

lemma wake_inv_step:
  assumes inv: "sched_core T L q c s" and l: "l \<in> L"
  obtains q' s' where "sema_wake (l + 4) s = Inr s'" "sched_core T L q' c s'"
    "q' (l + 8) \<noteq> [] \<Longrightarrow> \<exists>t\<in>T. pending l (frames s' t) \<and> awake (status (tasks s' t))"
    "\<And>k. k \<in> heads L (thread_ready_list s) \<Longrightarrow> k \<noteq> l + 8 \<Longrightarrow> k \<noteq> thread_ready_list s \<Longrightarrow> q' k = q k"
    "q' (thread_ready_list s) = q (thread_ready_list s) \<or>
       (\<exists>e. q' (thread_ready_list s) = e # q (thread_ready_list s))"
    "woke s s'"
proof -
  let ?r = "thread_ready_list s"
  note qi = sched_coreD(4) [OF inv]
  note lay = sched_coreD(1) [OF inv]
  note q = queue_invD(1) [OF qi] and el = queue_invD(2) [OF qi]
  show thesis
  proof (cases "q (l + 8)")
    case Nil
    have "woke s s" unfolding woke_def
      by (intro exI [of _ "mem s"] exI [of _ "tasks s"] conjI allI task_status_id) simp_all
    with that [OF wake_norm_empty [OF qi l Nil] inv] Nil show thesis by blast
  next
    case (Cons e ws)
    have h: "l + 8 \<in> heads L ?r" using l by simp
    obtain t where t: "t \<in> T" "e = general_tag t" using bspec [OF el h] Cons by auto
    have ne: "q (l + 8) = general_tag t # ws" using Cons t by simp
    note W = wake_norm [OF qi lay l ne t(1)]
    let ?s = "s\<lparr>mem := push_m ?r (general_tag t) (remove_m (general_tag t) (mem s)),
      tasks := (tasks s)(t := (tasks s t)\<lparr>status := TASK_READY\<rparr>)\<rparr>"
    let ?q = "q(l + 8 := ws, ?r := general_tag t # q ?r)"
    have rl: "?r \<noteq> l + 8" "\<And>k. k \<in> L \<Longrightarrow> ?r \<noteq> k + 8" using lay l by (auto simp: layout_ok_def)
    have bl: "status (tasks s t) = TASK_BLOCKED" and wt: "waits_on (frames s t) = Some (l + 4)"
      using queue_invD(5) [OF qi l t(1)] ne by simp_all
    have nt: "general_tag t \<notin> set ws" using queue_distinct [OF q h] ne by simp
    have oq: "general_tag t \<notin> set (q k)" if "k \<in> heads L ?r" "k \<noteq> l + 8" for k
      using one_queue [OF q h that(1), of "general_tag t"] ne that(2) by auto
    have mono: "set (?q (k + 8)) \<subseteq> set (q (k + 8))" if "k \<in> L" for k
      using ne rl(2) [OF that] by (auto split: if_splits)
    have "queue_inv T L ?q c ?s"
      unfolding queue_inv_def
    proof (intro conjI ballI)
      show "queues (mem ?s) (heads L (thread_ready_list ?s)) ?q" using W(2) by simp
      show "set (?q k) \<subseteq> general_tag ` T" if "k \<in> heads L (thread_ready_list ?s)" for k
        using that el bspec [OF el h] bspec [OF el, of ?r] t ne rl(1) by auto
      show "status (tasks ?s u) = TASK_READY \<longleftrightarrow> general_tag u \<in> set (?q (thread_ready_list ?s))"
        if "u \<in> T" for u
        using queue_invD(3) [OF qi that] by auto
      show "status (tasks ?s u) = TASK_RUNNING \<longrightarrow> u = c" if "u \<in> T" for u
        using queue_invD(4) [OF qi that] by auto
      show "general_tag u \<in> set (?q (k + 8)) \<longleftrightarrow>
          status (tasks ?s u) = TASK_BLOCKED \<and> waits_on (frames ?s u) = Some (k + 4)"
        if k: "k \<in> L" and u: "u \<in> T" for k u
        using queue_invD(5) [OF qi k u] ne nt rl(2) [OF k] oq [of "k + 8"] k
        by (cases "u = t"; cases "k = l") auto
    qed
    moreover have "wake_inv T ?q k ?s" if k: "k \<in> L" for k
    proof (cases "k = l")
      case True
      then show ?thesis using t(1) pending_waits [OF wt] by (auto simp: wake_inv_def awake_def)
    next
      case False
      then have e: "?q (k + 8) = q (k + 8)" using rl(2) [OF k] by simp
      show ?thesis
      proof (rule wake_inv_mono [OF sched_coreD(9) [OF inv k]])
        show "?q (k + 8) = q (k + 8)" by (rule e)
      qed (auto simp: awake_def)
    qed
    ultimately have inv': "sched_core T L ?q c ?s"
      by (intro sched_core_tasks [OF inv]) auto
    have "\<exists>u\<in>T. pending l (frames ?s u) \<and> awake (status (tasks ?s u))"
      using t(1) pending_waits [OF wt] by (auto simp: awake_def)
    moreover have "woke s ?s"
      unfolding woke_def using bl by (intro exI conjI) (auto intro: task_status_id exI [of _ TASK_READY])
    ultimately show thesis using that [OF W(1) inv'] rl(1) by auto
  qed
qed

section \<open>Semaphores and the console\<close>

lemma sema_up_core:
  assumes core: "sched_core T L q c s" and l: "l \<in> L" and v: "sema_value s (l + 4) = 0"
  obtains q' s1 where "sema_up (l + 4) s = Inr (s1\<lparr>sema_value := (sema_value s)(l + 4 := 1)\<rparr>)"
    "sched_core T L q' c (s1\<lparr>sema_value := (sema_value s)(l + 4 := 1)\<rparr>)" "woke s s1"
    "q' (thread_ready_list s) = q (thread_ready_list s) \<or>
       (\<exists>e. q' (thread_ready_list s) = e # q (thread_ready_list s))"
proof -
  let ?s = "s\<lparr>eflags := with_if INTR_OFF (eflags s)\<rparr>"
  have "sched_core T L q c ?s" using core by (simp add: sched_core_cong [of ?s s])
  then obtain q' s' where w: "sema_wake (l + 4) ?s = Inr s'" "sched_core T L q' c s'"
    "q' (l + 8) \<noteq> [] \<Longrightarrow> \<exists>t\<in>T. pending l (frames s' t) \<and> awake (status (tasks s' t))"
    "q' (thread_ready_list s) = q (thread_ready_list s) \<or>
       (\<exists>e. q' (thread_ready_list s) = e # q (thread_ready_list s))" "woke ?s s'"
    by (rule wake_inv_step [OF _ l]) auto
  obtain m ts where s': "s' = ?s\<lparr>mem := m, tasks := ts\<rparr>"
    and ts: "\<forall>t. \<exists>st. ts t = (tasks s t)\<lparr>status := st\<rparr>"
      "\<forall>t. status (tasks s t) \<noteq> TASK_BLOCKED \<longrightarrow> ts t = tasks s t"
    using w(5) by (auto simp: woke_def)
  let ?s1 = "s\<lparr>mem := m, tasks := ts\<rparr>"
  let ?s2 = "?s1\<lparr>sema_value := (sema_value s)(l + 4 := 1)\<rparr>"
  have c1: "sched_core T L q' c ?s1"
    using w(2) by (simp add: s' sched_core_cong [of ?s1 s'])
  have wk: "wake_inv T q' k ?s2" if k: "k \<in> L" for k
    using sched_coreD(9) [OF c1 k] w(3) by (cases "k = l") (auto simp: wake_inv_def s')
  have "sched_core T L q' c ?s2"
    by (rule sched_core_tasks [OF c1]) (use sched_coreD(4) [OF c1] wk in \<open>auto simp: queue_inv_def\<close>)
  moreover have "sema_up (l + 4) s = Inr ?s2"
    using w(1) v by (simp add: sema_up_def intr_norm s' task_upds Let_def)
  moreover have "woke s ?s1" using ts by (auto simp: woke_def)
  ultimately show thesis using that w(4) by blast
qed

lemma lock_free:
  assumes "lock_inv T l s" and "sema_value s (l + 4) \<noteq> 0"
  shows "sema_value s (l + 4) = 1" "lock_holder s l = NULL" "lock_repeat s l = 0"
    "(\<Sum>t\<in>T. tokens l (frames s t)) = 0"
proof -
  have "unat (sema_value s (l + 4)) \<noteq> 0" using assms(2) by (simp add: unat_eq_0)
  moreover have c: "(\<Sum>t\<in>T. tokens l (frames s t)) + of_bool (lock_holder s l \<noteq> NULL) +
      unat (sema_value s (l + 4)) = 1"
    using assms(1) by (simp add: lock_inv_def lock_count_def)
  ultimately have "unat (sema_value s (l + 4)) = 1" and h0: "of_bool (lock_holder s l \<noteq> NULL) = (0 :: nat)"
    and z: "(\<Sum>t\<in>T. tokens l (frames s t)) = 0" by linarith+
  from h0 have h: "lock_holder s l = NULL" by (simp only: of_bool_eq_0_iff) simp
  note \<open>unat (sema_value s (l + 4)) = 1\<close>
  then show "sema_value s (l + 4) = 1" using unat_eqI [of "sema_value s (l + 4)" 1] by simp
  show "lock_holder s l = NULL" "(\<Sum>t\<in>T. tokens l (frames s t)) = 0" using h z .
  show "lock_repeat s l = 0" using assms(1) h by (simp add: lock_inv_def)
qed

lemma console_free_norm:
  assumes "lock_holder s (console_lock s) \<noteq> running_thread s" and "lock_inv T (console_lock s) s"
    and "sema_value s (console_lock s + 4) \<noteq> 0"
  shows "console_put_str str s =
    sema_up (console_lock s + 4)
      (s\<lparr>sema_value := (sema_value s)(console_lock s + 4 := 0), screen := screen s @ str\<rparr>)"
  using assms(1) lock_free [OF assms(2,3)]
  by (simp add: console_put_str_def console_acquire_def console_release_def lock_acquire_now_def
      lock_acquire_enter_def sema_down_now_def sema_take_def lock_acquire_tail_def
      lock_release_def lock_release_enter_def put_str_def task_upds running_thread_def
      lock_semaphore_def intr_norm Let_def fun_upd_idem)

text \<open>The console can be printed to from a state that keeps the invariant when its lock is free or held by
  the printing thread; printing wakes at most one thread.\<close>

lemma console_put_str_inv:
  assumes inv: "sched_inv0 T L q c s" and res: "console_put_str str s = Inr s'"
  obtains q' s1 where "s' = s1\<lparr>screen := screen s @ str\<rparr>" "woke s s1" "sched_inv0 T L q' c s'"
    "q' (thread_ready_list s) = q (thread_ready_list s) \<or>
       (\<exists>e. q' (thread_ready_list s) = e # q (thread_ready_list s))"
proof -
  let ?l = "console_lock s"
  have core: "sched_core T L q c s" and li: "\<forall>l\<in>L. lock_inv T l s"
    using inv by (simp_all add: sched_inv0_def)
  have l: "?l \<in> L" by (rule sched_coreD(2) [OF core])
  show thesis
  proof (cases "lock_holder s ?l = running_thread s")
    case True
    have rn: "lock_holder s ?l \<in> T" "lock_repeat s ?l \<noteq> 0"
      using True bspec [OF li l] sched_coreD(1,3) [OF core]
      by (auto simp: lock_inv_def layout_ok_def split: if_splits)
    have "s' = s\<lparr>screen := screen s @ str\<rparr>"
      using res True rn(2) fun_upd_triv [of "lock_holder s" ?l] fun_upd_triv [of "lock_repeat s" ?l]
      by (auto simp: console_put_str_def console_acquire_def console_release_def lock_acquire_now_def
          lock_acquire_enter_def lock_release_def lock_release_enter_def put_str_def set_lock_def
          running_thread_def ASSERT_eq_Inr Let_def bind_r_eq_Inr split: if_splits)
    moreover from this have "sched_inv0 T L q c s'"
      using inv by (simp add: sched_inv0_def)
    moreover have "woke s s" unfolding woke_def
      by (intro exI [of _ "mem s"] exI [of _ "tasks s"] conjI allI task_status_id) simp_all
    ultimately show thesis using that [of s q] by simp
  next
    case False
    then have v: "sema_value s (?l + 4) \<noteq> 0"
      using res by (auto simp: console_put_str_def console_acquire_def lock_acquire_now_def
          lock_acquire_enter_def sema_down_now_def intr_norm lock_semaphore_def Let_def)
    note fr = lock_free [OF bspec [OF li l] v]
    let ?s = "s\<lparr>sema_value := (sema_value s)(?l + 4 := 0), screen := screen s @ str\<rparr>"
    have eq: "console_put_str str s = sema_up (?l + 4) ?s"
      using console_free_norm [OF False bspec [OF li l] v] .
    have cs: "sched_core T L q c ?s"
      by (rule sched_core_tasks [OF core])
        (use sched_coreD(4,9) [OF core] in \<open>auto simp: queue_inv_def wake_inv_def\<close>)
    have v0: "sema_value ?s (?l + 4) = 0" by simp
    obtain q' s1 where up: "sema_up (?l + 4) ?s = Inr (s1\<lparr>sema_value := (sema_value ?s)(?l + 4 := 1)\<rparr>)"
      "sched_core T L q' c (s1\<lparr>sema_value := (sema_value ?s)(?l + 4 := 1)\<rparr>)" "woke ?s s1"
      "q' (thread_ready_list ?s) = q (thread_ready_list ?s) \<or>
         (\<exists>e. q' (thread_ready_list ?s) = e # q (thread_ready_list ?s))"
      by (rule sema_up_core [OF cs l v0])
    have u: "s' = s1\<lparr>sema_value := (sema_value ?s)(?l + 4 := 1)\<rparr>"
      "sched_core T L q' c s'" "woke ?s s1"
      "q' (thread_ready_list s) = q (thread_ready_list s) \<or>
         (\<exists>e. q' (thread_ready_list s) = e # q (thread_ready_list s))"
      using up res eq by simp_all
    obtain m ts where s1: "s1 = ?s\<lparr>mem := m, tasks := ts\<rparr>"
      and ts: "\<forall>t. \<exists>st. ts t = (tasks s t)\<lparr>status := st\<rparr>"
        "\<forall>t. status (tasks s t) \<noteq> TASK_BLOCKED \<longrightarrow> ts t = tasks s t"
      using u(3) by (auto simp: woke_def)
    let ?s2 = "s\<lparr>mem := m, tasks := ts\<rparr>"
    have "s' = ?s2\<lparr>screen := screen s @ str\<rparr>" using fr(1) by (simp add: u(1) s1 fun_upd_idem)
    moreover have "woke s ?s2" using ts by (auto simp: woke_def)
    moreover have "lock_inv T k s' = lock_inv T k s" for k
      using calculation(1) by (intro lock_inv_cong) simp_all
    ultimately show thesis using that [of ?s2 q'] u(2,4) li by (simp add: sched_inv0_def)
  qed
qed

section \<open>schedule\<close>

lemma ready_not_head:
  "layout_ok T L r \<Longrightarrow> l \<in> L \<Longrightarrow> l + 8 \<noteq> r"
  by (auto simp: layout_ok_def)

text \<open>The running thread goes to the end of the ready list.\<close>

lemma requeue_core:
  assumes core: "sched_core T L q c s" and c: "c \<in> T" and st: "status (tasks s c) = TASK_RUNNING"
    and tk: "status tk = TASK_READY" "self_kstack tk = self_kstack (tasks s c)"
  shows "elem_find (thread_ready_list s) (general_tag c) s = Some False"
    and "sched_core T L (q(thread_ready_list s := q (thread_ready_list s) @ [general_tag c])) c
      (s\<lparr>mem := append_m (thread_ready_list s) (general_tag c) (mem s), tasks := (tasks s)(c := tk)\<rparr>)"
proof -
  let ?r = "thread_ready_list s"
  let ?q = "q(?r := q ?r @ [general_tag c])"
  let ?s = "s\<lparr>mem := append_m ?r (general_tag c) (mem s), tasks := (tasks s)(c := tk)\<rparr>"
  note lay = sched_coreD(1) [OF core] and qi = sched_coreD(4) [OF core]
  note q = queue_invD(1) [OF qi] and el = queue_invD(2) [OF qi]
  have nr: "general_tag c \<notin> set (q ?r)" using queue_invD(3) [OF qi c] st by simp
  have nw: "general_tag c \<notin> set (q (l + 8))" if "l \<in> L" for l
    using queue_invD(5) [OF qi that c] st by simp
  have no: "\<forall>h\<in>heads L ?r. general_tag c \<notin> set (q h)" using nr nw by (auto simp: heads_def)
  show "elem_find ?r (general_tag c) s = Some False"
    using queues_tests(1) [OF q, of ?r] nr by simp
  note rl = ready_not_head [OF lay]
  have "queue_inv T L ?q c ?s"
    unfolding queue_inv_def
  proof (intro conjI ballI)
    show "queues (mem ?s) (heads L (thread_ready_list ?s)) ?q"
      using queues_append [OF q _ layout_linkable [OF lay c el no]] by simp
    show "set (?q k) \<subseteq> general_tag ` T" if "k \<in> heads L (thread_ready_list ?s)" for k
      using that el bspec [OF el, of ?r] c by auto
    show "status (tasks ?s u) = TASK_READY \<longleftrightarrow> general_tag u \<in> set (?q (thread_ready_list ?s))"
      if "u \<in> T" for u using queue_invD(3) [OF qi that] tk(1) by auto
    show "status (tasks ?s u) = TASK_RUNNING \<longrightarrow> u = c" if "u \<in> T" for u
      using queue_invD(4) [OF qi that] by auto
    show "general_tag u \<in> set (?q (k + 8)) \<longleftrightarrow>
        status (tasks ?s u) = TASK_BLOCKED \<and> waits_on (frames ?s u) = Some (k + 4)"
      if k: "k \<in> L" and u: "u \<in> T" for k u
      using queue_invD(5) [OF qi k u] rl [OF k] st tk(1) nw [OF k] by auto
  qed
  then show "sched_core T L ?q c ?s"
    by (rule sched_core_tasks [OF core])
      (use rl tk st in \<open>auto intro!: wake_inv_mono [OF sched_coreD(9) [OF core]] simp: awake_def\<close>)
qed

text \<open>The first thread of the ready list becomes the running one.\<close>

lemma pick_core:
  assumes core: "sched_core T L q c s" and nr: "\<forall>t\<in>T. status (tasks s t) \<noteq> TASK_RUNNING"
    and n: "n \<in> T" and qr: "q (thread_ready_list s) = general_tag n # ns"
  shows "mem s (thread_ready_list s + 4) = general_tag n"
    and "sched_core T L (q(thread_ready_list s := ns)) n
      (s\<lparr>mem := remove_m (general_tag n) (mem s),
         tasks := (tasks s)(n := (tasks s n)\<lparr>status := TASK_RUNNING\<rparr>)\<rparr>)"
proof -
  let ?r = "thread_ready_list s"
  let ?q = "q(?r := ns)"
  let ?s = "s\<lparr>mem := remove_m (general_tag n) (mem s),
    tasks := (tasks s)(n := (tasks s n)\<lparr>status := TASK_RUNNING\<rparr>)\<rparr>"
  note lay = sched_coreD(1) [OF core] and qi = sched_coreD(4) [OF core]
  note q = queue_invD(1) [OF qi] and el = queue_invD(2) [OF qi]
  have h: "?r \<in> heads L ?r" by simp
  note pop = queues_pop [OF q h qr]
  show "mem s (?r + 4) = general_tag n" by (rule pop(1))
  note rl = ready_not_head [OF lay]
  have nn: "general_tag n \<notin> set ns" using queue_distinct [OF q h] qr by simp
  have rd: "status (tasks s n) = TASK_READY" using queue_invD(3) [OF qi n] qr by simp
  have nw: "general_tag n \<notin> set (q (l + 8))" if "l \<in> L" for l
    using queue_invD(5) [OF qi that n] rd by simp
  have qi': "queue_inv T L ?q n ?s"
    unfolding queue_inv_def
  proof (intro conjI ballI)
    show "queues (mem ?s) (heads L (thread_ready_list ?s)) ?q" using pop(2) by simp
    show "set (?q k) \<subseteq> general_tag ` T" if "k \<in> heads L (thread_ready_list ?s)" for k
      using that el bspec [OF el h] qr by auto
    show "status (tasks ?s u) = TASK_READY \<longleftrightarrow> general_tag u \<in> set (?q (thread_ready_list ?s))"
      if "u \<in> T" for u using queue_invD(3) [OF qi that] qr nn by auto
    show "status (tasks ?s u) = TASK_RUNNING \<longrightarrow> u = n" if "u \<in> T" for u
      using nr that by auto
    show "general_tag u \<in> set (?q (k + 8)) \<longleftrightarrow>
        status (tasks ?s u) = TASK_BLOCKED \<and> waits_on (frames ?s u) = Some (k + 4)"
      if k: "k \<in> L" and u: "u \<in> T" for k u
      using queue_invD(5) [OF qi k u] rl [OF k] rd nw [OF k] by auto
  qed
  have "running_thread ?s = running_thread s" by (simp add: running_thread_def)
  moreover have "wake_inv T ?q l ?s" if l: "l \<in> L" for l
    by (rule wake_inv_mono [OF sched_coreD(9) [OF core l]]) (use rl [OF l] rd in \<open>auto simp: awake_def\<close>)
  ultimately show "sched_core T L ?q n ?s"
    using core qi' by (auto simp: sched_core_def)
qed

lemma process_active_norm:
  assumes "process_active n s = Inr s'"
  shows "\<exists>a b. s' = s\<lparr>cr3 := a, tss_esp0 := b\<rparr>"
proof -
  obtain a where "s' = (if pgdir (tasks s n) \<noteq> NULL then update_tss_esp0 n (s\<lparr>cr3 := a\<rparr>) else s\<lparr>cr3 := a\<rparr>)"
    using assms by (auto simp: process_active_def page_dir_activate_def ASSERT_eq_Inr bind_r_eq_Inr)
  then have "s' = s\<lparr>cr3 := a, tss_esp0 := if pgdir (tasks s n) \<noteq> NULL then n + PG_SIZE else tss_esp0 s\<rparr>"
    by (cases "pgdir (tasks s n) = NULL") (simp_all add: update_tss_esp0_def)
  then show ?thesis by blast
qed

lemma printk_console:
  assumes "printk f strs args s = Inr s'"
  shows "\<exists>buf. console_put_str buf s = Inr s'"
  using assms by (auto simp: printk_def split: option.splits)

text \<open>The switch itself: the processor runs the chosen thread.\<close>

lemma switch_core:
  assumes inv: "sched_inv0 T L q n s" and n: "n \<in> T" and st: "status (tasks s n) = TASK_RUNNING"
    and cl: "closed_frames L (frames s (running_thread s))" and off: "if_status (eflags s) = INTR_OFF"
    and cur: "cur = running_thread s"
  shows "sched_inv T L q (switch_to cur n s)" and "running_thread (switch_to cur n s) = n"
proof -
  have core: "sched_core T L q n s" using inv by (simp add: sched_inv0_def)
  let ?ts = "(tasks s)(cur := (tasks s cur)\<lparr>self_kstack := esp s\<rparr>)"
  let ?s = "s\<lparr>tasks := ?ts, esp := self_kstack (?ts n)\<rparr>"
  have sw: "switch_to cur n s = ?s" by (simp add: switch_to_def upd_task_def Let_def)
  have fr: "frame_of (esp s) = cur" by (simp add: cur running_thread_def frame_of_def)
  have ks: "frame_of (self_kstack (?ts t)) = t" if "t \<in> T" for t
    using sched_coreD(6) [OF core that] fr cur by (cases "t = cur") simp_all
  have rn: "running_thread ?s = n" using ks [OF n] by (simp add: running_thread_def frame_of_def)
  then show "running_thread (switch_to cur n s) = n" by (simp add: sw)
  have qi: "queue_inv T L q n ?s" using sched_coreD(4) [OF core] by (simp add: queue_inv_def)
  have "wake_inv T q l ?s" if l: "l \<in> L" for l
    by (rule wake_inv_mono [OF sched_coreD(9) [OF core l]]) (auto simp: awake_def)
  then have "sched_core T L q n ?s"
    using core qi n ks cl cur rn by (auto simp: sched_core_def)
  moreover have "lock_inv T l ?s" if "l \<in> L" for l
    using inv that by (simp add: sched_inv0_def lock_inv_def lock_count_def)
  moreover have "flag_ok L ?s" using off by (simp add: flag_ok_def)
  moreover have "status (tasks ?s n) = TASK_RUNNING" using st by auto
  ultimately show "sched_inv T L q (switch_to cur n s)"
    unfolding sched_inv_def sched_inv0_def sw rn by blast
qed

text \<open>What \<open>schedule\<close> looks at: the ready list after the running thread was put at its end.\<close>

definition ready_after :: "(addr \<Rightarrow> addr list) \<Rightarrow> 'z kernel_scheme \<Rightarrow> addr list" where
  "ready_after q s =
     q (thread_ready_list s) @
       (if status (tasks s (running_thread s)) = TASK_RUNNING then [general_tag (running_thread s)] else [])"

lemma schedule_requeue:
  assumes inv: "sched_inv0 T L q (running_thread s) s"
    and res: "sched_requeue s = Inr s1"
  shows "\<exists>m ts. s1 = s\<lparr>mem := m, tasks := ts\<rparr>"
    and "sched_inv0 T L (q(thread_ready_list s := ready_after q s)) (running_thread s) s1"
    and "\<forall>t\<in>T. status (tasks s1 t) \<noteq> TASK_RUNNING"
proof -
  let ?c = "running_thread s" and ?r = "thread_ready_list s"
  have core: "sched_core T L q ?c s" and li: "\<forall>l\<in>L. lock_inv T l s"
    using inv by (simp_all add: sched_inv0_def)
  note c = sched_coreD(3) [OF core] and qi = sched_coreD(4) [OF core]
  have "(\<exists>m ts. s1 = s\<lparr>mem := m, tasks := ts\<rparr>) \<and>
      sched_inv0 T L (q(?r := ready_after q s)) ?c s1 \<and> (\<forall>t\<in>T. status (tasks s1 t) \<noteq> TASK_RUNNING)"
  proof (cases "status (tasks s ?c) = TASK_RUNNING")
    case True
    let ?tk = "(tasks s ?c)\<lparr>ticks := priority (tasks s ?c), status := TASK_READY\<rparr>"
    note R = requeue_core [OF core c True, of ?tk]
    have "s1 = s\<lparr>mem := append_m ?r (general_tag ?c) (mem s), tasks := (tasks s)(?c := ?tk)\<rparr>"
      using res True R(1) by (simp add: sched_requeue_def assert_absent_def list_norm task_upds Let_def)
    moreover from this have "sched_inv0 T L (q(?r := ready_after q s)) ?c s1"
      using R(2) li True by (simp add: sched_inv0_def ready_after_def)
    moreover have "\<forall>t\<in>T. status (tasks s1 t) \<noteq> TASK_RUNNING"
      using queue_invD(4) [OF qi] by (auto simp: calculation(1))
    ultimately show ?thesis by blast
  next
    case False
    then have "s1 = s" using res by (simp add: sched_requeue_def)
    moreover have "\<forall>t\<in>T. status (tasks s t) \<noteq> TASK_RUNNING"
      using queue_invD(4) [OF qi] False by metis
    moreover have "\<exists>m ts. s = s\<lparr>mem := m, tasks := ts\<rparr>"
      by (rule exI [of _ "mem s"], rule exI [of _ "tasks s"]) simp
    ultimately show ?thesis using inv False by (simp add: ready_after_def)
  qed
  then show "\<exists>m ts. s1 = s\<lparr>mem := m, tasks := ts\<rparr>"
    and "sched_inv0 T L (q(?r := ready_after q s)) ?c s1"
    and "\<forall>t\<in>T. status (tasks s1 t) \<noteq> TASK_RUNNING" by blast+
qed

lemma schedule_inv:
  assumes inv: "sched_inv0 T L q (running_thread s) s"
    and cl: "closed_frames L (frames s (running_thread s))"
    and res: "schedule s = Inr s'"
  obtains q' where "sched_inv T L q' s'" "frames s' = frames s" "lock_holder s' = lock_holder s"
    "ready_after q s \<noteq> []" "general_tag (running_thread s') = hd (ready_after q s)"
    "thread_ready_list s' = thread_ready_list s"
proof -
  let ?c = "running_thread s" and ?r = "thread_ready_list s"
  from res have off: "if_status (eflags s) = INTR_OFF"
    by (simp add: schedule_def ASSERT_eq_Inr intr_get_status_norm)
  obtain s1 s2 where r1: "sched_requeue s = Inr s1" and r2: "sched_idle s1 = Inr s2"
    and r3: "sched_dispatch ?c s2 = Inr s'"
    using res by (auto simp: schedule_def ASSERT_eq_Inr bind_r_eq_Inr Let_def)
  let ?q1 = "q(?r := ready_after q s)"
  note R = schedule_requeue [OF inv r1]
  obtain m1 ts1 where s1: "s1 = s\<lparr>mem := m1, tasks := ts1\<rparr>" using R(1) by blast
  have core1: "sched_core T L ?q1 ?c s1" using R(2) by (simp add: sched_inv0_def)
  note qi1 = sched_coreD(4) [OF core1]
  have ne: "ready_after q s \<noteq> []" and s2: "s2 = s1"
  proof -
    have "\<not> list_empty (thread_ready_list s1) s1"
    proof
      assume e: "list_empty (thread_ready_list s1) s1"
      with r2 obtain s3 where p: "printk (''idle thread has unblocked!'' @ newline) (\<lambda>_. []) [] s1 = Inr s3"
        and u: "thread_unblock (idle_thread s3) s3 = Inr s2"
        by (auto simp: sched_idle_def bind_r_eq_Inr)
      obtain buf where "console_put_str buf s1 = Inr s3" using printk_console [OF p] ..
      then have "idle_thread s3 = idle_thread s1"
        by (rule console_put_str_inv [OF R(2)]) (auto simp: woke_def)
      then show False using u sched_coreD(5) [OF core1] by (simp add: thread_unblock_def)
    qed
    moreover have "thread_ready_list s1 = ?r" by (simp add: s1)
    ultimately show "s2 = s1" "ready_after q s \<noteq> []"
      using r2 queues_tests(2) [OF queue_invD(1) [OF qi1], of "thread_ready_list s1"]
      by (simp_all add: sched_idle_def list_norm)
  qed
  then obtain e ns where en: "ready_after q s = e # ns" by (cases "ready_after q s") auto
  have "set (ready_after q s) \<subseteq> general_tag ` T"
    using bspec [OF queue_invD(2) [OF qi1], of ?r] s1 by simp
  then obtain n where n: "n \<in> T" "e = general_tag n" using en by auto
  have qr: "?q1 (thread_ready_list s1) = general_tag n # ns" using en n s1 by simp
  note P = pick_core [where q = ?q1, OF core1 R(3) n(1) qr]
  let ?s3 = "s1\<lparr>mem := remove_m (general_tag n) (mem s1), thread_tag := general_tag n,
    tasks := (tasks s1)(n := (tasks s1 n)\<lparr>status := TASK_RUNNING\<rparr>)\<rparr>"
  let ?q3 = "?q1(thread_ready_list s1 := ns)"
  obtain s4 s5 where r4: "process_active n ?s3 = Inr s4"
    and r5: "printk (''%s->%s'' @ newline) (\<lambda>p. tname (tasks s4 (p - 12))) [?c + 12, n + 12] s4 = Inr s5"
    and s': "s' = switch_to ?c n s5"
    using r3 P(1) by (auto simp: sched_dispatch_def s2 list_norm task_upds Let_def bind_r_eq_Inr)
  obtain a b where s4: "s4 = ?s3\<lparr>cr3 := a, tss_esp0 := b\<rparr>" using process_active_norm [OF r4] by blast
  have "sched_core T L ?q3 n ?s3"
    by (rule sched_core_cong [THEN iffD2, OF _ _ _ _ _ _ _ _ P(2)]) simp_all
  then have inv4: "sched_inv0 T L ?q3 n s4" using R(2) by (simp add: s4 sched_inv0_def)
  obtain buf where "console_put_str buf s4 = Inr s5" using printk_console [OF r5] ..
  then obtain q5 s5' where s5: "s5 = s5'\<lparr>screen := screen s4 @ buf\<rparr>" "woke s4 s5'" and inv5: "sched_inv0 T L q5 n s5"
    by (rule console_put_str_inv [OF inv4]) blast
  obtain m5 ts5 where s5': "s5' = s4\<lparr>mem := m5, tasks := ts5\<rparr>"
    "\<forall>t. status (tasks s4 t) \<noteq> TASK_BLOCKED \<longrightarrow> ts5 t = tasks s4 t"
    using s5(2) by (auto simp: woke_def)
  have st: "status (tasks s5 n) = TASK_RUNNING" using s5' by (simp add: s5 s4)
  have rn: "running_thread s5 = ?c" "frames s5 = frames s" "eflags s5 = eflags s"
    "lock_holder s5 = lock_holder s" "thread_ready_list s5 = ?r"
    by (simp_all add: running_thread_def s5 s5' s4 s1)
  have "closed_frames L (frames s5 (running_thread s5))" "if_status (eflags s5) = INTR_OFF"
    using cl off by (simp_all only: rn)
  note S = switch_core [OF inv5 n(1) st this rn(1) [symmetric]]
  have "sched_inv T L q5 s'" "running_thread s' = n" unfolding s' by (rule S)+
  moreover have "frames s' = frames s" "lock_holder s' = lock_holder s" "thread_ready_list s' = ?r"
    using rn by (simp_all add: s' switch_to_def upd_task_def Let_def)
  ultimately show thesis using that ne en n(2) by simp
qed

end
