(* ===== verification/Layout.thy ===== *)
theory Layout
  imports Thread_Init Sched_Inv Heap_Spec
begin

text \<open>
  Where the kernel's own data lies: locks of 24 bytes, the two lists of threads with 16 bytes each and the seven block
  descriptors are in the kernel image, apart from each other; PCBs are pages above it.  From this follows what the thread
  system and the heap assume about the layout.
\<close>

section \<open>Blocks\<close>

fun apart_from :: "addr \<times> nat \<Rightarrow> addr \<times> nat \<Rightarrow> bool" where
  "apart_from (a, n) (b, k) = (unat a + n \<le> unat b \<or> unat b + k \<le> unat a)"

lemma apart_from_sym: "apart_from p p' = apart_from p' p"
  by (cases p; cases p') auto

text \<open>The kernel image begins at \<open>0xc0001500\<close>, and the bitmaps at \<open>0xc009a000\<close>.\<close>

fun in_image :: "addr \<times> nat \<Rightarrow> bool" where
  "in_image (a, n) = (0xc0001500 \<le> unat a \<and> unat a + n \<le> 0xc009a000)"

definition data_blocks :: "addr set \<Rightarrow> 'z kmem_scheme \<Rightarrow> (addr \<times> nat) set" where
  "data_blocks L s = (\<lambda>l. (l, 24)) ` L \<union> {(thread_ready_list s, 16), (thread_all_list s, 16), (k_block_descs s, 168)}"

definition kernel_layout :: "addr set \<Rightarrow> addr set \<Rightarrow> 'z kmem_scheme \<Rightarrow> bool" where
  "kernel_layout T L s = (finite T \<and> (\<forall>t\<in>T. frame_of t = t \<and> 0xc009e000 \<le> unat t) \<and>
     (\<forall>p\<in>data_blocks L s. in_image p) \<and> thread_ready_list s \<noteq> thread_all_list s \<and>
     (\<forall>p\<in>data_blocks L s. \<forall>p'\<in>data_blocks L s. p \<noteq> p' \<longrightarrow> apart_from p p'))"

lemma kernel_layoutD:
  assumes "kernel_layout T L s"
  shows "finite T" "t \<in> T \<Longrightarrow> frame_of t = t" "t \<in> T \<Longrightarrow> 0xc009e000 \<le> unat t"
    "p \<in> data_blocks L s \<Longrightarrow> in_image p" "thread_ready_list s \<noteq> thread_all_list s"
    "p \<in> data_blocks L s \<Longrightarrow> p' \<in> data_blocks L s \<Longrightarrow> p \<noteq> p' \<Longrightarrow> apart_from p p'"
  using assms by (simp_all add: kernel_layout_def)

lemma data_blocks_simps [simp]:
  "l \<in> L \<Longrightarrow> (l, 24) \<in> data_blocks L s" "(thread_ready_list s, 16) \<in> data_blocks L s"
  "(thread_all_list s, 16) \<in> data_blocks L s" "(k_block_descs s, 168) \<in> data_blocks L s"
  by (simp_all add: data_blocks_def)

text \<open>Words of the image.\<close>

lemma image_word:
  assumes "in_image (a, n)" "i < n"
  shows "unat (a + of_nat i) = unat a + i"
  using assms by (intro unat_add_of_nat) simp

lemma block_words:
  assumes "kernel_layout T L s" "(a, n) \<in> data_blocks L s" "(b, k) \<in> data_blocks L s" "i < n" "j < k"
    "a + of_nat i = b + of_nat j"
  shows "a = b \<and> n = k \<and> i = j"
proof -
  note I = kernel_layoutD(4) [OF assms(1)]
  have u: "unat (a + of_nat i) = unat a + i" "unat (b + of_nat j) = unat b + j"
    using image_word [OF I [OF assms(2)] assms(4)] image_word [OF I [OF assms(3)] assms(5)] by simp_all
  then have e: "unat a + i = unat b + j" using assms(6) by simp
  have "(a, n) = (b, k)"
  proof (rule ccontr)
    assume "(a, n) \<noteq> (b, k)"
    then have "apart_from (a, n) (b, k)" by (rule kernel_layoutD(6) [OF assms(1-3)])
    then show False using e assms(4,5) by auto
  qed
  then show ?thesis using e by simp
qed

lemma page_not_image:
  assumes "frame_of t = t" "0xc009e000 \<le> unat t" "in_image (a, n)" "i < n"
  shows "frame_of (a + of_nat i) \<noteq> t" "off_page t (a + of_nat i)"
proof -
  have u: "unat (a + of_nat i) < unat t" using image_word [OF assms(3,4)] assms by simp
  then show "frame_of (a + of_nat i) \<noteq> t" using div_times_less_eq_dividend [of "unat (a + of_nat i)" 4096] by (auto simp: unat_frame_of)
  show "off_page t (a + of_nat i)" by (rule off_page_unat [OF assms(1)]) (use u in simp)
qed

section \<open>The thread system's view\<close>

lemma sentinel_offset:
  assumes "x \<in> Sched_Inv.sentinels L (thread_ready_list s)"
  obtains a n i where "(a, n) \<in> data_blocks L s" "x = a + of_nat i" "i + 4 < n" "n = 24 \<and> (i = 8 \<or> i = 16) \<or> n = 16 \<and> (i = 0 \<or> i = 8)"
proof -
  let ?r = "thread_ready_list s"
  consider l where "l \<in> L" "x = l + 8 \<or> x = l + 16" | "x = ?r \<or> x = ?r + 8"
    using assms by (auto simp: Sched_Inv.sentinels_def heads_def add.assoc)
  then show thesis
  proof cases
    case (1 l)
    then show thesis using that [of l 24 8] that [of l 24 16] by auto
  next
    case 2
    then show thesis using that [of ?r 16 0] that [of ?r 16 8] by auto
  qed
qed

lemma layout_ok_kernel:
  assumes K: "kernel_layout T L s"
  shows "layout_ok T L (thread_ready_list s)"
proof -
  let ?r = "thread_ready_list s" and ?S = "Sched_Inv.sentinels L (thread_ready_list s)"
  have rl: "?r \<notin> (\<lambda>l. l + 8) ` L"
  proof
    assume "?r \<in> (\<lambda>l. l + 8) ` L"
    then obtain l where l: "l \<in> L" "?r = l + 8" by auto
    have "(?r, 16) \<in> data_blocks L s" by simp
    from block_words [OF K _ this, of l 24 8 0] l show False by auto
  qed
  have tag: "frame_of (general_tag t) = t" "frame_of (general_tag t + 4) = t" if "t \<in> T" for t
    using page_offset(1) [OF kernel_layoutD(2) [OF K that], of 36] page_offset(1) [OF kernel_layoutD(2) [OF K that], of 40]
    by (simp_all add: general_tag_def add.assoc)
  have img: "frame_of x \<notin> T" "frame_of (x + 4) \<notin> T" if xs: "x \<in> ?S" for x
  proof -
    obtain a n i where x: "(a, n) \<in> data_blocks L s" "x = a + of_nat i" "i + 4 < n" "n = 24 \<and> (i = 8 \<or> i = 16) \<or> n = 16 \<and> (i = 0 \<or> i = 8)"
      using xs by (rule sentinel_offset)
    have e: "x + 4 = a + of_nat (i + 4)" by (simp add: x(2))
    note I = kernel_layoutD(4) [OF K x(1)]
    have "i < n" using x(3) by simp
    from page_not_image(1) [OF kernel_layoutD(2,3) [OF K] I this] page_not_image(1) [OF kernel_layoutD(2,3) [OF K] I x(3)]
    show "frame_of x \<notin> T" "frame_of (x + 4) \<notin> T" unfolding e unfolding x(2) by blast+
  qed
  have ss: "x \<noteq> y + 4" if xy: "x \<in> ?S" "y \<in> ?S" for x y
  proof
    assume e: "x = y + 4"
    obtain a n i where x: "(a, n) \<in> data_blocks L s" "x = a + of_nat i" "i + 4 < n" "n = 24 \<and> (i = 8 \<or> i = 16) \<or> n = 16 \<and> (i = 0 \<or> i = 8)"
      using xy(1) by (rule sentinel_offset)
    obtain b k j where y: "(b, k) \<in> data_blocks L s" "y = b + of_nat j" "j + 4 < k" "k = 24 \<and> (j = 8 \<or> j = 16) \<or> k = 16 \<and> (j = 0 \<or> j = 8)"
      using xy(2) by (rule sentinel_offset)
    have "a + of_nat i = b + of_nat (j + 4)" using e x(2) y(2) by simp
    then have "a = b \<and> n = k \<and> i = j + 4" by (rule block_words [OF K x(1) y(1), rotated 2]) (use x(3) y(3) in simp_all)
    then show False using x(4) y(4) by auto
  qed
  have sp: "spaced (?S \<union> general_tag ` T)"
    unfolding spaced_def
  proof (intro ballI notI)
    fix x y assume x: "x \<in> ?S \<union> general_tag ` T" and y: "y \<in> ?S \<union> general_tag ` T" and e: "x = y + 4"
    consider "x \<in> ?S" "y \<in> ?S" | t where "x \<in> ?S" "t \<in> T" "y = general_tag t" | t where "t \<in> T" "x = general_tag t" "y \<in> ?S"
      | t u where "t \<in> T" "x = general_tag t" "u \<in> T" "y = general_tag u" using x y by auto
    then show False
    proof cases
      case 1
      then show False using ss e by blast
    next
      case (2 t)
      then show False using img(1) [of x] tag(2) [of t] e by auto
    next
      case (3 t)
      then show False using img(2) [of y] tag(1) [of t] e by auto
    next
      case (4 t u)
      then have "t = u" using tag(1) [of t] tag(2) [of u] e by auto
      then show False using e 4 by simp
    qed
  qed
  have "general_tag t \<notin> ?S" if "t \<in> T" for t
  proof
    assume "general_tag t \<in> ?S"
    from img(1) [OF this] show False using tag(1) [OF that] that by simp
  qed
  then have dj: "?S \<inter> general_tag ` T = {}" by blast
  have hd: "{h, h + 8} \<inter> {k, k + 8} = {}" if hk: "h \<in> heads L ?r" "k \<in> heads L ?r" "h \<noteq> k" for h k
  proof (rule ccontr)
    assume "{h, h + 8} \<inter> {k, k + 8} \<noteq> {}"
    then obtain x where x: "x = h \<or> x = h + 8" "x = k \<or> x = k + 8" by blast
    have hb: "\<exists>a n i. (a, n) \<in> data_blocks L s \<and> h = a + of_nat i \<and> (n = 24 \<and> i = 8 \<or> n = 16 \<and> i = 0)" if "h \<in> heads L ?r" for h
    proof (cases "h = ?r")
      case True
      then show ?thesis by (intro exI [of _ ?r] exI [of _ 16] exI [of _ 0]) simp
    next
      case False
      then obtain l where "l \<in> L" "h = l + 8" using \<open>h \<in> heads L ?r\<close> by (auto simp: heads_def)
      then show ?thesis by (intro exI [of _ l] exI [of _ 24] exI [of _ 8]) simp
    qed
    obtain a n i where a: "(a, n) \<in> data_blocks L s" "h = a + of_nat i" "n = 24 \<and> i = 8 \<or> n = 16 \<and> i = 0" using hb [OF hk(1)] by blast
    obtain b m j where b: "(b, m) \<in> data_blocks L s" "k = b + of_nat j" "m = 24 \<and> j = 8 \<or> m = 16 \<and> j = 0" using hb [OF hk(2)] by blast
    obtain i' where i: "x = a + of_nat i'" "i' < n" using x(1) a by (auto intro: that [of i] that [of "i + 8"])
    obtain j' where j: "x = b + of_nat j'" "j' < m" using x(2) b by (auto intro: that [of j] that [of "j + 8"])
    have "a = b \<and> n = m \<and> i' = j'" by (rule block_words [OF K a(1) b(1) i(2) j(2)]) (use i j in simp)
    then show False using a b hk(3) by auto
  qed
  have "NULL \<notin> T" using kernel_layoutD(3) [OF K, of NULL] by auto
  then show ?thesis using kernel_layoutD(1,2) [OF K] rl sp dj hd by (simp add: layout_ok_def)
qed

end
