(* ===== verification/Boot_Run.thy ===== *)
theory Boot_Run
  imports Boot Boot_Heap Layout
begin

text \<open>
  The run of \<open>init_all\<close>.  The initialisers of devices and descriptors do not touch what threads and memory are made of
  (\<open>quiet\<close>); the others write blocks of the kernel image that lie apart (\<open>list_init\<close>, \<open>lock_init\<close>,
  \<open>block_desc_init\<close>), so that what each leaves is still there at the end.
\<close>

section \<open>Initialisers of devices\<close>

definition quiet :: "'z kmem_scheme \<Rightarrow> 'z kmem_scheme \<Rightarrow> bool" where
  "quiet s s' = (mem s' = mem s \<and> bytes s' = bytes s \<and> pmem s' = pmem s \<and> cr3 s' = cr3 s \<and> esp s' = esp s \<and> eflags s' = eflags s \<and>
     tasks s' = tasks s \<and> sema_value s' = sema_value s \<and> lock_holder s' = lock_holder s \<and> lock_repeat s' = lock_repeat s \<and>
     thread_ready_list s' = thread_ready_list s \<and> thread_all_list s' = thread_all_list s \<and> pid_lock s' = pid_lock s \<and>
     console_lock s' = console_lock s \<and> idle_thread s' = idle_thread s \<and> main_thread s' = main_thread s \<and>
     next_pid s' = next_pid s \<and> frames s' = frames s \<and> kernel_pool s' = kernel_pool s \<and> user_pool s' = user_pool s \<and>
     kernel_vaddr s' = kernel_vaddr s \<and> k_block_descs s' = k_block_descs s)"

lemma quiet_refl: "quiet s s"
  by (simp add: quiet_def)

lemma quiet_trans: "quiet s t \<Longrightarrow> quiet t u \<Longrightarrow> quiet s u"
  by (simp add: quiet_def)

lemma quiet_put_str: "quiet s (put_str str s)"
  by (simp add: quiet_def put_str_def)

lemma kbd_buf_put_str: "kbd_buf (put_str str s) = kbd_buf s"
  by (simp add: put_str_def)

lemma idt_desc_loop_only: "\<exists>t. idt_desc_loop iet i n s = s\<lparr>idt := t\<rparr>"
proof (induction n arbitrary: i s)
  case 0
  show ?case by (intro exI [of _ "idt s"]) simp
next
  case (Suc n)
  obtain t where "idt_desc_loop iet (Suc i) n (s\<lparr>idt := (idt s)(i := make_idt_desc IDT_DESC_ATTR_DPL0 (iet i))\<rparr>) =
      s\<lparr>idt := (idt s)(i := make_idt_desc IDT_DESC_ATTR_DPL0 (iet i)), idt := t\<rparr>" using Suc.IH by blast
  then show ?case by auto
qed

lemma exception_loop_only: "\<exists>a t. exception_loop i n s = s\<lparr>intr_name := a, idt_table := t\<rparr>"
proof (induction n arbitrary: i s)
  case 0
  show ?case by (intro exI [of _ "intr_name s"] exI [of _ "idt_table s"]) simp
next
  case (Suc n)
  let ?s = "s\<lparr>intr_name := (intr_name s)(i := ''unknown''), idt_table := (idt_table s)(i := General_intr_handler)\<rparr>"
  obtain a t where "exception_loop (Suc i) n ?s = ?s\<lparr>intr_name := a, idt_table := t\<rparr>" using Suc.IH by blast
  then have "exception_loop i (Suc n) s = s\<lparr>intr_name := a, idt_table := t\<rparr>" by simp
  then show ?case by blast
qed

lemma names_only: "\<exists>a. fold (\<lambda>(i, name) s. s\<lparr>intr_name := (intr_name s)(i := name)\<rparr>) xs s = s\<lparr>intr_name := a\<rparr>"
proof (induction xs arbitrary: s)
  case Nil
  show ?case by (intro exI [of _ "intr_name s"]) simp
next
  case (Cons x xs)
  obtain i n where x: "x = (i, n)" by (cases x)
  let ?f = "fold (\<lambda>(i, name) s. s\<lparr>intr_name := (intr_name s)(i := name)\<rparr>)"
  obtain a where "?f xs (s\<lparr>intr_name := (intr_name s)(i := n)\<rparr>) = s\<lparr>intr_name := (intr_name s)(i := n), intr_name := a\<rparr>"
    using Cons.IH by blast
  moreover have "?f (x # xs) s = ?f xs (s\<lparr>intr_name := (intr_name s)(i := n)\<rparr>)" by (simp only: x fold_simps prod.case)
  ultimately have "?f (x # xs) s = s\<lparr>intr_name := a\<rparr>" by simp
  then show ?case by blast
qed

lemma quiet_idt_desc_init:
  fixes s :: "'z syscalls_scheme"
  shows "quiet s (idt_desc_init iet sysc s)" "kbd_buf (idt_desc_init iet sysc s) = kbd_buf s"
proof -
  obtain t where t: "idt_desc_loop iet 0 (IDT_DESC_CNT - 1) s = s\<lparr>idt := t\<rparr>" using idt_desc_loop_only by blast
  show "quiet s (idt_desc_init iet sysc s)" "kbd_buf (idt_desc_init iet sysc s) = kbd_buf s"
    unfolding idt_desc_init_def t Let_def by (simp_all add: quiet_def put_str_def)
qed

lemma quiet_exception_init:
  fixes s :: "'z syscalls_scheme"
  shows "quiet s (exception_init s)" "kbd_buf (exception_init s) = kbd_buf s"
proof -
  obtain a u where e: "exception_loop 0 IDT_DESC_CNT s = s\<lparr>intr_name := a, idt_table := u\<rparr>" using exception_loop_only by blast
  let ?s = "s\<lparr>intr_name := a, idt_table := u\<rparr>"
  obtain b where f: "fold (\<lambda>(i, name) s. s\<lparr>intr_name := (intr_name s)(i := name)\<rparr>) exception_names ?s = ?s\<lparr>intr_name := b\<rparr>"
    using names_only by blast
  show "quiet s (exception_init s)" "kbd_buf (exception_init s) = kbd_buf s"
    unfolding exception_init_def e Let_def f by (simp_all add: quiet_def)
qed

lemma quiet_idt_init:
  fixes s :: "'z syscalls_scheme"
  shows "quiet s (idt_init iet sysc idt_addr s) \<and> kbd_buf (idt_init iet sysc idt_addr s) = kbd_buf s"
proof -
  define s1 where "s1 = put_line ''idt_init start'' s"
  define s2 where "s2 = idt_desc_init iet sysc s1"
  define s3 where "s3 = exception_init s2"
  have "quiet s s1" "kbd_buf s1 = kbd_buf s" unfolding s1_def by (rule quiet_put_str kbd_buf_put_str)+
  then have "quiet s s3" "kbd_buf s3 = kbd_buf s"
    using quiet_idt_desc_init [where s = s1 and iet = iet and sysc = sysc, folded s2_def] quiet_exception_init [where s = s2, folded s3_def] quiet_trans by metis+
  moreover have "idt_init iet sysc idt_addr s = (put_line ''idt_init done'' (pic_init s3))\<lparr>idtr := (of_nat (8 * IDT_DESC_CNT) - 1) OR push_bit 16 (ucast idt_addr)\<rparr>"
    by (simp only: idt_init_def Let_def s1_def s2_def s3_def)
  ultimately show ?thesis by (simp add: pic_init_def outb_def Let_def quiet_def put_str_def)
qed

lemma quiet_timer_init:
  fixes s :: "'z syscalls_scheme"
  shows "quiet s (timer_init s) \<and> kbd_buf (timer_init s) = kbd_buf s"
  by (simp add: timer_init_def frequence_set_def register_handler_def outb_def Let_def quiet_def put_str_def)

lemma quiet_rest:
  fixes s :: "'z syscalls_scheme"
  shows "quiet s (tss_init a s)" "quiet s (rtc_init dev s)" "quiet s (syscall_init s)"
  by (simp_all add: tss_init_def rtc_init_def syscall_init_def inb_def outb_def Let_def quiet_def put_str_def)

section \<open>Initialisers of lists and locks\<close>

lemma lock_init_off: "\<not> in_block l 24 x \<Longrightarrow> mem (lock_init l s) x = mem s x"
proof -
  assume x: "\<not> in_block l 24 x"
  have "x \<noteq> l + of_nat i" if "i < 24" for i using in_block_offset [of i 24 l] x that by auto
  from this [of 8] this [of 12] this [of 16] this [of 20] show ?thesis by (simp add: lock_init_eq)
qed

lemma list_init_off: "\<not> in_block p 16 x \<Longrightarrow> mem (list_init p s) x = mem s x"
proof -
  assume x: "\<not> in_block p 16 x"
  have "x \<noteq> p + of_nat i" if "i < 16" for i using in_block_offset [of i 16 p] x that by auto
  from this [of 0] this [of 4] this [of 8] this [of 12] show ?thesis by (simp add: list_init_eq)
qed

lemma block_desc_init_off: "\<not> in_block D 168 x \<Longrightarrow> mem (block_desc_init D s) x = mem s x"
  unfolding block_desc_init_def DESC_CNT_def by (rule block_desc_init_loop_outside) (simp_all add: in_block_def)

lemma block_desc_init_eq: "block_desc_init D s = s\<lparr>mem := mem (block_desc_init D s)\<rparr>"
  unfolding block_desc_init_def by (rule machine_mem_eq) (simp_all add: block_desc_init_rest)

text \<open>An empty list is two links.\<close>

lemma dlist_empty: "dlist m p [] \<longleftrightarrow> m (p + 4) = p + 8 \<and> m (p + 8) = p"
  by (auto simp: dlist_def nodes_def spaced_def)


section \<open>mem\_init and thread\_init\<close>

lemma mem_init_run:
  fixes s :: "'z kmem_scheme"
  defines "k \<equiv> pool_lock (kernel_pool s)" and "u \<equiv> pool_lock (user_pool s)"
  defines "M \<equiv> mem (lock_init u (lock_init k s)) 0xb00"
  shows "\<exists>m b x. mem_init s = Inr (s\<lparr>mem := m, bytes := b, screen := x, sema_value := (sema_value s)(k + 4 := 1, u + 4 := 1),
      lock_holder := (lock_holder s)(k := NULL, u := NULL), lock_repeat := (lock_repeat s)(k := 0, u := 0),
      kernel_pool := boot_kpool M k, user_pool := boot_upool M u,
      kernel_vaddr := \<lparr>vaddr_bitmap = vbm M, vaddr_start = K_HEAP_STACK\<rparr>\<rparr>) \<and>
    (\<forall>i<7. desc_ok m (desc_at (k_block_descs s) i) i \<and> dlist m (desc_at (k_block_descs s) i + 8) []) \<and>
    (\<forall>x. \<not> in_block (k_block_descs s) 168 x \<longrightarrow> m x = mem (lock_init u (lock_init k s)) x) \<and>
    (\<forall>i<bm_bits (kbm M). \<not> used (s\<lparr>bytes := b\<rparr>) (kbm M) i) \<and> (\<forall>i<bm_bits (ubm M). \<not> used (s\<lparr>bytes := b\<rparr>) (ubm M) i) \<and>
    (\<forall>i<bm_bits (vbm M). \<not> used (s\<lparr>bytes := b\<rparr>) (vbm M) i)"
proof -
  define m1 where "m1 = mem (lock_init u (lock_init k s))"
  define t where "t = s\<lparr>mem := m1, sema_value := (sema_value s)(k + 4 := 1, u + 4 := 1),
      lock_holder := (lock_holder s)(k := NULL, u := NULL), lock_repeat := (lock_repeat s)(k := 0, u := 0),
      screen := screen (put_line ''mem_init start'' s)\<rparr>"
  have l: "lock_init (pool_lock (user_pool (lock_init k (put_line ''mem_init start'' s)))) (lock_init k (put_line ''mem_init start'' s)) = t"
    by (simp add: lock_init_eq put_str_def t_def m1_def k_def u_def)
  have pl: "pool_lock (kernel_pool t) = k" "pool_lock (user_pool t) = u" "mem t 0xb00 = M"
    by (simp_all add: t_def k_def u_def M_def m1_def)
  obtain b x where b: "mem_pool_init M t =
    Inr (t\<lparr>bytes := b, screen := x, kernel_pool := boot_kpool M k, user_pool := boot_upool M u,
           kernel_vaddr := \<lparr>vaddr_bitmap = vbm M, vaddr_start = K_HEAP_STACK\<rparr>\<rparr>)"
    "(\<forall>i<bm_bits (kbm M). \<not> used (t\<lparr>bytes := b\<rparr>) (kbm M) i) \<and> (\<forall>i<bm_bits (ubm M). \<not> used (t\<lparr>bytes := b\<rparr>) (ubm M) i) \<and>
     (\<forall>i<bm_bits (vbm M). \<not> used (t\<lparr>bytes := b\<rparr>) (vbm M) i)"
    using mem_pool_init_eq [of M t] unfolding pl by blast
  let ?t = "t\<lparr>bytes := b, screen := x, kernel_pool := boot_kpool M k, user_pool := boot_upool M u,
           kernel_vaddr := \<lparr>vaddr_bitmap = vbm M, vaddr_start = K_HEAP_STACK\<rparr>\<rparr>"
  let ?D = "k_block_descs s"
  define m where "m = mem (block_desc_init ?D ?t)"
  have d: "k_block_descs ?t = ?D" by (simp add: t_def)
  have bd: "block_desc_init ?D ?t = ?t\<lparr>mem := m\<rparr>" unfolding m_def by (rule block_desc_init_eq)
  have k0: "lock_init (pool_lock (kernel_pool (put_line ''mem_init start'' s))) (put_line ''mem_init start'' s) = lock_init k (put_line ''mem_init start'' s)"
    by (simp add: k_def put_str_def)
  have "mem_init s = Inr (put_line ''mem_init done'' (?t\<lparr>mem := m\<rparr>))"
    unfolding mem_init_def Let_def k0 l pl b(1) bind_r.simps d bd ..
  also have "put_line ''mem_init done'' (?t\<lparr>mem := m\<rparr>) = s\<lparr>mem := m, bytes := b, screen := x @ bytes_of (''mem_init done'' @ newline),
      sema_value := (sema_value s)(k + 4 := 1, u + 4 := 1),
      lock_holder := (lock_holder s)(k := NULL, u := NULL), lock_repeat := (lock_repeat s)(k := 0, u := 0),
      kernel_pool := boot_kpool M k, user_pool := boot_upool M u,
      kernel_vaddr := \<lparr>vaddr_bitmap = vbm M, vaddr_start = K_HEAP_STACK\<rparr>\<rparr>"
    by (simp add: t_def put_str_def)
  moreover have "\<forall>i<7. desc_ok m (desc_at ?D i) i \<and> dlist m (desc_at ?D i + 8) []"
    unfolding m_def using block_desc_init_ok by blast
  moreover have "\<forall>x. \<not> in_block ?D 168 x \<longrightarrow> m x = m1 x"
    unfolding m_def using block_desc_init_off [where s = ?t] by (simp add: t_def)
  moreover have "used (t\<lparr>bytes := b\<rparr>) c i = used (s\<lparr>bytes := b\<rparr>) c i" for c i by (simp add: used_def)
  ultimately show ?thesis using b(2) unfolding m1_def by (intro exI conjI) (assumption | simp)+
qed


text \<open>Appending to an empty list.\<close>

lemma append_empty:
  assumes "dlist m p []" "\<not> in_block p 16 e" "\<not> in_block p 16 (e + 4)" "p \<noteq> e + 4"
  shows "dlist (append_m p e m) p [e]" "\<not> in_block p 16 x \<Longrightarrow> x \<notin> {e, e + 4} \<Longrightarrow> append_m p e m x = m x"
proof -
  have off: "y \<noteq> p + of_nat i" if "\<not> in_block p 16 y" "i < 16" for y i using in_block_offset [of i 16 p] that by auto
  note e = off [OF assms(2), of 0] off [OF assms(2), of 4] off [OF assms(2), of 8] off [OF assms(2), of 12]
  note e4 = off [OF assms(3), of 0] off [OF assms(3), of 4] off [OF assms(3), of 8] off [OF assms(3), of 12]
  have m: "append_m p e m = m(p + 4 := e, e := p, e + 4 := p + 8, p + 8 := e)"
    using assms(1) by (simp add: append_m_def insert_m_def dlist_empty Let_def)
  show "dlist (append_m p e m) p [e]"
    unfolding m dlist_def nodes_def using assms(1) e e4 by (auto simp: spaced_def dlist_empty)
  show "append_m p e m x = m x" if "\<not> in_block p 16 x" "x \<notin> {e, e + 4}"
    unfolding m using off [OF that(1), of 4] off [OF that(1), of 8] that(2) by simp
qed

lemma thread_init_run:
  fixes s :: "'z kernel_scheme"
  defines "c \<equiv> running_thread s" and "r \<equiv> thread_ready_list s" and "a \<equiv> thread_all_list s" and "p \<equiv> pid_lock s"
  assumes w: "page_walk s c = Some F" "frame_of c = c" "frame_of F = F" "c \<noteq> NULL"
    and dr: "\<And>x. in_block r 16 x \<Longrightarrow> \<not> in_block a 16 x \<and> \<not> in_block p 24 x \<and> \<not> in_block c 4096 x"
    and da: "\<And>x. in_block a 16 x \<Longrightarrow> \<not> in_block p 24 x \<and> \<not> in_block c 4096 x"
    and dp: "\<And>x. in_block p 24 x \<Longrightarrow> \<not> in_block c 4096 x"
  shows "\<exists>m b pm x. thread_init s = Inr (s\<lparr>mem := m, bytes := b, pmem := pm, screen := x, sema_value := (sema_value s)(p + 4 := 1),
      lock_holder := (lock_holder s)(p := NULL), lock_repeat := (lock_repeat s)(p := 0), main_thread := c,
      tasks := (tasks s)(c := fresh_task c (next_pid s + 1) TASK_RUNNING (bytes_of ''main'') 31), next_pid := next_pid s + 1\<rparr>) \<and>
    (\<forall>y. y \<notin> words F \<longrightarrow> pm y = pmem s y) \<and> (\<forall>y. \<not> in_block c 4096 y \<longrightarrow> b y = bytes s y) \<and>
    dlist m r [] \<and> dlist m a [all_list_tag c] \<and> m (p + 12) = p + 16 \<and> m (p + 16) = p + 8 \<and>
    (\<forall>y. \<not> in_block r 16 y \<and> \<not> in_block a 16 y \<and> \<not> in_block p 24 y \<and> \<not> in_block c 4096 y \<longrightarrow> m y = mem s y)"
proof -
  let ?s0 = "put_line ''thread_init start'' s"
  define t where "t = lock_init p (list_init a (list_init r ?s0))"
  define mt where mt: "mt = mem t"
  have t: "t = s\<lparr>mem := mt, screen := screen ?s0, sema_value := (sema_value s)(p + 4 := 1),
      lock_holder := (lock_holder s)(p := NULL), lock_repeat := (lock_repeat s)(p := 0)\<rparr>"
    by (simp add: mt t_def lock_init_eq list_init_eq put_str_def)
  have t0: "lock_init (pid_lock (list_init (thread_all_list (list_init (thread_ready_list ?s0) ?s0)) (list_init (thread_ready_list ?s0) ?s0)))
      (list_init (thread_all_list (list_init (thread_ready_list ?s0) ?s0)) (list_init (thread_ready_list ?s0) ?s0)) = t"
    by (simp add: t_def list_init_eq put_str_def r_def a_def p_def)
  have off: "mt y = mem s y" if "\<not> in_block r 16 y" "\<not> in_block a 16 y" "\<not> in_block p 24 y" for y
    unfolding mt t_def using that by (simp add: lock_init_off list_init_off put_str_def)
  have dl: "dlist mt a []"
  proof -
    have "dlist (mem (list_init a (list_init r ?s0))) a []" by (rule list_init_dlist)
    moreover have "mt (a + of_nat i) = mem (list_init a (list_init r ?s0)) (a + of_nat i)" if "i < 16" for i
      unfolding mt t_def by (rule lock_init_off) (use da in_block_offset [of i 16 a] that in auto)
    from this [of 4] this [of 8] have "mt (a + 4) = mem (list_init a (list_init r ?s0)) (a + 4)" "mt (a + 8) = mem (list_init a (list_init r ?s0)) (a + 8)" by simp_all
    ultimately show ?thesis by (simp add: dlist_empty)
  qed
  have dl_r: "dlist mt r []"
  proof -
    have "dlist (mem (list_init r ?s0)) r []" by (rule list_init_dlist)
    moreover have "mt (r + of_nat i) = mem (list_init r ?s0) (r + of_nat i)" if "i < 16" for i
      unfolding mt t_def using dr [OF in_block_offset [of i 16 r]] that by (simp add: lock_init_off list_init_off)
    from this [of 4] this [of 8] have "mt (r + 4) = mem (list_init r ?s0) (r + 4)" "mt (r + 8) = mem (list_init r ?s0) (r + 8)" by simp_all
    ultimately show ?thesis by (simp add: dlist_empty)
  qed
  have pw: "mt (p + 12) = p + 16" "mt (p + 16) = p + 8" by (simp_all add: mt t_def lock_init_eq)
  let ?u = "t\<lparr>main_thread := c\<rparr>"
  have ru: "running_thread t = c" "running_thread ?u = c" "main_thread ?u = c" by (simp_all add: t running_thread_def c_def)
  have pu: "pid_lock ?u = p" by (simp add: t p_def)
  have sub: "in_block c 4096 y" if "in_block c 240 y" for y using in_block_mono [OF that] by simp
  have pb: "in_block p 24 (p + 12)" "in_block p 24 (p + 16)" using in_block_offset [of 12 24 p] in_block_offset [of 16 24 p] by simp_all
  have fl: "free_lock (pid_lock ?u) ?u" using pw(1) by (simp add: free_lock_def pu) (simp add: t)
  have wu: "page_walk ?u c = Some F" using w(1) walk_cong(1) [of ?u s c] by (simp add: t)
  have "\<exists>pm. init_thread c (bytes_of ''main'') 31 ?u = Inr (?u\<lparr>mem := (\<lambda>x. if in_block c 240 x then 0 else mem ?u x),
      bytes := (\<lambda>x. if in_block c 240 x then 0 else bytes ?u x), pmem := pm,
      tasks := (tasks ?u)(c := fresh_task c (next_pid ?u + 1) (if c = main_thread ?u then TASK_RUNNING else TASK_READY) (bytes_of ''main'') 31),
      next_pid := next_pid ?u + 1\<rparr>) \<and> (\<forall>x. x \<notin> words F \<longrightarrow> pm x = pmem ?u x)"
    by (rule init_thread_run [OF wu w(2-4) _ fl]) (use pb(1) dp sub ru w(4) in \<open>auto simp: pu bytes_of_def\<close>)
  then obtain pm where it: "init_thread c (bytes_of ''main'') 31 ?u = Inr (?u\<lparr>mem := (\<lambda>x. if in_block c 240 x then 0 else mem ?u x),
      bytes := (\<lambda>x. if in_block c 240 x then 0 else bytes ?u x), pmem := pm,
      tasks := (tasks ?u)(c := fresh_task c (next_pid ?u + 1) TASK_RUNNING (bytes_of ''main'') 31),
      next_pid := next_pid ?u + 1\<rparr>)" "\<forall>x. x \<notin> words F \<longrightarrow> pm x = pmem ?u x" using ru by auto
  let ?v = "?u\<lparr>mem := (\<lambda>x. if in_block c 240 x then 0 else mem ?u x),
      bytes := (\<lambda>x. if in_block c 240 x then 0 else bytes ?u x), pmem := pm,
      tasks := (tasks ?u)(c := fresh_task c (next_pid ?u + 1) TASK_RUNNING (bytes_of ''main'') 31),
      next_pid := next_pid ?u + 1\<rparr>"
  let ?e = "all_list_tag c"
  have ev: "in_block c 4096 ?e" "in_block c 4096 (?e + 4)" "in_block c 4096 (?e + 4 - 4)"
    by (simp_all add: all_list_tag_def in_block_def)
  have vm: "mem ?v y = mt y" if "\<not> in_block c 4096 y" for y using sub that by (auto simp: t)
  have blk: "in_block a 16 (a + of_nat i)" "in_block r 16 (r + of_nat i)" if "i < 16" for i using in_block_offset [of i 16] that by simp_all
  have va: "dlist (mem ?v) a []"
    using dl vm [of "a + of_nat 4"] vm [of "a + of_nat 8"] da [OF blk(1), of 4] da [OF blk(1), of 8] by (simp add: dlist_empty)
  have ea: "\<not> in_block a 16 ?e" "\<not> in_block a 16 (?e + 4)" "a \<noteq> ?e + 4"
    using da ev in_block_self [of a 16] by (auto simp del: add_diff_cancel_right')
  note A = append_empty [OF va ea]
  let ?m = "append_m a ?e (mem ?v)"
  have la: "thread_all_list ?v = a" "main_thread ?u = c" by (simp_all add: t a_def)
  have "elem_find a ?e ?v = Some False" using elem_find_dlist [OF va, of ?e] by simp
  then have mm: "make_main_thread t = Inr (put_line ''I have created the main thread.'' (?v\<lparr>mem := ?m\<rparr>))"
    unfolding make_main_thread_def Let_def ru(1) ru(3) it(1) bind_r.simps
    by (simp add: assert_absent_def list_norm la ru t a_def)
  define x where "x = screen (put_line ''thread_init done'' (put_line ''I have created the main thread.'' (?v\<lparr>mem := ?m\<rparr>)))"
  have "thread_init s = Inr (put_line ''thread_init done'' (put_line ''I have created the main thread.'' (?v\<lparr>mem := ?m\<rparr>)))"
    unfolding thread_init_def Let_def t0 mm bind_r.simps ..
  also have "put_line ''thread_init done'' (put_line ''I have created the main thread.'' (?v\<lparr>mem := ?m\<rparr>)) =
      s\<lparr>mem := ?m, bytes := bytes ?v, pmem := pm, screen := x, sema_value := (sema_value s)(p + 4 := 1),
      lock_holder := (lock_holder s)(p := NULL), lock_repeat := (lock_repeat s)(p := 0), main_thread := c,
      tasks := (tasks s)(c := fresh_task c (next_pid s + 1) TASK_RUNNING (bytes_of ''main'') 31), next_pid := next_pid s + 1\<rparr>"
    by (simp add: t put_str_def x_def)
  finally have run: "thread_init s = Inr (s\<lparr>mem := ?m, bytes := bytes ?v, pmem := pm, screen := x, sema_value := (sema_value s)(p + 4 := 1),
      lock_holder := (lock_holder s)(p := NULL), lock_repeat := (lock_repeat s)(p := 0), main_thread := c,
      tasks := (tasks s)(c := fresh_task c (next_pid s + 1) TASK_RUNNING (bytes_of ''main'') 31), next_pid := next_pid s + 1\<rparr>)" .
  have keep: "?m y = mt y" if "\<not> in_block a 16 y" "\<not> in_block c 4096 y" for y
  proof -
    have "y \<notin> {?e, ?e + 4}" using ev that(2) by auto
    then show ?thesis using A(2) [OF that(1)] vm [OF that(2)] by simp
  qed
  have "dlist ?m r []"
    using dl_r keep [of "r + of_nat 4"] keep [of "r + of_nat 8"] dr [OF blk(2), of 4] dr [OF blk(2), of 8] by (simp add: dlist_empty)
  moreover have "?m (p + 12) = p + 16" "?m (p + 16) = p + 8"
    using pw keep [of "p + 12"] keep [of "p + 16"] pb dp da by metis+
  moreover have "\<forall>y. \<not> in_block r 16 y \<and> \<not> in_block a 16 y \<and> \<not> in_block p 24 y \<and> \<not> in_block c 4096 y \<longrightarrow> ?m y = mem s y"
    using keep off by simp
  moreover have "\<forall>y. y \<notin> words F \<longrightarrow> pm y = pmem s y" using it(2) by (simp add: t)
  moreover have "\<forall>y. \<not> in_block c 4096 y \<longrightarrow> bytes ?v y = bytes s y" using sub by (auto simp: t)
  ultimately show ?thesis using run A(1) by blast
qed

end
