(* ===== verification/Boot_Props.thy ===== *)
theory Boot_Props
  imports Boot_Run
begin

text \<open>
  What the start of the kernel establishes.  \<open>entered s\<close> is the state in which the loader jumps to \<open>main\<close>; from it
  \<open>init_all\<close> returns, with the invariants of the scheduler, of paging and of the heap.
\<close>

section \<open>The state at the jump\<close>

definition kernel_blocks :: "'z kbd_scheme \<Rightarrow> (addr \<times> nat) list" where
  "kernel_blocks s =
     [(pool_lock (kernel_pool s), 24), (pool_lock (user_pool s), 24), (k_block_descs s, 168), (thread_ready_list s, 16),
      (thread_all_list s, 16), (pid_lock s, 24), (console_lock s, 24), (kbd_buf s, 24)]"

definition boot_locks :: "'z kbd_scheme \<Rightarrow> addr set" where
  "boot_locks s = {pool_lock (kernel_pool s), pool_lock (user_pool s), pid_lock s, console_lock s, kbd_buf s}"

text \<open>The stack the loader sets up is in the page at \<open>0xc009e000\<close>, which becomes the PCB of the main thread.\<close>

definition main_pcb :: addr where
  "main_pcb = 0xc009e000"

definition entered :: "'z kbd_scheme \<Rightarrow> bool" where
  "entered s = (boot_tables s \<and> running_thread s = main_pcb \<and> frames s main_pcb = [] \<and> idle_thread s = NULL \<and>
     list_all in_image (kernel_blocks s) \<and> sorted_wrt apart_from (kernel_blocks s))"

section \<open>Blocks apart\<close>

lemma in_block_image:
  assumes "in_image (a, n)" "in_block a n x"
  shows "unat a \<le> unat x" "unat x < unat a + n" "unat x < 0xc009a000" "0xc0001500 \<le> unat x"
  using assms by (auto simp: in_block_unat)

text \<open>Each block is told by its place in the list.\<close>

lemma block_label:
  assumes "list_all in_image bs" "sorted_wrt apart_from bs"
  shows "\<exists>g. \<forall>i<length bs. \<forall>x. in_block (fst (bs ! i)) (snd (bs ! i)) x \<longrightarrow> g x = i"
proof -
  have uniq: False if ij: "i < length bs" "j < length bs" "i < j" and x: "in_block (fst (bs ! i)) (snd (bs ! i)) x" "in_block (fst (bs ! j)) (snd (bs ! j)) x" for i j x
  proof -
    obtain a n b k where e: "bs ! i = (a, n)" "bs ! j = (b, k)" by (cases "bs ! i"; cases "bs ! j")
    have "apart_from (bs ! i) (bs ! j)" "in_image (bs ! i)" "in_image (bs ! j)"
      using sorted_wrt_nth_less [OF assms(2) ij(3,2)] assms(1) ij by (auto simp only: list_all_length)
    then have "apart_from (a, n) (b, k)" "in_image (a, n)" "in_image (b, k)" by (simp_all only: e)
    then show False using in_block_image(1,2) [of a n x] in_block_image(1,2) [of b k x] x e by auto
  qed
  define g where "g x = (LEAST i. i < length bs \<and> in_block (fst (bs ! i)) (snd (bs ! i)) x)" for x
  have "g x = i" if i: "i < length bs" "in_block (fst (bs ! i)) (snd (bs ! i)) x" for i x
    unfolding g_def
  proof (rule Least_equality)
    fix j assume j: "j < length bs \<and> in_block (fst (bs ! j)) (snd (bs ! j)) x"
    then show "i \<le> j" using uniq [of j i x] i by (meson not_le_imp_less)
  qed (use i in simp)
  then show ?thesis by blast
qed

lemma image_off_main: "in_image (a, n) \<Longrightarrow> in_block a n x \<Longrightarrow> \<not> in_block main_pcb 4096 x"
  using in_block_image(3) [of a n x] by (auto simp: in_block_unat main_pcb_def)

text \<open>The lists of a lock.\<close>

definition lock_words :: "(addr \<Rightarrow> u32) \<Rightarrow> addr \<Rightarrow> bool" where
  "lock_words m l = (m (l + 12) = l + 16 \<and> m (l + 16) = l + 8)"

lemma lock_words_init: "lock_words (mem (lock_init l s)) l"
  by (simp add: lock_words_def lock_init_eq)

lemma lock_words_keep:
  assumes "lock_words m l" "\<And>x. in_block l 24 x \<Longrightarrow> m' x = m x"
  shows "lock_words m' l"
  using assms(1) assms(2) [of "l + 12"] assms(2) [of "l + 16"] by (simp add: lock_words_def in_block_def)

lemma lock_words_dlist: "lock_words m l \<Longrightarrow> dlist m (l + 8) []"
  by (simp add: lock_words_def dlist_empty add.assoc)

lemma dlist_empty_keep:
  assumes "dlist m p []" "\<And>x. in_block p 16 x \<Longrightarrow> m' x = m x"
  shows "dlist m' p []"
  using assms(1) assms(2) [of "p + 4"] assms(2) [of "p + 8"] by (simp add: dlist_empty in_block_def)

section \<open>The run of init\_all\<close>

text \<open>The state \<open>s'\<close> after \<open>init_all\<close> from \<open>s\<close>: the blocks of the image are made, the rest of what threads and memory use is as before.\<close>

definition started :: "'z kbd_scheme \<Rightarrow> 'z kbd_scheme \<Rightarrow> bool" where
  "started s s' = ((\<forall>x. x \<notin> words 0x9e000 \<longrightarrow> pmem s' x = pmem s x) \<and> cr3 s' = cr3 s \<and> esp s' = esp s \<and> eflags s' = eflags s \<and>
     tasks s' = (tasks s)(main_pcb := fresh_task main_pcb (next_pid s + 1) TASK_RUNNING (bytes_of ''main'') 31) \<and>
     thread_ready_list s' = thread_ready_list s \<and> thread_all_list s' = thread_all_list s \<and> pid_lock s' = pid_lock s \<and>
     console_lock s' = console_lock s \<and> idle_thread s' = idle_thread s \<and> main_thread s' = main_pcb \<and>
     next_pid s' = next_pid s + 1 \<and> frames s' = frames s \<and> kbd_buf s' = kbd_buf s \<and> k_block_descs s' = k_block_descs s \<and>
     kernel_pool s' = boot_kpool (mem s 0xb00) (pool_lock (kernel_pool s)) \<and>
     user_pool s' = boot_upool (mem s 0xb00) (pool_lock (user_pool s)) \<and>
     kernel_vaddr s' = \<lparr>vaddr_bitmap = vbm (mem s 0xb00), vaddr_start = K_HEAP_STACK\<rparr> \<and>
     (\<forall>bm\<in>{kbm (mem s 0xb00), ubm (mem s 0xb00), vbm (mem s 0xb00)}. \<forall>i<bm_bits bm. \<not> used s' bm i) \<and>
     (\<forall>l\<in>boot_locks s. free_lock l s' \<and> lock_words (mem s') l) \<and>
     dlist (mem s') (thread_ready_list s) [] \<and> dlist (mem s') (thread_all_list s) [all_list_tag main_pcb] \<and>
     (\<forall>i<7. desc_ok (mem s') (desc_at (k_block_descs s) i) i \<and> dlist (mem s') (desc_at (k_block_descs s) i + 8) []))"

lemma desc_keep:
  assumes "desc_ok m (desc_at D i) i \<and> dlist m (desc_at D i + 8) []" "i < 7" "\<And>x. in_block D 168 x \<Longrightarrow> m' x = m x"
  shows "desc_ok m' (desc_at D i) i \<and> dlist m' (desc_at D i + 8) []"
proof -
  have "in_block D 168 (desc_at D i + of_nat r)" if "r < 24" for r
  proof -
    have e: "desc_at D i + of_nat r = D + of_nat (24 * i + r)" by (simp add: desc_at_def sizeof_desc_def)
    show ?thesis unfolding e by (rule in_block_offset) (use assms(2) that in simp_all)
  qed
  note k = assms(3) [OF this]
  from k [of 0] k [of 4] k [of 12] k [of 16] have "m' (desc_at D i) = m (desc_at D i)" "m' (desc_at D i + 4) = m (desc_at D i + 4)"
    "m' (desc_at D i + 12) = m (desc_at D i + 12)" "m' (desc_at D i + 16) = m (desc_at D i + 16)" by simp_all
  then show ?thesis using assms(1) by (simp add: desc_ok_def dlist_empty heap_layout add.assoc)
qed

lemma keyboard_init_eq:
  fixes s :: "'z syscalls_scheme"
  shows "quiet (lock_init (kbd_buf s) s) (keyboard_init s)" "kbd_buf (keyboard_init s) = kbd_buf s"
  by (simp_all add: keyboard_init_def ioqueue_init_def ioq_lock_def register_handler_def Let_def quiet_def put_str_def lock_init_eq)


lemma kbd_buf_rest:
  fixes s :: "'z syscalls_scheme"
  shows "kbd_buf (tss_init a s) = kbd_buf s" "kbd_buf (rtc_init dev s) = kbd_buf s" "kbd_buf (syscall_init s) = kbd_buf s"
  by (simp_all add: tss_init_def rtc_init_def syscall_init_def inb_def outb_def Let_def put_str_def)

lemma quiet_boot_tables: "quiet s s' \<Longrightarrow> boot_tables s' = boot_tables s"
  by (simp add: quiet_def boot_tables_def)

lemma main_pcb_page: "frame_of main_pcb = main_pcb" "main_pcb \<noteq> NULL" "lower main_pcb"
proof -
  show "frame_of main_pcb = main_pcb" "main_pcb \<noteq> NULL" by (simp_all add: main_pcb_def frame_of_def)
  show "lower main_pcb" by (rule lower_unat) (simp add: main_pcb_def)
qed

lemma main_walk:
  assumes "boot_tables s"
  shows "page_walk s main_pcb = Some 0x9e000"
  using boot_tables_walk [OF assms main_pcb_page(3)] by (simp add: main_pcb_def)

lemma init_all_run:
  fixes s :: "'z syscalls_scheme"
  assumes E: "entered s"
  shows "\<exists>s'. init_all iet sysc idt_addr tss_addr dev s = Inr s' \<and> started s s'"
proof -
  let ?k = "pool_lock (kernel_pool s)" and ?u = "pool_lock (user_pool s)" and ?D = "k_block_descs s" and ?r = "thread_ready_list s"
    and ?a = "thread_all_list s" and ?p = "pid_lock s" and ?c = "console_lock s" and ?b = "kbd_buf s" and ?M = "mem s 0xb00"
  have B: "boot_tables s" and run0: "running_thread s = main_pcb" and img: "list_all in_image (kernel_blocks s)" and srt: "sorted_wrt apart_from (kernel_blocks s)"
    using E by (simp_all add: entered_def)
  obtain g where "\<forall>i<length (kernel_blocks s). \<forall>x. in_block (fst (kernel_blocks s ! i)) (snd (kernel_blocks s ! i)) x \<longrightarrow> g x = i"
    using block_label [OF img srt] by blast
  then have g: "in_block ?k 24 x \<Longrightarrow> g x = 0" "in_block ?u 24 x \<Longrightarrow> g x = 1" "in_block ?D 168 x \<Longrightarrow> g x = 2" "in_block ?r 16 x \<Longrightarrow> g x = 3"
    "in_block ?a 16 x \<Longrightarrow> g x = 4" "in_block ?p 24 x \<Longrightarrow> g x = 5" "in_block ?c 24 x \<Longrightarrow> g x = 6" "in_block ?b 24 x \<Longrightarrow> g x = 7" for x
    by (simp_all add: kernel_blocks_def All_less_Suc numeral_eq_Suc)
  have im: "in_image (?k, 24)" "in_image (?u, 24)" "in_image (?D, 168)" "in_image (?r, 16)" "in_image (?a, 16)" "in_image (?p, 24)" "in_image (?c, 24)"
    "in_image (?b, 24)" using img by (simp_all add: kernel_blocks_def del: in_image.simps)
  note mn = image_off_main [OF im(1)] image_off_main [OF im(2)] image_off_main [OF im(3)] image_off_main [OF im(4)] image_off_main [OF im(5)]
    image_off_main [OF im(6)] image_off_main [OF im(7)] image_off_main [OF im(8)]

  text \<open>The first three initialisers are quiet.\<close>
  define s1 where "s1 = put_line ''init_all start'' s"
  define s2 where "s2 = idt_init iet sysc idt_addr s1"
  define s3 where "s3 = timer_init s2"
  have q1: "quiet s s1" "kbd_buf s1 = ?b" unfolding s1_def by (rule quiet_put_str kbd_buf_put_str)+
  have q2: "quiet s1 s2" "kbd_buf s2 = kbd_buf s1" unfolding s2_def using quiet_idt_init by blast+
  have "quiet s2 s3" "kbd_buf s3 = kbd_buf s2" unfolding s3_def using quiet_timer_init by blast+
  then have q3: "quiet s s3" "kbd_buf s3 = ?b" using q1 q2 quiet_trans by (blast, simp)
  then have e3: "mem s3 = mem s" "kernel_pool s3 = kernel_pool s" "user_pool s3 = user_pool s" "k_block_descs s3 = ?D" by (simp_all add: quiet_def)
  define m3 where "m3 = mem (lock_init ?u (lock_init ?k s3))"
  have m3: "m3 x = mem s x" if "\<not> in_block ?k 24 x" "\<not> in_block ?u 24 x" for x
    unfolding m3_def using that by (simp add: lock_init_off e3)
  have M: "m3 0xb00 = ?M"
    by (rule m3) (use in_block_image(4) [OF im(1), of "0xb00"] in_block_image(4) [OF im(2), of "0xb00"] in auto)
  obtain m4 b4 x4 where r4: "mem_init s3 = Inr (s3\<lparr>mem := m4, bytes := b4, screen := x4, sema_value := (sema_value s3)(?k + 4 := 1, ?u + 4 := 1),
      lock_holder := (lock_holder s3)(?k := NULL, ?u := NULL), lock_repeat := (lock_repeat s3)(?k := 0, ?u := 0),
      kernel_pool := boot_kpool ?M ?k, user_pool := boot_upool ?M ?u,
      kernel_vaddr := \<lparr>vaddr_bitmap = vbm ?M, vaddr_start = K_HEAP_STACK\<rparr>\<rparr>)"
    "\<forall>i<7. desc_ok m4 (desc_at ?D i) i \<and> dlist m4 (desc_at ?D i + 8) []" "\<forall>x. \<not> in_block ?D 168 x \<longrightarrow> m4 x = m3 x"
    "\<forall>bm\<in>{kbm ?M, ubm ?M, vbm ?M}. \<forall>i<bm_bits bm. \<not> used (s3\<lparr>bytes := b4\<rparr>) bm i"
    using mem_init_run [of s3] unfolding e3 m3_def [symmetric] M by (auto simp: all_simps)
  let ?s4 = "s3\<lparr>mem := m4, bytes := b4, screen := x4, sema_value := (sema_value s3)(?k + 4 := 1, ?u + 4 := 1),
      lock_holder := (lock_holder s3)(?k := NULL, ?u := NULL), lock_repeat := (lock_repeat s3)(?k := 0, ?u := 0),
      kernel_pool := boot_kpool ?M ?k, user_pool := boot_upool ?M ?u,
      kernel_vaddr := \<lparr>vaddr_bitmap = vbm ?M, vaddr_start = K_HEAP_STACK\<rparr>\<rparr>"
  have f3: "esp s3 = esp s" "thread_ready_list s3 = ?r" "thread_all_list s3 = ?a" "pid_lock s3 = ?p" "console_lock s3 = ?c" "tasks s3 = tasks s"
    "next_pid s3 = next_pid s" "frames s3 = frames s" "idle_thread s3 = idle_thread s" "cr3 s3 = cr3 s" "eflags s3 = eflags s" "pmem s3 = pmem s"
    using q3(1) by (simp_all add: quiet_def)
  have sel: "running_thread ?s4 = main_pcb" "thread_ready_list ?s4 = ?r" "thread_all_list ?s4 = ?a" "pid_lock ?s4 = ?p"
    using run0 by (simp_all add: f3 running_thread_def)
  have "boot_tables ?s4" using quiet_boot_tables [OF q3(1)] B by (simp add: boot_tables_def)
  note w4 = main_walk [OF this]
  have fr: "frame_of (0x9e000 :: addr) = 0x9e000" by (simp add: frame_of_def)
  have "\<exists>m b pm x. thread_init ?s4 = Inr (?s4\<lparr>mem := m, bytes := b, pmem := pm, screen := x, sema_value := (sema_value ?s4)(?p + 4 := 1),
      lock_holder := (lock_holder ?s4)(?p := NULL), lock_repeat := (lock_repeat ?s4)(?p := 0), main_thread := main_pcb,
      tasks := (tasks ?s4)(main_pcb := fresh_task main_pcb (next_pid ?s4 + 1) TASK_RUNNING (bytes_of ''main'') 31), next_pid := next_pid ?s4 + 1\<rparr>) \<and>
    (\<forall>y. y \<notin> words 0x9e000 \<longrightarrow> pm y = pmem ?s4 y) \<and> (\<forall>y. \<not> in_block main_pcb 4096 y \<longrightarrow> b y = bytes ?s4 y) \<and>
    dlist m ?r [] \<and> dlist m ?a [all_list_tag main_pcb] \<and> m (?p + 12) = ?p + 16 \<and> m (?p + 16) = ?p + 8 \<and>
    (\<forall>y. \<not> in_block ?r 16 y \<and> \<not> in_block ?a 16 y \<and> \<not> in_block ?p 24 y \<and> \<not> in_block main_pcb 4096 y \<longrightarrow> m y = mem ?s4 y)"
  proof (rule thread_init_run [where s = ?s4 and F = "0x9e000", unfolded sel])
    show "page_walk ?s4 main_pcb = Some 0x9e000" by (rule w4)
    show "\<not> in_block ?a 16 x \<and> \<not> in_block ?p 24 x \<and> \<not> in_block main_pcb 4096 x" if "in_block ?r 16 x" for x
      using g [of x] mn [of x] that by auto
    show "\<not> in_block ?p 24 x \<and> \<not> in_block main_pcb 4096 x" if "in_block ?a 16 x" for x using g [of x] mn [of x] that by auto
    show "\<not> in_block main_pcb 4096 x" if "in_block ?p 24 x" for x using mn [of x] that by auto
  qed (fact main_pcb_page fr)+
  then obtain m5 b5 pm5 x5 where r5: "thread_init ?s4 = Inr (?s4\<lparr>mem := m5, bytes := b5, pmem := pm5, screen := x5, sema_value := (sema_value ?s4)(?p + 4 := 1),
      lock_holder := (lock_holder ?s4)(?p := NULL), lock_repeat := (lock_repeat ?s4)(?p := 0), main_thread := main_pcb,
      tasks := (tasks ?s4)(main_pcb := fresh_task main_pcb (next_pid ?s4 + 1) TASK_RUNNING (bytes_of ''main'') 31), next_pid := next_pid ?s4 + 1\<rparr>)"
    and p5: "\<forall>y. y \<notin> words 0x9e000 \<longrightarrow> pm5 y = pmem ?s4 y" and b5: "\<forall>y. \<not> in_block main_pcb 4096 y \<longrightarrow> b5 y = bytes ?s4 y"
    and l5: "dlist m5 ?r []" "dlist m5 ?a [all_list_tag main_pcb]" "lock_words m5 ?p"
    and m5: "\<And>y. \<not> in_block ?r 16 y \<Longrightarrow> \<not> in_block ?a 16 y \<Longrightarrow> \<not> in_block ?p 24 y \<Longrightarrow> \<not> in_block main_pcb 4096 y \<Longrightarrow> m5 y = m4 y"
    unfolding lock_words_def by auto
  let ?s5 = "?s4\<lparr>mem := m5, bytes := b5, pmem := pm5, screen := x5, sema_value := (sema_value ?s4)(?p + 4 := 1),
      lock_holder := (lock_holder ?s4)(?p := NULL), lock_repeat := (lock_repeat ?s4)(?p := 0), main_thread := main_pcb,
      tasks := (tasks ?s4)(main_pcb := fresh_task main_pcb (next_pid ?s4 + 1) TASK_RUNNING (bytes_of ''main'') 31), next_pid := next_pid ?s4 + 1\<rparr>"
  define s6 where "s6 = lock_init ?c ?s5"
  define s7 where "s7 = keyboard_init s6"
  define s8 where "s8 = put_line ''init_all done'' (syscall_init (rtc_init dev (tss_init tss_addr s7)))"
  have c6: "console_init ?s5 = s6" by (simp add: console_init_def s6_def f3)
  have run: "init_all iet sysc idt_addr tss_addr dev s = Inr s8"
    unfolding init_all_def Let_def s1_def [symmetric] s2_def [symmetric] s3_def [symmetric] r4(1) bind_r.simps r5 c6
    by (simp only: s7_def s8_def)
  have b6: "kbd_buf s6 = ?b" by (simp add: s6_def lock_init_eq q3(2))
  define t where "t = lock_init ?b s6"
  have "quiet t s7" using keyboard_init_eq(1) [of s6] unfolding b6 s7_def t_def .
  moreover have "quiet s7 s8" unfolding s8_def
    by (rule quiet_trans [OF quiet_rest(1) quiet_trans [OF quiet_rest(2) quiet_trans [OF quiet_rest(3) quiet_put_str]]])
  moreover have "kbd_buf s8 = kbd_buf s7" unfolding s8_def by (simp only: kbd_buf_put_str kbd_buf_rest)
  ultimately have q8: "quiet t s8" "kbd_buf s8 = ?b" using quiet_trans keyboard_init_eq(2) [of s6] b6 by (blast, simp add: s7_def)
  define m8 where "m8 = mem t"
  have t: "t = ?s5\<lparr>mem := m8, sema_value := (sema_value ?s5)(?c + 4 := 1, ?b + 4 := 1), lock_holder := (lock_holder ?s5)(?c := NULL, ?b := NULL),
      lock_repeat := (lock_repeat ?s5)(?c := 0, ?b := 0)\<rparr>"
    by (simp add: m8_def t_def s6_def lock_init_eq)
  have k8: "m8 x = m5 x" if "\<not> in_block ?c 24 x" "\<not> in_block ?b 24 x" for x
    unfolding m8_def t_def s6_def using that by (simp add: lock_init_off)
  have far: "m8 x = m4 x" if "\<not> in_block ?c 24 x" "\<not> in_block ?b 24 x" "\<not> in_block ?r 16 x" "\<not> in_block ?a 16 x" "\<not> in_block ?p 24 x" "\<not> in_block main_pcb 4096 x" for x
    using k8 [OF that(1,2)] m5 [OF that(3-6)] by simp
  have off: "in_block ?p 24 x \<Longrightarrow> \<not> in_block ?c 24 x \<and> \<not> in_block ?b 24 x" "in_block ?r 16 x \<Longrightarrow> \<not> in_block ?c 24 x \<and> \<not> in_block ?b 24 x"
    "in_block ?c 24 x \<Longrightarrow> \<not> in_block ?b 24 x" "in_block ?D 168 x \<Longrightarrow> \<not> in_block ?c 24 x \<and> \<not> in_block ?b 24 x \<and> \<not> in_block ?r 16 x \<and>
      \<not> in_block ?a 16 x \<and> \<not> in_block ?p 24 x" for x using g [of x] by auto
  have lw: "lock_words m8 l" if "l \<in> boot_locks s" for l
  proof -
    have "lock_words m8 ?k"
    proof (rule lock_words_keep [OF lock_words_init [of ?k s3]])
      show "m8 x = mem (lock_init ?k s3) x" if x: "in_block ?k 24 x" for x
      proof -
        have "m8 x = m4 x" by (rule far) (use g [of x] mn [of x] x in auto)
        also have "\<dots> = m3 x" using r4(3) g [of x] x by auto
        also have "\<dots> = mem (lock_init ?k s3) x" unfolding m3_def by (rule lock_init_off) (use g [of x] x in auto)
        finally show ?thesis .
      qed
    qed
    moreover have "lock_words m8 ?u"
    proof (rule lock_words_keep [OF lock_words_init [of ?u "lock_init ?k s3"]])
      show "m8 x = mem (lock_init ?u (lock_init ?k s3)) x" if x: "in_block ?u 24 x" for x
      proof -
        have "m8 x = m4 x" by (rule far) (use g [of x] mn [of x] x in auto)
        also have "\<dots> = m3 x" using r4(3) g [of x] x by auto
        finally show ?thesis by (simp only: m3_def)
      qed
    qed
    moreover have "lock_words m8 ?p" by (rule lock_words_keep [OF l5(3)]) (rule k8; simp add: off)
    moreover have "lock_words m8 ?c"
      by (rule lock_words_keep [OF lock_words_init [of ?c ?s5]]) (unfold m8_def t_def s6_def, rule lock_init_off, simp add: off)
    moreover have "lock_words m8 ?b" unfolding m8_def t_def by (rule lock_words_init)
    ultimately show ?thesis using that by (auto simp: boot_locks_def)
  qed
  have T: "mem t = m8" "bytes t = b5" "pmem t = pm5" "cr3 t = cr3 s" "esp t = esp s" "eflags t = eflags s" 
    "tasks t = (tasks s)(main_pcb := fresh_task main_pcb (next_pid s + 1) TASK_RUNNING (bytes_of ''main'') 31)"     "thread_ready_list t = ?r" "thread_all_list t = ?a" "pid_lock t = ?p"
    "console_lock t = ?c" "idle_thread t = idle_thread s" "main_thread t = main_pcb" "next_pid t = next_pid s + 1" "frames t = frames s"
    "kernel_pool t = boot_kpool ?M ?k" "user_pool t = boot_upool ?M ?u" "kernel_vaddr t = \<lparr>vaddr_bitmap = vbm ?M, vaddr_start = K_HEAP_STACK\<rparr>" "k_block_descs t = ?D"
    unfolding t by (simp_all add: f3 e3)
  have Q: "mem s8 = m8" "bytes s8 = b5" "pmem s8 = pm5" "cr3 s8 = cr3 s" "esp s8 = esp s" "eflags s8 = eflags s" 
    "tasks s8 = (tasks s)(main_pcb := fresh_task main_pcb (next_pid s + 1) TASK_RUNNING (bytes_of ''main'') 31)" "sema_value s8 = sema_value t"
    "lock_holder s8 = lock_holder t" "lock_repeat s8 = lock_repeat t" "thread_ready_list s8 = ?r" "thread_all_list s8 = ?a" "pid_lock s8 = ?p"
    "console_lock s8 = ?c" "idle_thread s8 = idle_thread s" "main_thread s8 = main_pcb" "next_pid s8 = next_pid s + 1" "frames s8 = frames s"
    "kernel_pool s8 = boot_kpool ?M ?k" "user_pool s8 = boot_upool ?M ?u" "kernel_vaddr s8 = \<lparr>vaddr_bitmap = vbm ?M, vaddr_start = K_HEAP_STACK\<rparr>" "k_block_descs s8 = ?D"
    using q8(1) unfolding quiet_def by (simp_all only: T)
  have fl: "free_lock l s8" if "l \<in> boot_locks s" for l
    using lw [OF that] that unfolding free_lock_def Q t lock_words_def by (auto simp: boot_locks_def)
  have us: "\<not> used s8 bm i" if "bm \<in> {kbm ?M, ubm ?M, vbm ?M}" "i < bm_bits bm" for bm i
  proof -
    have "b5 x = b4 x" if x: "x \<in> bm_bytes bm" for x
    proof -
      have "unat x < 0xc009e000" by (rule boot_bitmaps_low [of x ?M]) (use \<open>bm \<in> _\<close> x in auto)
      then have "\<not> in_block main_pcb 4096 x" by (auto simp: in_block_unat main_pcb_def)
      then show ?thesis using b5 by simp
    qed
    then have "used s8 bm i = used (s3\<lparr>bytes := b4\<rparr>) bm i"
      using used_byte_in_block [OF that(2)] by (simp add: used_def bm_bytes_def Q)
    then show ?thesis using r4(4) that by blast
  qed
  have dr: "dlist m8 ?r []" by (rule dlist_empty_keep [OF l5(1)]) (rule k8; simp add: off)
  have da: "dlist m8 ?a [all_list_tag main_pcb]"
  proof -
    have "m8 x = m5 x" if "x \<in> words_of (set (nodes ?a [all_list_tag main_pcb]))" for x
    proof -
      have "in_block ?a 16 x \<or> in_block main_pcb 4096 x"
        using that by (auto simp: words_of_def nodes_def all_list_tag_def in_block_def add.assoc)
      then have "\<not> in_block ?c 24 x \<and> \<not> in_block ?b 24 x" using g [of x] mn [of x] by auto
      then show ?thesis using k8 [of x] by blast
    qed
    then show ?thesis using dlist_frame l5(2) by blast
  qed
  have D8: "m8 x = m4 x" if "in_block ?D 168 x" for x by (rule far) (use off(4) [OF that] mn(3) [OF that] in simp_all)
  have dd: "desc_ok m8 (desc_at ?D i) i \<and> dlist m8 (desc_at ?D i + 8) []" if i: "i < 7" for i
  proof (rule desc_keep [where m = m4 and D = ?D, OF _ i D8])
    show "desc_ok m4 (desc_at ?D i) i \<and> dlist m4 (desc_at ?D i + 8) []" using r4(2) i by blast
  qed
  have "started s s8"
    unfolding started_def Q q8(2) using p5 lw fl us dr da dd by (simp add: f3)
  then show ?thesis using run by blast
qed

section \<open>The invariants\<close>

lemma blocks_apart:
  assumes "sorted_wrt apart_from bs" "p \<in> set bs" "p' \<in> set bs" "p \<noteq> p'"
  shows "apart_from p p'"
proof -
  obtain i j where ij: "i < length bs" "bs ! i = p" "j < length bs" "bs ! j = p'" using assms(2,3) by (auto simp: in_set_conv_nth)
  then have "i \<noteq> j" using assms(4) by auto
  then consider "i < j" | "j < i" by linarith
  then show ?thesis
    using sorted_wrt_nth_less [OF assms(1), of i j] sorted_wrt_nth_less [OF assms(1), of j i] ij by (auto simp: apart_from_sym)
qed

lemma started_sel:
  assumes "started s s'"
  shows "running_thread s' = running_thread s" "boot_locks s' = boot_locks s" "kernel_blocks s' = kernel_blocks s"
    "data_blocks (boot_locks s') s' = set (kernel_blocks s')" "status (tasks s' main_pcb) = TASK_RUNNING" "pgdir (tasks s' main_pcb) = NULL"
proof -
  have "pool_lock (kernel_pool s') = pool_lock (kernel_pool s)" "pool_lock (user_pool s') = pool_lock (user_pool s)"
    using assms by (simp_all add: started_def boot_kpool_def boot_upool_def)
  then show "running_thread s' = running_thread s" "boot_locks s' = boot_locks s" "kernel_blocks s' = kernel_blocks s"
    using assms by (simp_all add: started_def boot_locks_def kernel_blocks_def running_thread_def)
  show "data_blocks (boot_locks s') s' = set (kernel_blocks s')" by (auto simp: data_blocks_def kernel_blocks_def boot_locks_def)
  show "status (tasks s' main_pcb) = TASK_RUNNING" "pgdir (tasks s' main_pcb) = NULL"
    using assms by (simp_all add: started_def fresh_task_def Let_def)
qed

lemma started_layout:
  assumes "entered s" "started s s'"
  shows "kernel_layout {main_pcb} (boot_locks s') s'"
proof -
  have bs: "list_all in_image (kernel_blocks s')" "sorted_wrt apart_from (kernel_blocks s')"
    using assms(1) started_sel(3) [OF assms(2)] by (simp_all only: entered_def)
  have "apart_from (thread_ready_list s', 16) (thread_all_list s', 16)" using bs(2) by (simp only: kernel_blocks_def sorted_wrt.simps) simp
  then have ne: "thread_ready_list s' \<noteq> thread_all_list s'" by auto
  have "p \<in> set (kernel_blocks s') \<Longrightarrow> in_image p" for p using bs(1) by (simp only: list_all_iff)
  moreover have "0xc009e000 \<le> unat main_pcb" by (simp add: main_pcb_def)
  ultimately show ?thesis
    unfolding kernel_layout_def started_sel(4) [OF assms(2)] using blocks_apart [OF bs(2)] main_pcb_page(1) ne by blast
qed

lemma started_sched:
  assumes E: "entered s" and S: "started s s'"
  shows "sched_inv {main_pcb} (boot_locks s') (\<lambda>_. []) s'"
proof -
  let ?L = "boot_locks s'" and ?r = "thread_ready_list s'" and ?q = "\<lambda>_. [] :: addr list"
  note D = started_sel [OF S]
  have K: "kernel_layout {main_pcb} ?L s'" by (rule started_layout [OF E S])
  note lay = layout_ok_kernel [OF K]
  have run: "running_thread s' = main_pcb" using E D(1) by (simp add: entered_def)
  have fr: "frames s' main_pcb = []" "idle_thread s' = NULL" using E S by (simp_all add: entered_def started_def)
  have lk: "free_lock l s'" "lock_words (mem s') l" if "l \<in> ?L" for l using S that D(2) by (simp_all add: started_def)
  have nodes_nil: "set (nodes h []) = {h, h + 8}" for h by (auto simp: nodes_def)
  have q: "queues (mem s') (heads ?L ?r) ?q"
    unfolding queues_def
  proof (intro conjI ballI impI)
    show "dlist (mem s') h (?q h)" if "h \<in> heads ?L ?r" for h
      using that lock_words_dlist [OF lk(2)] S by (auto simp: heads_def started_def)
    show "set (nodes h (?q h)) \<inter> set (nodes k (?q k)) = {}" if "h \<in> heads ?L ?r" "k \<in> heads ?L ?r" "h \<noteq> k" for h k
      using lay that unfolding nodes_nil layout_ok_def by blast
    have "spaced (Sched_Inv.sentinels ?L ?r \<union> general_tag ` {main_pcb})" using lay unfolding layout_ok_def by blast
    then show "spaced (all_nodes (heads ?L ?r) ?q)" unfolding all_nodes_eq by (rule spaced_mono) auto
  qed
  have "queue_inv {main_pcb} ?L ?q main_pcb s'" using q D(5) by (simp add: queue_inv_def)
  moreover have "wake_inv {main_pcb} ?q l s'" for l by (simp add: wake_inv_def)
  moreover have "console_lock s' \<in> ?L" by (simp add: boot_locks_def)
  ultimately have "sched_core {main_pcb} ?L ?q main_pcb s'"
    using lay run fr by (simp add: sched_core_def open_frames_def)
  moreover have "lock_inv {main_pcb} l s'" if "l \<in> ?L" for l
    using lk(1) [OF that] fr(1) by (simp add: lock_inv_def lock_count_def free_lock_def)
  ultimately show ?thesis using run fr(1) D(5)
    by (simp add: sched_inv_def sched_inv0_def flag_ok_def closed_frames_def)
qed

lemma started_tables:
  assumes "entered s" "started s s'"
  shows "boot_tables s'"
proof -
  have fr: "frame_of (0x9e000 :: addr) = 0x9e000" by (simp add: frame_of_def)
  have p: "pmem s' (of_nat k * 0x1000 + of_nat i * 4) = pmem s (of_nat k * 0x1000 + of_nat i * 4)" if "256 \<le> k" "k < 512" "i < 1024" for k i
  proof -
    have e: "frame_of (of_nat k * 0x1000 :: addr) = of_nat k * 0x1000" "unat (of_nat k * 0x1000 :: addr) = k * 4096" using page_entry(3,4) [of k] that by simp_all
    have "of_nat k * 0x1000 \<noteq> (0x9e000 :: addr)"
    proof
      assume "of_nat k * 0x1000 = (0x9e000 :: addr)"
      then have "k * 4096 = 0x9e000" using e(2) by simp
      then show False using that by simp
    qed
    then have "of_nat k * 0x1000 + of_nat i * 4 \<notin> words 0x9e000" using words_iff [OF e(1) fr, of "of_nat i"] that by (simp add: unat_of_nat_lt)
    then show ?thesis using assms(2) by (simp add: started_def)
  qed
  note P = p [of 256, simplified] p [of 257, simplified] p
  have "boot_tables s" "cr3 s' = cr3 s" using assms by (simp_all add: entered_def started_def)
  then show ?thesis using P unfolding boot_tables_def by simp
qed

lemma started_heap_ok:
  assumes E: "entered s" and S: "started s s'"
  shows "kheap_idle s'" "heap_ok s' (\<lambda>_. None) (\<lambda>_. [])"
proof -
  let ?M = "mem s 0xb00" and ?D = "k_block_descs s'" and ?l = "pool_lock (kernel_pool s')"
  have va: "kernel_vaddr s' = \<lparr>vaddr_bitmap = vbm ?M, vaddr_start = K_HEAP_STACK\<rparr>" and D: "k_block_descs s' = k_block_descs s"
    and dd: "\<forall>i<7. desc_ok (mem s') (desc_at ?D i) i \<and> dlist (mem s') (desc_at ?D i + 8) []" using S by (simp_all add: started_def)
  have lim: "heap_limit s' = 0xc0100000" by (simp add: heap_limit_def va K_HEAP_STACK_def)
  have base: "heap_base s'" by (rule boot_heap_base [OF started_tables [OF E S]]) (use S in \<open>auto simp: started_def\<close>)
  note K = started_layout [OF E S]
  have blk: "(?D, 168) \<in> data_blocks (boot_locks s') s'" "(?l, 24) \<in> data_blocks (boot_locks s') s'" by (simp_all add: boot_locks_def)
  have img: "in_image (?D, 168)" "in_image (?l, 24)" using kernel_layoutD(4) [OF K] blk by blast+
  have ap: "apart_from (?D, 168) (?l, 24)" by (rule kernel_layoutD(6) [OF K blk]) simp
  have "heap_pages s' (\<lambda>_. None)" using img(1) by (simp add: heap_pages_def arenas_ok_def lim)
  moreover have "heap_words (mem s') ?D (\<lambda>_. None) (\<lambda>_. [])" using dd by (simp add: heap_words_def)
  ultimately show "heap_ok s' (\<lambda>_. None) (\<lambda>_. [])" using base by (simp add: heap_ok_def)
  show "kheap_idle s'"
  proof -
    have "free_lock ?l s'"
    proof -
      have "?l \<in> boot_locks s'" by (simp add: boot_locks_def)
      then show ?thesis using S started_sel(2) [OF S] by (auto simp: started_def)
    qed
    moreover have "168 \<le> unat (?l + 12 - ?D)"
    proof -
      have "unat (?l + 12) = unat ?l + 12" using image_word [OF img(2), of 12] by simp
      then have "\<not> in_block ?D 168 (?l + 12)" using ap img by (auto simp: in_block_unat)
      then show ?thesis by (simp add: in_block_def)
    qed
    moreover have "running_thread s' = main_pcb" using E started_sel(1) [OF S] by (simp add: entered_def)
    ultimately show ?thesis using img(2) started_sel(6) [OF S] main_pcb_page(2)
      by (simp add: kheap_idle_def Let_def lim K_HEAP_STACK_def)
  qed
qed

lemma live_none: "live (\<lambda>_. None) fl = (\<lambda>_. None)"
  by (simp add: live_def fun_eq_iff)

lemma started_heap: "entered s \<Longrightarrow> started s s' \<Longrightarrow> kernel_heap s' (\<lambda>_. None)"
  unfolding kernel_heap_def using started_heap_ok [of s s'] live_none by metis


section \<open>A machine that is switched on\<close>

text \<open>Memory is clear, but for the size the loader found (32 megabytes), and the linker has placed the blocks of the image.\<close>

definition cold_kernel :: syscalls where
  "cold_kernel = \<lparr>eflags = 2, mem = (\<lambda>_. 0)(0xb00 := 0x2000000), bytes = (\<lambda>_. 0), cr3 = 0, pmem = (\<lambda>_. 0), esp = 0xc009f000 - 0x40,
     tasks = (\<lambda>_. blank_task), sema_value = (\<lambda>_. 0), lock_holder = (\<lambda>_. NULL), lock_repeat = (\<lambda>_. 0),
     thread_ready_list = 0xc0008000, thread_all_list = 0xc0008020, pid_lock = 0xc0009040, console_lock = 0xc0009000, idle_thread = NULL,
     main_thread = NULL, thread_tag = NULL, next_pid = 0, total_ticks = 0, tss_esp0 = 0, screen = [], frames = (\<lambda>_. []),
     kernel_pool = \<lparr>pool_bitmap = \<lparr>btmp_bytes_len = 0, bits = NULL\<rparr>, phy_addr_start = 0, pool_size = 0, pool_lock = 0xc0009080\<rparr>,
     user_pool = \<lparr>pool_bitmap = \<lparr>btmp_bytes_len = 0, bits = NULL\<rparr>, phy_addr_start = 0, pool_size = 0, pool_lock = 0xc00090c0\<rparr>,
     kernel_vaddr = \<lparr>vaddr_bitmap = \<lparr>btmp_bytes_len = 0, bits = NULL\<rparr>, vaddr_start = 0\<rparr>, k_block_descs = 0xc0007000,
     out_log = [], idt = (\<lambda>_. make_idt_desc 0 0), intr_name = (\<lambda>_. ''''), idt_table = (\<lambda>_. Handler NULL), idtr = 0,
     gdt = (\<lambda>_. make_gdt_desc 0 0 0 0), gdtr = 0, task_register = 0, tss_ss0 = 0, tss_io_base = 0,
     ioq_producer = (\<lambda>_. NULL), ioq_consumer = (\<lambda>_. NULL), ioq_buf = (\<lambda>_ _. 0), ioq_head = (\<lambda>_. 0), ioq_tail = (\<lambda>_. 0),
     kbd_buf = 0xc0009100, ctrl_status = False, alt_status = False, shift_status = False, caps_lock_status = False, ext_scancode = False,
     syscall_table = (\<lambda>_. No_call)\<rparr>"

text \<open>What the loader makes of it.\<close>

definition loaded_kernel :: syscalls where
  "loaded_kernel = enter_paging PAGE_DIR_TABLE_POS (setup_page cold_kernel)"

lemma loaded_entered: "entered loaded_kernel"
proof -
  obtain p where p: "setup_page cold_kernel = cold_kernel\<lparr>pmem := p\<rparr>" using setup_page_run [of cold_kernel] by blast
  have e: "loaded_kernel = cold_kernel\<lparr>pmem := p, cr3 := PAGE_DIR_TABLE_POS\<rparr>" by (simp add: loaded_kernel_def enter_paging_def p)
  have "boot_tables loaded_kernel" unfolding loaded_kernel_def by (rule setup_page_tables) (simp add: cold_kernel_def)
  then show ?thesis
    by (simp add: entered_def e running_thread_def main_pcb_def kernel_blocks_def cold_kernel_def)
qed


lemma loaded_mem: "mem loaded_kernel = mem cold_kernel"
  using setup_page_run [of cold_kernel] by (auto simp: loaded_kernel_def enter_paging_def)

section \<open>Theorems\<close>

text \<open>C18. The first address space: when the memory of the page tables is clear, the tables that \<open>setup_page\<close> builds map the first
  megabyte at address 0 and again at 3 gigabytes, map the page directory into itself, and map nothing else.\<close>

theorem loader_address_space:
  fixes s :: "'z pgmachine_scheme"
  assumes "\<forall>k i. 257 \<le> k \<and> k < 512 \<and> i < 1024 \<longrightarrow> pmem s (of_nat k * 0x1000 + of_nat i * 4) = 0"
  defines "s' \<equiv> enter_paging PAGE_DIR_TABLE_POS (setup_page s)"
  shows "selfmap s' \<and> (\<forall>va. lower va \<longrightarrow> page_walk s' va = (if unat va < 0x100000 then Some va
     else if 0xc0000000 \<le> unat va \<and> unat va < 0xc0100000 then Some (va - 0xc0000000) else None))"
proof -
  have "boot_tables s'" unfolding s'_def by (rule setup_page_tables [OF assms(1)])
  from boot_tables_walk [OF this] boot_tables_sets(1) [OF this] show ?thesis by blast
qed

text \<open>C16. From the state in which the loader jumps to \<open>main\<close>, \<open>init_all\<close> returns, and the invariants of all components hold:
  the scheduler has the main thread as its only thread, running, with all locks free and all lists empty; the list of all
  threads holds the main thread; the heap is empty; no page of the pools or of the kernel's address space is in use.\<close>

theorem init_all_establishes:
  fixes s :: "'z syscalls_scheme"
  assumes "entered s"
  shows "\<exists>s'. init_all iet sysc idt_addr tss_addr dev s = Inr s' \<and> running_thread s' = main_pcb \<and>
    sched_inv {main_pcb} (boot_locks s') (\<lambda>_. []) s' \<and> kernel_layout {main_pcb} (boot_locks s') s' \<and>
    dlist (mem s') (thread_all_list s') [all_list_tag main_pcb] \<and> kernel_heap s' (\<lambda>_. None) \<and>
    (\<forall>bm\<in>{pool_bitmap (kernel_pool s'), pool_bitmap (user_pool s'), vaddr_bitmap (kernel_vaddr s')}. \<forall>i<bm_bits bm. \<not> used s' bm i)"
proof -
  obtain s' where r: "init_all iet sysc idt_addr tss_addr dev s = Inr s'" "started s s'" using init_all_run [OF assms] by blast
  have "running_thread s' = main_pcb" using assms started_sel(1) [OF r(2)] by (simp add: entered_def)
  moreover have "dlist (mem s') (thread_all_list s') [all_list_tag main_pcb]"
    "\<forall>bm\<in>{pool_bitmap (kernel_pool s'), pool_bitmap (user_pool s'), vaddr_bitmap (kernel_vaddr s')}. \<forall>i<bm_bits bm. \<not> used s' bm i"
    using r(2) by (simp_all add: started_def boot_kpool_def boot_upool_def)
  ultimately show ?thesis using r(1) started_sched [OF assms r(2)] started_layout [OF assms r(2)] started_heap [OF assms r(2)] by blast
qed

section \<open>Witnesses\<close>

theorem loader_address_space_witness:
  "page_walk loaded_kernel 0xc0001500 = Some 0x1500 \<and> page_walk loaded_kernel 0xc0100000 = None"
proof -
  have z: "\<forall>k i. 257 \<le> k \<and> k < 512 \<and> i < 1024 \<longrightarrow> pmem cold_kernel (of_nat k * 0x1000 + of_nat i * 4) = 0" by (simp add: cold_kernel_def)
  have low: "lower 0xc0001500" "lower 0xc0100000" by (rule lower_unat; simp)+
  from loader_address_space [OF z] low show ?thesis unfolding loaded_kernel_def by simp
qed

theorem init_all_establishes_witness:
  "\<exists>s'. init_all (\<lambda>_. 0) 0 0 0 (\<lambda>_ _. 0) loaded_kernel = Inr s' \<and> kernel_heap s' (\<lambda>_. None)"
  using init_all_establishes [OF loaded_entered] by blast


end
