(* ===== verification/Thread_Start.thy ===== *)
theory Thread_Start
  imports Boot_Props
begin

text \<open>
  \<open>thread_start\<close> on a running kernel: it keeps the invariants of the scheduler and of the heap and adds one ready thread.
\<close>

section \<open>One more thread\<close>

lemma layout_ready:
  assumes "layout_ok T L r" "l \<in> L"
  shows "l + 8 \<noteq> r"
  using assms by (auto simp: layout_ok_def)

lemma sched_add:
  fixes s s' :: "'z kernel_scheme"
  defines "r \<equiv> thread_ready_list s"
  assumes I: "sched_inv T L q s" and t: "t \<notin> T" "layout_ok (insert t T) L r"
    and eq: "esp s' = esp s" "eflags s' = eflags s" "thread_ready_list s' = r" "console_lock s' = console_lock s" "idle_thread s' = idle_thread s"
      "sema_value s' = sema_value s" "lock_holder s' = lock_holder s" "lock_repeat s' = lock_repeat s"
    and tk: "tasks s' = (tasks s)(t := \<tau>)" "status \<tau> = TASK_READY" "frame_of (self_kstack \<tau>) = t"
    and fr: "frames s' = (frames s)(t := [F_start f a])"
    and q: "queues (mem s') (heads L r) (q(r := q r @ [general_tag t]))"
  shows "sched_inv (insert t T) L (q(r := q r @ [general_tag t])) s'"
proof -
  let ?T = "insert t T" and ?q = "q(r := q r @ [general_tag t])" and ?c = "running_thread s"
  have run: "running_thread s' = ?c" by (simp add: running_thread_def eq)
  have I': "sched_core T L q ?c s" "\<forall>l\<in>L. lock_inv T l s" "flag_ok L s" "status (tasks s ?c) = TASK_RUNNING"
    using I by (simp_all add: sched_inv_def sched_inv0_def)
  note C = sched_coreD [OF I'(1)]
  have cT: "?c \<in> T" by (rule C(3))
  then have ct: "?c \<noteq> t" using t(1) by auto
  have ne: "l + 8 \<noteq> r" if "l \<in> L" for l by (rule layout_ready [OF t(2) that])
  have tasks_old: "tasks s' u = tasks s u" "frames s' u = frames s u" if "u \<in> T" for u using that t(1) tk(1) fr by auto
  have fin: "finite T" using C(1) by (simp add: layout_ok_def)
  have Q0: "queue_inv T L q ?c s" by (rule C(4))
  note Q = queue_invD [OF Q0, folded r_def]
  have sub: "set (q h) \<subseteq> general_tag ` T" if "h \<in> heads L r" for h using Q(2) that by blast
  have tag: "general_tag t \<notin> set (q h)" if "h \<in> heads L r" for h using sub [OF that] t(1) by auto
  have "queue_inv ?T L ?q ?c s'"
    unfolding queue_inv_def eq(3)
  proof (intro conjI ballI)
    show "queues (mem s') (heads L r) ?q" by (rule q)
    show "set (?q h) \<subseteq> general_tag ` ?T" if "h \<in> heads L r" for h using sub [OF that] by auto
    fix u assume u: "u \<in> ?T"
    show "(status (tasks s' u) = TASK_READY) = (general_tag u \<in> set (?q r))"
    proof (cases "u = t")
      case False
      then have "u \<in> T" using u by simp
      then show ?thesis using Q(3) [of u] False tasks_old [of u] by simp
    qed (simp add: tk)
    show "status (tasks s' u) = TASK_RUNNING \<longrightarrow> u = ?c"
    proof (cases "u = t")
      case False
      then have "u \<in> T" using u by simp
      then show ?thesis using Q(4) [of u] tasks_old [of u] by simp
    qed (simp add: tk)
  next
    fix l u assume l: "l \<in> L" and u: "u \<in> ?T"
    show "(general_tag u \<in> set (?q (l + 8))) = (status (tasks s' u) = TASK_BLOCKED \<and> waits_on (frames s' u) = Some (l + 4))"
    proof (cases "u = t")
      case True
      then show ?thesis using tag [of "l + 8"] ne [OF l] l tk by simp
    next
      case False
      then have "u \<in> T" using u by simp
      then show ?thesis using Q(5) [OF l, of u] ne [OF l] tasks_old [of u] by simp
    qed
  qed
  moreover have "open_frames L (frames s' u) \<or> closed_frames L (frames s' u)" "u \<noteq> ?c \<longrightarrow> closed_frames L (frames s' u)"
    "u \<noteq> ?c \<longrightarrow> frame_of (self_kstack (tasks s' u)) = u" if u: "u \<in> ?T" for u
  proof -
    have cl: "closed_frames L [F_start f a]" by (simp add: closed_frames_def)
    consider "u = t" | "u \<in> T" "u \<noteq> t" using u by auto
    then show "open_frames L (frames s' u) \<or> closed_frames L (frames s' u)" "u \<noteq> ?c \<longrightarrow> closed_frames L (frames s' u)"
      "u \<noteq> ?c \<longrightarrow> frame_of (self_kstack (tasks s' u)) = u"
      using C(6-8) [of u] cl tasks_old [of u] by (cases; simp add: fr tk)+
  qed
  moreover have "wake_inv ?T ?q l s'" if l: "l \<in> L" for l
    unfolding wake_inv_def eq
  proof
    assume "sema_value s (l + 4) \<noteq> 0 \<and> ?q (l + 8) \<noteq> []"
    then have "\<exists>u\<in>T. pending l (frames s u) \<and> awake (status (tasks s u))" using C(9) [OF l] ne [OF l] by (simp add: wake_inv_def)
    then obtain u where u: "u \<in> T" "pending l (frames s u)" "awake (status (tasks s u))" by blast
    then show "\<exists>u\<in>?T. pending l (frames s' u) \<and> awake (status (tasks s' u))"
      by (intro bexI [of _ u]) (simp_all add: tasks_old [OF u(1)])
  qed
  ultimately have core: "sched_core ?T L ?q ?c s'"
    using t(2) C(2,5) cT unfolding sched_core_def run eq by simp
  have "lock_inv ?T l s'" if l: "l \<in> L" for l
  proof -
    have "(\<Sum>u\<in>?T. tokens l (frames s' u)) = (\<Sum>u\<in>T. tokens l (frames s u))"
      using fin t(1) tasks_old(2) by (simp add: fr)
    then show ?thesis using I'(2) l by (auto simp: lock_inv_def lock_count_def eq)
  qed
  moreover have "flag_ok L s'" using I'(3) tasks_old(2) [OF cT] by (simp add: flag_ok_def run eq)
  ultimately show ?thesis using core I'(4) tasks_old(1) [OF cT] by (simp add: sched_inv_def sched_inv0_def run)
qed

section \<open>What is mapped stays mapped\<close>

lemma pt_step_keeps:
  fixes s :: "'z kmem_scheme"
  assumes inv: "mm_inv s" and st: "pt_step s s' va F T" and l: "lower va" "lower v" and un: "page_walk s va = None" and m: "page_walk s v = Some pa"
  shows "page_walk s' v = Some pa"
proof -
  obtain a where a: "slot s v = Some a" using m by (auto simp: walk_slot split: option.splits)
  obtain X where X: "table_of s v = Some X" "a = X + PTE_IDX v * 4" using a by (auto simp: slot_def)
  have X': "table_of s' v = Some X" by (rule pt_step_table [OF st l(2) X(1)])
  have T': "table_of s' va = Some T" using st l(1) by (simp add: pt_step_def)
  have "slot s' v \<noteq> slot s' va"
  proof
    assume e: "slot s' v = slot s' va"
    have sv: "slot s' v = Some a" by (simp add: slot_def X' X(2))
    then have sa: "slot s' va = Some a" using e by simp
    have p: "PTE_IDX v = PTE_IDX va" and t: "X = T" using slot_eq_table [OF sv sa] X' T' by simp_all
    have "X \<in> tables s" using X(1) l(2) by (auto simp: tables_def)
    then have ns: "T \<notin> spare s" using inv t unfolding mm_inv_def by blast
    from st ns have "table_of s va = Some T" by (cases rule: pt_step_alloc) (auto simp: spare_def)
    then have "slot s va = slot s v" using X(1) t p by (simp add: slot_def)
    then show False using un m unfolding walk_slot by (auto split: option.splits if_splits)
  qed
  then show ?thesis using pt_step_walk [OF st l(2)] m by simp
qed

lemma malloc_one_keeps:
  fixes s :: "'z kmem_scheme"
  assumes inv: "mm_inv s" and va: "vspace_ok s (kernel_vaddr s)" and j: "j < vbits (kernel_vaddr s)" "\<not> used s (vaddr_bitmap (kernel_vaddr s)) j"
    and room: "2 \<le> card (free_frames s (kernel_pool s))" and m: "malloc_pages PF_KERNEL 1 s = Inr (a, s')"
    and v: "lower v" "page_walk s v = Some pa"
  shows "page_walk s' v = Some pa"
proof -
  let ?va = "kernel_vaddr s"
  have vs: "vspace PF_KERNEL s = ?va" by (simp add: vspace_def)
  have fr: "free_run s (vaddr_bitmap ?va) (unat (1 :: u32)) j" using j(2) by (auto simp: free_run_def le_less_Suc_eq)
  have c: "1 \<le> unat (1 :: u32)" "j + unat (1 :: u32) \<le> vbits ?va" using j(1) by simp_all
  note ex = vaddr_get_run [where s = s and pf = PF_KERNEL and pg_cnt = 1, unfolded vs, OF inv va c fr, simplified pool_flags.distinct, OF FalseE]
  obtain k b where k: "k + unat (1 :: u32) \<le> vbits ?va" "free_run s (vaddr_bitmap ?va) (unat (1 :: u32)) k"
    and get: "vaddr_get PF_KERNEL 1 s = Inr (vpage ?va k, s\<lparr>bytes := b\<rparr>)" "mm_inv (s\<lparr>bytes := b\<rparr>)"
    and ff: "\<forall>q. free_frames (s\<lparr>bytes := b\<rparr>) (pool_of q s) = free_frames s (pool_of q s)"
    using ex by blast
  let ?s = "s\<lparr>bytes := b\<rparr>"
  have kb: "k < vbits ?va" "\<not> used s (vaddr_bitmap ?va) k" using k by (auto simp: free_run_def)
  note V = vspace_page [OF va kb(1)]
  have wk: "page_walk (s\<lparr>bytes := c\<rparr>) x = page_walk s x" for c x by (rule walk_cong) simp_all
  have "page_walk s (vpage ?va k) = None" using va kb unfolding vspace_ok_def by blast
  then have un: "page_walk ?s (vpage ?va k) = None" by (simp only: wk)
  have rm: "room PF_KERNEL (Suc 0) ?s" using room ff [rule_format, of PF_KERNEL] by (simp add: room_def pool_of_def)
  have ap: "apart ?s {}" by (simp add: apart_def)
  obtain F s1 s2 T c where F: "palloc (pool_of PF_KERNEL ?s) ?s = Inr (F, s1)" "F \<noteq> NULL" "page_table_add (vpage ?va k) F s1 = Inr s2"
    "s1 = ?s\<lparr>bytes := c\<rparr>" "pt_step s1 s2 (vpage ?va k) F T" using map_page [OF get(2) V(4) un ap rm] by blast
  have "s' = s2" using m get(1) F(1-3) V(3) by (simp add: malloc_pages_def pool_of_def)
  have "free_frames ?s (pool_of PF_KERNEL ?s) \<noteq> {}" using rm by (auto simp: room_def pool_of_def)
  from palloc_inv [OF get(2) this] F(1) have "mm_inv s1" by auto
  then have "page_walk s2 v = Some pa"
  proof (rule pt_step_keeps [OF _ F(5) V(4) v(1)])
    have e: "s1 = s\<lparr>bytes := c\<rparr>" using F(4) by simp
    show "page_walk s1 (vpage ?va k) = None" "page_walk s1 v = Some pa" unfolding e wk using un v(2) by (simp_all only: wk)
  qed
  then show ?thesis using \<open>s' = s2\<close> by simp
qed


section \<open>A page for a thread\<close>

lemma kernel_thread_page:
  fixes s :: "'z kmem_scheme"
  assumes H: "heap_ok s A fl" and room: "pages_free 1 s"
  shows "\<exists>t b p. get_kernel_pages 1 s = Inr (t, s\<lparr>mem := (\<lambda>x. if in_block t 4096 x then 0 else mem s x), bytes := b, pmem := p\<rparr>) \<and>
    heap_base (s\<lparr>bytes := b, pmem := p\<rparr>) \<and> page_run (s\<lparr>bytes := b, pmem := p\<rparr>) t 1 \<and> frame_of t = t \<and> t \<noteq> NULL \<and> heap_limit s \<le> unat t \<and>
    page_walk s t = None \<and>
    (\<forall>q \<kappa>. A q = Some \<kappa> \<longrightarrow> page_run (s\<lparr>bytes := b, pmem := p\<rparr>) q (span \<kappa>) \<and> t \<notin> set (pages q (span \<kappa>))) \<and>
    (\<forall>v pa. lower v \<and> page_walk s v = Some pa \<longrightarrow> page_walk (s\<lparr>bytes := b, pmem := p\<rparr>) v = Some pa) \<and>
    (\<forall>x. heap_limit s \<le> unat x \<and> \<not> in_block t 4096 x \<longrightarrow> b x = bytes s x)"
proof -
  let ?va = "kernel_vaddr s"
  have u1: "unat (1 :: u32) = 1" by simp
  obtain j where j: "j + 1 \<le> vbits ?va" "free_run s (vaddr_bitmap ?va) 1 j" and rm: "2 * 1 \<le> card (free_frames s (kernel_pool s))"
    using room by (auto simp: pages_free_def)
  obtain t s1 where m: "malloc_pages PF_KERNEL 1 s = Inr (t, s1)" "pt_frame s s1" and b1: "heap_base s1"
    and r1: "page_run s1 t 1" and t: "frame_of t = t" "t \<noteq> NULL" "heap_limit s \<le> unat t" "unat t + 1 * 4096 \<le> 2 ^ 32"
    and new: "\<forall>q\<in>set (pages t 1). page_walk s q = None"
    and old: "\<And>q \<kappa>. A q = Some \<kappa> \<Longrightarrow> page_run s1 q (span \<kappa>) \<and> set (pages t 1) \<inter> set (pages q (span \<kappa>)) = {}"
    and by1: "\<And>x. heap_limit s \<le> unat x \<Longrightarrow> bytes s1 x = bytes s x"
    using heap_malloc_pages [OF H, of 1 j, unfolded u1] j rm by auto
  obtain b' p' where s1: "s1 = s\<lparr>bytes := b', pmem := p'\<rparr>" using m(2) unfolding pt_frame_def by blast
  obtain p where ms: "memset_mem t 0 (of_nat 1 * PG_SIZE) s1 = Inr (s1\<lparr>mem := (\<lambda>x. if in_block t (1 * 4096) x then 0 else mem s1 x),
      bytes := (\<lambda>x. if in_block t (1 * 4096) x then 0 else bytes s1 x), pmem := p\<rparr>)"
    and p: "\<And>x. x \<notin> (\<Union>F\<in>data s1. words F) \<Longrightarrow> p x = pmem s1 x" using memset_run [OF b1 r1 t(2)] by auto
  define b where "b = (\<lambda>x. if in_block t 4096 x then 0 else b' x)"
  let ?s = "s\<lparr>bytes := b, pmem := p\<rparr>"
  have run: "get_kernel_pages 1 s = Inr (t, s\<lparr>mem := (\<lambda>x. if in_block t 4096 x then 0 else mem s x), bytes := b, pmem := p\<rparr>)"
    using m(1) ms t(2) by (simp add: get_kernel_pages_def s1 b_def cong: if_cong)
  have sel: "cr3 ?s = cr3 s1" "kernel_pool ?s = kernel_pool s1" "user_pool ?s = user_pool s1" "kernel_vaddr ?s = kernel_vaddr s1"
    "heap_limit s1 = heap_limit s" by (simp_all add: s1 heap_limit_def)
  have pm: "pmem ?s x = pmem s1 x" if "x \<notin> (\<Union>F\<in>data s1. words F)" for x using p [OF that] by simp
  have ib: "unat t \<le> unat x" if "in_block t 4096 x" for x using in_run(2) [OF t(1,4), of x] that by simp
  have lb: "bytes ?s x = bytes s1 x" if "unat x < heap_limit s1" for x
    using ib [of x] that t(3) sel(5) by (auto simp: b_def s1)
  have P: "heap_base ?s" "page_walk ?s v = page_walk s1 v" "page_run ?s q n = page_run s1 q n" for v q n
    by (rule page_write_base [OF b1 sel(1-4)], (erule pm lb)+)+
  have tp: "t \<in> set (pages t 1)" by (simp add: pages_head)
  have jb: "j < vbits ?va" "\<not> used s (vaddr_bitmap ?va) j" using j by (auto simp: free_run_def)
  have "page_walk ?s v = Some pa" if v: "lower v" "page_walk s v = Some pa" for v pa
  proof -
    have "page_walk s1 v = Some pa" by (rule malloc_one_keeps [OF heap_okD(1,2) [OF H] jb _ m(1) v]) (use rm in simp)
    then show ?thesis by (simp only: P(2))
  qed
  moreover have "\<forall>x. heap_limit s \<le> unat x \<and> \<not> in_block t 4096 x \<longrightarrow> b x = bytes s x" using by1 by (simp add: b_def s1)
  moreover have "page_run ?s q (span \<kappa>) \<and> t \<notin> set (pages q (span \<kappa>))" if "A q = Some \<kappa>" for q \<kappa>
    using old [OF that] tp P(3) by blast
  ultimately show ?thesis using run P(1) r1 P(3) t new tp by blast
qed


section \<open>Words of the lists\<close>

definition tag_word :: "addr set \<Rightarrow> nat set \<Rightarrow> addr \<Rightarrow> bool" where
  "tag_word T os x = (\<exists>u\<in>T. \<exists>k\<in>os. x = u + of_nat k)"

definition image_word_of :: "(addr \<times> nat) set \<Rightarrow> addr \<Rightarrow> bool" where
  "image_word_of B x = (\<exists>(a, n)\<in>B. \<exists>i<n. x = a + of_nat i)"

definition queue_blocks :: "addr set \<Rightarrow> 'z kmem_scheme \<Rightarrow> (addr \<times> nat) set" where
  "queue_blocks L s = insert (thread_ready_list s, 16) ((\<lambda>l. (l, 24)) ` L)"

lemma queue_words:
  assumes "x \<in> words_of (set (nodes h xs))" "h \<in> heads L (thread_ready_list s)" "set xs \<subseteq> general_tag ` T"
  shows "image_word_of (queue_blocks L s) x \<or> tag_word T {36, 40} x"
proof -
  let ?r = "thread_ready_list s"
  consider "x \<in> {h, h + 4, h + 8, h + 12}" | e where "e \<in> set xs" "x = e \<or> x = e + 4"
    using assms(1) by (auto simp: words_of_def set_nodes add.assoc)
  then show ?thesis
  proof cases
    case 1
    note x = 1
    consider "h = ?r" | l where "l \<in> L" "h = l + 8" using assms(2) by (auto simp: heads_def)
    then have "image_word_of (queue_blocks L s) x"
    proof cases
      case 1
      then have "\<exists>i<16. x = ?r + of_nat i" using x
        by (auto intro: exI [of _ "0 :: nat"] exI [of _ "4 :: nat"] exI [of _ "8 :: nat"] exI [of _ "12 :: nat"])
      then show ?thesis by (auto simp: image_word_of_def queue_blocks_def)
    next
      case (2 l)
      then have "\<exists>i<24. x = l + of_nat i" using x
        by (auto simp: add.assoc intro: exI [of _ "8 :: nat"] exI [of _ "12 :: nat"] exI [of _ "16 :: nat"] exI [of _ "20 :: nat"])
      then show ?thesis using 2(1) by (auto simp: image_word_of_def queue_blocks_def)
    qed
    then show ?thesis ..
  next
    case (2 e)
    then obtain u where "u \<in> T" "e = general_tag u" using assms(3) by auto
    then show ?thesis using 2(2) by (auto simp: tag_word_def general_tag_def add.assoc)
  qed
qed

lemma all_words:
  assumes "x \<in> words_of (set (nodes p (map all_list_tag us)))" "set us \<subseteq> T"
  shows "image_word_of {(p, 16)} x \<or> tag_word T {44, 48} x"
proof -
  consider "x \<in> {p, p + 4, p + 8, p + 12}" | u where "u \<in> set us" "x = all_list_tag u \<or> x = all_list_tag u + 4"
    using assms(1) by (auto simp: words_of_def set_nodes add.assoc)
  then show ?thesis
  proof cases
    case 1
    then have "\<exists>i<16. x = p + of_nat i"
      by (auto intro: exI [of _ "0 :: nat"] exI [of _ "4 :: nat"] exI [of _ "8 :: nat"] exI [of _ "12 :: nat"])
    then show ?thesis by (auto simp: image_word_of_def)
  next
    case (2 u)
    then show ?thesis using assms(2) by (auto simp: tag_word_def all_list_tag_def add.assoc)
  qed
qed

lemma tag_word_frame:
  assumes "\<forall>u\<in>T. frame_of u = u" "os \<subseteq> {..<4096}" "tag_word T os x"
  shows "frame_of x \<in> T" "unat x mod 4096 \<in> os"
proof -
  obtain u k where u: "u \<in> T" "k \<in> os" "x = u + of_nat k" using assms(3) by (auto simp: tag_word_def)
  then have k: "k < 4096" "frame_of u = u" using assms(1,2) by auto
  show "frame_of x \<in> T" "unat x mod 4096 \<in> os" using page_offset [OF k(2,1)] u by simp_all
qed

lemma image_word_low:
  assumes "\<forall>p\<in>B. in_image p" "image_word_of B x"
  shows "unat x < 0xc009a000"
proof -
  obtain a n i where a: "(a, n) \<in> B" "i < n" "x = a + of_nat i" using assms(2) by (auto simp: image_word_of_def)
  then have im: "in_image (a, n)" using assms(1) by blast
  then show ?thesis using image_word [OF im a(2)] a(3) a(2) by simp
qed

lemma image_words_apart:
  assumes K: "kernel_layout T L s" and B: "B \<subseteq> data_blocks L s" "C \<subseteq> data_blocks L s" "B \<inter> C = {}"
    and x: "image_word_of B x" "image_word_of C x"
  shows False
proof -
  obtain a n i b k j where a: "(a, n) \<in> B" "i < n" "x = a + of_nat i" and b: "(b, k) \<in> C" "j < k" "x = b + of_nat j"
    using x by (auto simp: image_word_of_def)
  have "a = b \<and> n = k \<and> i = j" by (rule block_words [OF K _ _ a(2) b(2)]) (use a b B in auto)
  then show False using a(1) b(1) B(3) by blast
qed

text \<open>A word of the image is in no page of a thread.\<close>

lemma image_not_thread:
  assumes K: "kernel_layout T L s" and x: "image_word_of B x" "B \<subseteq> data_blocks L s"
  shows "frame_of x \<notin> T"
proof
  assume t: "frame_of x \<in> T"
  have "\<forall>p\<in>B. in_image p" using kernel_layoutD(4) [OF K] x(2) by blast
  then have "unat x < 0xc009a000" by (rule image_word_low [OF _ x(1)])
  moreover have "unat (frame_of x) \<le> unat x" using div_times_less_eq_dividend [of "unat x" 4096] by (simp add: unat_frame_of)
  ultimately show False using kernel_layoutD(3) [OF K t] by simp
qed

text \<open>The words of the queues and those of the list of all threads are different.\<close>

lemma list_words_apart:
  assumes K: "kernel_layout T L s" and x: "image_word_of (queue_blocks L s) x \<or> tag_word T {36, 40} x"
    "image_word_of {(thread_all_list s, 16)} x \<or> tag_word T {44, 48} x"
  shows False
proof -
  have fr: "\<forall>u\<in>T. frame_of u = u" using kernel_layoutD(2) [OF K] by blast
  have sub: "queue_blocks L s \<subseteq> data_blocks L s" "{(thread_all_list s, 16)} \<subseteq> data_blocks L s" by (auto simp: queue_blocks_def)
  have dj: "queue_blocks L s \<inter> {(thread_all_list s, 16)} = {}" using kernel_layoutD(5) [OF K] by (auto simp: queue_blocks_def)
  have o: "{36, 40} \<subseteq> {..<4096 :: nat}" "{44, 48} \<subseteq> {..<4096 :: nat}" by auto
  note Q = tag_word_frame [OF fr o(1)] and A = tag_word_frame [OF fr o(2)]
  show False
    using x image_words_apart [OF K sub dj, of x] image_not_thread [OF K _ sub(1), of x] image_not_thread [OF K _ sub(2), of x] Q [of x] A [of x] by auto
qed

text \<open>What the heap keeps in memory is apart from both.\<close>

lemma heap_words_apart:
  assumes K: "kernel_layout T L s" and H: "arenas_ok (heap_limit s) D A" "D = k_block_descs s" "0xc0100000 \<le> heap_limit s"
    and T: "T \<inter> arena_pages A = {}"
    and x: "image_word_of (insert (thread_all_list s, 16) (queue_blocks L s)) x \<or> tag_word T {36, 40, 44, 48} x"
  shows "\<not> in_block D 168 x" "frame_of x \<notin> arena_pages A"
proof -
  let ?B = "insert (thread_all_list s, 16) (queue_blocks L s)"
  have fr: "\<forall>u\<in>T. frame_of u = u" using kernel_layoutD(2) [OF K] by blast
  have sub: "?B \<subseteq> data_blocks L s" "{(D, 168)} \<subseteq> data_blocks L s" by (auto simp: queue_blocks_def H(2))
  have dj: "?B \<inter> {(D, 168)} = {}" by (auto simp: queue_blocks_def)
  have o: "{36, 40, 44, 48} \<subseteq> {..<4096 :: nat}" by auto
  note F = tag_word_frame [OF fr o]
  show "\<not> in_block D 168 x"
  proof
    assume d: "in_block D 168 x"
    have "x = D + of_nat (unat (x - D))" by simp
    then have i: "image_word_of {(D, 168)} x" using d unfolding image_word_of_def in_block_def by blast
    then show False using x image_words_apart [OF K sub dj, of x] image_not_thread [OF K _ sub(2), of x] F [of x] by auto
  qed
  show "frame_of x \<notin> arena_pages A"
  proof (cases "tag_word T {36, 40, 44, 48} x")
    case True
    then show ?thesis using F(1) [of x] T by auto
  next
    case False
    then have i: "image_word_of ?B x" using x by simp
    have "\<forall>p\<in>?B. in_image p" using kernel_layoutD(4) [OF K] sub(1) by blast
    then have "unat x < 0xc009a000" by (rule image_word_low [OF _ i])
    then show ?thesis by (intro low_not_arena [OF H(1)]) (use H(3) in simp)
  qed
qed


lemma heap_words_frame:
  assumes W: "heap_words m D A fl" and ok: "arenas_ok lim D A"
    and m: "\<And>x. in_block D 168 x \<or> frame_of x \<in> arena_pages A \<Longrightarrow> m' x = m x"
  shows "heap_words m' D A fl"
proof -
  have ds: "m' (desc_at D i + of_nat r) = m (desc_at D i + of_nat r)" if "i < 7" "r < 24" for i r
  proof (rule m, rule disjI1)
    have e: "desc_at D i + of_nat r = D + of_nat (24 * i + r)" by (simp add: desc_at_def sizeof_desc_def)
    show "in_block D 168 (desc_at D i + of_nat r)" unfolding e by (rule in_block_offset) (use that in simp_all)
  qed
  have pg: "m' (a + of_nat r) = m (a + of_nat r)" if a: "A a = Some \<kappa>" "r < 4096" for a \<kappa> r
  proof (rule m, rule disjI2)
    have "a \<in> set (pages a (span \<kappa>))" using arenas_okD(5) [OF ok a(1)] by (rule pages_head)
    then show "frame_of (a + of_nat r) \<in> arena_pages A"
      using page_offset(1) [OF arenas_okD(2) [OF ok a(1)] a(2)] a(1) by (auto simp: arena_pages_def)
  qed
  have "desc_ok m' (desc_at D i) i" if i: "i < 7" for i
    using W ds [OF i, of 0] ds [OF i, of 4] i by (simp add: heap_words_def desc_ok_def heap_layout)
  moreover have "header_ok m' D fl a \<kappa>" if a: "A a = Some \<kappa>" for a \<kappa>
  proof -
    have "header_ok m D fl a \<kappa>" using W a by (simp add: heap_words_def)
    then show ?thesis using pg [OF a, of 0] pg [OF a, of 4] pg [OF a, of 8] by (cases \<kappa>) simp_all
  qed
  moreover have "dlist m' (desc_at D i + 8) (fl i)" if i: "i < 7" for i
  proof -
    have d: "dlist m (desc_at D i + 8) (fl i)" and fl: "set (fl i) \<subseteq> blocks_of A i" using W i by (simp_all add: heap_words_def)
    have "m' x = m x" if x: "x \<in> words_of (set (nodes (desc_at D i + 8) (fl i)))" for x
    proof -
      consider "x \<in> {desc_at D i + 8, desc_at D i + 12, desc_at D i + 16, desc_at D i + 20}" | b where "b \<in> set (fl i)" "x = b \<or> x = b + 4"
        using x by (auto simp: words_of_def set_nodes add.assoc)
      then show ?thesis
      proof cases
        case 1
        then show ?thesis using ds [OF i, of 8] ds [OF i, of 12] ds [OF i, of 16] ds [OF i, of 20] by auto
      next
        case (2 b)
        then obtain a j where a: "A a = Some (Blocks i)" "j < bcount i" "b = blk a i j" using fl by (auto simp: blocks_of_def)
        have "12 + j * bsize i + 4 < 4096" using bcount_fits [OF a(2)] bsize_le [OF i] by simp
        then show ?thesis using pg [OF a(1), of "12 + j * bsize i"] pg [OF a(1), of "12 + j * bsize i + 4"] 2(2) a(3)
          by (auto simp: blk_def add.assoc)
      qed
    qed
    then show ?thesis using dlist_frame d by blast
  qed
  ultimately show ?thesis using W by (simp add: heap_words_def)
qed

section \<open>The invariant of a running kernel\<close>

text \<open>
  The scheduler's invariant and the heap's, and what joins them: the threads \<open>ts\<close>, in the order of the list of all threads,
  are mapped pages that do not belong to the heap.
\<close>

definition kernel_state :: "addr set \<Rightarrow> (addr \<Rightarrow> addr list) \<Rightarrow> addr list \<Rightarrow> (addr \<Rightarrow> nat option) \<Rightarrow> 'z kmem_scheme \<Rightarrow> bool" where
  "kernel_state L q ts H s = (sched_inv (set ts) L q s \<and> kernel_layout (set ts) L s \<and> pool_lock (kernel_pool s) \<in> L \<and> pid_lock s \<in> L \<and>
     main_thread s \<in> set ts \<and> dlist (mem s) (thread_all_list s) (map all_list_tag ts) \<and>
     (\<forall>t\<in>set ts. lower t \<and> page_walk s t \<noteq> None) \<and> kheap_idle s \<and>
     (\<exists>A fl. heap_ok s A fl \<and> H = live A fl \<and> set ts \<inter> arena_pages A = {}))"

lemma kernel_state_heap: "kernel_state L q ts H s \<Longrightarrow> kernel_heap s H"
  by (auto simp: kernel_state_def kernel_heap_def)

text \<open>\<open>init_all\<close> establishes it.\<close>

lemma started_state:
  assumes E: "entered s" and S: "started s s'"
  shows "kernel_state (boot_locks s') (\<lambda>_. []) [main_pcb] (\<lambda>_. None) s'"
proof -
  have "dlist (mem s') (thread_all_list s') [all_list_tag main_pcb]" "main_thread s' = main_pcb" using S by (simp_all add: started_def)
  moreover have "page_walk s' main_pcb = Some 0x9e000" by (rule main_walk [OF started_tables [OF E S]])
  moreover have "\<exists>A fl. heap_ok s' A fl \<and> (\<lambda>_. None) = live A fl \<and> set [main_pcb] \<inter> arena_pages A = {}"
    using started_heap_ok(2) [OF E S] live_none by (intro exI conjI) (assumption, rule sym, assumption, simp add: arena_pages_def)
  ultimately show ?thesis using started_sched [OF E S] started_layout [OF E S] main_pcb_page(3) started_heap_ok(1) [OF E S]
    by (simp add: kernel_state_def boot_locks_def)
qed


section \<open>The two lists\<close>

lemma tag_word_mono: "tag_word T os x \<Longrightarrow> os \<subseteq> os' \<Longrightarrow> tag_word T os' x"
  by (auto simp: tag_word_def)

lemma fresh_all:
  assumes K: "kernel_layout T L s" and ts: "set ts \<subseteq> T" "t \<in> T" "t \<notin> set ts"
  shows "fresh_node (thread_all_list s) (map all_list_tag ts) (all_list_tag t)"
proof -
  let ?a = "thread_all_list s"
  have im: "in_image (?a, 16)" by (rule kernel_layoutD(4) [OF K]) simp
  have f: "frame_of (all_list_tag u) = u" "frame_of (all_list_tag u + 4) = u" if "u \<in> T" for u
    using page_offset(1) [OF kernel_layoutD(2) [OF K that], of 44] page_offset(1) [OF kernel_layoutD(2) [OF K that], of 48]
    by (simp_all add: all_list_tag_def add.assoc)
  have ai: "frame_of (?a + of_nat i) \<notin> T" if "i < 16" for i
    using image_not_thread [OF K, of "{(?a, 16)}" "?a + of_nat i"] that by (auto simp: image_word_of_def)
  have a: "frame_of ?a \<notin> T" "frame_of (?a + 4) \<notin> T" "frame_of (?a + 8) \<notin> T" "frame_of (?a + 12) \<notin> T"
    using ai [of 0] ai [of 4] ai [of 8] ai [of 12] by simp_all
  have "x \<noteq> y + 4" if x: "x \<in> {?a, ?a + 8} \<union> all_list_tag ` T" and y: "y \<in> {?a, ?a + 8} \<union> all_list_tag ` T" for x y
  proof
    assume e: "x = y + 4"
    consider "x \<in> {?a, ?a + 8}" "y \<in> {?a, ?a + 8}" | u where "x \<in> {?a, ?a + 8}" "u \<in> T" "y = all_list_tag u"
      | u where "u \<in> T" "x = all_list_tag u" "y \<in> {?a, ?a + 8}" | u v where "u \<in> T" "x = all_list_tag u" "v \<in> T" "y = all_list_tag v"
      using x y by blast
    then show False
    proof cases
      case 1
      then show False using e by auto
    next
      case (2 u)
      then have "frame_of x = u" using f(2) [OF 2(2)] e by simp
      then show False using a 2 by auto
    next
      case (3 u)
      then have "frame_of (y + 4) = u" using f(1) [OF 3(1)] e by simp
      then show False using a 3 by (auto simp: add.assoc)
    next
      case (4 u v)
      then have "u = v" using f(1) [OF 4(1)] f(2) [OF 4(3)] e by simp
      then show False using e 4 by simp
    qed
  qed
  then have sp: "spaced ({?a, ?a + 8} \<union> all_list_tag ` T)" by (simp add: spaced_def)
  have "all_list_tag t \<noteq> ?a" "all_list_tag t \<noteq> ?a + 8" using a f(1) [OF ts(2)] ts(2) by auto
  moreover have "all_list_tag t \<notin> all_list_tag ` set ts" using ts(3) by (auto simp: all_list_tag_def)
  ultimately show ?thesis using ts(1,2) by (auto simp: fresh_node_def set_nodes intro: spaced_mono [OF sp])
qed

lemma enlist_run:
  fixes s :: "'z kmem_scheme"
  defines "r \<equiv> thread_ready_list s" and "a \<equiv> thread_all_list s"
  assumes K: "kernel_layout (insert t (set ts)) L s" and t: "t \<notin> set ts"
    and q: "queues (mem s) (heads L r) q" "\<forall>h\<in>heads L r. set (q h) \<subseteq> general_tag ` set ts"
    and al: "dlist (mem s) a (map all_list_tag ts)"
  shows "\<exists>m. enlist t s = Inr (s\<lparr>mem := m\<rparr>) \<and> queues m (heads L r) (q(r := q r @ [general_tag t])) \<and>
    dlist m a (map all_list_tag (ts @ [t])) \<and>
    (\<forall>x. \<not> image_word_of (insert (a, 16) (queue_blocks L s)) x \<and> \<not> tag_word (insert t (set ts)) {36, 40, 44, 48} x \<longrightarrow> m x = mem s x)"
proof -
  let ?T = "insert t (set ts)" and ?e = "general_tag t" and ?f = "all_list_tag t" and ?H = "heads L r" and ?q = "q(r := q r @ [general_tag t])"
  note lay = layout_ok_kernel [OF K, folded r_def]
  have el: "\<forall>h\<in>?H. set (q h) \<subseteq> general_tag ` ?T" using q(2) by auto
  have no: "\<forall>h\<in>?H. ?e \<notin> set (q h)"
  proof (intro ballI notI)
    fix h assume "h \<in> ?H" "?e \<in> set (q h)"
    then have "?e \<in> general_tag ` set ts" using q(2) by blast
    then show False using t by auto
  qed
  have lk: "linkable ?H q ?e" by (rule layout_linkable [OF lay _ el no]) simp
  have rH: "r \<in> ?H" by simp
  define m1 where "m1 = append_m r ?e (mem s)"
  have q1: "queues m1 ?H ?q" unfolding m1_def by (rule queues_append [OF q(1) rH lk])
  have el1: "set (?q h) \<subseteq> general_tag ` ?T" if "h \<in> ?H" for h using el that by auto
  have W1: "m1 x = mem s x" if "\<not> (image_word_of (queue_blocks L s) x \<or> tag_word ?T {36, 40} x)" for x
  proof -
    have "x \<notin> words_of (insert ?e (set (nodes r (q r))))"
    proof
      assume "x \<in> words_of (insert ?e (set (nodes r (q r))))"
      then have "x \<in> words_of (set (nodes r (?q r)))" by (simp add: set_nodes_insert)
      from queue_words [OF this, of L s ?T] el1 [OF rH] that rH show False by (simp add: r_def)
    qed
    then show ?thesis using list_append_dlist(2) [OF queuesD(1) [OF q(1) rH] linkable_fresh [OF q(1) rH lk]] by (simp add: list_norm m1_def)
  qed
  have al1: "dlist m1 a (map all_list_tag ts)"
  proof -
    have "m1 x = mem s x" if x: "x \<in> words_of (set (nodes a (map all_list_tag ts)))" for x
      by (rule W1) (use list_words_apart [OF K, of x] all_words [OF x, of ?T] in \<open>auto simp: a_def\<close>)
    then show ?thesis using dlist_frame al by blast
  qed
  define m2 where "m2 = append_m a ?f m1"
  have fr: "fresh_node a (map all_list_tag ts) ?f" unfolding a_def by (rule fresh_all [OF K]) (use t in auto)
  have al1': "dlist (mem (s\<lparr>mem := m1\<rparr>)) a (map all_list_tag ts)" using al1 by simp
  note A = list_append_dlist [OF al1' fr]
  have al2: "dlist m2 a (map all_list_tag (ts @ [t]))" using A(1) by (simp add: list_norm m2_def)
  have W2: "m2 x = m1 x" if "\<not> (image_word_of {(a, 16)} x \<or> tag_word ?T {44, 48} x)" for x
  proof -
    have "x \<notin> words_of (insert ?f (set (nodes a (map all_list_tag ts))))"
    proof
      assume "x \<in> words_of (insert ?f (set (nodes a (map all_list_tag ts))))"
      then have "x \<in> words_of (set (nodes a (map all_list_tag (ts @ [t]))))" by (simp add: set_nodes_insert)
      from all_words [OF this, of ?T] that show False by auto
    qed
    then show ?thesis using A(2) by (simp add: list_norm m2_def)
  qed
  have q2: "queues m2 ?H ?q"
    unfolding queues_def
  proof (intro conjI ballI impI)
    show "dlist m2 h (?q h)" if h: "h \<in> ?H" for h
    proof -
      have "m2 x = m1 x" if x: "x \<in> words_of (set (nodes h (?q h)))" for x
        by (rule W2) (use list_words_apart [OF K, of x] queue_words [OF x, of L s ?T] el1 [OF h] h in \<open>auto simp: a_def r_def\<close>)
      then show ?thesis using dlist_frame queuesD(1) [OF q1 h] by blast
    qed
  qed (use q1 in \<open>simp_all add: queues_def\<close>)
  have "elem_find r ?e s = Some False" using queues_tests(1) [OF q(1) rH] no rH by simp
  moreover have "elem_find a ?f (s\<lparr>mem := m1\<rparr>) = Some False"
    using elem_find_dlist [OF al1', of ?f] fr by (auto simp: fresh_node_def set_nodes)
  ultimately have "enlist t s = Inr (s\<lparr>mem := m2\<rparr>)"
    by (simp add: enlist_def assert_absent_def list_norm Let_def m2_def m1_def r_def a_def)
  moreover have "m2 x = mem s x" if "\<not> image_word_of (insert (a, 16) (queue_blocks L s)) x" "\<not> tag_word ?T {36, 40, 44, 48} x" for x
  proof -
    have "\<not> image_word_of {(a, 16)} x" "\<not> image_word_of (queue_blocks L s) x" using that(1) by (auto simp: image_word_of_def)
    moreover have "\<not> tag_word ?T {36, 40} x" "\<not> tag_word ?T {44, 48} x" using that(2) by (auto simp: tag_word_def)
    ultimately show ?thesis using W1 [of x] W2 [of x] by simp
  qed
  ultimately show ?thesis using q2 al2 by blast
qed


section \<open>thread\_start\<close>

lemma kernel_layout_cong:
  "thread_ready_list s' = thread_ready_list s \<Longrightarrow> thread_all_list s' = thread_all_list s \<Longrightarrow> k_block_descs s' = k_block_descs s \<Longrightarrow>
    kernel_layout T L s' = kernel_layout T L s"
  by (simp add: kernel_layout_def data_blocks_def)

lemma free_lock_keep:
  fixes s s' :: "'z kernel_scheme"
  assumes "queues (mem s) (heads L r) q" "queues (mem s') (heads L r) q'" "l \<in> L" "q' (l + 8) = q (l + 8)"
    "sema_value s' = sema_value s" "lock_holder s' = lock_holder s" "lock_repeat s' = lock_repeat s" "free_lock l s"
  shows "free_lock l s'"
proof -
  have h: "l + 8 \<in> heads L r" using assms(3) by simp
  have "mem s' (l + 12) = l + 16 \<longleftrightarrow> mem s (l + 12) = l + 16"
    using queues_tests(2) [OF assms(1) h] queues_tests(2) [OF assms(2) h] assms(4) by (simp add: add.assoc)
  then show ?thesis using assms(5-8) by (simp add: free_lock_def)
qed

text \<open>The part of the run before the lists: all it writes to memory is in the page.\<close>

lemma thread_page_run:
  fixes s :: "'z kmem_scheme"
  assumes S: "kernel_state L q ts H s" and H: "heap_ok s A fl" "set ts \<inter> arena_pages A = {}" and l: "free_lock (pid_lock s) s"
    and room: "pages_free 1 s" and n: "length name < 16"
  shows "\<exists>t m b p. thread_start kt name prio function func_arg s =
      bind_r (enlist t (s\<lparr>mem := m, bytes := b, pmem := p, next_pid := next_pid s + 1, frames := (frames s)(t := [F_start function func_arg]),
        tasks := (tasks s)(t := (fresh_task t (next_pid s + 1) TASK_READY name (ucast prio))\<lparr>self_kstack := first_stack t\<rparr>)\<rparr>)) (\<lambda>s. Inr (t, s)) \<and>
    frame_of t = t \<and> lower t \<and> heap_limit s \<le> unat t \<and> t \<notin> set ts \<and> t \<notin> arena_pages A \<and>
    heap_base (s\<lparr>bytes := b, pmem := p\<rparr>) \<and> (\<forall>q \<kappa>. A q = Some \<kappa> \<longrightarrow> page_run (s\<lparr>bytes := b, pmem := p\<rparr>) q (span \<kappa>)) \<and>
    (\<forall>u\<in>insert t (set ts). page_walk (s\<lparr>bytes := b, pmem := p\<rparr>) u \<noteq> None) \<and>
    (\<forall>x. \<not> in_block t 4096 x \<longrightarrow> m x = mem s x \<and> (heap_limit s \<le> unat x \<longrightarrow> b x = bytes s x)) \<and>
    m (ts_eip (first_stack t)) = kt \<and> m (ts_function (first_stack t)) = function \<and> m (ts_func_arg (first_stack t)) = func_arg"
proof -
  have K: "kernel_layout (set ts) L s" and pl: "pid_lock s \<in> L" and mt: "main_thread s \<in> set ts"
    and low: "\<And>u. u \<in> set ts \<Longrightarrow> lower u \<and> page_walk s u \<noteq> None" and idle: "kheap_idle s"
    using S by (simp_all add: kernel_state_def)
  have lim: "0xc0100000 \<le> heap_limit s" and run: "running_thread s \<noteq> NULL" using idle by (simp_all add: kheap_idle_def Let_def K_HEAP_STACK_def)
  define m1 where "m1 t = (\<lambda>x. if in_block t 4096 x then 0 else mem s x)" for t
  obtain t b1 p1 where g: "get_kernel_pages 1 s = Inr (t, s\<lparr>mem := m1 t, bytes := b1, pmem := p1\<rparr>)"
    and hb: "heap_base (s\<lparr>bytes := b1, pmem := p1\<rparr>)" "page_run (s\<lparr>bytes := b1, pmem := p1\<rparr>) t 1"
    and t: "frame_of t = t" "t \<noteq> NULL" "heap_limit s \<le> unat t" "page_walk s t = None"
    and old: "\<And>q \<kappa>. A q = Some \<kappa> \<Longrightarrow> page_run (s\<lparr>bytes := b1, pmem := p1\<rparr>) q (span \<kappa>) \<and> t \<notin> set (pages q (span \<kappa>))"
    and keep: "\<And>v pa. lower v \<Longrightarrow> page_walk s v = Some pa \<Longrightarrow> page_walk (s\<lparr>bytes := b1, pmem := p1\<rparr>) v = Some pa"
    and b1: "\<And>x. heap_limit s \<le> unat x \<Longrightarrow> \<not> in_block t 4096 x \<Longrightarrow> b1 x = bytes s x"
    using kernel_thread_page [OF H(1) room] unfolding m1_def by blast
  let ?s1 = "s\<lparr>bytes := b1, pmem := p1\<rparr>" and ?s2 = "s\<lparr>mem := m1 t, bytes := b1, pmem := p1\<rparr>"
  have nt: "t \<notin> set ts" using low [of t] t(4) by auto
  have tp: "t \<in> set (pages t 1)" by (simp add: pages_head)
  obtain F where F: "page_walk ?s1 t = Some F" "frame_of F = F" "F \<in> data ?s1" "lower t" using page_run_walk [OF hb tp] by metis
  have w2: "page_walk ?s2 t = Some F" using F(1) walk_cong(1) [of ?s2 ?s1 t] by simp
  have img: "in_image (pid_lock s, 24)" by (rule kernel_layoutD(4) [OF K]) (use pl in simp)
  have po: "off_page t (pid_lock s + 12)" using page_not_image(2) [OF t(1) _ img, of 12] t(3) lim by simp
  have blk: "\<not> in_block t 240 (pid_lock s + 12)" "m1 t (pid_lock s + 12) = mem s (pid_lock s + 12)"
    using po by (simp_all add: off_page_def in_block_def m1_def)
  have l2: "free_lock (pid_lock ?s2) ?s2" using l blk(2) by (simp add: free_lock_def)
  have r2: "running_thread ?s2 \<noteq> NULL" using run by (simp add: running_thread_def)
  have bl2: "\<not> in_block t 240 (pid_lock ?s2 + 12)" using blk(1) by simp
  obtain p2 where it: "init_thread t name (ucast prio) ?s2 = Inr (?s2\<lparr>mem := (\<lambda>x. if in_block t 240 x then 0 else mem ?s2 x),
      bytes := (\<lambda>x. if in_block t 240 x then 0 else bytes ?s2 x), pmem := p2,
      tasks := (tasks ?s2)(t := fresh_task t (next_pid ?s2 + 1) (if t = main_thread ?s2 then TASK_RUNNING else TASK_READY) name (ucast prio)),
      next_pid := next_pid ?s2 + 1\<rparr>)" and p2: "\<forall>x. x \<notin> words F \<longrightarrow> p2 x = pmem ?s2 x"
    using init_thread_run [OF w2 t(1) F(2) t(2) n l2 bl2 r2] by blast
  have m3: "(\<lambda>x. if in_block t 240 x then 0 else m1 t x) = m1 t"
    using in_block_mono [of t 240 _ 4096] by (auto simp: m1_def fun_eq_iff)
  define b where "b = (\<lambda>x. if in_block t 240 x then 0 else b1 x)"
  define \<tau> where "\<tau> = fresh_task t (next_pid s + 1) TASK_READY name (ucast prio)"
  have tm: "t \<noteq> main_thread s" using nt mt by auto
  let ?s3 = "s\<lparr>mem := m1 t, bytes := b, pmem := p2, tasks := (tasks s)(t := \<tau>), next_pid := next_pid s + 1\<rparr>"
  have i3: "init_thread t name (ucast prio) ?s2 = Inr ?s3" using it tm by (simp add: m3 b_def \<tau>_def cong: if_cong)
  have k3: "self_kstack (tasks ?s3 t) = t + PG_SIZE" by (simp add: \<tau>_def fresh_task_def Let_def)
  obtain m where c: "thread_create kt t function func_arg ?s3 = ?s3\<lparr>mem := m, tasks := (tasks ?s3)(t := (tasks ?s3 t)\<lparr>self_kstack := first_stack t\<rparr>),
      frames := (frames ?s3)(t := [F_start function func_arg])\<rparr>"
    and m: "m (ts_eip (first_stack t)) = kt" "m (ts_function (first_stack t)) = function" "m (ts_func_arg (first_stack t)) = func_arg"
      "\<forall>x. \<not> in_block (first_stack t) 32 x \<longrightarrow> m x = mem ?s3 x"
    using thread_create_run [OF k3, of kt "function" func_arg] by auto
  let ?s4 = "s\<lparr>mem := m, bytes := b, pmem := p2, next_pid := next_pid s + 1, frames := (frames s)(t := [F_start function func_arg]),
        tasks := (tasks s)(t := \<tau>\<lparr>self_kstack := first_stack t\<rparr>)\<rparr>"
  have c4: "thread_create kt t function func_arg ?s3 = ?s4" unfolding c by simp
  have run4: "thread_start kt name prio function func_arg s = bind_r (enlist t ?s4) (\<lambda>s. Inr (t, s))"
    unfolding thread_start_def g bind_r.simps prod.case i3 Let_def c4 ..
  have mo: "m x = mem s x" if x: "\<not> in_block t 4096 x" for x
  proof -
    have "\<not> in_block (first_stack t) 32 x"
    proof
      assume "in_block (first_stack t) 32 x"
      then have d: "unat (x - (t + 3664)) < 32" by (simp add: first_stack_in in_block_def)
      have "x - t = (x - (t + 3664)) + of_nat 3664" by simp
      then have "unat (x - t) = unat (x - (t + 3664)) + 3664" using unat_add_of_nat [of "x - (t + 3664)" 3664] d by simp
      then show False using d x by (simp add: in_block_def)
    qed
    then show ?thesis using m(4) x by (simp add: m1_def)
  qed
  have bo: "b x = bytes s x" if "heap_limit s \<le> unat x" "\<not> in_block t 4096 x" for x
    using b1 [OF that] in_block_mono [of t 240 x 4096] that(2) by (auto simp: b_def)
  have P: "heap_base (s\<lparr>bytes := b, pmem := p2\<rparr>)" "page_walk (s\<lparr>bytes := b, pmem := p2\<rparr>) v = page_walk ?s1 v"
    "page_run (s\<lparr>bytes := b, pmem := p2\<rparr>) q n = page_run ?s1 q n" for v q n
  proof -
    have pm: "pmem (s\<lparr>bytes := b, pmem := p2\<rparr>) x = pmem ?s1 x" if "x \<notin> (\<Union>F\<in>data ?s1. words F)" for x using p2 F(3) that by auto
    have lb: "bytes (s\<lparr>bytes := b, pmem := p2\<rparr>) x = bytes ?s1 x" if "unat x < heap_limit ?s1" for x
    proof -
      have "off_page t x" by (rule off_page_unat [OF t(1)]) (use that t(3) in \<open>simp add: heap_limit_def\<close>)
      then show ?thesis by (simp add: b_def off_page_def in_block_def)
    qed
    show "heap_base (s\<lparr>bytes := b, pmem := p2\<rparr>)" "page_walk (s\<lparr>bytes := b, pmem := p2\<rparr>) v = page_walk ?s1 v"
      "page_run (s\<lparr>bytes := b, pmem := p2\<rparr>) q n = page_run ?s1 q n"
      by (rule page_write_base [OF hb(1)], simp, simp, simp, simp, erule pm, erule lb)+
  qed
  have wk: "page_walk ?s1 u \<noteq> None" if u: "u \<in> insert t (set ts)" for u
  proof (cases "u = t")
    case False
    then obtain pa where "lower u" "page_walk s u = Some pa" using low [of u] u by auto
    then show ?thesis using keep by simp
  qed (use F(1) in simp)
  have na: "t \<notin> arena_pages A" using old by (auto simp: arena_pages_def)
  show ?thesis
  proof (rule exI [of _ t], rule exI [of _ m], rule exI [of _ b], rule exI [of _ p2], intro conjI)
    show "thread_start kt name prio function func_arg s = bind_r (enlist t
        (s\<lparr>mem := m, bytes := b, pmem := p2, next_pid := next_pid s + 1, frames := (frames s)(t := [F_start function func_arg]),
          tasks := (tasks s)(t := (fresh_task t (next_pid s + 1) TASK_READY name (ucast prio))\<lparr>self_kstack := first_stack t\<rparr>)\<rparr>)) (\<lambda>s. Inr (t, s))"
      using run4 unfolding \<tau>_def .
    show "\<forall>q \<kappa>. A q = Some \<kappa> \<longrightarrow> page_run (s\<lparr>bytes := b, pmem := p2\<rparr>) q (span \<kappa>)" using old P(3) by blast
    show "\<forall>u\<in>insert t (set ts). page_walk (s\<lparr>bytes := b, pmem := p2\<rparr>) u \<noteq> None" using wk P(2) by simp
    show "\<forall>x. \<not> in_block t 4096 x \<longrightarrow> m x = mem s x \<and> (heap_limit s \<le> unat x \<longrightarrow> b x = bytes s x)" using mo bo by blast
  qed (fact t(1) F(4) t(3) nt na P(1) m(1-3))+
qed


lemma kernel_layout_insert:
  assumes "kernel_layout T L s" "frame_of t = t" "0xc009e000 \<le> unat t"
  shows "kernel_layout (insert t T) L s"
  using assms unfolding kernel_layout_def by (metis (no_types, lifting) finite_insert insert_iff)

text \<open>The words of the new thread's stack are in no list.\<close>

lemma stack_not_list:
  assumes K: "kernel_layout T L s" and t: "t \<in> T" and i: "52 \<le> i" "i < 4096" and B: "B \<subseteq> data_blocks L s"
  shows "\<not> image_word_of B (t + of_nat i)" "\<not> tag_word T {36, 40, 44, 48} (t + of_nat i)"
proof -
  have fr: "\<forall>u\<in>T. frame_of u = u" using kernel_layoutD(2) [OF K] by blast
  have ft: "frame_of t = t" using fr t by blast
  note o = page_offset [OF ft i(2)]
  show "\<not> image_word_of B (t + of_nat i)" using image_not_thread [OF K _ B, of "t + of_nat i"] o(1) t by auto
  have os: "{36, 40, 44, 48} \<subseteq> {..<4096 :: nat}" by auto
  show "\<not> tag_word T {36, 40, 44, 48} (t + of_nat i)"
  proof
    assume "tag_word T {36, 40, 44, 48} (t + of_nat i)"
    from tag_word_frame(2) [OF fr os this] have "i \<in> {36, 40, 44, 48}" unfolding o(2,3) .
    then show False using i by auto
  qed
qed

lemma thread_start_run:
  fixes s :: "'z kmem_scheme"
  defines "r \<equiv> thread_ready_list s"
  assumes S: "kernel_state L q ts H s" and l: "free_lock (pid_lock s) s" and room: "pages_free 1 s" and n: "length name < 16"
  shows "\<exists>t s'. thread_start kt name prio function func_arg s = Inr (t, s') \<and> t \<notin> set ts \<and>
    kernel_state L (q(r := q r @ [general_tag t])) (ts @ [t]) H s' \<and> (\<forall>k\<in>L. free_lock k s \<longrightarrow> free_lock k s') \<and>
    pid_lock s' = pid_lock s \<and> console_lock s' = console_lock s \<and>
    tasks s' = (tasks s)(t := (fresh_task t (next_pid s + 1) TASK_READY name (ucast prio))\<lparr>self_kstack := first_stack t\<rparr>) \<and>
    frames s' = (frames s)(t := [F_start function func_arg]) \<and> running_thread s' = running_thread s \<and> thread_ready_list s' = r \<and>
    mem s' (ts_eip (first_stack t)) = kt \<and> mem s' (ts_function (first_stack t)) = function \<and> mem s' (ts_func_arg (first_stack t)) = func_arg \<and>
    (\<forall>c k. H c = Some k \<longrightarrow> heap_content c k s' = heap_content c k s)"
proof -
  let ?T = "insert t (set ts)" and ?a = "thread_all_list s"
  obtain A fl where A: "heap_ok s A fl" "H = live A fl" "set ts \<inter> arena_pages A = {}" using S by (auto simp: kernel_state_def)
  have I: "sched_inv (set ts) L q s" and K: "kernel_layout (set ts) L s" and kl: "pool_lock (kernel_pool s) \<in> L" and pl: "pid_lock s \<in> L"
    and mt: "main_thread s \<in> set ts" and al: "dlist (mem s) ?a (map all_list_tag ts)"
    and low: "\<And>u. u \<in> set ts \<Longrightarrow> lower u" and idle: "kheap_idle s"
    using S by (simp_all add: kernel_state_def)
  have lim: "0xc0100000 \<le> heap_limit s" using idle by (simp add: kheap_idle_def Let_def K_HEAP_STACK_def)
  obtain t m b p where run: "thread_start kt name prio function func_arg s =
      bind_r (enlist t (s\<lparr>mem := m, bytes := b, pmem := p, next_pid := next_pid s + 1, frames := (frames s)(t := [F_start function func_arg]),
        tasks := (tasks s)(t := (fresh_task t (next_pid s + 1) TASK_READY name (ucast prio))\<lparr>self_kstack := first_stack t\<rparr>)\<rparr>)) (\<lambda>s. Inr (t, s))"
    and t: "frame_of t = t" "lower t" "heap_limit s \<le> unat t" "t \<notin> set ts" "t \<notin> arena_pages A"
    and hb: "heap_base (s\<lparr>bytes := b, pmem := p\<rparr>)" "\<forall>q \<kappa>. A q = Some \<kappa> \<longrightarrow> page_run (s\<lparr>bytes := b, pmem := p\<rparr>) q (span \<kappa>)"
    and wk: "\<forall>u\<in>insert t (set ts). page_walk (s\<lparr>bytes := b, pmem := p\<rparr>) u \<noteq> None"
    and m: "\<And>x. \<not> in_block t 4096 x \<Longrightarrow> m x = mem s x" and b: "\<And>x. \<not> in_block t 4096 x \<Longrightarrow> heap_limit s \<le> unat x \<Longrightarrow> b x = bytes s x"
    and st: "m (ts_eip (first_stack t)) = kt" "m (ts_function (first_stack t)) = function" "m (ts_func_arg (first_stack t)) = func_arg"
    using thread_page_run [OF S A(1,3) l room n, of kt prio "function" func_arg] by blast
  define \<tau> where "\<tau> = (fresh_task t (next_pid s + 1) TASK_READY name (ucast prio))\<lparr>self_kstack := first_stack t\<rparr>"
  let ?s4 = "s\<lparr>mem := m, bytes := b, pmem := p, next_pid := next_pid s + 1, frames := (frames s)(t := [F_start function func_arg]),
        tasks := (tasks s)(t := \<tau>)\<rparr>"
  let ?T = "insert t (set ts)"
  have K1: "kernel_layout ?T L s" by (rule kernel_layout_insert [OF K t(1)]) (use t(3) lim in simp)
  have K4: "kernel_layout ?T L ?s4" using K1 kernel_layout_cong [of ?s4 s] by simp
  have off: "m x = mem s x" if "frame_of x \<noteq> t" for x by (rule m) (use not_in_page [OF t(1) that] in \<open>simp add: off_page_def in_block_def\<close>)
  have frT: "\<forall>u\<in>set ts. frame_of u = u" using kernel_layoutD(2) [OF K] by blast
  have qi: "queue_inv (set ts) L q (running_thread s) s" using I by (simp add: sched_inv_def sched_inv0_def sched_core_def)
  note Q = queue_invD(1,2) [OF qi, folded r_def]
  have lw: "m x = mem s x" if "image_word_of B x \<and> B \<subseteq> data_blocks L s \<or> tag_word (set ts) {36, 40} x \<or> tag_word (set ts) {44, 48} x" for x B
  proof (rule off)
    have o: "{36, 40} \<subseteq> {..<4096 :: nat}" "{44, 48} \<subseteq> {..<4096 :: nat}" by auto
    show "frame_of x \<noteq> t" using that t(4) image_not_thread [OF K1, of B x] tag_word_frame(1) [OF frT o(1), of x] tag_word_frame(1) [OF frT o(2), of x] by auto
  qed
  have sub: "queue_blocks L s \<subseteq> data_blocks L s" "{(?a, 16)} \<subseteq> data_blocks L s" "insert (?a, 16) (queue_blocks L s) \<subseteq> data_blocks L s"
    by (auto simp: queue_blocks_def)
  have q4: "queues m (heads L r) q"
    unfolding queues_def
  proof (intro conjI ballI impI)
    show "dlist m h (q h)" if h: "h \<in> heads L r" for h
    proof -
      have "m x = mem s x" if x: "x \<in> words_of (set (nodes h (q h)))" for x
        by (rule lw [of "queue_blocks L s"]) (use queue_words [OF x, of L s "set ts"] h Q(2) sub(1) in \<open>auto simp: r_def\<close>)
      then show ?thesis using dlist_frame queuesD(1) [OF Q(1) h] by blast
    qed
  qed (use Q(1) in \<open>simp_all add: queues_def\<close>)
  have al4: "dlist m ?a (map all_list_tag ts)"
  proof -
    have "m x = mem s x" if x: "x \<in> words_of (set (nodes ?a (map all_list_tag ts)))" for x
      by (rule lw [of "{(?a, 16)}"]) (use all_words [OF x subset_refl] sub(2) in auto)
    then show ?thesis using dlist_frame al by blast
  qed
  obtain m' where e: "enlist t ?s4 = Inr (?s4\<lparr>mem := m'\<rparr>)" and q': "queues m' (heads L r) (q(r := q r @ [general_tag t]))"
    and al': "dlist m' ?a (map all_list_tag (ts @ [t]))"
    and m': "\<And>x. \<not> image_word_of (insert (?a, 16) (queue_blocks L s)) x \<Longrightarrow> \<not> tag_word ?T {36, 40, 44, 48} x \<Longrightarrow> m' x = m x"
    using enlist_run [OF K4 t(4), of q] q4 al4 Q(2) by (auto simp: queue_blocks_def r_def)
  let ?s = "?s4\<lparr>mem := m'\<rparr>" and ?q = "q(r := q r @ [general_tag t])"
  have runS: "thread_start kt name prio function func_arg s = Inr (t, ?s)" unfolding run \<tau>_def [symmetric] e by simp
  have rs: "running_thread ?s = running_thread s" by (simp add: running_thread_def)
  have ct: "running_thread s \<noteq> t" using I t(4) by (auto simp: sched_inv_def sched_inv0_def sched_core_def)
  have "frame_of (self_kstack \<tau>) = t" using page_offset(1) [OF t(1), of 3664] by (simp add: \<tau>_def first_stack_in)
  moreover have "status \<tau> = TASK_READY" by (simp add: \<tau>_def fresh_task_def Let_def)
  moreover have lay: "layout_ok ?T L r" unfolding r_def by (rule layout_ok_kernel [OF K1])
  ultimately have SI: "sched_inv ?T L ?q ?s" unfolding r_def
    by (intro sched_add [OF I t(4), where \<tau> = \<tau> and f = "function" and a = func_arg]) (use q' in \<open>simp_all add: r_def\<close>)
  have fl: "free_lock k ?s" if "k \<in> L" "free_lock k s" for k
  proof (rule free_lock_keep [OF Q(1) _ that(1) _ _ _ _ that(2)])
    show "queues (mem ?s) (heads L r) ?q" using q' by simp
    show "?q (k + 8) = q (k + 8)" using layout_ready [OF lay that(1)] by simp
  qed simp_all
  have Aok: "arenas_ok (heap_limit s) (k_block_descs s) A" by (rule heap_okD(3) [OF A(1)])
  have TA: "?T \<inter> arena_pages A = {}" using A(3) t(5) by simp
  have keep: "m' x = mem s x" if x: "in_block (k_block_descs s) 168 x \<or> frame_of x \<in> arena_pages A" for x
  proof -
    have "m' x = m x" by (rule m') (use heap_words_apart [OF K1 Aok refl lim TA, of x] x in blast)+
    also have "m x = mem s x"
    proof (rule off)
      have img: "in_image (k_block_descs s, 168)" by (rule kernel_layoutD(4) [OF K]) simp
      show "frame_of x \<noteq> t"
      proof
        assume f: "frame_of x = t"
        then have "in_block (k_block_descs s) 168 x" using x t(5) by auto
        from in_block_image(3) [OF img this] have "unat x < 0xc009a000" .
        moreover have "unat t \<le> unat x" using div_times_less_eq_dividend [of "unat x" 4096] f by (auto simp: unat_frame_of)
        ultimately show False using t(3) lim by simp
      qed
    qed
    finally show ?thesis .
  qed
  have hw: "heap_words m' (k_block_descs s) A fl"
    by (rule heap_words_frame [OF _ Aok keep]) (use A(1) in \<open>simp_all add: heap_ok_def\<close>)
  have P: "heap_base ?s" "page_walk ?s v = page_walk (s\<lparr>bytes := b, pmem := p\<rparr>) v" "page_run ?s x k = page_run (s\<lparr>bytes := b, pmem := p\<rparr>) x k" for v x k
    by (rule page_write_base [OF hb(1)]; simp)+
  have HO: "heap_ok ?s A fl" using P(1,3) hb(2) hw Aok by (simp add: heap_ok_def heap_pages_def heap_limit_def)
  have hc: "heap_content c k ?s = heap_content c k s" if c: "H c = Some k" for c k
  proof -
    have "mem ?s x = mem s x \<and> bytes ?s x = bytes s x" if x: "in_block c k x" for x
    proof -
      have lv: "live A fl c = Some k" using c A(2) by simp
      note W = live_where [OF Aok heap_limit_le lv x]
      have "frame_of x \<noteq> t" using W(1) t(5) by auto
      then have "\<not> in_block t 4096 x" using not_in_page [OF t(1), of x] by (auto simp: off_page_def in_block_def)
      then show ?thesis using keep W b by simp
    qed
    then show ?thesis by (auto simp: heap_content_def fun_eq_iff)
  qed
  have idle': "kheap_idle ?s" using idle fl [OF kl] ct rs
    by (simp add: kheap_idle_def Let_def heap_limit_def)
  have Ks: "kernel_layout ?T L ?s" using K1 kernel_layout_cong [of ?s s] by simp
  have ks: "kernel_state L ?q (ts @ [t]) H ?s"
    unfolding kernel_state_def
  proof (intro conjI)
    show "\<forall>u\<in>set (ts @ [t]). lower u \<and> page_walk ?s u \<noteq> None" using wk low t(2) P(2) by auto
    show "\<exists>A fl. heap_ok ?s A fl \<and> H = live A fl \<and> set (ts @ [t]) \<inter> arena_pages A = {}" using HO A(2) TA by auto
  qed (use SI Ks kl pl mt al' idle' in simp_all)
  have sw: "mem ?s (first_stack t + of_nat i) = m (first_stack t + of_nat i)" if "i < 32" for i
  proof -
    have eq: "first_stack t + of_nat i = t + of_nat (3664 + i)" by (simp add: first_stack_in)
    have "m' (t + of_nat (3664 + i)) = m (t + of_nat (3664 + i))"
      by (rule m') (rule stack_not_list [OF K1]; use that sub(3) in simp)+
    then show ?thesis unfolding eq by simp
  qed
  from sw [of 16] sw [of 24] sw [of 28] have "mem ?s (ts_eip (first_stack t)) = kt" "mem ?s (ts_function (first_stack t)) = function"
    "mem ?s (ts_func_arg (first_stack t)) = func_arg" using st by (simp_all add: thread_stack_layout)
  then show ?thesis using runS t(4) ks fl rs hc unfolding \<tau>_def [symmetric]
    by (intro exI [of _ t] exI [of _ ?s]) (simp add: r_def \<tau>_def)
qed

section \<open>Room after the start\<close>

lemma started_pages_free:
  assumes E: "entered s" and S: "started s s'" and M: "16 \<le> free_pages_of (mem s 0xb00)"
  shows "pages_free 1 s'"
proof -
  let ?M = "mem s 0xb00" and ?k = "pool_lock (kernel_pool s)"
  define K where "K = free_pages_of ?M div 2"
  have K: "1 \<le> K div 8" using M by (simp add: K_def)
  have e: "kernel_pool s' = boot_kpool ?M ?k" "kernel_vaddr s' = \<lparr>vaddr_bitmap = vbm ?M, vaddr_start = K_HEAP_STACK\<rparr>"
    using S by (simp_all add: started_def)
  have b: "bm_bits (kbm ?M) = 8 * (K div 8)" "bm_bits (vbm ?M) = 8 * (K div 8)" using boot_bitmaps(1,3) [of ?M] by (simp_all add: K_def)
  have us: "\<not> used s' (kbm ?M) i" "\<not> used s' (vbm ?M) i" if "i < 8 * (K div 8)" for i using S that b by (auto simp: started_def)
  have "bm.free_slots s' (pool_bitmap (kernel_pool s')) = {..<8 * (K div 8)}"
    using us(1) by (auto simp: bm.free_slots_def e boot_kpool_def b)
  then have "card (free_frames s' (kernel_pool s')) = 8 * (K div 8)"
    using boot_pools(2) [of ?M ?k] by (simp add: card_free_frames e)
  moreover have "0 + 1 \<le> vbits (kernel_vaddr s')" using K b(2) by (simp add: e vbits_def)
  moreover have "free_run s' (vaddr_bitmap (kernel_vaddr s')) 1 0" using us(2) K by (simp add: free_run_def e)
  ultimately show ?thesis using K unfolding pages_free_def by (intro conjI exI [of _ 0]) simp_all
qed

lemma started_pid_lock: "started s s' \<Longrightarrow> free_lock (pid_lock s') s'"
  by (simp add: started_def boot_locks_def)

section \<open>Theorems\<close>

text \<open>C17. On a running kernel with a free page, \<open>thread_start\<close> returns a thread that did not exist, ready, last in the ready list and in
  the list of all threads, with the PID, the priority and a stack on which \<open>kernel_thread\<close> calls the given function; the
  scheduler's invariant holds with the new thread, the heap's invariant holds, and no live block of the heap has changed.\<close>

theorem thread_start_keeps:
  fixes s :: "'z kmem_scheme"
  assumes "kernel_state L q ts H s" and "free_lock (pid_lock s) s" and "pages_free 1 s" and "length name < 16"
  shows "\<exists>t s'. thread_start kt name prio function func_arg s = Inr (t, s') \<and> t \<notin> set ts \<and>
    kernel_state L (q(thread_ready_list s := q (thread_ready_list s) @ [general_tag t])) (ts @ [t]) H s' \<and>
    tasks s' = (tasks s)(t := (fresh_task t (next_pid s + 1) TASK_READY name (ucast prio))\<lparr>self_kstack := first_stack t\<rparr>) \<and>
    frames s' = (frames s)(t := [F_start function func_arg]) \<and>
    mem s' (ts_eip (first_stack t)) = kt \<and> mem s' (ts_function (first_stack t)) = function \<and> mem s' (ts_func_arg (first_stack t)) = func_arg \<and>
    (\<forall>c k. H c = Some k \<longrightarrow> heap_content c k s' = heap_content c k s)"
  using thread_start_run [OF assms] by blast

theorem thread_start_keeps_witness:
  "\<exists>s t s'. init_all (\<lambda>_. 0) 0 0 0 (\<lambda>_ _. 0) loaded_kernel = Inr s \<and>
     thread_start 0xc0001600 (bytes_of ''free_thread'') 31 0xc0001700 0 s = Inr (t, s') \<and> t \<noteq> main_pcb \<and>
     status (tasks s' t) = TASK_READY \<and> frames s' t = [F_start 0xc0001700 0]"
proof -
  obtain s where s: "init_all (\<lambda>_. 0) 0 0 0 (\<lambda>_ _. 0) loaded_kernel = Inr s" "started loaded_kernel s"
    using init_all_run [OF loaded_entered] by blast
  have "mem loaded_kernel 0xb00 = 0x2000000" by (simp add: loaded_mem cold_kernel_def)
  then have "16 \<le> free_pages_of (mem loaded_kernel 0xb00)" by (simp add: free_pages_of_def PG_SIZE_def)
  note room = started_pages_free [OF loaded_entered s(2) this]
  have n: "length (bytes_of ''free_thread'') < 16" by (simp add: bytes_of_def)
  from thread_start_keeps [OF started_state [OF loaded_entered s(2)] started_pid_lock [OF s(2)] room n, of "0xc0001600" 31 "0xc0001700" 0]
  obtain t s' where "thread_start 0xc0001600 (bytes_of ''free_thread'') 31 0xc0001700 0 s = Inr (t, s')" "t \<notin> set [main_pcb]"
    "tasks s' = (tasks s)(t := (fresh_task t (next_pid s + 1) TASK_READY (bytes_of ''free_thread'') (ucast (31 :: u32)))\<lparr>self_kstack := first_stack t\<rparr>)"
    "frames s' = (frames s)(t := [F_start 0xc0001700 0])" by blast
  then show ?thesis using s(1) by (intro exI [of _ s] exI [of _ t] exI [of _ s']) (simp add: fresh_task_def Let_def)
qed


end
