(* ===== verification/Sched_Safety.thy ===== *)
theory Sched_Safety
  imports Sched_Inv
begin

text \<open>
  Every step of the thread system keeps the invariant of \<open>Sched_Inv\<close>: one lemma per kind of step, then
  rule induction over \<open>reachable\<close>.
\<close>

section \<open>Changes of the running thread's own frames\<close>

lemma open_not_closed: "open_frames L fs \<Longrightarrow> \<not> closed_frames L fs"
  by (auto simp: open_frames_def closed_frames_def)

lemma sched_core_own:
  assumes core: "sched_core T L q c s" and c: "c = running_thread s"
    and nb: "status (tasks s c) \<noteq> TASK_BLOCKED"
    and fs: "open_frames L fs \<or> closed_frames L fs"
    and s': "mem s' = mem s" "tasks s' = tasks s" "frames s' = (frames s)(c := fs)" "esp s' = esp s"
      "thread_ready_list s' = thread_ready_list s" "console_lock s' = console_lock s"
      "idle_thread s' = idle_thread s"
    and wk: "\<And>l. l \<in> L \<Longrightarrow> sema_value s' (l + 4) \<noteq> 0 \<Longrightarrow> sema_value s (l + 4) \<noteq> 0"
      "\<And>l. l \<in> L \<Longrightarrow> sema_value s' (l + 4) \<noteq> 0 \<Longrightarrow> pending l (frames s c) \<Longrightarrow> pending l fs"
  shows "sched_core T L q c s'"
proof -
  note qi = sched_coreD(4) [OF core]
  have r: "running_thread s' = c" by (simp add: c running_thread_def s')
  have cT: "c \<in> T" using sched_coreD(3) [OF core] c by simp
  have qi': "queue_inv T L q c s'"
    unfolding queue_inv_def
  proof (intro conjI ballI)
    show "general_tag u \<in> set (q (k + 8)) \<longleftrightarrow>
        status (tasks s' u) = TASK_BLOCKED \<and> waits_on (frames s' u) = Some (k + 4)"
      if k: "k \<in> L" and u: "u \<in> T" for k u
      using queue_invD(5) [OF qi k u] nb by (cases "u = c") (auto simp: s')
  qed (use queue_invD(1-4) [OF qi] in \<open>auto simp: s'\<close>)
  have "wake_inv T q l s'" if l: "l \<in> L" for l
    by (rule wake_inv_mono [OF sched_coreD(9) [OF core l]])
      (use wk [OF l] in \<open>auto simp: s' wake_inv_def\<close>)
  with core qi' fs show ?thesis
    by (auto simp: sched_core_def s' r c [symmetric])
qed

lemma tokens_sum:
  assumes "finite T" and "c \<in> T"
  shows "(\<Sum>t\<in>T. tokens l ((F(c := fs)) t)) + tokens l (F c) = (\<Sum>t\<in>T. tokens l (F t)) + tokens l fs"
proof -
  have "(\<Sum>t\<in>T - {c}. tokens l ((F(c := fs)) t)) = (\<Sum>t\<in>T - {c}. tokens l (F t))"
    by (rule sum.cong) auto
  then show ?thesis
    using sum.remove [OF assms, of "\<lambda>t. tokens l ((F(c := fs)) t)"] sum.remove [OF assms, of "\<lambda>t. tokens l (F t)"]
    by simp
qed

text \<open>The lock count when the running thread's frames, the semaphore and the holder change together.\<close>

lemma lock_count_own:
  assumes "finite T" and "c \<in> T" and "frames s' = (frames s)(c := fs)"
    and "tokens l fs + of_bool (lock_holder s' l \<noteq> NULL) + unat (sema_value s' (l + 4)) =
         tokens l (frames s c) + of_bool (lock_holder s l \<noteq> NULL) + unat (sema_value s (l + 4))"
  shows "lock_count T l s' = lock_count T l s"
  using tokens_sum [OF assms(1,2), of l "frames s" fs] assms(3,4) by (simp add: lock_count_def)

lemma tokens_le:
  assumes "finite T" and "c \<in> T"
  shows "tokens l (frames s c) + of_bool (lock_holder s l \<noteq> NULL) + unat (sema_value s (l + 4)) \<le> lock_count T l s"
  using sum.remove [OF assms, of "\<lambda>t. tokens l (frames s t)"] by (simp add: lock_count_def)

lemma sched_invD:
  assumes "sched_inv T L q s"
  shows "sched_core T L q (running_thread s) s" and "l \<in> L \<Longrightarrow> lock_inv T l s" and "flag_ok L s"
    and "status (tasks s (running_thread s)) = TASK_RUNNING" and "finite T"
    and "running_thread s \<in> T" and "running_thread s \<noteq> NULL"
proof -
  show c: "sched_core T L q (running_thread s) s" and "l \<in> L \<Longrightarrow> lock_inv T l s" and "flag_ok L s"
    and "status (tasks s (running_thread s)) = TASK_RUNNING"
    using assms by (simp_all add: sched_inv_def sched_inv0_def)
  show "finite T" "running_thread s \<in> T" "running_thread s \<noteq> NULL"
    using sched_coreD(1,3) [OF c] by (auto simp: layout_ok_def)
qed

text \<open>A step that changes only the running thread's frames, the flags and the lock fields.\<close>

lemma own_step:
  assumes inv: "sched_inv T L q s"
    and fs: "open_frames L fs \<or> closed_frames L fs \<and> if_status (eflags s') = INTR_OFF"
    and s': "mem s' = mem s" "tasks s' = tasks s" "frames s' = (frames s)(running_thread s := fs)"
      "esp s' = esp s" "thread_ready_list s' = thread_ready_list s" "console_lock s' = console_lock s"
      "idle_thread s' = idle_thread s"
    and wk: "\<And>l. l \<in> L \<Longrightarrow> sema_value s' (l + 4) \<noteq> 0 \<Longrightarrow> sema_value s (l + 4) \<noteq> 0"
      "\<And>l. l \<in> L \<Longrightarrow> sema_value s' (l + 4) \<noteq> 0 \<Longrightarrow> pending l (frames s (running_thread s)) \<Longrightarrow> pending l fs"
    and lk: "\<And>l. l \<in> L \<Longrightarrow>
         tokens l fs + of_bool (lock_holder s' l \<noteq> NULL) + unat (sema_value s' (l + 4)) =
         tokens l (frames s (running_thread s)) + of_bool (lock_holder s l \<noteq> NULL) + unat (sema_value s (l + 4))"
      "\<And>l. l \<in> L \<Longrightarrow> if lock_holder s' l = NULL then lock_repeat s' l = 0
         else lock_holder s' l \<in> T \<and> lock_repeat s' l \<noteq> 0"
  shows "sched_inv T L q s'"
proof -
  let ?c = "running_thread s"
  note I = sched_invD [OF inv]
  have r: "running_thread s' = ?c" by (simp add: running_thread_def s')
  have "sched_core T L q ?c s'"
    by (rule sched_core_own [OF I(1) refl _ _ s' wk]) (use I(4) fs in auto)
  moreover have "lock_inv T l s'" if l: "l \<in> L" for l
    using I(2) [OF l] lock_count_own [OF I(5,6) s'(3) lk(1) [OF l]] lk(2) [OF l]
    by (simp add: lock_inv_def)
  moreover have "flag_ok L s'" using fs open_not_closed by (auto simp: flag_ok_def r s')
  ultimately show ?thesis using I(4) by (simp add: sched_inv_def sched_inv0_def r s')
qed

section \<open>Frames that only return\<close>

lemma lock_part:
  "lock_inv T l s \<Longrightarrow> if lock_holder s l = NULL then lock_repeat s l = 0
     else lock_holder s l \<in> T \<and> lock_repeat s l \<noteq> 0"
  by (simp add: lock_inv_def)

lemma step_return:
  assumes inv: "sched_inv T L q s" and fr: "frames s (running_thread s) = f # fs"
    and f: "(\<exists>a b. f = F_start a b) \<or> (\<exists>e. f = F_iret e) \<or> (\<exists>st. f = F_set_status st)"
    and cl: "closed_frames L (f # fs)"
    and res: "run_frame s = Inr s'"
  shows "sched_inv T L q s'"
proof -
  note I = sched_invD [OF inv]
  have off: "if_status (eflags s) = INTR_OFF" using I(3) cl fr by (simp add: flag_ok_def)
  obtain e where s': "s' = s\<lparr>frames := (frames s)(running_thread s := fs), eflags := e\<rparr>"
    and e: "\<And>st. f = F_set_status st \<Longrightarrow> if_status e = st"
    using res f fr by (auto simp: run_frame_def intr_norm)
  have fs: "open_frames L fs \<or> closed_frames L fs \<and> if_status e = INTR_OFF"
    using cl f e by (auto simp: closed_frames_def open_frames_def)
  have pend: "pending l (f # fs) \<Longrightarrow> pending l fs" for l
    using f cl by (auto simp: closed_frames_def)
  have tok: "tokens l (f # fs) = tokens l fs" for l
    using f cl by (auto simp: closed_frames_def)
  show ?thesis
    by (rule own_step [OF inv, of fs])
      (use fs pend tok fr lock_part [OF I(2)] in \<open>auto simp: s'\<close>)
qed

section \<open>lock\_acquire and sema\_down\<close>

lemma step_sema_down:
  assumes inv: "sched_inv T L q s" and l: "l \<in> L"
    and fr: "frames s (running_thread s) = [F_sema_down (l + 4), F_lock l]"
    and res: "run_frame s = Inr s'"
  shows "sched_inv T L q s'"
proof -
  note I = sched_invD [OF inv]
  let ?fs = "[F_sema_loop (l + 4) (if_status (eflags s)), F_lock l]"
  have s': "s' = s\<lparr>frames := (frames s)(running_thread s := ?fs), eflags := with_if INTR_OFF (eflags s)\<rparr>"
    using res fr by (auto simp: run_frame_def sema_down_def intr_norm push_frames_def running_thread_def)
  show ?thesis
    by (rule own_step [OF inv, of ?fs])
      (use l fr lock_part [OF I(2)] in \<open>auto simp: s' closed_frames_def\<close>)
qed

lemma step_acquire:
  assumes inv: "sched_inv T L q s" and l: "l \<in> L" and fr: "frames s (running_thread s) = []"
    and rep: "lock_repeat s l + 1 \<noteq> 0"
  shows "sched_inv T L q (lock_acquire l s)"
proof (cases "lock_holder s l = running_thread s")
  case True
  note I = sched_invD [OF inv]
  have s': "lock_acquire l s =
      s\<lparr>lock_holder := (lock_holder s)(l := running_thread s), lock_repeat := (lock_repeat s)(l := lock_repeat s l + 1)\<rparr>"
    using True by (simp add: lock_acquire_def lock_acquire_enter_def set_lock_def)
  show ?thesis
    by (rule own_step [OF inv, of "[]"])
      (use fr lock_part [OF I(2)] I(6,7) rep True in \<open>auto simp: s' open_frames_def fun_upd_idem\<close>)
next
  case False
  note I = sched_invD [OF inv]
  let ?fs = "[F_sema_down (l + 4), F_lock l]"
  have s': "lock_acquire l s = s\<lparr>frames := (frames s)(running_thread s := ?fs)\<rparr>"
    using False fr by (simp add: lock_acquire_def lock_acquire_enter_def push_frames_def lock_semaphore_def)
  show ?thesis
    by (rule own_step [OF inv, of ?fs])
      (use l fr lock_part [OF I(2)] in \<open>auto simp: s' open_frames_def\<close>)
qed

text \<open>A thread that has passed \<open>sema_down\<close> finds the lock without holder.\<close>

lemma token_owner:
  assumes inv: "sched_inv T L q s" and l: "l \<in> L" and tk: "0 < tokens l (frames s (running_thread s))"
  shows "lock_holder s l = NULL" "lock_repeat s l = 0" "sema_value s (l + 4) = 0"
proof -
  note I = sched_invD [OF inv]
  have c: "lock_count T l s = 1" using I(2) [OF l] by (simp add: lock_inv_def)
  have "of_bool (lock_holder s l \<noteq> NULL) = (0 :: nat)" "unat (sema_value s (l + 4)) = 0"
    using tokens_le [OF I(5,6), of l s] tk c by linarith+
  then show h: "lock_holder s l = NULL" and "sema_value s (l + 4) = 0"
    by (simp_all add: unat_eq_0)
  show "lock_repeat s l = 0" using lock_part [OF I(2) [OF l]] h by simp
qed

lemma step_lock:
  assumes inv: "sched_inv T L q s" and l: "l \<in> L" and fr: "frames s (running_thread s) = [F_lock l]"
    and res: "run_frame s = Inr s'"
  shows "sched_inv T L q s'"
proof -
  note I = sched_invD [OF inv]
  note O = token_owner [OF inv l, unfolded fr, simplified]
  have s': "s' = s\<lparr>frames := (frames s)(running_thread s := []),
      lock_holder := (lock_holder s)(l := running_thread s), lock_repeat := (lock_repeat s)(l := 1)\<rparr>"
    using res fr O by (simp add: run_frame_def lock_acquire_tail_def set_lock_def running_thread_def Let_def)
  show ?thesis
    by (rule own_step [OF inv, of "[]"])
      (use fr lock_part [OF I(2)] I(6,7) O in \<open>auto simp: s' open_frames_def\<close>)
qed

section \<open>lock\_release and sema\_up\<close>

lemma step_release:
  assumes inv: "sched_inv T L q s" and l: "l \<in> L" and fr: "frames s (running_thread s) = []"
    and res: "lock_release_call l s = Inr s'"
  shows "sched_inv T L q s'"
proof -
  note I = sched_invD [OF inv]
  have h: "lock_holder s l = running_thread s"
    using res by (simp add: lock_release_call_def lock_release_enter_def bind_r_eq_Inr ASSERT_eq_Inr)
  show ?thesis
  proof (cases "lock_repeat s l > 1")
    case True
    have s': "s' = s\<lparr>lock_repeat := (lock_repeat s)(l := lock_repeat s l - 1)\<rparr>"
      using res True h
      by (simp add: lock_release_call_def lock_release_enter_def set_lock_def fun_upd_idem)
    have "lock_repeat s l - 1 \<noteq> 0" using True by auto
    then show ?thesis
      by (intro own_step [OF inv, of "[]"])
        (use fr lock_part [OF I(2)] I(6,7) h in \<open>auto simp: s' open_frames_def\<close>)
  next
    case False
    let ?fs = "[F_sema_up (l + 4)]"
    have s': "s' = s\<lparr>frames := (frames s)(running_thread s := ?fs),
        lock_holder := (lock_holder s)(l := NULL), lock_repeat := (lock_repeat s)(l := 0)\<rparr>"
      using res False h fr
      by (auto simp: lock_release_call_def lock_release_enter_def set_lock_def push_frames_def
          bind_r_eq_Inr ASSERT_eq_Inr running_thread_def lock_semaphore_def)
    show ?thesis
      by (rule own_step [OF inv, of ?fs])
        (use l fr lock_part [OF I(2)] I(6,7) h in \<open>auto simp: s' open_frames_def\<close>)
  qed
qed

lemma step_sema_up:
  assumes inv: "sched_inv T L q s" and l: "l \<in> L" and fr: "frames s (running_thread s) = [F_sema_up (l + 4)]"
    and res: "run_frame s = Inr s'"
  obtains q' where "sched_inv T L q' s'" "lock_holder s' = lock_holder s"
proof -
  let ?c = "running_thread s"
  let ?s = "s\<lparr>frames := (frames s)(?c := [])\<rparr>"
  note I = sched_invD [OF inv]
  note O = token_owner [OF inv l, unfolded fr, simplified]
  have core: "sched_core T L q ?c ?s"
    by (rule sched_core_own [OF I(1) refl, of "[]"]) (use I(4) fr in \<open>auto simp: open_frames_def\<close>)
  have v: "sema_value ?s (l + 4) = 0" using O by simp
  obtain q' s1 where u: "sema_up (l + 4) ?s = Inr (s1\<lparr>sema_value := (sema_value ?s)(l + 4 := 1)\<rparr>)"
    "sched_core T L q' ?c (s1\<lparr>sema_value := (sema_value ?s)(l + 4 := 1)\<rparr>)" "woke ?s s1"
    by (rule sema_up_core [OF core l v])
  obtain m ts where s1: "s1 = ?s\<lparr>mem := m, tasks := ts\<rparr>"
    and ts: "\<forall>t. status (tasks s t) \<noteq> TASK_BLOCKED \<longrightarrow> ts t = tasks s t"
    using u(3) by (auto simp: woke_def)
  let ?s' = "?s\<lparr>mem := m, tasks := ts, sema_value := (sema_value s)(l + 4 := 1)\<rparr>"
  have s': "s' = ?s'" using res fr u(1) by (simp add: run_frame_def s1)
  have r: "running_thread s' = ?c" by (simp add: s' running_thread_def)
  have "lock_count T k s' = lock_count T k s" if "k \<in> L" for k
    by (rule lock_count_own [OF I(5,6), of _ _ "[]"]) (use fr O in \<open>auto simp: s'\<close>)
  then have "\<forall>k\<in>L. lock_inv T k s'" using I(2) by (simp add: lock_inv_def) (simp add: s')
  moreover have "sched_core T L q' ?c s'" using u(2) by (simp add: s1 s')
  moreover have "flag_ok L s'" by (simp add: flag_ok_def r) (simp add: s' closed_frames_def)
  moreover have "status (tasks s' ?c) = TASK_RUNNING" using ts I(4) by (simp add: s')
  ultimately have "sched_inv T L q' s'" by (simp add: sched_inv_def sched_inv0_def r)
  then show thesis using that by (simp add: s')
qed

section \<open>Steps that switch\<close>

lemma sched_inv0_cong:
  assumes "sched_inv0 T L q c s" "mem s' = mem s" "tasks s' = tasks s" "frames s' = frames s" "esp s' = esp s"
    "thread_ready_list s' = thread_ready_list s" "console_lock s' = console_lock s"
    "idle_thread s' = idle_thread s" "sema_value s' = sema_value s" "lock_holder s' = lock_holder s"
    "lock_repeat s' = lock_repeat s" "c' = c"
  shows "sched_inv0 T L q c' s'"
  using assms(1) sched_core_cong [of s' s T L q c] lock_inv_cong [of s' s T] assms(2-)
  by (simp add: sched_inv0_def)

lemma sched_inv0_tasks:
  assumes "sched_inv0 T L q c s" and "\<And>t. status (ts t) = status (tasks s t)"
    and "\<And>t. self_kstack (ts t) = self_kstack (tasks s t)"
  shows "sched_inv0 T L q c (s\<lparr>tasks := ts\<rparr>)"
proof -
  have "sched_core T L q c s" using assms(1) by (simp add: sched_inv0_def)
  then have "sched_core T L q c (s\<lparr>tasks := ts\<rparr>)"
    by (rule sched_core_tasks)
      (use sched_coreD(4,9) [OF \<open>sched_core T L q c s\<close>] assms(2,3) in \<open>auto simp: queue_inv_def wake_inv_def\<close>)
  with assms(1) show ?thesis by (simp add: sched_inv0_def)
qed

text \<open>The running thread leaves the CPU blocked, in the waiter list of \<open>l\<close> or in no list.\<close>

lemma block_core:
  assumes inv: "sched_inv T L q s" and st: "is_blocked st"
    and fs: "fs = [F_set_status e] \<and> q' = q \<and> m = mem s \<or>
      l \<in> L \<and> st = TASK_BLOCKED \<and> fs = [F_set_status INTR_OFF, F_sema_loop (l + 4) old, F_lock l] \<and>
      q' = q(l + 8 := q (l + 8) @ [general_tag (running_thread s)]) \<and>
      m = append_m (l + 8) (general_tag (running_thread s)) (mem s) \<and> sema_value s (l + 4) = 0"
    and tk: "\<And>k. tokens k (frames s (running_thread s)) = 0"
    and pd: "\<And>k. k \<in> L \<Longrightarrow> sema_value s (k + 4) \<noteq> 0 \<Longrightarrow> \<not> pending k (frames s (running_thread s))"
  shows "sched_inv0 T L q' (running_thread s)
      (s\<lparr>mem := m, tasks := (tasks s)(running_thread s := (tasks s (running_thread s))\<lparr>status := st\<rparr>),
         frames := (frames s)(running_thread s := fs)\<rparr>)"
proof -
  let ?c = "running_thread s" and ?r = "thread_ready_list s"
  let ?s = "s\<lparr>mem := m, tasks := (tasks s)(?c := (tasks s ?c)\<lparr>status := st\<rparr>), frames := (frames s)(?c := fs)\<rparr>"
  note I = sched_invD [OF inv]
  note lay = sched_coreD(1) [OF I(1)] and qi = sched_coreD(4) [OF I(1)]
  note q = queue_invD(1) [OF qi] and el = queue_invD(2) [OF qi]
  have nr: "general_tag ?c \<notin> set (q ?r)" using queue_invD(3) [OF qi I(6)] I(4) by simp
  have nw: "general_tag ?c \<notin> set (q (k + 8))" if "k \<in> L" for k
    using queue_invD(5) [OF qi that I(6)] I(4) by simp
  have no: "\<forall>h\<in>heads L ?r. general_tag ?c \<notin> set (q h)" using nr nw by (auto simp: heads_def)
  note lk = layout_linkable [OF lay I(6) el no]
  have qr: "q' ?r = q ?r" using fs ready_not_head [OF lay, of l] by auto
  have qk: "set (q' (k + 8)) = set (q (k + 8)) \<union> (if waits_on fs = Some (k + 4) then {general_tag ?c} else {})"
    if "k \<in> L" for k using fs by auto
  have nst: "st \<noteq> TASK_READY" "st \<noteq> TASK_RUNNING" using st by (auto simp: is_blocked_def)
  have qi': "queue_inv T L q' ?c ?s"
    unfolding queue_inv_def
  proof (intro conjI ballI)
    show "queues (mem ?s) (heads L (thread_ready_list ?s)) q'"
      using fs q queues_append [OF q _ lk, of "l + 8"] by auto
    show "set (q' k) \<subseteq> general_tag ` T" if k: "k \<in> heads L (thread_ready_list ?s)" for k
          proof -
      have "set (q k) \<subseteq> general_tag ` T" using bspec [OF el, of k] k by simp
      moreover have "set (q' k) \<subseteq> insert (general_tag ?c) (set (q k))" using fs by (cases "k = l + 8") auto
      ultimately show ?thesis using I(6) by blast
    qed
    show "status (tasks ?s u) = TASK_READY \<longleftrightarrow> general_tag u \<in> set (q' (thread_ready_list ?s))"
      if "u \<in> T" for u using queue_invD(3) [OF qi that] nr nst(1) by (auto simp: qr)
    show "status (tasks ?s u) = TASK_RUNNING \<longrightarrow> u = ?c" if "u \<in> T" for u
      using queue_invD(4) [OF qi that] by auto
    show "general_tag u \<in> set (q' (k + 8)) \<longleftrightarrow>
        status (tasks ?s u) = TASK_BLOCKED \<and> waits_on (frames ?s u) = Some (k + 4)"
      if k: "k \<in> L" and u: "u \<in> T" for k u
    proof (cases "u = ?c")
      case True
      have "waits_on fs = Some (k + 4) \<Longrightarrow> st = TASK_BLOCKED" using fs by auto
      with True nw [OF k] qk [OF k] show ?thesis by simp
    next
      case False
      with queue_invD(5) [OF qi k u] qk [OF k] show ?thesis by auto
    qed
  qed
  have wk: "wake_inv T q' k ?s" if k: "k \<in> L" for k
    unfolding wake_inv_def
  proof (intro impI, elim conjE)
    assume a: "sema_value ?s (k + 4) \<noteq> 0" "q' (k + 8) \<noteq> []"
    then have e: "q' (k + 8) = q (k + 8)" using fs by auto
    then obtain t where t: "t \<in> T" "pending k (frames s t)" "awake (status (tasks s t))"
      using sched_coreD(9) [OF I(1) k] a by (auto simp: wake_inv_def)
    have "t \<noteq> ?c" using t(2) pd [OF k] a(1) by auto
    with t show "\<exists>t\<in>T. pending k (frames ?s t) \<and> awake (status (tasks ?s t))" by auto
  qed
  have cf: "closed_frames L fs" using fs by (auto simp: closed_frames_def)
  have r: "running_thread ?s = ?c" by (simp add: running_thread_def)
  have "sched_core T L q' ?c ?s"
    using I(1) qi' wk cf r by (auto simp: sched_core_def)
  moreover have "lock_inv T k ?s" if k: "k \<in> L" for k
  proof -
    have "tokens k fs = 0" using fs by auto
    then have "lock_count T k ?s = lock_count T k s"
      by (intro lock_count_own [OF I(5,6), of _ _ fs]) (use tk in auto)
    then show ?thesis using I(2) [OF k] by (simp add: lock_inv_def)
  qed
  ultimately show ?thesis by (simp add: sched_inv0_def)
qed

lemma step_sema_loop:
  assumes inv: "sched_inv T L q s" and l: "l \<in> L"
    and fr: "frames s (running_thread s) = [F_sema_loop (l + 4) old, F_lock l]"
    and res: "run_frame s = Inr s'"
  obtains q' where "sched_inv T L q' s'" "lock_holder s' = lock_holder s"
proof (cases "sema_value s (l + 4) = 0")
  case False
  note I = sched_invD [OF inv]
  note F = lock_free [OF I(2) [OF l] False]
  have s': "s' = s\<lparr>frames := (frames s)(running_thread s := [F_lock l]),
      sema_value := (sema_value s)(l + 4 := 0), eflags := with_if old (eflags s)\<rparr>"
    using res fr F(1) by (simp add: run_frame_def sema_loop_def sema_take_def set_value_def intr_norm Let_def)
  have "sched_inv T L q s'"
    by (rule own_step [OF inv, of "[F_lock l]"])
      (use l fr lock_part [OF I(2)] F(1,2) in \<open>auto simp: s' open_frames_def split: if_splits\<close>)
  then show thesis using that by (simp add: s')
next
  case True
  let ?c = "running_thread s"
  note I = sched_invD [OF inv]
  note qi = sched_coreD(4) [OF I(1)]
  have off: "if_status (eflags s) = INTR_OFF"
    using I(3) fr l by (auto simp: flag_ok_def closed_frames_def)
  let ?s0 = "s\<lparr>frames := (frames s)(?c := [F_lock l])\<rparr>"
  let ?fs = "[F_set_status INTR_OFF, F_sema_loop (l + 4) old, F_lock l]"
  let ?q = "q(l + 8 := q (l + 8) @ [general_tag ?c])"
  let ?s1 = "s\<lparr>mem := append_m (l + 8) (general_tag ?c) (mem s),
    tasks := (tasks s)(?c := (tasks s ?c)\<lparr>status := TASK_BLOCKED\<rparr>), frames := (frames s)(?c := ?fs)\<rparr>"
  have "elem_find (l + 8) (general_tag ?c) ?s0 = Some False"
    using queues_tests(1) [of ?s0 "heads L (thread_ready_list s)" q "l + 8"] queue_invD(1,5) [OF qi] l I(4,6)
    by simp
  then have sc: "schedule ?s1 = Inr s'"
    using res fr True off
    by (simp add: run_frame_def sema_loop_def assert_absent_def waiters_def running_thread_def list_norm
        thread_block_def is_blocked_def push_frames_def task_upds intr_norm with_if_id Let_def add.assoc)
  have inv1: "sched_inv0 T L ?q ?c ?s1"
    by (rule block_core [OF inv]) (use fr l True in \<open>auto simp: is_blocked_def\<close>)
  have r1: "running_thread ?s1 = ?c" by (simp add: running_thread_def)
  have cl: "closed_frames L (frames ?s1 (running_thread ?s1))" using l by (auto simp: r1 closed_frames_def)
  have inv1': "sched_inv0 T L ?q (running_thread ?s1) ?s1" using inv1 by (simp only: r1)
  show thesis by (rule schedule_inv [OF inv1' cl sc]) (use that in simp)
qed

lemma step_block:
  assumes inv: "sched_inv T L q s" and fr: "frames s (running_thread s) = []"
    and res: "thread_block st s = Inr s'"
  obtains q' where "sched_inv T L q' s'" "lock_holder s' = lock_holder s"
proof -
  let ?c = "running_thread s"
  note I = sched_invD [OF inv]
  let ?fs = "[F_set_status (if_status (eflags s))]"
  let ?s1 = "s\<lparr>mem := mem s, tasks := (tasks s)(?c := (tasks s ?c)\<lparr>status := st\<rparr>), frames := (frames s)(?c := ?fs)\<rparr>"
  let ?s2 = "s\<lparr>eflags := with_if INTR_OFF (eflags s),
    tasks := (tasks s)(?c := (tasks s ?c)\<lparr>status := st\<rparr>), frames := (frames s)(?c := ?fs)\<rparr>"
  have st: "is_blocked st" and sc: "schedule ?s2 = Inr s'"
    using res fr by (simp_all add: thread_block_def intr_norm ASSERT_eq_Inr push_frames_def task_upds
        running_thread_def Let_def)
  have "sched_inv0 T L q ?c ?s1"
    by (rule block_core [OF inv st]) (use fr in auto)
  then have inv2: "sched_inv0 T L q (running_thread ?s2) ?s2"
    by (rule sched_inv0_cong) (simp_all add: running_thread_def)
  have cl: "closed_frames L (frames ?s2 (running_thread ?s2))" by (auto simp: running_thread_def closed_frames_def)
  show thesis by (rule schedule_inv [OF inv2 cl sc]) (use that in simp)
qed

lemma yield_schedule:
  assumes inv: "sched_inv T L q s" and fr: "frames s (running_thread s) = []"
  obtains q2 s2 where "thread_yield s = schedule s2" "sched_inv0 T L q2 (running_thread s2) s2"
    "closed_frames L (frames s2 (running_thread s2))" "if_status (eflags s2) = INTR_OFF"
    "ready_after q2 s2 = q (thread_ready_list s) @ [general_tag (running_thread s)]"
    "sema_value s2 = sema_value s" "lock_holder s2 = lock_holder s" "lock_repeat s2 = lock_repeat s"
    "console_lock s2 = console_lock s" "running_thread s2 = running_thread s"
    "\<And>t. pgdir (tasks s2 t) = pgdir (tasks s t)"
proof -
  let ?c = "running_thread s" and ?r = "thread_ready_list s"
  note I = sched_invD [OF inv]
  let ?tk = "(tasks s ?c)\<lparr>status := TASK_READY\<rparr>" and ?fs = "[F_set_status (if_status (eflags s))]"
  let ?q = "q(?r := q ?r @ [general_tag ?c])"
  let ?s1 = "s\<lparr>mem := append_m ?r (general_tag ?c) (mem s), tasks := (tasks s)(?c := ?tk)\<rparr>"
  let ?s1' = "?s1\<lparr>frames := (frames s)(?c := ?fs)\<rparr>"
  let ?s2 = "s\<lparr>eflags := with_if INTR_OFF (eflags s), mem := append_m ?r (general_tag ?c) (mem s),
    tasks := (tasks s)(?c := ?tk), frames := (frames s)(?c := ?fs)\<rparr>"
  have c1: "sched_core T L q ?c (s\<lparr>eflags := with_if INTR_OFF (eflags s)\<rparr>)" using I(1) by simp
  have "elem_find ?r (general_tag ?c) (s\<lparr>eflags := with_if INTR_OFF (eflags s)\<rparr>) = Some False"
    using requeue_core(1) [OF c1 I(6), of ?tk] I(4) by simp
  then have sc: "thread_yield s = schedule ?s2"
    using fr by (simp add: thread_yield_def intr_norm assert_absent_def list_norm push_frames_def
        task_upds running_thread_def Let_def)
  have "sched_core T L ?q ?c ?s1" by (rule requeue_core(2) [OF I(1,6,4)]) simp_all
  then have "sched_core T L ?q ?c ?s1'"
    by (rule sched_core_own [where fs = ?fs])
      (use fr in \<open>auto simp: closed_frames_def running_thread_def\<close>)
  moreover have "lock_inv T k ?s1'" if k: "k \<in> L" for k
  proof -
    have "lock_count T k ?s1' = lock_count T k s"
      by (intro lock_count_own [OF I(5,6), of _ _ ?fs]) (use fr in auto)
    then show ?thesis using I(2) [OF k] by (simp add: lock_inv_def)
  qed
  ultimately have "sched_inv0 T L ?q ?c ?s1'" by (simp add: sched_inv0_def)
  then have inv2: "sched_inv0 T L ?q (running_thread ?s2) ?s2"
    by (rule sched_inv0_cong) (simp_all add: running_thread_def)
  have cl: "closed_frames L (frames ?s2 (running_thread ?s2))" by (auto simp: running_thread_def closed_frames_def)
  have ra: "ready_after ?q ?s2 = q ?r @ [general_tag ?c]"
    by (simp add: ready_after_def running_thread_def)
  show thesis by (rule that [OF sc inv2 cl _ ra]) (auto simp: running_thread_def)
qed

lemma step_yield:
  assumes inv: "sched_inv T L q s" and fr: "frames s (running_thread s) = []"
    and res: "thread_yield s = Inr s'"
  obtains q' where "sched_inv T L q' s'" "lock_holder s' = lock_holder s"
    "general_tag (running_thread s') = hd (q (thread_ready_list s) @ [general_tag (running_thread s)])"
proof (rule yield_schedule [OF inv fr])
  fix q2 s2
  assume eq: "thread_yield s = schedule s2" and i2: "sched_inv0 T L q2 (running_thread s2) s2"
    and cl: "closed_frames L (frames s2 (running_thread s2))"
    and ra: "ready_after q2 s2 = q (thread_ready_list s) @ [general_tag (running_thread s)]"
    and h: "lock_holder s2 = lock_holder s"
  have sc: "schedule s2 = Inr s'" using res eq by simp
  show thesis by (rule schedule_inv [OF i2 cl sc]) (use that ra h in simp)
qed

lemma step_unblock:
  assumes inv: "sched_inv T L q s" and t: "t \<in> T" and wt: "waits_on (frames s t) = None"
    and res: "thread_unblock t s = Inr s'"
  obtains q' where "sched_inv T L q' s'" "lock_holder s' = lock_holder s"
proof -
  let ?c = "running_thread s" and ?r = "thread_ready_list s"
  note I = sched_invD [OF inv]
  note lay = sched_coreD(1) [OF I(1)] and qi = sched_coreD(4) [OF I(1)]
  note q = queue_invD(1) [OF qi] and el = queue_invD(2) [OF qi]
  have tn: "t \<noteq> NULL" using lay t by (auto simp: layout_ok_def)
  then have bl: "is_blocked (status (tasks s t))"
    using res by (simp add: thread_unblock_def intr_norm ASSERT_eq_Inr)
  then have tc: "t \<noteq> ?c" "status (tasks s t) \<noteq> TASK_READY" using I(4) by (auto simp: is_blocked_def)
  have nr: "general_tag t \<notin> set (q ?r)" using queue_invD(3) [OF qi t] tc by simp
  have nw: "general_tag t \<notin> set (q (k + 8))" if "k \<in> L" for k
    using queue_invD(5) [OF qi that t] wt by simp
  have no: "\<forall>h\<in>heads L ?r. general_tag t \<notin> set (q h)" using nr nw by (auto simp: heads_def)
  let ?q = "q(?r := general_tag t # q ?r)"
  let ?s = "s\<lparr>mem := push_m ?r (general_tag t) (mem s), tasks := (tasks s)(t := (tasks s t)\<lparr>status := TASK_READY\<rparr>)\<rparr>"
  have s': "s' = ?s" using unblock_norm [OF q _ tn bl nr] res by simp
  note rl = ready_not_head [OF lay]
  have "queue_inv T L ?q ?c ?s"
    unfolding queue_inv_def
  proof (intro conjI ballI)
    show "queues (mem ?s) (heads L (thread_ready_list ?s)) ?q"
      using queues_push [OF q _ layout_linkable [OF lay t el no]] by simp
    show "set (?q k) \<subseteq> general_tag ` T" if "k \<in> heads L (thread_ready_list ?s)" for k
      using that el bspec [OF el, of ?r] t by auto
    show "status (tasks ?s u) = TASK_READY \<longleftrightarrow> general_tag u \<in> set (?q (thread_ready_list ?s))"
      if "u \<in> T" for u using queue_invD(3) [OF qi that] by auto
    show "status (tasks ?s u) = TASK_RUNNING \<longrightarrow> u = ?c" if "u \<in> T" for u
      using queue_invD(4) [OF qi that] by auto
    show "general_tag u \<in> set (?q (k + 8)) \<longleftrightarrow>
        status (tasks ?s u) = TASK_BLOCKED \<and> waits_on (frames ?s u) = Some (k + 4)"
      if k: "k \<in> L" and u: "u \<in> T" for k u
      using queue_invD(5) [OF qi k u] rl [OF k] nw [OF k] by auto
  qed
  then have "sched_core T L ?q ?c ?s"
    by (rule sched_core_tasks [OF I(1)])
      (use rl bl in \<open>auto intro!: wake_inv_mono [OF sched_coreD(9) [OF I(1)]] simp: awake_def is_blocked_def\<close>)
  moreover have r: "running_thread ?s = ?c" by (simp add: running_thread_def)
  ultimately have "sched_inv T L ?q s'"
    using I(2,3,4) tc(1) unfolding s' sched_inv_def sched_inv0_def flag_ok_def r by simp
  then show thesis using that by (simp add: s')
qed

text \<open>The timer interrupt up to its last line: the frame that returns from it is pushed, interrupts are
  off, the counters have moved.\<close>

lemma timer_prefix:
  assumes inv: "sched_inv T L q s" and on: "intr_get_status s = INTR_ON"
    and mg: "stack_magic (tasks s (running_thread s)) = 0x19870916"
  obtains s2 where "timer_interrupt s = (if ticks (tasks s (running_thread s)) = 0 then schedule s2
      else Inr (upd_task (running_thread s) (\<lambda>t. t\<lparr>ticks := ticks t - 1\<rparr>) s2))"
    "sched_inv T L q s2" "closed_frames L (frames s2 (running_thread s2))" "if_status (eflags s2) = INTR_OFF"
    "sema_value s2 = sema_value s" "lock_holder s2 = lock_holder s" "lock_repeat s2 = lock_repeat s"
    "console_lock s2 = console_lock s" "running_thread s2 = running_thread s"
    "\<And>t. pgdir (tasks s2 t) = pgdir (tasks s t)" "\<And>t. status (tasks s2 t) = status (tasks s t)"
    "thread_ready_list s2 = thread_ready_list s" "mem s2 = mem s" "total_ticks s2 = total_ticks s + 1"
    "\<And>t. ticks (tasks s2 t) = ticks (tasks s t)"
proof -
  let ?c = "running_thread s"
  note I = sched_invD [OF inv]
  have "\<not> closed_frames L (frames s ?c)" using I(3) on by (auto simp: flag_ok_def intr_get_status_norm)
  then have op: "open_frames L (frames s ?c)" using sched_coreD(7) [OF I(1,6)] by blast
  let ?fs = "F_iret (eflags s) # frames s ?c"
  let ?s1 = "s\<lparr>frames := (frames s)(?c := ?fs), eflags := with_if INTR_OFF (eflags s)\<rparr>"
  have pd: "\<not> pending k (frames s ?c)" for k using op by (auto simp: open_frames_def)
  have cl: "closed_frames L ?fs" using op by (auto simp: closed_frames_def)
  have inv1: "sched_inv T L q ?s1"
    by (rule own_step [OF inv, of ?fs]) (use cl pd lock_part [OF I(2)] in auto)
  let ?ts = "(tasks s)(?c := (tasks s ?c)\<lparr>elapsed_ticks := elapsed_ticks (tasks s ?c) + 1\<rparr>)"
  let ?s2 = "?s1\<lparr>tasks := ?ts, total_ticks := total_ticks s + 1\<rparr>"
  have r1: "running_thread ?s1 = ?c" "running_thread ?s2 = ?c" by (simp_all add: running_thread_def)
  have c1: "sched_inv0 T L q ?c ?s1" using inv1 by (simp add: sched_inv_def r1)
  have "sched_inv0 T L q ?c (?s1\<lparr>tasks := ?ts\<rparr>)" by (rule sched_inv0_tasks [OF c1]) auto
  then have "sched_inv0 T L q (running_thread ?s2) ?s2"
    by (rule sched_inv0_cong) (simp_all add: running_thread_def)
  moreover have "flag_ok L ?s2" by (simp add: flag_ok_def)
  ultimately have i2: "sched_inv T L q ?s2"
    unfolding sched_inv_def r1(2) using I(4) by simp
  have eq: "timer_interrupt s = (if ticks (tasks s ?c) = 0 then schedule ?s2
      else Inr (upd_task ?c (\<lambda>t. t\<lparr>ticks := ticks t - 1\<rparr>) ?s2))"
    using mg by (simp add: timer_interrupt_def intr_timer_handler_def sti_cli_norm push_frames_def
        upd_task_def running_thread_def Let_def)
  have cl2: "closed_frames L (frames ?s2 (running_thread ?s2))" using cl r1(2) by simp
  show thesis by (rule that [OF eq i2 cl2]) (auto simp: running_thread_def)
qed

lemma step_timer:
  assumes inv: "sched_inv T L q s" and on: "intr_get_status s = INTR_ON"
    and res: "timer_interrupt s = Inr s'"
  obtains q' where "sched_inv T L q' s'" "lock_holder s' = lock_holder s"
    "general_tag (running_thread s') = (if ticks (tasks s (running_thread s)) = 0
       then hd (q (thread_ready_list s) @ [general_tag (running_thread s)])
       else general_tag (running_thread s))"
proof -
  let ?c = "running_thread s"
  note I = sched_invD [OF inv]
  have mg: "stack_magic (tasks s ?c) = 0x19870916"
    using res by (auto simp: timer_interrupt_def intr_timer_handler_def sti_cli_norm push_frames_def
        running_thread_def ASSERT_eq_Inr Let_def)
  show thesis
  proof (rule timer_prefix [OF inv on mg])
    fix s2
    assume eq: "timer_interrupt s = (if ticks (tasks s ?c) = 0 then schedule s2
        else Inr (upd_task ?c (\<lambda>t. t\<lparr>ticks := ticks t - 1\<rparr>) s2))"
      and i2: "sched_inv T L q s2" and cl: "closed_frames L (frames s2 (running_thread s2))"
      and f: "lock_holder s2 = lock_holder s" "running_thread s2 = ?c"
        "thread_ready_list s2 = thread_ready_list s"
    have i20: "sched_inv0 T L q (running_thread s2) s2" using i2 by (simp add: sched_inv_def)
    show thesis
    proof (cases "ticks (tasks s ?c) = 0")
      case True
      have sc: "schedule s2 = Inr s'" using res eq True by simp
      have ra: "ready_after q s2 = q (thread_ready_list s) @ [general_tag ?c]"
        using sched_invD(4) [OF i2] f by (simp add: ready_after_def)
      show thesis by (rule schedule_inv [OF i20 cl sc]) (use that f ra True in simp)
    next
      case False
      let ?ts = "(tasks s2)(?c := (tasks s2 ?c)\<lparr>ticks := ticks (tasks s2 ?c) - 1\<rparr>)"
      have s': "s' = s2\<lparr>tasks := ?ts\<rparr>" using res eq False by (simp add: upd_task_def)
      have r: "running_thread s' = ?c" using f(2) by (simp add: s' running_thread_def)
      have "sched_inv0 T L q ?c (s2\<lparr>tasks := ?ts\<rparr>)"
        by (rule sched_inv0_tasks) (use i20 f(2) in auto)
      moreover have "flag_ok L s'" using sched_invD(3) [OF i2] f(2) r by (simp add: flag_ok_def s')
      moreover have "status (tasks s' ?c) = TASK_RUNNING" using sched_invD(4) [OF i2] f(2) by (simp add: s')
      ultimately have "sched_inv T L q s'" by (simp add: sched_inv_def r) (simp add: s')
      then show thesis using that f(1) r False by (simp add: s')
    qed
  qed
qed

section \<open>All steps\<close>

lemma frame_shapes:
  assumes "open_frames L (f # fs) \<or> closed_frames L (f # fs)"
  shows "(((\<exists>a b. f = F_start a b) \<or> (\<exists>e. f = F_iret e) \<or> (\<exists>st. f = F_set_status st)) \<and> closed_frames L (f # fs)) \<or>
    (\<exists>l\<in>L. f # fs = [F_sema_down (l + 4), F_lock l] \<or> f # fs = [F_lock l] \<or> f # fs = [F_sema_up (l + 4)] \<or>
       (\<exists>old. f # fs = [F_sema_loop (l + 4) old, F_lock l]))"
  using assms by (auto simp: open_frames_def closed_frames_def)

lemma step_run:
  assumes inv: "sched_inv T L q s" and fr: "frames s (running_thread s) \<noteq> []"
    and res: "run_frame s = Inr s'"
  shows "\<exists>q'. sched_inv T L q' s'"
proof -
  note I = sched_invD [OF inv]
  obtain f fs where ff: "frames s (running_thread s) = f # fs" using fr by (cases "frames s (running_thread s)") auto
  have "open_frames L (f # fs) \<or> closed_frames L (f # fs)" using sched_coreD(7) [OF I(1,6)] ff by simp
  from frame_shapes [OF this] show ?thesis
  proof (elim disjE bexE exE conjE)
    fix l old assume l: "l \<in> L" and e: "f # fs = [F_sema_loop (l + 4) old, F_lock l]"
    show ?thesis using step_sema_loop [OF inv l _ res, of old] ff e by (metis)
  next
    fix l assume l: "l \<in> L" and e: "f # fs = [F_sema_up (l + 4)]"
    show ?thesis using step_sema_up [OF inv l _ res] ff e by metis
  qed (use step_return [OF inv ff _ _ res] step_sema_down [OF inv _ _ res] step_lock [OF inv _ _ res] ff in \<open>metis+\<close>)
qed

lemma kstep_inv:
  assumes "kstep T L s s'" and "sched_inv T L q s"
  shows "\<exists>q'. sched_inv T L q' s'"
  using assms
proof (cases rule: kstep.cases)
  case run
  then show ?thesis using step_run assms(2) by blast
next
  case timer
  then show ?thesis using step_timer [OF assms(2)] by blast
next
  case (acquire l)
  then show ?thesis using step_acquire [OF assms(2)] by blast
next
  case (release l)
  then show ?thesis using step_release [OF assms(2)] by blast
next
  case yield
  then show ?thesis using step_yield [OF assms(2)] by blast
next
  case (block st)
  then show ?thesis using step_block [OF assms(2)] by blast
next
  case (unblock t)
  then show ?thesis using step_unblock [OF assms(2)] by blast
next
  case (irq st)
  note I = sched_invD [OF assms(2)]
  have "sched_inv T L q s'"
    by (rule own_step [OF assms(2), of "[]"])
      (use irq lock_part [OF I(2)] in \<open>auto simp: intr_norm open_frames_def\<close>)
  then show ?thesis by blast
qed

lemma reachable_inv:
  assumes "reachable T L s0 s" and "\<exists>q. sched_inv T L q s0"
  shows "\<exists>q. sched_inv T L q s"
  using assms by (induction rule: reachable.induct) (auto dest: kstep_inv)

section \<open>Who holds a lock\<close>

lemma run_holder:
  assumes inv: "sched_inv T L q s" and l: "l \<in> L" and fr: "frames s (running_thread s) \<noteq> []"
    and res: "run_frame s = Inr s'" and h: "lock_holder s l \<noteq> NULL"
  shows "lock_holder s' l = lock_holder s l"
proof -
  note I = sched_invD [OF inv]
  obtain f fs where ff: "frames s (running_thread s) = f # fs" using fr by (cases "frames s (running_thread s)") auto
  have "open_frames L (f # fs) \<or> closed_frames L (f # fs)" using sched_coreD(7) [OF I(1,6)] ff by simp
  from frame_shapes [OF this] show ?thesis
  proof (elim disjE bexE exE conjE)
    fix k old assume k: "k \<in> L" and e: "f # fs = [F_sema_loop (k + 4) old, F_lock k]"
    show ?thesis by (rule step_sema_loop [OF inv k _ res, of old]) (use ff e in auto)
  next
    fix k assume k: "k \<in> L" and e: "f # fs = [F_sema_up (k + 4)]"
    show ?thesis by (rule step_sema_up [OF inv k _ res]) (use ff e in auto)
  next
    fix k assume k: "k \<in> L" and e: "f # fs = [F_lock k]"
    have "lock_holder s k = NULL" using token_owner(1) [OF inv k] ff e by simp
    with h have "k \<noteq> l" by auto
    then show ?thesis using res ff e
      by (auto simp: run_frame_def lock_acquire_tail_def ASSERT_eq_Inr set_lock_def Let_def)
  qed (use res ff in \<open>auto simp: run_frame_def intr_norm sema_down_def push_frames_def Let_def\<close>)
qed

lemma kstep_holder:
  assumes st: "kstep T L s s'" and inv: "sched_inv T L q s" and l: "l \<in> L" and h: "lock_holder s l \<noteq> NULL"
  shows "lock_holder s' l = lock_holder s l \<or> lock_holder s l = running_thread s \<and> lock_holder s' l = NULL"
  using st
proof (cases rule: kstep.cases)
  case run
  then show ?thesis using run_holder [OF inv l _ _ h] by blast
next
  case timer
  show ?thesis by (rule step_timer [OF inv timer]) simp
next
  case (acquire k)
  then show ?thesis
    by (auto simp: lock_acquire_def lock_acquire_enter_def set_lock_def push_frames_def Let_def split: if_splits)
next
  case (release k)
  then show ?thesis
    by (auto simp: lock_release_call_def lock_release_enter_def set_lock_def push_frames_def
        bind_r_eq_Inr ASSERT_eq_Inr split: if_splits)
next
  case yield
  show ?thesis by (rule step_yield [OF inv yield]) simp
next
  case (block st)
  show ?thesis by (rule step_block [OF inv block]) simp
next
  case (unblock t)
  show ?thesis by (rule step_unblock [OF inv unblock(2-4)]) simp
next
  case (irq st)
  then show ?thesis by (simp add: intr_norm)
qed

text \<open>A thread owns a lock from the moment it has taken the semaphore to the moment it gives it back.\<close>

definition owns :: "addr \<Rightarrow> addr \<Rightarrow> 'z kernel_scheme \<Rightarrow> bool" where
  "owns t l s = (lock_holder s l = t \<or> 0 < tokens l (frames s t))"

lemma owner_unique:
  assumes inv: "sched_inv T L q s" and l: "l \<in> L" and t: "t \<in> T" and u: "u \<in> T"
    and o: "owns t l s" "owns u l s"
  shows "t = u" and "sema_value s (l + 4) = 0"
proof -
  note I = sched_invD [OF inv]
  have nn: "t \<noteq> NULL" "u \<noteq> NULL" using sched_coreD(1) [OF I(1)] t u by (auto simp: layout_ok_def)
  have c: "(\<Sum>x\<in>T. tokens l (frames s x)) + of_bool (lock_holder s l \<noteq> NULL) + unat (sema_value s (l + 4)) = 1"
    using I(2) [OF l] by (simp add: lock_inv_def lock_count_def)
  have le: "tokens l (frames s x) \<le> (\<Sum>x\<in>T. tokens l (frames s x))" if "x \<in> T" for x
    using that I(5) by (intro member_le_sum) auto
  have le2: "tokens l (frames s t) + tokens l (frames s u) \<le> (\<Sum>x\<in>T. tokens l (frames s x))" if "t \<noteq> u"
  proof -
    have "(\<Sum>x\<in>{t, u}. tokens l (frames s x)) \<le> (\<Sum>x\<in>T. tokens l (frames s x))"
      using I(5) t u by (intro sum_mono2) auto
    then show ?thesis using that by simp
  qed
  show "sema_value s (l + 4) = 0"
    using c o(1) nn le [OF t] by (auto simp: owns_def unat_eq_0 [symmetric] split: if_splits)
  show "t = u"
    using o nn c le [OF t] le [OF u] le2 by (fastforce simp: owns_def split: if_splits)
qed

end
