(* ===== verification/Sched_Progress.thy ===== *)
theory Sched_Progress
  imports Sched_Safety
begin

text \<open>
  When the scheduler returns.  In a state that keeps the invariant, with a thread to run and kernel
  threads only, \<open>schedule\<close> comes to its last line: none of its assertions fails.  What happens there
  depends on the console lock, because \<open>schedule\<close> prints the switch: if the lock is free, or held by the
  thread that is switched away from, the switch happens; if another thread holds it, \<open>schedule\<close> would
  have to block inside itself.
\<close>

section \<open>The console\<close>

definition console_ready :: "'z kernel_scheme \<Rightarrow> bool" where
  "console_ready s =
     (sema_value s (console_lock s + 4) \<noteq> 0 \<or>
      lock_holder s (console_lock s) = running_thread s \<and> lock_repeat s (console_lock s) + 1 \<noteq> 0)"

lemma word_inc_gt_1:
  assumes "(x :: u32) \<noteq> 0" and "x + 1 \<noteq> 0"
  shows "1 < x + 1"
proof -
  have "unat (x + 1) = unat x + 1"
    using assms(2) by (simp add: add.commute unatSuc)
  moreover have "0 < unat x" using assms(1) by (simp add: unat_gt_0)
  ultimately show ?thesis by (simp add: word_less_nat_alt)
qed

lemma console_put_str_total:
  assumes inv: "sched_inv0 T L q c s" and rdy: "console_ready s"
  shows "\<exists>s'. console_put_str str s = Inr s'"
proof -
  let ?l = "console_lock s"
  have core: "sched_core T L q c s" and li: "\<forall>l\<in>L. lock_inv T l s"
    using inv by (simp_all add: sched_inv0_def)
  have l: "?l \<in> L" by (rule sched_coreD(2) [OF core])
  show ?thesis
  proof (cases "lock_holder s ?l = running_thread s")
    case True
    have nn: "lock_holder s ?l \<noteq> NULL"
      using sched_coreD(1,3) [OF core] True by (auto simp: layout_ok_def)
    then have rn: "lock_repeat s ?l \<noteq> 0" and "lock_repeat s ?l + 1 \<noteq> 0"
      using bspec [OF li l] rdy lock_free(2) [OF bspec [OF li l]]
      by (auto simp: lock_inv_def console_ready_def)
    then have "1 < lock_repeat s ?l + 1" by (rule word_inc_gt_1)
    then show ?thesis using True
      by (simp add: console_put_str_def console_acquire_def console_release_def lock_acquire_now_def
          lock_acquire_enter_def lock_release_def lock_release_enter_def put_str_def set_lock_def
          running_thread_def)
  next
    case False
    then have v: "sema_value s (?l + 4) \<noteq> 0" using rdy by (simp add: console_ready_def)
    let ?s = "s\<lparr>sema_value := (sema_value s)(?l + 4 := 0), screen := screen s @ str\<rparr>"
    have cs: "sched_core T L q c ?s"
      by (rule sched_core_tasks [OF core])
        (use sched_coreD(4,9) [OF core] in \<open>auto simp: queue_inv_def wake_inv_def\<close>)
    have v0: "sema_value ?s (?l + 4) = 0" by simp
    show ?thesis
      using console_free_norm [OF False bspec [OF li l] v, of str] sema_up_core [OF cs l v0] by metis
  qed
qed

lemma console_contended:
  assumes "sema_value s (console_lock s + 4) = 0" and "lock_holder s (console_lock s) \<noteq> running_thread s"
  shows "console_put_str str s = Inl (WouldBlock (console_lock s + 4))"
  using assms by (simp add: console_put_str_def console_acquire_def lock_acquire_now_def
      lock_acquire_enter_def sema_down_now_def intr_norm lock_semaphore_def)

section \<open>schedule up to its message\<close>

lemma render_switch:
  "\<exists>buf. render strs (bytes_of (''%s->%s'' @ newline)) [a, b] = Some buf"
  by (simp add: bytes_of_def newline_def)

lemma schedule_prefix:
  assumes inv: "sched_inv0 T L q (running_thread s) s"
    and off: "if_status (eflags s) = INTR_OFF"
    and ne: "ready_after q s \<noteq> []" and kt: "\<forall>t\<in>T. pgdir (tasks s t) = NULL"
  obtains q3 n s3 buf where
    "schedule s = bind_r (console_put_str buf s3) (\<lambda>s'. Inr (switch_to (running_thread s) n s'))"
    "sched_inv0 T L q3 n s3" "sema_value s3 = sema_value s" "lock_holder s3 = lock_holder s"
    "lock_repeat s3 = lock_repeat s" "console_lock s3 = console_lock s" "running_thread s3 = running_thread s"
    "n \<in> T" "general_tag n = hd (ready_after q s)"
proof -
  let ?c = "running_thread s" and ?r = "thread_ready_list s"
  have core: "sched_core T L q ?c s" using inv by (simp add: sched_inv0_def)
  note c = sched_coreD(3) [OF core]
  let ?tk = "(tasks s ?c)\<lparr>ticks := priority (tasks s ?c), status := TASK_READY\<rparr>"
  define s1 where "s1 = (if status (tasks s ?c) = TASK_RUNNING
    then s\<lparr>mem := append_m ?r (general_tag ?c) (mem s), tasks := (tasks s)(?c := ?tk)\<rparr> else s)"
  have r1: "sched_requeue s = Inr s1"
    using requeue_core(1) [OF core c, of ?tk]
    by (simp add: sched_requeue_def s1_def assert_absent_def list_norm task_upds Let_def)
  let ?q1 = "q(?r := ready_after q s)"
  note R = schedule_requeue [OF inv r1]
  have f1: "thread_ready_list s1 = ?r" "sema_value s1 = sema_value s" "lock_holder s1 = lock_holder s"
    "lock_repeat s1 = lock_repeat s" "console_lock s1 = console_lock s" "esp s1 = esp s"
    "\<And>t. pgdir (tasks s1 t) = pgdir (tasks s t)" "eflags s1 = eflags s"
    by (auto simp: s1_def)
  have core1: "sched_core T L ?q1 ?c s1" using R(2) by (simp add: sched_inv0_def)
  note qi1 = sched_coreD(4) [OF core1]
  have le: "\<not> list_empty (thread_ready_list s1) s1"
    using queues_tests(2) [OF queue_invD(1) [OF qi1], of "thread_ready_list s1"] ne f1(1)
    by (simp add: list_norm)
  obtain e ns where en: "ready_after q s = e # ns" using ne by (cases "ready_after q s") auto
  have "set (ready_after q s) \<subseteq> general_tag ` T"
    using bspec [OF queue_invD(2) [OF qi1], of ?r] f1(1) by simp
  then obtain n where n: "n \<in> T" "e = general_tag n" using en by auto
  have qr: "?q1 (thread_ready_list s1) = general_tag n # ns" using en n f1(1) by simp
  note P = pick_core [where q = ?q1, OF core1 R(3) n(1) qr]
  have nn: "n \<noteq> NULL" using sched_coreD(1) [OF core1] n(1) by (auto simp: layout_ok_def)
  let ?s3 = "s1\<lparr>mem := remove_m (general_tag n) (mem s1), thread_tag := general_tag n,
    tasks := (tasks s1)(n := (tasks s1 n)\<lparr>status := TASK_RUNNING\<rparr>)\<rparr>"
  let ?s4 = "?s3\<lparr>cr3 := 0x100000\<rparr>"
  let ?q3 = "?q1(thread_ready_list s1 := ns)"
  have pa: "process_active n ?s3 = Inr ?s4"
    using kt n(1) nn f1(7) by (simp add: process_active_def page_dir_activate_def)
  obtain buf where buf: "render (\<lambda>p. tname (tasks ?s4 (p - 12))) (bytes_of (''%s->%s'' @ newline))
      [?c + 12, n + 12] = Some buf" using render_switch by blast
  have "sched_idle s1 = Inr s1" using le by (simp add: sched_idle_def)
  moreover have "sched_dispatch ?c s1 = bind_r (console_put_str buf ?s4) (\<lambda>s'. Inr (switch_to ?c n s'))"
  proof -
    have "sched_dispatch ?c s1 = bind_r (process_active n ?s3) (\<lambda>s.
       bind_r (printk (''%s->%s'' @ newline) (\<lambda>p. tname (tasks s (p - 12))) [?c + 12, n + 12] s) (\<lambda>s.
       Inr (switch_to ?c n s)))"
      by (simp add: sched_dispatch_def list_norm task_upds P(1) Let_def)
    then show ?thesis unfolding pa bind_r.simps printk_def buf option.case .
  qed
  ultimately have eq: "schedule s = bind_r (console_put_str buf ?s4) (\<lambda>s'. Inr (switch_to ?c n s'))"
    using r1 off by (simp add: schedule_def intr_get_status_norm Let_def)
  have "sched_core T L ?q3 n ?s3"
    by (rule sched_core_cong [THEN iffD2, OF _ _ _ _ _ _ _ _ P(2)]) simp_all
  then have i4: "sched_inv0 T L ?q3 n ?s4" using R(2) by (simp add: sched_inv0_def)
  have hd: "general_tag n = hd (ready_after q s)" unfolding en n(2) by simp
  show thesis
    by (rule that [OF eq i4 _ _ _ _ _ n(1) hd]) (simp_all add: f1 running_thread_def)
qed

section \<open>Where schedule ends\<close>

lemma schedule_total:
  assumes inv: "sched_inv0 T L q (running_thread s) s"
    and off: "if_status (eflags s) = INTR_OFF"
    and ne: "ready_after q s \<noteq> []" and kt: "\<forall>t\<in>T. pgdir (tasks s t) = NULL"
    and rdy: "console_ready s"
  shows "\<exists>s'. schedule s = Inr s'"
proof (rule schedule_prefix [OF inv off ne kt])
  fix q3 n s3 buf
  assume eq: "schedule s = bind_r (console_put_str buf s3) (\<lambda>s'. Inr (switch_to (running_thread s) n s'))"
    and i3: "sched_inv0 T L q3 n s3"
    and f: "sema_value s3 = sema_value s" "lock_holder s3 = lock_holder s" "lock_repeat s3 = lock_repeat s"
      "console_lock s3 = console_lock s" "running_thread s3 = running_thread s"
  have "console_ready s3" using rdy unfolding console_ready_def f .
  from console_put_str_total [OF i3 this, of buf] obtain s4 where "console_put_str buf s3 = Inr s4" by blast
  then show ?thesis unfolding eq by simp
qed

lemma schedule_contended:
  assumes inv: "sched_inv0 T L q (running_thread s) s"
    and off: "if_status (eflags s) = INTR_OFF"
    and ne: "ready_after q s \<noteq> []" and kt: "\<forall>t\<in>T. pgdir (tasks s t) = NULL"
    and v: "sema_value s (console_lock s + 4) = 0" and h: "lock_holder s (console_lock s) \<noteq> running_thread s"
  shows "schedule s = Inl (WouldBlock (console_lock s + 4))"
proof (rule schedule_prefix [OF inv off ne kt])
  fix q3 n s3 buf
  assume eq: "schedule s = bind_r (console_put_str buf s3) (\<lambda>s'. Inr (switch_to (running_thread s) n s'))"
    and f: "sema_value s3 = sema_value s" "lock_holder s3 = lock_holder s" "lock_repeat s3 = lock_repeat s"
      "console_lock s3 = console_lock s" "running_thread s3 = running_thread s"
  have "sema_value s3 (console_lock s3 + 4) = 0" "lock_holder s3 (console_lock s3) \<noteq> running_thread s3"
    using v h unfolding f .
  then have "console_put_str buf s3 = Inl (WouldBlock (console_lock s3 + 4))" by (rule console_contended)
  then show ?thesis unfolding eq f by simp
qed

end
