(* ===== verification/Sched_Props.thy ===== *)
theory Sched_Props
  imports Sched_Progress
begin

text \<open>
  The properties of the thread system, each with a run on a small concrete kernel: the main thread
  running, one more thread ready, and the console lock.
\<close>

section \<open>A small kernel\<close>

definition demo_task :: "addr \<Rightarrow> task_status \<Rightarrow> task" where
  "demo_task t st =
     \<lparr>self_kstack = t + 0xe50, pid = 1, status = st, tname = [109], priority = 31, ticks = 31,
      elapsed_ticks = 0, pgdir = NULL,
      userprog_vaddr = \<lparr>vaddr_bitmap = \<lparr>btmp_bytes_len = 0, bits = 0\<rparr>, vaddr_start = 0\<rparr>,
      stack_magic = 0x19870916\<rparr>"

definition demo_lists :: "addr \<Rightarrow> u32" where
  "demo_lists = (\<lambda>_. 0)
     (0xc0008004 := 0xc0008008, 0xc0008008 := 0xc0008000, 0xc000900c := 0xc0009010, 0xc0009010 := 0xc0009008)"

text \<open>The console lock is held by \<open>h\<close> (\<open>NULL\<close>: free).\<close>

definition demo_kernel :: "addr \<Rightarrow> u32 \<Rightarrow> kernel" where
  "demo_kernel h fl =
     \<lparr>eflags = fl, mem = append_m 0xc0008000 (general_tag 0xc0100000) demo_lists, bytes = (\<lambda>_. 0),
      cr3 = 0x100000, pmem = (\<lambda>_. 0), esp = 0xc009ee00,
      tasks = (\<lambda>t. demo_task t (if t = 0xc009e000 then TASK_RUNNING else TASK_READY)),
      sema_value = (\<lambda>p. if h = NULL then 1 else 0),
      lock_holder = (\<lambda>_. h), lock_repeat = (\<lambda>_. if h = NULL then 0 else 1),
      thread_ready_list = 0xc0008000, thread_all_list = 0xc0008020, pid_lock = 0xc0009040,
      console_lock = 0xc0009000, idle_thread = NULL, main_thread = 0xc009e000, thread_tag = NULL,
      next_pid = 2, total_ticks = 0, tss_esp0 = 0, screen = [],
      frames = (\<lambda>t. if t = 0xc0100000 then [F_start 0xc0001500 0] else [])\<rparr>"

definition demo_threads :: "addr set" where
  "demo_threads = {0xc009e000, 0xc0100000}"

definition demo_locks :: "addr set" where
  "demo_locks = {0xc0009000}"

definition demo_queues :: "addr \<Rightarrow> addr list" where
  "demo_queues = (\<lambda>h. if h = 0xc0008000 then [general_tag 0xc0100000] else [])"

lemma demo_layout: "layout_ok demo_threads demo_locks 0xc0008000"
  by (simp add: layout_ok_def demo_threads_def demo_locks_def sentinels_def heads_def spaced_def
      general_tag_def frame_of_def)

lemma demo_q: "queues (append_m 0xc0008000 (general_tag 0xc0100000) demo_lists) (heads demo_locks 0xc0008000) demo_queues"
proof -
  have a: "queues demo_lists (heads demo_locks 0xc0008000) (\<lambda>_. [])"
    by (simp add: queues_def demo_locks_def heads_def all_nodes_def nodes_def dlist_def spaced_def demo_lists_def)
  have b: "linkable (heads demo_locks 0xc0008000) (\<lambda>_. []) (general_tag 0xc0100000)"
    by (simp add: linkable_def demo_locks_def heads_def all_nodes_def nodes_def spaced_def general_tag_def)
  have "queues (append_m 0xc0008000 (general_tag 0xc0100000) demo_lists) (heads demo_locks 0xc0008000)
      ((\<lambda>_. [])(0xc0008000 := [] @ [general_tag 0xc0100000]))"
    using queues_append [OF a heads_simps(1) b] by simp
  moreover have "(\<lambda>_. [])(0xc0008000 := [] @ [general_tag 0xc0100000]) = demo_queues"
    by (auto simp: demo_queues_def)
  ultimately show ?thesis by simp
qed

lemma demo_inv:
  assumes h: "h = NULL \<or> h \<in> demo_threads"
  shows "sched_inv demo_threads demo_locks demo_queues (demo_kernel h fl)"
proof -
  let ?s = "demo_kernel h fl"
  have r: "running_thread ?s = 0xc009e000" by (simp add: running_thread_def demo_kernel_def)
  have qi: "queue_inv demo_threads demo_locks demo_queues 0xc009e000 ?s"
    using demo_q
    by (simp add: queue_inv_def demo_kernel_def demo_task_def demo_threads_def demo_locks_def demo_queues_def
        heads_def)
  have fr: "open_frames demo_locks [] " "closed_frames demo_locks [F_start a b]" for a b
    by (simp_all add: open_frames_def closed_frames_def)
  have ks: "frame_of (self_kstack (demo_task 0xc0100000 TASK_READY)) = 0xc0100000"
    by (simp add: demo_task_def frame_of_def)
  have core: "sched_core demo_threads demo_locks demo_queues 0xc009e000 ?s"
    unfolding sched_core_def r using demo_layout qi fr ks
    by (simp add: demo_kernel_def demo_locks_def demo_threads_def wake_inv_def demo_queues_def)
  have "lock_inv demo_threads 0xc0009000 ?s"
    using h by (auto simp: lock_inv_def lock_count_def demo_kernel_def demo_threads_def)
  moreover have "flag_ok demo_locks ?s"
    unfolding flag_ok_def r by (simp add: demo_kernel_def closed_frames_def)
  ultimately show ?thesis
    unfolding sched_inv_def sched_inv0_def r using core
    by (simp add: demo_locks_def) (simp add: demo_kernel_def demo_task_def)
qed

section \<open>Properties\<close>

text \<open>C1. In every reachable state of the thread system the lists and the status fields say the same:
  the ready list is a well-formed list of exactly the threads with status \<open>TASK_READY\<close>, each once; the
  running thread, and no other, has status \<open>TASK_RUNNING\<close>; and the waiter list of each lock is a
  well-formed list of exactly the threads that are blocked in \<open>sema_down\<close> on it.\<close>

theorem thread_queues_exact:
  assumes "sched_inv T L q0 s0" and "reachable T L s0 s"
  shows "(\<exists>ready. dlist (mem s) (thread_ready_list s) (map general_tag ready) \<and> distinct ready \<and>
      set ready = {t\<in>T. status (tasks s t) = TASK_READY}) \<and>
    {t\<in>T. status (tasks s t) = TASK_RUNNING} = {running_thread s} \<and>
    (\<forall>l\<in>L. \<exists>ws. dlist (mem s) (waiters (lock_semaphore l)) (map general_tag ws) \<and> distinct ws \<and>
      set ws = {t\<in>T. status (tasks s t) = TASK_BLOCKED \<and> waits_on (frames s t) = Some (lock_semaphore l)})"
proof -
  obtain q where "sched_inv T L q s" using reachable_inv assms by blast
  note I = sched_invD [OF this]
  note qi = sched_coreD(4) [OF I(1)]
  have lists: "\<exists>ts. q h = map general_tag ts \<and> distinct ts \<and> set ts = {t\<in>T. general_tag t \<in> set (q h)}"
    if h: "h \<in> heads L (thread_ready_list s)" for h
  proof -
    let ?ts = "map (elem2entry 36) (q h)"
    have el: "set (q h) \<subseteq> general_tag ` T" using bspec [OF queue_invD(2) [OF qi] h] .
    have "map general_tag ?ts = map (\<lambda>x. x) (q h)"
      unfolding map_map by (rule map_cong) (use el in auto)
    moreover have "set ?ts \<subseteq> T" using el by auto
    ultimately obtain ts where ts: "set ts \<subseteq> T" "q h = map general_tag ts" by (metis list.map_ident)
    moreover have "distinct ts" using queue_distinct [OF queue_invD(1) [OF qi] h] ts(2) by (simp add: distinct_map)
    ultimately show ?thesis by (auto intro!: exI [of _ ts])
  qed
  from lists [OF heads_simps(1)] obtain ready where rd: "q (thread_ready_list s) = map general_tag ready"
    "distinct ready" "set ready = {t\<in>T. general_tag t \<in> set (q (thread_ready_list s))}" by blast
  have "\<exists>ready. dlist (mem s) (thread_ready_list s) (map general_tag ready) \<and> distinct ready \<and>
      set ready = {t\<in>T. status (tasks s t) = TASK_READY}"
    using rd queuesD(1) [OF queue_invD(1) [OF qi] heads_simps(1)] queue_invD(3) [OF qi]
    by (intro exI [of _ ready]) auto
  moreover have "{t\<in>T. status (tasks s t) = TASK_RUNNING} = {running_thread s}"
    using queue_invD(4) [OF qi] I(4,6) by blast
  moreover have "\<exists>ws. dlist (mem s) (waiters (lock_semaphore l)) (map general_tag ws) \<and> distinct ws \<and>
      set ws = {t\<in>T. status (tasks s t) = TASK_BLOCKED \<and> waits_on (frames s t) = Some (lock_semaphore l)}"
    if l: "l \<in> L" for l
  proof -
    have h: "l + 8 \<in> heads L (thread_ready_list s)" using l by simp
    from lists [OF h] obtain ts where "q (l + 8) = map general_tag ts" "distinct ts"
      "set ts = {t\<in>T. general_tag t \<in> set (q (l + 8))}" by blast
    then show ?thesis
      using queuesD(1) [OF queue_invD(1) [OF qi] h] queue_invD(5) [OF qi l]
      by (intro exI [of _ ts]) (auto simp: waiters_def lock_semaphore_def add.assoc)
  qed
  ultimately show ?thesis by blast
qed

theorem thread_queues_exact_witness:
  "{t\<in>demo_threads. status (tasks (demo_kernel NULL 0x202) t) = TASK_RUNNING} = {running_thread (demo_kernel NULL 0x202)}"
  using thread_queues_exact [OF demo_inv [of NULL "0x202"] reachable.init] by simp



text \<open>C3. A lock is not taken away: from a reachable state, a step leaves the holder of a lock as it is,
  unless the running thread is the holder and releases it.\<close>

theorem lock_holder_stable:
  assumes "sched_inv T L q0 s0" and "reachable T L s0 s"
    and "kstep T L s s'" and "l \<in> L" and "lock_holder s l \<noteq> NULL"
  shows "lock_holder s' l = lock_holder s l \<or>
    lock_holder s l = running_thread s \<and> lock_holder s' l = NULL"
proof -
  obtain q where inv: "sched_inv T L q s" using reachable_inv assms(1,2) by blast
  from kstep_holder [OF assms(3) inv assms(4,5)] show ?thesis .
qed

theorem lock_holder_stable_witness:
  "lock_holder (lock_acquire 0xc0009000 (demo_kernel 0xc0100000 0x202)) 0xc0009000 = 0xc0100000"
proof -
  let ?s = "demo_kernel 0xc0100000 0x202"
  have h: "0xc0100000 \<in> demo_threads" "0xc0009000 \<in> demo_locks" by (simp_all add: demo_threads_def demo_locks_def)
  have st: "kstep demo_threads demo_locks ?s (lock_acquire 0xc0009000 ?s)"
    by (rule kstep.acquire) (simp_all add: h(2), simp_all add: demo_kernel_def running_thread_def)
  have "lock_holder ?s 0xc0009000 = 0xc0100000" "running_thread ?s = 0xc009e000"
    by (simp_all add: demo_kernel_def running_thread_def)
  with lock_holder_stable [OF demo_inv [OF disjI2, OF h(1)] reachable.init st h(2)] show ?thesis by auto
qed

text \<open>C4. No wake-up is lost: whenever a reachable state has a free lock and threads in its waiter list,
  some thread that was waiting for it has already been woken (it is ready or running) and is about to
  test the semaphore again.\<close>

theorem no_lost_wakeup:
  assumes "sched_inv T L q0 s0" and "reachable T L s0 s" and "l \<in> L"
    and "sema_value s (lock_semaphore l) \<noteq> 0" and "\<not> list_empty (waiters (lock_semaphore l)) s"
  shows "\<exists>t\<in>T. pending l (frames s t) \<and> (status (tasks s t) = TASK_READY \<or> t = running_thread s)"
proof -
  obtain q where inv: "sched_inv T L q s" using reachable_inv assms(1,2) by blast
  note I = sched_invD [OF inv]
  note qi = sched_coreD(4) [OF I(1)]
  have "q (l + 8) \<noteq> []"
    using queues_tests(2) [OF queue_invD(1) [OF qi], of "l + 8"] assms(3,5)
    by (auto simp: list_norm waiters_def lock_semaphore_def add.assoc)
  then obtain t where "t \<in> T" "pending l (frames s t)" "awake (status (tasks s t))"
    using sched_coreD(9) [OF I(1) assms(3)] assms(4) by (auto simp: wake_inv_def lock_semaphore_def)
  then show ?thesis using queue_invD(4) [OF qi] by (auto simp: awake_def)
qed

text \<open>A kernel in which the console lock was just released while two threads waited for it: one is woken,
  the other still in the waiter list.\<close>

definition handoff_kernel :: kernel where
  "handoff_kernel = (demo_kernel NULL 0x202)\<lparr>
     mem := append_m 0xc0009008 (general_tag 0xc0101000) (append_m 0xc0008000 (general_tag 0xc0100000) demo_lists),
     tasks := (\<lambda>t. demo_task t (if t = 0xc009e000 then TASK_RUNNING
        else if t = 0xc0100000 then TASK_READY else TASK_BLOCKED)),
     frames := (\<lambda>t. if t = 0xc009e000 then []
        else [F_set_status INTR_OFF, F_sema_loop 0xc0009004 INTR_ON, F_lock 0xc0009000])\<rparr>"

definition handoff_threads :: "addr set" where
  "handoff_threads = {0xc009e000, 0xc0100000, 0xc0101000}"

definition handoff_queues :: "addr \<Rightarrow> addr list" where
  "handoff_queues = demo_queues(0xc0009008 := [general_tag 0xc0101000])"

lemma handoff_inv: "sched_inv handoff_threads demo_locks handoff_queues handoff_kernel"
proof -
  let ?s = handoff_kernel
  have r: "running_thread ?s = 0xc009e000" by (simp add: running_thread_def handoff_kernel_def demo_kernel_def)
  have lay: "layout_ok handoff_threads demo_locks 0xc0008000"
    by (simp add: layout_ok_def handoff_threads_def demo_locks_def sentinels_def heads_def spaced_def
        general_tag_def frame_of_def)
  have "linkable (heads demo_locks 0xc0008000) demo_queues (general_tag 0xc0101000)"
    by (simp add: linkable_def demo_locks_def heads_def all_nodes_def nodes_def spaced_def general_tag_def
        demo_queues_def)
  then have "queues (append_m 0xc0009008 (general_tag 0xc0101000) (append_m 0xc0008000 (general_tag 0xc0100000) demo_lists))
      (heads demo_locks 0xc0008000) (demo_queues(0xc0009008 := demo_queues 0xc0009008 @ [general_tag 0xc0101000]))"
    by (intro queues_append [OF demo_q]) (simp_all add: heads_def demo_locks_def)
  then have q: "queues (mem ?s) (heads demo_locks 0xc0008000) handoff_queues"
    by (simp add: handoff_kernel_def handoff_queues_def) (simp add: demo_queues_def)
  have qi: "queue_inv handoff_threads demo_locks handoff_queues 0xc009e000 ?s"
    using q by (simp add: queue_inv_def handoff_kernel_def demo_kernel_def demo_task_def handoff_threads_def
        demo_locks_def demo_queues_def handoff_queues_def heads_def)
  have fr: "open_frames demo_locks []"
    "closed_frames demo_locks [F_set_status INTR_OFF, F_sema_loop 0xc0009004 INTR_ON, F_lock 0xc0009000]"
    by (simp_all add: open_frames_def closed_frames_def demo_locks_def)
  have ks: "frame_of (self_kstack (tasks ?s t)) = t" if "t \<in> handoff_threads" for t
    using that by (auto simp: handoff_threads_def handoff_kernel_def demo_task_def frame_of_def)
  have core: "sched_core handoff_threads demo_locks handoff_queues 0xc009e000 ?s"
    unfolding sched_core_def r using lay qi fr ks
    by (simp add: handoff_kernel_def demo_kernel_def demo_locks_def handoff_threads_def wake_inv_def
        awake_def demo_task_def)
  have "lock_inv handoff_threads 0xc0009000 ?s"
    by (simp add: lock_inv_def lock_count_def handoff_kernel_def demo_kernel_def handoff_threads_def)
  moreover have "flag_ok demo_locks ?s"
    unfolding flag_ok_def r by (simp add: handoff_kernel_def closed_frames_def)
  ultimately show ?thesis
    unfolding sched_inv_def sched_inv0_def r using core
    by (simp add: demo_locks_def) (simp add: handoff_kernel_def demo_task_def)
qed

theorem no_lost_wakeup_witness:
  "\<exists>t\<in>handoff_threads. pending 0xc0009000 (frames handoff_kernel t) \<and>
     (status (tasks handoff_kernel t) = TASK_READY \<or> t = running_thread handoff_kernel)"
proof (rule no_lost_wakeup [OF handoff_inv reachable.init])
  show "0xc0009000 \<in> demo_locks" by (simp add: demo_locks_def)
  show "sema_value handoff_kernel (lock_semaphore 0xc0009000) \<noteq> 0"
    by (simp add: handoff_kernel_def demo_kernel_def)
  show "\<not> list_empty (waiters (lock_semaphore 0xc0009000)) handoff_kernel"
    by (simp add: list_norm waiters_def lock_semaphore_def handoff_kernel_def append_m_def insert_m_def
        demo_lists_def general_tag_def)
qed

text \<open>C5. \<open>thread_yield\<close> is round robin and does not panic: from a reachable state, with kernel threads only
  and the console lock available, it returns with the first thread of the ready list on the CPU, or
  with the caller itself when the list is empty.\<close>

theorem thread_yield_round_robin:
  assumes "sched_inv T L q0 s0" and "reachable T L s0 s"
    and "frames s (running_thread s) = []" and "\<forall>t\<in>T. pgdir (tasks s t) = NULL" and "console_ready s"
  shows "\<exists>s'. thread_yield s = Inr s' \<and>
    (if list_empty (thread_ready_list s) s then running_thread s' = running_thread s
     else general_tag (running_thread s') = fst (list_pop (thread_ready_list s) s))"
proof -
  obtain q where inv: "sched_inv T L q s" using reachable_inv assms(1,2) by blast
  note I = sched_invD [OF inv]
  note qi = sched_coreD(4) [OF I(1)]
  let ?r = "thread_ready_list s"
  have "\<exists>s'. thread_yield s = Inr s'"
  proof (rule yield_schedule [OF inv assms(3)])
    fix q2 s2
    assume eq: "thread_yield s = schedule s2" and i2: "sched_inv0 T L q2 (running_thread s2) s2"
      and off: "if_status (eflags s2) = INTR_OFF"
      and ra: "ready_after q2 s2 = q ?r @ [general_tag (running_thread s)]"
      and f: "sema_value s2 = sema_value s" "lock_holder s2 = lock_holder s" "lock_repeat s2 = lock_repeat s"
        "console_lock s2 = console_lock s" "running_thread s2 = running_thread s"
      and pg: "\<And>t. pgdir (tasks s2 t) = pgdir (tasks s t)"
    have "console_ready s2" using assms(5) unfolding console_ready_def f .
    with schedule_total [OF i2 off] ra pg assms(4) show ?thesis by (simp add: eq)
  qed
  then obtain s' where s': "thread_yield s = Inr s'" ..
  have hd: "general_tag (running_thread s') = hd (q ?r @ [general_tag (running_thread s)])"
    by (rule step_yield [OF inv assms(3) s'])
  note q = queue_invD(1) [OF qi]
  have "mem s (?r + 4) = hd (q ?r @ [?r + 8])" "mem s (?r + 4) = ?r + 8 \<longleftrightarrow> q ?r = []"
    using dlist_next_head [OF queuesD(1) [OF q heads_simps(1)]] queues_tests(2) [OF q heads_simps(1)] by blast+
  with s' hd show ?thesis by (cases "q ?r") (auto simp: list_norm)
qed

theorem thread_yield_round_robin_witness:
  "\<exists>s'. thread_yield (demo_kernel NULL 0x202) = Inr s' \<and> running_thread s' = 0xc0100000"
proof -
  let ?s = "demo_kernel NULL 0x202"
  have a: "frames ?s (running_thread ?s) = []" "\<forall>t\<in>demo_threads. pgdir (tasks ?s t) = NULL" "console_ready ?s"
    by (simp_all add: demo_kernel_def running_thread_def demo_task_def console_ready_def)
  have m: "mem ?s 0xc0008004 = general_tag 0xc0100000"
    by (simp add: demo_kernel_def append_m_def insert_m_def demo_lists_def general_tag_def)
  have r: "thread_ready_list ?s = 0xc0008000" by (simp add: demo_kernel_def)
  obtain s' where "thread_yield ?s = Inr s'" "if list_empty (thread_ready_list ?s) ?s
      then running_thread s' = running_thread ?s
      else general_tag (running_thread s') = fst (list_pop (thread_ready_list ?s) ?s)"
    using thread_yield_round_robin [OF demo_inv [OF disjI1 [OF refl]] reachable.init a] by blast
  then show ?thesis using m by (auto simp: list_norm r general_tag_def)
qed

text \<open>C6. The timer interrupt preempts at the end of the slice and only there: from a reachable state with
  interrupts on (kernel threads only, the PCB's magic number intact, the console lock available) it
  returns; the total tick count goes up by one; the running thread keeps the CPU and loses one tick of
  its slice if it has any left, otherwise the first ready thread runs.\<close>

theorem timer_preemption:
  assumes "sched_inv T L q0 s0" and "reachable T L s0 s" and "intr_get_status s = INTR_ON"
    and "stack_magic (tasks s (running_thread s)) = 0x19870916"
    and "\<forall>t\<in>T. pgdir (tasks s t) = NULL" and "console_ready s"
  shows "\<exists>s'. timer_interrupt s = Inr s' \<and>
    (if ticks (tasks s (running_thread s)) \<noteq> 0
     then running_thread s' = running_thread s \<and> total_ticks s' = total_ticks s + 1 \<and>
       ticks (tasks s' (running_thread s)) = ticks (tasks s (running_thread s)) - 1
     else if list_empty (thread_ready_list s) s then running_thread s' = running_thread s
     else general_tag (running_thread s') = fst (list_pop (thread_ready_list s) s))"
proof -
  obtain q where inv: "sched_inv T L q s" using reachable_inv assms(1,2) by blast
  note qi = sched_coreD(4) [OF sched_invD(1) [OF inv]]
  let ?c = "running_thread s" and ?r = "thread_ready_list s"
  obtain s2 where eq: "timer_interrupt s = (if ticks (tasks s ?c) = 0 then schedule s2
      else Inr (upd_task ?c (\<lambda>t. t\<lparr>ticks := ticks t - 1\<rparr>) s2))"
    and i2: "sched_inv T L q s2" and off: "if_status (eflags s2) = INTR_OFF"
    and f: "sema_value s2 = sema_value s" "lock_holder s2 = lock_holder s" "lock_repeat s2 = lock_repeat s"
      "console_lock s2 = console_lock s" "running_thread s2 = ?c"
    and pg: "\<And>t. pgdir (tasks s2 t) = pgdir (tasks s t)"
    and tt: "total_ticks s2 = total_ticks s + 1" "\<And>t. ticks (tasks s2 t) = ticks (tasks s t)"
    by (rule timer_prefix [OF inv assms(3,4)]) blast
  have i20: "sched_inv0 T L q (running_thread s2) s2" using i2 by (simp add: sched_inv_def)
  have "ready_after q s2 \<noteq> []" using sched_invD(4) [OF i2] by (simp add: ready_after_def)
  moreover have "console_ready s2" using assms(6) unfolding console_ready_def f .
  ultimately obtain s3 where "schedule s2 = Inr s3"
    using schedule_total [OF i20 off] pg assms(5) by auto
  then obtain s' where s': "timer_interrupt s = Inr s'" using eq by (cases "ticks (tasks s ?c) = 0") auto
  have hd: "general_tag (running_thread s') = (if ticks (tasks s ?c) = 0
      then hd (q ?r @ [general_tag ?c]) else general_tag ?c)"
    by (rule step_timer [OF inv assms(3) s'])
  note q = queue_invD(1) [OF qi]
  have "mem s (?r + 4) = hd (q ?r @ [?r + 8])" "mem s (?r + 4) = ?r + 8 \<longleftrightarrow> q ?r = []"
    using dlist_next_head [OF queuesD(1) [OF q heads_simps(1)]] queues_tests(2) [OF q heads_simps(1)] by blast+
  moreover have "ticks (tasks s ?c) \<noteq> 0 \<Longrightarrow> total_ticks s' = total_ticks s + 1 \<and>
      ticks (tasks s' ?c) = ticks (tasks s ?c) - 1"
    using s' eq tt by (auto simp: upd_task_def)
  ultimately show ?thesis using s' hd by (cases "q ?r") (auto simp: list_norm)
qed

theorem timer_preemption_witness:
  "\<exists>s'. timer_interrupt (demo_kernel NULL 0x202) = Inr s' \<and> running_thread s' = 0xc009e000 \<and>
     ticks (tasks s' 0xc009e000) = 30"
proof -
  let ?s = "demo_kernel NULL 0x202"
  have r: "running_thread ?s = 0xc009e000" by (simp add: demo_kernel_def running_thread_def)
  have a: "intr_get_status ?s = INTR_ON" "stack_magic (tasks ?s (running_thread ?s)) = 0x19870916"
    "\<forall>t\<in>demo_threads. pgdir (tasks ?s t) = NULL" "console_ready ?s" "ticks (tasks ?s 0xc009e000) = 31"
    by (simp_all add: demo_kernel_def demo_task_def console_ready_def intr_get_status_def EFLAGS_IF_def)
  from timer_preemption [OF demo_inv [OF disjI1 [OF refl]] reachable.init a(1-4)] a(5)
  show ?thesis unfolding r by auto
qed

text \<open>C7. \<open>schedule\<close> prints the switch through the console lock, and so it depends on that lock: with a thread
  to switch to and every assertion satisfied, but the console lock held by another thread, \<open>schedule\<close>
  does not switch; it runs into \<open>sema_down\<close> of the console lock, where it would have to block (and call
  itself) while its caller is already in the ready list.\<close>

theorem schedule_needs_console:
  assumes "sched_inv T L q s" and "if_status (eflags s) = INTR_OFF"
    and "\<forall>t\<in>T. pgdir (tasks s t) = NULL"
    and "sema_value s (lock_semaphore (console_lock s)) = 0"
    and "lock_holder s (console_lock s) \<noteq> running_thread s"
  shows "schedule s = Inl (WouldBlock (lock_semaphore (console_lock s)))"
proof -
  have i0: "sched_inv0 T L q (running_thread s) s" using assms(1) by (simp add: sched_inv_def)
  have "ready_after q s \<noteq> []" using sched_invD(4) [OF assms(1)] by (simp add: ready_after_def)
  from schedule_contended [OF i0 assms(2) this assms(3)] assms(4,5) show ?thesis
    by (simp add: lock_semaphore_def)
qed

theorem schedule_needs_console_witness:
  "schedule (demo_kernel 0xc0100000 2) = Inl (WouldBlock 0xc0009004)"
proof -
  let ?s = "demo_kernel 0xc0100000 2"
  have "if_status (eflags ?s) = INTR_OFF" "\<forall>t\<in>demo_threads. pgdir (tasks ?s t) = NULL"
    "sema_value ?s (lock_semaphore (console_lock ?s)) = 0"
    "lock_holder ?s (console_lock ?s) \<noteq> running_thread ?s"
    by (simp_all add: demo_kernel_def demo_task_def running_thread_def if_status_def bit_numeral_rec)
  then have "schedule ?s = Inl (WouldBlock (lock_semaphore (console_lock ?s)))"
    by (rule schedule_needs_console [OF demo_inv [OF disjI2], rotated]) (simp add: demo_threads_def)
  then show ?thesis by (simp add: lock_semaphore_def demo_kernel_def)
qed

end
