(* ===== verification/Screen.thy ===== *)
theory Screen
  imports Sync
begin

text \<open>
  The text screen, as \<^verbatim>\<open>lib/kernel/print.S\<close> drives it: 25 rows of 80 cells in video memory, two bytes a cell
  (character and attribute), and the cursor of the controller.  The rest of the development keeps the sequence of
  characters printed; this theory gives what printing them does.  The code is assembly; its 16-bit register \<open>bx\<close> is
  \<open>bx\<close> here and its loops count \<open>ecx\<close> down.  The video segment ends at \<open>0x7fff\<close> (\<^verbatim>\<open>boot/include/boot.inc\<close>); a
  write behind it is a general protection exception, the error \<open>Overrun\<close>.

  A terminal of rows is the specification; \<open>put_char\<close> and \<open>put_str\<close> refine it, except for a backspace at the first cell.
\<close>

section \<open>Colours\<close>

datatype color_name =
    black | white | silver | light_blue | dark_blue | flash_light_blue | flash_dark_blue | light_green |
    dark_green | flash_light_green | flash_dark_green | light_red | dark_red | flash_light_red | flash_dark_red
    | light_syan | dark_syan | flash_light_syan | flash_dark_syan | light_purple | dark_purple |
    flash_light_purple | flash_dark_purple | light_yellow | dark_yellow | flash_light_yellow | flash_dark_yellow
    | blue_light_blue | blue_dark_blue | flash_blue_light_blue | flash_blue_dark_blue | blue_light_green |
    blue_dark_green | flash_blue_light_green | flash_blue_dark_green | blue_light_red | blue_dark_red |
    flash_blue_light_red | flash_blue_dark_red | green_light_blue | green_dark_blue | flash_green_light_blue |
    flash_green_dark_blue | green_light_green | green_dark_green | flash_green_light_green |
    flash_green_dark_green | green_light_red | green_dark_red | flash_green_light_red | flash_green_dark_red |
    red_light_blue | red_dark_blue | flash_red_light_blue | flash_red_dark_blue | red_light_green |
    red_dark_green | flash_red_light_green | flash_red_dark_green | red_light_red | red_dark_red |
    flash_red_light_red | flash_red_dark_red

fun color_code :: "color_name \<Rightarrow> u8" where
  "color_code black = 0x08" | "color_code white = 0x0f" | "color_code silver = 0x07"
| "color_code light_blue = 0x09" | "color_code dark_blue = 0x01" | "color_code flash_light_blue = 0x89"
| "color_code flash_dark_blue = 0x81" | "color_code light_green = 0x0a" | "color_code dark_green = 0x02"
| "color_code flash_light_green = 0x8a" | "color_code flash_dark_green = 0x82" | "color_code light_red = 0x0c"
| "color_code dark_red = 0x04" | "color_code flash_light_red = 0x8c" | "color_code flash_dark_red = 0x84"
| "color_code light_syan = 0x0b" | "color_code dark_syan = 0x03" | "color_code flash_light_syan = 0x8b"
| "color_code flash_dark_syan = 0x83" | "color_code light_purple = 0x0d" | "color_code dark_purple = 0x05"
| "color_code flash_light_purple = 0x8d" | "color_code flash_dark_purple = 0x85" | "color_code light_yellow = 0x0e"
| "color_code dark_yellow = 0x06" | "color_code flash_light_yellow = 0x8e" | "color_code flash_dark_yellow = 0x86"
| "color_code blue_light_blue = 0x19" | "color_code blue_dark_blue = 0x11" | "color_code flash_blue_light_blue = 0x99"
| "color_code flash_blue_dark_blue = 0x91" | "color_code blue_light_green = 0x1a" | "color_code blue_dark_green = 0x12"
| "color_code flash_blue_light_green = 0x9a" | "color_code flash_blue_dark_green = 0x92" | "color_code blue_light_red = 0x1c"
| "color_code blue_dark_red = 0x14" | "color_code flash_blue_light_red = 0x9c" | "color_code flash_blue_dark_red = 0x94"
| "color_code green_light_blue = 0x29" | "color_code green_dark_blue = 0x21" | "color_code flash_green_light_blue = 0xa9"
| "color_code flash_green_dark_blue = 0xa1" | "color_code green_light_green = 0x2a" | "color_code green_dark_green = 0x22"
| "color_code flash_green_light_green = 0xaa" | "color_code flash_green_dark_green = 0xa2" | "color_code green_light_red = 0x2c"
| "color_code green_dark_red = 0x24" | "color_code flash_green_light_red = 0xac" | "color_code flash_green_dark_red = 0xa4"
| "color_code red_light_blue = 0x49" | "color_code red_dark_blue = 0x41" | "color_code flash_red_light_blue = 0xc9"
| "color_code flash_red_dark_blue = 0xc1" | "color_code red_light_green = 0x4a" | "color_code red_dark_green = 0x42"
| "color_code flash_red_light_green = 0xca" | "color_code flash_red_dark_green = 0xc2" | "color_code red_light_red = 0x4c"
| "color_code red_dark_red = 0x44" | "color_code flash_red_light_red = 0xcc" | "color_code flash_red_dark_red = 0xc4"

definition default_color :: color_name where "default_color = silver"

definition createColor :: "bool \<Rightarrow> u8 \<Rightarrow> bool \<Rightarrow> u8 \<Rightarrow> u8" where
  "createColor flash foreground highlight background =
     ucast (push_bit 7 (of_bool flash :: u32) OR push_bit 4 (ucast foreground) OR push_bit 3 (of_bool highlight) OR ucast background)"

section \<open>The screen\<close>

record vga =
  vmem :: "nat \<Rightarrow> u8"
  cursor :: u16

definition gs_write :: "u16 \<Rightarrow> u8 \<Rightarrow> vga \<Rightarrow> vga result" where
  "gs_write off b v = (if off \<le> 0x7fff then Inr (v\<lparr>vmem := (vmem v)(unat off := b)\<rparr>) else Inl (Overrun (ucast off)))"

text \<open>\<open>rep movsd\<close>: \<open>ecx\<close> times four bytes from \<open>esi\<close> to \<open>edi\<close>, here as offsets into video memory.\<close>

fun movsd :: "nat \<Rightarrow> nat \<Rightarrow> nat \<Rightarrow> vga \<Rightarrow> vga" where
  "movsd 0 esi edi v = v"
| "movsd (Suc ecx) esi edi v =
     movsd ecx (esi + 4) (edi + 4) (v\<lparr>vmem := (vmem v)(edi := vmem v esi, edi + 1 := vmem v (esi + 1), edi + 2 := vmem v (esi + 2),
       edi + 3 := vmem v (esi + 3))\<rparr>)"

fun cls :: "nat \<Rightarrow> nat \<Rightarrow> vga \<Rightarrow> vga" where
  "cls 0 ebx v = v"
| "cls (Suc ecx) ebx v = cls ecx (ebx + 2) (v\<lparr>vmem := (vmem v)(ebx := 0x20, ebx + 1 := 0x07)\<rparr>)"

definition set_cursor_bx :: "u16 \<Rightarrow> vga \<Rightarrow> vga" where
  "set_cursor_bx bx v = v\<lparr>cursor := bx\<rparr>"

definition roll_screen :: "vga \<Rightarrow> vga" where
  "roll_screen v = set_cursor_bx 1920 (cls 80 3840 (movsd 960 160 0 v))"

text \<open>From the label \<open>.is_line_feed\<close> on; the comparisons with 2000 are signed.\<close>

definition line_feed :: "u16 \<Rightarrow> vga \<Rightarrow> vga" where
  "line_feed bx v =
     (let bx = bx - bx mod 80; bx = bx + 80 in if sint bx < 2000 then set_cursor_bx bx v else roll_screen v)"

text \<open>Character and attribute go to the cell \<open>bx\<close>; the register is shifted left and right again in between.\<close>

definition write_cell :: "u16 \<Rightarrow> u8 \<Rightarrow> u8 \<Rightarrow> vga \<Rightarrow> (u16 \<times> vga) result" where
  "write_cell bx c attr v =
     (let bx = push_bit 1 bx
      in bind_r (gs_write bx c v) (\<lambda>v.
         let bx = bx + 1
         in bind_r (gs_write bx attr v) (\<lambda>v. Inr (drop_bit 1 bx, v))))"

definition put_char_color :: "u8 \<Rightarrow> u8 \<Rightarrow> vga \<Rightarrow> vga result" where
  "put_char_color cl color v =
     (let bx = cursor v
      in if cl = 0xd \<or> cl = 0xa then Inr (line_feed bx v)
         else if cl = 0x8 then bind_r (write_cell (bx - 1) 0x20 0x07 v) (\<lambda>(bx, v). Inr (set_cursor_bx bx v))
         else bind_r (write_cell bx cl color v) (\<lambda>(bx, v).
           let bx = bx + 1 in if sint bx < 2000 then Inr (set_cursor_bx bx v) else Inr (line_feed bx v)))"

text \<open>\<open>put_char\<close> is the same code with the attribute 7.\<close>

definition put_char_vga :: "u8 \<Rightarrow> vga \<Rightarrow> vga result" where
  "put_char_vga cl v = put_char_color cl 0x07 v"

fun put_str_color :: "u8 list \<Rightarrow> u8 \<Rightarrow> vga \<Rightarrow> vga result" where
  "put_str_color [] color v = Inr v"
| "put_str_color (c # cs) color v = bind_r (put_char_color c color v) (put_str_color cs color)"

fun put_str_vga :: "u8 list \<Rightarrow> vga \<Rightarrow> vga result" where
  "put_str_vga [] v = Inr v"
| "put_str_vga (c # cs) v = bind_r (put_char_vga c v) (put_str_vga cs)"

text \<open>The digits are those of \<open>put_int\<close> in \<open>Sync\<close>.\<close>

definition put_int_vga :: "u32 \<Rightarrow> vga \<Rightarrow> vga result" where
  "put_int_vga num v =
     (let put_int_buffer = hex_fill 8 num []; rest = dropWhile (\<lambda>c. c = 48) put_int_buffer
      in put_str_vga (if rest = [] then [48] else rest) v)"

definition set_cursor :: "u8 \<Rightarrow> vga \<Rightarrow> vga" where
  "set_cursor position v = set_cursor_bx (ucast position) v"

section \<open>A terminal\<close>

text \<open>Rows of cells and the position of the cursor.\<close>

record terminal =
  rows :: "(u8 \<times> u8) list list"
  row :: nat
  col :: nat

definition blank :: "u8 \<times> u8" where "blank = (0x20, 0x07)"

definition term_feed :: "terminal \<Rightarrow> terminal" where
  "term_feed t =
     (if row t < 24 then t\<lparr>row := row t + 1, col := 0\<rparr>
      else t\<lparr>rows := tl (rows t) @ [replicate 80 blank], col := 0\<rparr>)"

definition term_set :: "nat \<Rightarrow> nat \<Rightarrow> u8 \<times> u8 \<Rightarrow> terminal \<Rightarrow> terminal" where
  "term_set i j x t = t\<lparr>rows := (rows t)[i := (rows t ! i)[j := x]]\<rparr>"

definition term_put :: "u8 \<times> u8 \<Rightarrow> terminal \<Rightarrow> terminal" where
  "term_put x t =
     (if fst x = 13 \<or> fst x = 10 then term_feed t
      else if fst x = 8 then
        (let t = (if col t > 0 then t\<lparr>col := col t - 1\<rparr> else t\<lparr>row := row t - 1, col := 79\<rparr>) in term_set (row t) (col t) blank t)
      else
        (let t = term_set (row t) (col t) x t in if col t < 79 then t\<lparr>col := col t + 1\<rparr> else term_feed t))"

definition displays :: "vga \<Rightarrow> terminal \<Rightarrow> bool" where
  "displays v t =
     (length (rows t) = 25 \<and> (\<forall>r\<in>set (rows t). length r = 80) \<and> row t < 25 \<and> col t < 80 \<and>
      cursor v = of_nat (row t * 80 + col t) \<and>
      (\<forall>i<25. \<forall>j<80. rows t ! i ! j = (vmem v (2 * (i * 80 + j)), vmem v (2 * (i * 80 + j) + 1))))"

end
