(* ===== verification/Kmain.thy ===== *)
theory Kmain
  imports Boot Screen
begin

text \<open>
  The kernel's main thread and the threads around it: \<open>printTime\<close> (\<^verbatim>\<open>lib/user/time.c\<close>), \<open>idle\<close> (\<^verbatim>\<open>thread/thread.c\<close>),
  the macros for system calls with two and three arguments (\<^verbatim>\<open>lib/user/syscall.c\<close>) and \<^verbatim>\<open>kernel/main.c\<close>.

  The addresses of functions, of the format strings in the image and of stack slots are arguments; the
  delay loops of the demonstration threads only let time pass, and so do the endless loops they end in, which are
  where the definitions stop.
\<close>

section \<open>The macros of \<open>global.h\<close> and \<open>math.h\<close>\<close>

definition LIKELY :: "u32 \<Rightarrow> bool" where "LIKELY x = (x \<noteq> 0)"
definition UNLIKELY :: "u32 \<Rightarrow> bool" where "UNLIKELY x = (x \<noteq> 0)"

section \<open>System calls with more arguments\<close>

text \<open>The table's functions take at most one argument, in \<open>ebx\<close>.  \<open>_syscall3\<close> lacks the \<open>$\<close> before \<open>0x80\<close>.\<close>

definition syscall2 :: "u32 \<Rightarrow> u32 \<Rightarrow> u32 \<Rightarrow> u32 \<Rightarrow> 'z syscalls_scheme \<Rightarrow> (u32 \<times> 'z syscalls_scheme) result" where
  "syscall2 junk number arg1 arg2 s = syscall_handler junk number arg1 s"

section \<open>printTime\<close>

text \<open>The caller pushes the six numbers above the format; \<open>tm\<close> fields are \<open>int\<close>.\<close>

definition push_args :: "addr \<Rightarrow> u32 list \<Rightarrow> 'z machine_scheme \<Rightarrow> 'z machine_scheme" where
  "push_args fmt_slot args s = fold (\<lambda>(i, a) s. wr (fmt_slot + 4 + of_nat i * 4) a s) (enumerate 0 args) s"

definition printTime ::
  "u32 \<Rightarrow> addr \<Rightarrow> addr \<Rightarrow> addr \<Rightarrow> tm \<Rightarrow> 'z syscalls_scheme \<Rightarrow> 'z syscalls_scheme result" where
  "printTime junk buf format format_slot time s =
     (let s = push_args format_slot
                (map word_of_int [tm_year time - 100, tm_mon time, tm_mday time, tm_hour time, tm_min time, tm_sec time]) s
      in bind_r (printf junk buf format format_slot s) (\<lambda>(_, s). Inr s))"

section \<open>The idle thread\<close>

text \<open>One round of its loop: up to the call that blocks it, and from where it is woken on.\<close>

definition idle_block :: "'z kernel_scheme \<Rightarrow> 'z kernel_scheme result" where
  "idle_block s = thread_block TASK_BLOCKED s"

definition idle_wake :: "'z kernel_scheme \<Rightarrow> 'z kernel_scheme" where
  "idle_wake s = sti s"

section \<open>The demonstration threads\<close>

text \<open>The kernel thread \<open>memory_thread\<close> takes three blocks through the system call and gives them back
  directly.\<close>

definition memory_thread :: "u32 \<Rightarrow> 'z syscalls_scheme \<Rightarrow> 'z syscalls_scheme result" where
  "memory_thread junk s =
     bind_r (malloc junk 256 s) (\<lambda>(addr1, s).
     bind_r (malloc junk 255 s) (\<lambda>(addr2, s).
     bind_r (malloc junk 254 s) (\<lambda>(addr3, s).
     let s = put_str (bytes_of ''memory_thread malloc addr:0x'') s;
         s = put_char 44 (put_int addr1 s);
         s = put_char 44 (put_int addr2 s);
         s = put_int addr3 s
     in bind_r (sys_free addr1 s) (\<lambda>s.
        bind_r (sys_free addr2 s) (\<lambda>s.
        bind_r (sys_free addr3 s) (\<lambda>s.
        thread_block TASK_BLOCKED (put_char 10 s)))))))"

definition u_prog_a :: "u32 \<Rightarrow> addr \<Rightarrow> addr \<Rightarrow> addr \<Rightarrow> 'z syscalls_scheme \<Rightarrow> 'z syscalls_scheme result" where
  "u_prog_a junk buf format format_slot s =
     bind_r (malloc junk 256 s) (\<lambda>(addr1, s).
     bind_r (malloc junk 255 s) (\<lambda>(addr2, s).
     bind_r (malloc junk 254 s) (\<lambda>(addr3, s).
     let s = push_args format_slot [addr1, addr2, addr3] s
     in bind_r (printf junk buf format format_slot s) (\<lambda>(_, s).
        bind_r (free junk addr1 s) (\<lambda>s.
        bind_r (free junk addr2 s) (\<lambda>s.
        free junk addr3 s))))))"

definition u_prog_b :: "u32 \<Rightarrow> addr \<Rightarrow> addr \<Rightarrow> addr \<Rightarrow> 'z syscalls_scheme \<Rightarrow> 'z syscalls_scheme result" where
  "u_prog_b junk buf format format_slot s = bind_r (printf junk buf format format_slot s) (\<lambda>(_, s). Inr s)"

section \<open>main\<close>

text \<open>\<open>init\<close> is the call of \<open>init_all\<close> with the addresses of the image, \<open>free_thread\<close> and \<open>kernel_thread\<close> the
  addresses of these functions and \<open>arg\<close> that of the string it is given.\<close>

definition main ::
  "('z syscalls_scheme \<Rightarrow> 'z syscalls_scheme result) \<Rightarrow> device \<Rightarrow> addr \<Rightarrow> addr \<Rightarrow> addr \<Rightarrow> u32 \<Rightarrow> addr \<Rightarrow> addr \<Rightarrow> addr \<Rightarrow>
     'z syscalls_scheme \<Rightarrow> 'z syscalls_scheme result" where
  "main init dev kernel_thread free_thread arg junk buf format format_slot s =
     bind_r (init (put_line ''I am kernel'' s)) (\<lambda>s.
     bind_r (thread_start kernel_thread (bytes_of ''free_thread'') 31 free_thread arg s) (\<lambda>(_, s).
     let s = snd (intr_enable s); (now, s) = getTime dev s
     in printTime junk buf format format_slot now s))"

end
