(* ===== verification/Start.thy ===== *)
theory Start
  imports Thread_Start Sched_Props Kmain
begin

text \<open>
  The start of the kernel from the loader's jump to the first switch: \<open>main\<close> of \<^verbatim>\<open>kernel/main.c\<close> initialises
  everything, makes the thread \<open>free_thread\<close> and turns interrupts on; when its time slice is used up, the timer
  interrupt switches to that thread.
\<close>

section \<open>Ticks of the clock\<close>

text \<open>\<open>n\<close> timer interrupts while the running thread only spins: the interrupt, and the return from it.\<close>

fun elapse :: "nat \<Rightarrow> 'z kernel_scheme \<Rightarrow> 'z kernel_scheme result" where
  "elapse 0 s = Inr s"
| "elapse (Suc n) s = bind_r (timer_interrupt s) (\<lambda>s. bind_r (run_frame s) (elapse n))"

definition aged :: "nat \<Rightarrow> task \<Rightarrow> task" where
  "aged n t = t\<lparr>elapsed_ticks := elapsed_ticks t + of_nat n, ticks := ticks t - of_nat n\<rparr>"

lemma one_tick:
  fixes s :: "'z kernel_scheme"
  defines "c \<equiv> running_thread s"
  assumes "stack_magic (tasks s c) = 0x19870916" "frames s c = []" "ticks (tasks s c) \<noteq> 0"
  shows "bind_r (timer_interrupt s) run_frame = Inr (s\<lparr>tasks := (tasks s)(c := aged 1 (tasks s c)), total_ticks := total_ticks s + 1\<rparr>)"
proof -
  let ?t = "(tasks s c)\<lparr>elapsed_ticks := elapsed_ticks (tasks s c) + 1, ticks := ticks (tasks s c) - 1\<rparr>"
  let ?s = "s\<lparr>frames := (frames s)(c := [F_iret (eflags s)]), eflags := with_if INTR_OFF (eflags s), tasks := (tasks s)(c := ?t),
      total_ticks := total_ticks s + 1\<rparr>"
  have t: "timer_interrupt s = Inr ?s"
    using assms by (simp add: timer_interrupt_def intr_timer_handler_def sti_cli_norm push_frames_def upd_task_def running_thread_def Let_def)
  have "running_thread ?s = c" by (simp add: running_thread_def c_def)
  moreover have "(frames s)(c := []) = frames s" using assms(3) by auto
  ultimately have "run_frame ?s = Inr (s\<lparr>tasks := (tasks s)(c := ?t), total_ticks := total_ticks s + 1\<rparr>)"
    by (simp add: run_frame_def)
  then show ?thesis using t by (simp add: aged_def)
qed

lemma elapse_ticks:
  fixes s :: "'z kernel_scheme"
  defines "c \<equiv> running_thread s"
  assumes "stack_magic (tasks s c) = 0x19870916" "frames s c = []" "n \<le> unat (ticks (tasks s c))"
  shows "elapse n s = Inr (s\<lparr>tasks := (tasks s)(c := aged n (tasks s c)), total_ticks := total_ticks s + of_nat n\<rparr>)"
  using assms(2-4) unfolding c_def
proof (induction n arbitrary: s)
  case 0
  have "aged 0 t = t" for t by (simp add: aged_def)
  then show ?case by simp
next
  case (Suc n)
  let ?c = "running_thread s"
  let ?s = "s\<lparr>tasks := (tasks s)(?c := aged 1 (tasks s ?c)), total_ticks := total_ticks s + 1\<rparr>"
  have nz: "ticks (tasks s ?c) \<noteq> 0" using Suc.prems(3) by auto
  have r: "running_thread ?s = ?c" by (simp add: running_thread_def)
  have "unat (ticks (tasks s ?c) - 1) = unat (ticks (tasks s ?c)) - 1" using nz by (simp add: unat_minus_one)
  then have "elapse n ?s = Inr (?s\<lparr>tasks := (tasks ?s)(?c := aged n (tasks ?s ?c)), total_ticks := total_ticks ?s + of_nat n\<rparr>)"
    by (intro Suc.IH [of ?s, unfolded r]) (use Suc.prems in \<open>simp_all add: aged_def\<close>)
  moreover have "aged n (aged 1 t) = aged (Suc n) t" for t by (simp add: aged_def algebra_simps)
  ultimately have e: "elapse n ?s = Inr (s\<lparr>tasks := (tasks s)(?c := aged (Suc n) (tasks s ?c)), total_ticks := total_ticks s + of_nat (Suc n)\<rparr>)"
    by (simp add: algebra_simps)
  have "elapse (Suc n) s = bind_r (bind_r (timer_interrupt s) run_frame) (elapse n)" by (cases "timer_interrupt s") simp_all
  then show ?case unfolding one_tick [OF Suc.prems(1,2) nz] bind_r.simps e .
qed

lemma aged_sched_inv:
  assumes "sched_inv T L q s"
  shows "sched_inv T L q (s\<lparr>tasks := (tasks s)(c := aged n (tasks s c)), total_ticks := k\<rparr>)"
proof -
  let ?s = "s\<lparr>tasks := (tasks s)(c := aged n (tasks s c))\<rparr>"
  have r: "running_thread (?s\<lparr>total_ticks := k\<rparr>) = running_thread s" by (simp add: running_thread_def)
  have "sched_inv0 T L q (running_thread s) s" using assms by (simp add: sched_inv_def)
  then have "sched_inv0 T L q (running_thread s) ?s" by (rule sched_inv0_tasks) (auto simp: aged_def)
  then have "sched_inv0 T L q (running_thread s) (?s\<lparr>total_ticks := k\<rparr>)" by (rule sched_inv0_cong) simp_all
  then show ?thesis using assms unfolding sched_inv_def r by (auto simp: flag_ok_def aged_def running_thread_def)
qed

section \<open>Interrupts on\<close>

lemma kernel_state_eflags:
  assumes S: "kernel_state L q ts H s" and f: "frames s (running_thread s) = []"
  shows "kernel_state L q ts H (s\<lparr>eflags := x\<rparr>)"
proof -
  let ?s = "s\<lparr>eflags := x\<rparr>"
  have I: "sched_inv (set ts) L q s" using S by (simp add: kernel_state_def)
  have r: "running_thread ?s = running_thread s" by (simp add: running_thread_def)
  have "sched_inv0 (set ts) L q (running_thread s) ?s" using I by (simp add: sched_inv_def sched_inv0_def)
  moreover have "flag_ok L ?s" using f by (simp add: flag_ok_def r closed_frames_def)
  ultimately have "sched_inv (set ts) L q ?s" using I by (simp add: sched_inv_def r)
  moreover have "heap_ok ?s A fl = heap_ok s A fl" for A fl
    using heap_ok_cong [of s A fl ?s] heap_ok_cong [of ?s A fl s] by auto
  moreover have "page_walk ?s v = page_walk s v" for v by (rule walk_cong) simp_all
  moreover have "kheap_idle ?s = kheap_idle s" by (simp add: kheap_idle_def free_lock_def heap_limit_def r)
  moreover have "kernel_layout T L ?s = kernel_layout T L s" for T by (rule kernel_layout_cong) simp_all
  ultimately show ?thesis using S by (simp add: kernel_state_def)
qed

lemma intr_enable_state: "snd (intr_enable s) = s\<lparr>eflags := with_if INTR_ON (eflags s)\<rparr>"
  by (simp add: intr_norm)

lemma entered_put_str: "entered s \<Longrightarrow> entered (put_str str s)"
  by (simp add: entered_def put_str_def boot_tables_def running_thread_def kernel_blocks_def)

section \<open>The first switch\<close>

lemma first_switch:
  assumes I: "sched_inv T L q s" and on: "intr_get_status s = INTR_ON" and mg: "stack_magic (tasks s (running_thread s)) = 0x19870916"
    and fr: "frames s (running_thread s) = []" and kt: "\<forall>t\<in>T. pgdir (tasks s t) = NULL" and rdy: "free_lock (console_lock s) s"
    and q: "q (thread_ready_list s) = general_tag t # us"
  shows "\<exists>s' s''. elapse (unat (ticks (tasks s (running_thread s)))) s = Inr s' \<and> running_thread s' = running_thread s \<and>
    timer_interrupt s' = Inr s'' \<and> running_thread s'' = t"
proof -
  let ?c = "running_thread s"
  let ?n = "unat (ticks (tasks s ?c))"
  define s4 where "s4 = s\<lparr>tasks := (tasks s)(?c := aged ?n (tasks s ?c)), total_ticks := total_ticks s + of_nat ?n\<rparr>"
  have el: "elapse ?n s = Inr s4" unfolding s4_def by (rule elapse_ticks [OF mg fr order_refl])
  have r4: "running_thread s4 = ?c" by (simp add: s4_def running_thread_def)
  have I4: "sched_inv T L q s4" unfolding s4_def by (rule aged_sched_inv [OF I])
  have on4: "intr_get_status s4 = INTR_ON" using on by (simp add: s4_def intr_get_status_norm)
  have mg4: "stack_magic (tasks s4 (running_thread s4)) = 0x19870916" using mg unfolding r4 by (simp add: s4_def aged_def)
  have tk: "ticks (tasks s4 (running_thread s4)) = 0" unfolding r4 by (simp add: s4_def aged_def)
  have cr: "console_ready s4" using rdy by (simp add: s4_def console_ready_def free_lock_def)
  obtain s2 where eq: "timer_interrupt s4 = (if ticks (tasks s4 (running_thread s4)) = 0 then schedule s2
      else Inr (upd_task (running_thread s4) (\<lambda>t. t\<lparr>ticks := ticks t - 1\<rparr>) s2))"
    and i2: "sched_inv T L q s2" and off: "if_status (eflags s2) = INTR_OFF"
    and f: "sema_value s2 = sema_value s4" "lock_holder s2 = lock_holder s4" "lock_repeat s2 = lock_repeat s4"
      "console_lock s2 = console_lock s4" "running_thread s2 = running_thread s4"
    and pg: "\<And>t. pgdir (tasks s2 t) = pgdir (tasks s4 t)"
    by (rule timer_prefix [OF I4 on4 mg4]) blast
  have i20: "sched_inv0 T L q (running_thread s2) s2" using i2 by (simp add: sched_inv_def)
  have "ready_after q s2 \<noteq> []" using sched_invD(4) [OF i2] by (simp add: ready_after_def)
  moreover have "console_ready s2" using cr unfolding console_ready_def f .
  moreover have "\<forall>t\<in>T. pgdir (tasks s2 t) = NULL" unfolding pg using kt by (simp add: s4_def aged_def)
  ultimately obtain s5 where "schedule s2 = Inr s5" using schedule_total [OF i20 off] by blast
  then have t5: "timer_interrupt s4 = Inr s5" using eq tk by simp
  have "general_tag (running_thread s5) = (if ticks (tasks s4 (running_thread s4)) = 0
      then hd (q (thread_ready_list s4) @ [general_tag (running_thread s4)]) else general_tag (running_thread s4))"
    by (rule step_timer [OF I4 on4 t5])
  then have "running_thread s5 = t" using tk q by (simp add: s4_def)
  then show ?thesis using el r4 t5 by blast
qed


section \<open>Theorems\<close>

text \<open>C15. The kernel starts: from the loader's jump, with memory enough for 16 free pages, \<open>main\<close> initialises everything, creates
  the thread \<open>free_thread\<close> and turns interrupts on; then the invariants of scheduler and heap hold with the main thread running
  and the new thread ready, and when the main thread has used up its 31 ticks, the next timer interrupt runs the new thread.\<close>

theorem main_runs_first_thread:
  fixes s :: "'z syscalls_scheme" and iet :: "nat \<Rightarrow> addr" and sysc idt_addr tss_addr kt f arg :: addr and dev :: device
  assumes "entered s" and "16 \<le> free_pages_of (mem s 0xb00)"
  defines "init \<equiv> init_all iet sysc idt_addr tss_addr dev"
  shows "\<exists>s1 t s2. init (put_line ''I am kernel'' s) = Inr s1 \<and>
    thread_start kt (bytes_of ''free_thread'') 31 f arg s1 = Inr (t, s2) \<and>
    (let s3 = snd (intr_enable s2) in
       main init dev kt f arg junk buf format fslot s = (let (now, s') = getTime dev s3 in printTime junk buf format fslot now s') \<and>
       kernel_state (boot_locks s1) ((\<lambda>_. [])(thread_ready_list s1 := [general_tag t])) [main_pcb, t] (\<lambda>_. None) s3 \<and>
       intr_get_status s3 = INTR_ON \<and> running_thread s3 = main_pcb \<and>
       (\<exists>s4 s5. elapse 31 s3 = Inr s4 \<and> running_thread s4 = main_pcb \<and> timer_interrupt s4 = Inr s5 \<and> running_thread s5 = t))"
proof -
  let ?s0 = "put_line ''I am kernel'' s"
  have E: "entered ?s0" by (rule entered_put_str [OF assms(1)])
  have M: "16 \<le> free_pages_of (mem ?s0 0xb00)" using assms(2) by (simp add: put_str_def)
  obtain s1 where s1: "init ?s0 = Inr s1" "started ?s0 s1" unfolding init_def using init_all_run [OF E] by blast
  let ?L = "boot_locks s1" and ?r = "thread_ready_list s1"
  have r1: "running_thread s1 = main_pcb" using E started_sel(1) [OF s1(2)] by (simp add: entered_def)
  have n: "length (bytes_of ''free_thread'') < 16" by (simp add: bytes_of_def)
  obtain t s2 where t: "thread_start kt (bytes_of ''free_thread'') 31 f arg s1 = Inr (t, s2)" "t \<notin> set [main_pcb]"
    and k2: "kernel_state ?L ((\<lambda>_. [])(?r := (\<lambda>_. []) ?r @ [general_tag t])) ([main_pcb] @ [t]) (\<lambda>_. None) s2"
    and fl: "\<forall>k\<in>?L. free_lock k s1 \<longrightarrow> free_lock k s2" and cl: "console_lock s2 = console_lock s1"
    and tk: "tasks s2 = (tasks s1)(t := (fresh_task t (next_pid s1 + 1) TASK_READY (bytes_of ''free_thread'') (ucast (31 :: u32)))\<lparr>self_kstack := first_stack t\<rparr>)"
    and fr: "frames s2 = (frames s1)(t := [F_start f arg])" and r2: "running_thread s2 = running_thread s1" "thread_ready_list s2 = ?r"
    using thread_start_run [OF started_state [OF E s1(2)] started_pid_lock [OF s1(2)] started_pages_free [OF E s1(2) M] n, of kt 31 f arg] by blast
  let ?s3 = "s2\<lparr>eflags := with_if INTR_ON (eflags s2)\<rparr>" and ?q = "(\<lambda>_. [])(?r := [general_tag t])"
  have r3: "running_thread ?s3 = main_pcb" using r1 r2(1) by (simp add: running_thread_def)
  have "frames s1 main_pcb = []" using E s1(2) by (simp add: entered_def started_def)
  then have f2: "frames s2 main_pcb = []" using fr t(2) by simp
  have k3: "kernel_state ?L ?q [main_pcb, t] (\<lambda>_. None) ?s3"
    by (rule kernel_state_eflags) (use k2 f2 r1 r2(1) in simp_all)
  have main: "tasks ?s3 main_pcb = fresh_task main_pcb (next_pid ?s0 + 1) TASK_RUNNING (bytes_of ''main'') 31"
    using tk t(2) s1(2) by (simp add: started_def)
  have on: "intr_get_status ?s3 = INTR_ON" by (simp add: intr_get_status_norm)
  have "\<exists>s4 s5. elapse (unat (ticks (tasks ?s3 (running_thread ?s3)))) ?s3 = Inr s4 \<and> running_thread s4 = running_thread ?s3 \<and>
      timer_interrupt s4 = Inr s5 \<and> running_thread s5 = t"
  proof (rule first_switch [where T = "set [main_pcb, t]" and L = ?L and q = ?q and us = "[]"])
    show "sched_inv (set [main_pcb, t]) ?L ?q ?s3" using k3 by (simp only: kernel_state_def)
    show "stack_magic (tasks ?s3 (running_thread ?s3)) = 0x19870916" unfolding r3 main by (simp add: fresh_task_def Let_def)
    show "\<forall>u\<in>set [main_pcb, t]. pgdir (tasks ?s3 u) = NULL"
    proof -
      have "pgdir (tasks ?s3 main_pcb) = NULL" unfolding main by (simp add: fresh_task_def Let_def)
      moreover have "pgdir (tasks ?s3 t) = NULL" by (simp add: tk fresh_task_def Let_def)
      ultimately show ?thesis by simp
    qed
    have "console_lock s1 \<in> ?L" by (simp add: boot_locks_def)
    moreover have "free_lock (console_lock s1) s1" using s1(2) started_sel(2) [OF s1(2)] calculation by (simp add: started_def)
    ultimately show "free_lock (console_lock ?s3) ?s3" using fl cl by (simp add: free_lock_def)
  qed (use on f2 r3 r2(2) in simp_all)
  moreover have "unat (ticks (tasks ?s3 (running_thread ?s3))) = 31" unfolding r3 main by (simp add: fresh_task_def Let_def)
  ultimately have sw: "\<exists>s4 s5. elapse 31 ?s3 = Inr s4 \<and> running_thread s4 = main_pcb \<and> timer_interrupt s4 = Inr s5 \<and> running_thread s5 = t"
    using r3 by simp
  have "main init dev kt f arg junk buf format fslot s = (let (now, s') = getTime dev ?s3 in printTime junk buf format fslot now s')"
    unfolding main_def s1(1) bind_r.simps t(1) prod.case Let_def intr_enable_state ..
  then show ?thesis using s1(1) t(1) k3 on r3 sw unfolding Let_def
    by (intro exI [of _ s1] exI [of _ t] exI [of _ s2]) (simp only: intr_enable_state simp_thms)
qed

theorem main_runs_first_thread_witness:
  "\<exists>s1 t s2. init_all (\<lambda>_. 0) 0 0 0 (\<lambda>_ _. 0) (put_line ''I am kernel'' loaded_kernel) = Inr s1 \<and>
     thread_start 0xc0001600 (bytes_of ''free_thread'') 31 0xc0001700 0 s1 = Inr (t, s2) \<and>
     (\<exists>s4 s5. elapse 31 (snd (intr_enable s2)) = Inr s4 \<and> timer_interrupt s4 = Inr s5 \<and> running_thread s5 = t)"
proof -
  have "mem loaded_kernel 0xb00 = 0x2000000" by (simp add: loaded_mem cold_kernel_def)
  then have "16 \<le> free_pages_of (mem loaded_kernel 0xb00)" by (simp add: free_pages_of_def PG_SIZE_def)
  from main_runs_first_thread [OF loaded_entered this, where iet = "\<lambda>_. 0" and sysc = 0 and idt_addr = 0 and tss_addr = 0 and dev = "\<lambda>_ _. 0"
      and kt = "0xc0001600" and f = "0xc0001700" and arg = 0]
  show ?thesis unfolding Let_def by blast
qed


end
