(* ===== verification/Kbd_Props.thy ===== *)
theory Kbd_Props
  imports Keyboard
begin

text \<open>
  The keyboard handler implements the keyboard: the step of \<open>intr_keyboard_handler\<close> on the concrete state
  is the step of \<open>key_step\<close> on the keys, for every byte and every combination of modifiers.
\<close>

section \<open>The decoding of any byte\<close>

lemma bool_in: "e \<in> set [False, True]"
  by (cases e) simp_all

lemma upt_in: "m \<le> n \<Longrightarrow> n < k \<Longrightarrow> n \<in> set [m..<k]"
  by (metis atLeastLessThan_iff set_upt)

lemmas scan_facts = bspec [OF bspec [OF scan_break bool_in] upt_in [OF le0]]
  bspec [OF bspec [OF scan_released bool_in] upt_in]
  bspec [OF bspec [OF scan_made bool_in] upt_in [OF le0]]

lemma key_of_Other: "128 > n \<Longrightarrow> key_of e n \<noteq> Other \<longleftrightarrow> (if e then n = 0x1d \<or> n = 0x38 else 1 \<le> n \<and> n < 59)"
  by (auto simp: key_of_def)

lemma char_ok_all:
  assumes "n < 128" "make_code (scan e n)"
  shows "char_ok e n sh ca"
proof -
  have "key_of e n \<noteq> Other" using assms scan_facts(3) by blast
  then have "if e then n = 0x1d \<or> n = 0x38 else n \<in> set [1..<59]" using key_of_Other [OF assms(1), of e] by auto
  then show ?thesis
    using scan_char_ff scan_char_ft scan_char_tf scan_char_tt scan_char_ext
    by (cases e; cases sh; cases ca) (auto split: if_splits)
qed

lemma byte_nat: "\<exists>n. c = of_nat n \<and> n < 256 \<and> n = unat (c :: u8)"
proof -
  have "unat c < 2 ^ LENGTH(8)" by (rule unsigned_less)
  then show ?thesis by (intro exI [of _ "unat c"]) simp
qed

section \<open>One interrupt\<close>

definition kbd_ready :: "'z kbd_scheme \<Rightarrow> bool" where
  "kbd_ready s = ioq_ready (kbd_buf s) s"

lemma ioq_seq_frame:
  "ioq_seq (s\<lparr>ctrl_status := x1\<rparr>) q = ioq_seq s q" "ioq_seq (s\<lparr>alt_status := x2\<rparr>) q = ioq_seq s q"
  "ioq_seq (s\<lparr>shift_status := x3\<rparr>) q = ioq_seq s q" "ioq_seq (s\<lparr>caps_lock_status := x4\<rparr>) q = ioq_seq s q"
  "ioq_seq (s\<lparr>ext_scancode := x5\<rparr>) q = ioq_seq s q" "ioq_seq (s\<lparr>screen := x6\<rparr>) q = ioq_seq s q"
  by (simp_all add: ioq_seq_def ioq_len_def)

lemma ioq_ready_frame:
  "ioq_ready q (s\<lparr>ctrl_status := x1\<rparr>) = ioq_ready q s" "ioq_ready q (s\<lparr>alt_status := x2\<rparr>) = ioq_ready q s"
  "ioq_ready q (s\<lparr>shift_status := x3\<rparr>) = ioq_ready q s" "ioq_ready q (s\<lparr>caps_lock_status := x4\<rparr>) = ioq_ready q s"
  "ioq_ready q (s\<lparr>ext_scancode := x5\<rparr>) = ioq_ready q s" "ioq_ready q (s\<lparr>screen := x6\<rparr>) = ioq_ready q s"
  by (simp_all add: ioq_ready_def ioq_ok_def intr_get_status_def)

lemmas kbd_frames = ioq_seq_frame ioq_ready_frame

lemma kbd_break_class:
  "keys_of (kbd_break m s) = release (held (mod_class m)) (keys_of s)" "kbd_ready s \<Longrightarrow> kbd_ready (kbd_break m s)"
  by (auto simp: kbd_break_def mod_class_def held_def release_def keys_of_def kbd_ready_def kbd_frames make_codes)

lemma kbd_modifier_class:
  "keys_of (kbd_modifier m s) = press (mod_class m) (keys_of s)" "kbd_ready s \<Longrightarrow> kbd_ready (kbd_modifier m s)"
  by (auto simp: kbd_modifier_def mod_class_def press_def keys_of_def kbd_ready_def kbd_frames)

lemma release_held: "release (held k) = release k"
  by (auto simp: held_def release_def fun_eq_iff split: key.splits)

lemma kbd_char_typed:
  fixes s :: "'z kbd_scheme"
  assumes "kbd_ready s" "n < 128" "make_code (scan e n)" "is_char (key_of e n)"
  shows "\<exists>s'. kbd_make (scan e n) (shift_status s) (caps_lock_status s) s = Inr s' \<and> kbd_ready s' \<and>
              keys_of s' = press (key_of e n) (keys_of s)"
proof -
  let ?c = "typed_char n (shift_status s) (caps_lock_status s)" and ?q = "kbd_buf s" and ?s = "put_char (typed_char n (shift_status s) (caps_lock_status s)) s"
  have c: "key_of e n = Char n" "?c \<noteq> 0"
    "keymap_at (ucast (scan e n AND 0xff)) (shift_applies (scan e n) (shift_status s) (caps_lock_status s)) = ?c"
    using char_ok_all [OF assms(2,3)] assms(4) by (simp_all add: char_ok_def)
  have off: "intr_get_status s = INTR_OFF" and ok: "ioq_ok s ?q"
    using assms(1) by (simp_all add: kbd_ready_def ioq_ready_def)
  have full: "ioq_full ?q s = Inr (\<not> length (ioq_seq s ?q) < 63)"
    using ioq_full_len [OF ok] ioq_len_bound [of s ?q] off by (auto simp: ioq_full_def)
  have r: "ioq_ready ?q ?s" using assms(1) by (simp add: kbd_ready_def put_char_def kbd_frames)
  show ?thesis
  proof (cases "length (ioq_seq s ?q) < 63")
    case True
    then have l: "length (ioq_seq ?s ?q) < 63" by (simp add: put_char_def kbd_frames)
    have k: "kbd_make (scan e n) (shift_status s) (caps_lock_status s) s = Inr (ioq_store ?q ?c ?s)"
      using c full True ioq_putchar_room [OF r l, of ?c] by (simp add: kbd_make_def put_char_def Let_def)
    have st: "ioq_ok (ioq_store ?q ?c ?s) ?q" "ioq_seq (ioq_store ?q ?c ?s) ?q = ioq_seq ?s ?q @ [?c]"
      using ioq_store_seq [of ?s ?q ?c] r l by (simp_all add: ioq_ready_def)
    have f: "kbd_buf (ioq_store ?q ?c ?s) = ?q" "ctrl_status (ioq_store ?q ?c ?s) = ctrl_status s"
      "alt_status (ioq_store ?q ?c ?s) = alt_status s" "shift_status (ioq_store ?q ?c ?s) = shift_status s"
      "caps_lock_status (ioq_store ?q ?c ?s) = caps_lock_status s" "ext_scancode (ioq_store ?q ?c ?s) = ext_scancode s"
      by (simp_all add: ioq_store_def put_char_def)
    have "keys_of (ioq_store ?q ?c ?s) = press (key_of e n) (keys_of s)"
      using st(2) f True c(1) by (simp add: keys_of_def press_def put_char_def kbd_frames)
    then show ?thesis using k ioq_ready_step(1) [OF r st(1)] f(1) by (simp add: kbd_ready_def)
  next
    case False
    then have "kbd_make (scan e n) (shift_status s) (caps_lock_status s) s = Inr s"
      using c full by (simp add: kbd_make_def)
    then show ?thesis using False c(1) assms(1) by (simp add: keys_of_def press_def)
  qed
qed

lemma kbd_make_step:
  assumes "kbd_ready s" "n < 128" "make_code (scan e n)"
  shows "\<exists>s'. kbd_make (scan e n) (shift_status s) (caps_lock_status s) s = Inr s' \<and> kbd_ready s' \<and>
              keys_of s' = press (key_of e n) (keys_of s)"
proof (cases "is_char (key_of e n)")
  case False
  then have c: "keymap_at (ucast (scan e n AND 0xff)) (shift_applies (scan e n) (shift_status s) (caps_lock_status s)) = 0"
    "mod_class (scan e n AND 0xff) = key_of e n"
    using char_ok_all [OF assms(2,3)] by (simp_all add: char_ok_def)
  then show ?thesis using kbd_modifier_class [where m = "scan e n AND 0xff" and s = s] assms(1) by (simp add: kbd_make_def)
qed (use kbd_char_typed assms in blast)

lemma keyboard_step:
  assumes "kbd_ready s"
  shows "\<exists>s'. intr_keyboard_handler c s = Inr s' \<and> kbd_ready s' \<and> keys_of s' = key_step (unat c) (keys_of s)"
proof -
  obtain n where n: "c = of_nat n" "n < 256" "n = unat c" using byte_nat by blast
  have pre: "(ucast c = (0xe0 :: u16)) = (n = 0xe0)" using bspec [OF scan_prefix, of n] n(1,2) by simp
  let ?e = "ext_scancode s" and ?s = "s\<lparr>ext_scancode := False\<rparr>"
  have r: "kbd_ready ?s" using assms by (simp add: kbd_ready_def kbd_frames)
  have k: "keys_of ?s = (keys_of s)\<lparr>k_prefix := False\<rparr>" "k_prefix (keys_of s) = ?e"
    by (simp_all add: keys_of_def kbd_frames)
  have same: "(if ?e then (0xe000 OR ucast c, ?s) else (ucast c, s)) = (scan ?e n, ?s)"
    using n by (simp add: scan_def)
  have h: "intr_keyboard_handler c s =
      (if n = 0xe0 then Inr (s\<lparr>ext_scancode := True\<rparr>)
       else if scan ?e n AND 0x80 \<noteq> 0 then Inr (kbd_break (scan ?e n AND 0xff7f) ?s)
       else if make_code (scan ?e n) then kbd_make (scan ?e n) (shift_status s) (caps_lock_status s) ?s
       else Inr (put_str (bytes_of (''unknow key'' @ newline)) ?s))"
    unfolding intr_keyboard_handler_def Let_def pre same by (simp add: make_code_def)
  have br: "(scan ?e n AND 0x80 \<noteq> 0) = (128 \<le> n)" using scan_facts(1) n(2) by blast
  consider "n = 0xe0" | "n \<noteq> 0xe0" "128 \<le> n" | "n < 128" "make_code (scan ?e n)" | "n < 128" "\<not> make_code (scan ?e n)"
    by linarith
  then show ?thesis
  proof cases
    case 1
    then show ?thesis using h n(3) assms by (simp add: key_step_def keys_of_def kbd_ready_def kbd_frames)
  next
    case 2
    have m: "n mod 128 = n - 128" using 2 n(2) by (simp add: mod_if)
    have "held (mod_class (scan ?e n AND 0xff7f)) = held (key_of ?e (n - 128))"
      using scan_facts(2) 2(2) n(2) by blast
    then have "keys_of (kbd_break (scan ?e n AND 0xff7f) ?s) = release (key_of ?e (n mod 128)) ((keys_of s)\<lparr>k_prefix := False\<rparr>)"
      using kbd_break_class(1) [where s = ?s] k m release_held by metis
    then show ?thesis using h 2 br n(3) k kbd_break_class(2) [OF r] by (simp add: key_step_def)
  next
    case 3
    have f: "shift_status ?s = shift_status s" "caps_lock_status ?s = caps_lock_status s" by simp_all
    show ?thesis using kbd_make_step [OF r 3, unfolded f] h 3 br n(3) k by (auto simp: key_step_def)
  next
    case 4
    then have "key_of ?e n = Other" using scan_facts(3) [of n ?e] by blast
    then show ?thesis using h 4 br n(3) k r
      by (simp add: key_step_def press_def put_str_def kbd_ready_def keys_of_def kbd_frames)
  qed
qed

section \<open>A stream of bytes\<close>

lemma keyboard_run:
  "kbd_ready s \<Longrightarrow>
   \<exists>s'. kbd_run cs s = Inr s' \<and> kbd_ready s' \<and> keys_of s' = fold (\<lambda>c. key_step (unat c)) cs (keys_of s)"
proof (induction cs arbitrary: s)
  case (Cons c cs)
  obtain s1 where "intr_keyboard_handler c s = Inr s1" "kbd_ready s1" "keys_of s1 = key_step (unat c) (keys_of s)"
    using keyboard_step [OF Cons.prems] by blast
  then show ?case using Cons.IH [of s1] by simp
qed simp



end
