(* ===== verification/Proc_Props.thy ===== *)
theory Proc_Props
  imports Process Page_Fill
begin

text \<open>
  Properties of the creation of processes: the page directory that \<open>create_page_dir\<close> builds, and the
  context in which \<open>start_process\<close> enters user mode.
\<close>

section \<open>Copying the kernel half of the directory\<close>

lemma vread_dir:
  assumes "selfmap s" "k < 1024"
  shows "vread (0xfffff000 + of_nat k * 4) s = Inr (pmem s (frame_of (cr3 s) + of_nat k * 4))"
proof -
  define va where "va = (of_nat (k * 2 ^ 22) :: addr)"
  have "k * 2 ^ 22 < 2 ^ 32" using assms(2) by simp
  then have "unat va = k * 2 ^ 22" unfolding va_def by (intro unat_of_nat_lt) simp
  then have "unat (PDE_IDX va) = k" by (simp add: unat_PDE_IDX)
  then have "PDE_IDX va = of_nat k" by (intro unat_eqI) (use assms(2) in \<open>simp add: unat_of_nat_lt\<close>)
  then show ?thesis using vread_pde(1) [OF assms(1), of va] by (simp add: pde_ptr_def pde_pa_def)
qed

lemma memcpy_dir:
  fixes s :: "'z pgmachine_scheme"
  assumes "selfmap s" "frame_of F = F" "F \<notin> tables s" "F \<noteq> frame_of (cr3 s)" "page_walk s d = Some F" "frame_of d = d"
    "k + n \<le> 1024"
  shows "\<exists>s'. memcpy_words n (d + of_nat k * 4) (0xfffff000 + of_nat k * 4) s = Inr s' \<and>
    filled s s' F {k..<k + n} (\<lambda>i. pmem s (frame_of (cr3 s) + of_nat i * 4))"
  using assms
proof (induction n arbitrary: k s)
  case 0
  have "filled s s F {} w" for w unfolding filled_def
    by (intro exI [of _ "mem s"] exI [of _ "bytes s"] exI [of _ "pmem s"]) simp
  then show ?case by simp
next
  case (Suc n)
  let ?v = "pmem s (frame_of (cr3 s) + of_nat k * 4)" and ?D = "frame_of (cr3 s)"
  let ?s = "pwr (F + of_nat k * 4) ?v s"
  have k: "k < 1024" using Suc.prems(7) by simp
  note f = filled_pwr [OF Suc.prems(2) k, of s ?v]
  note w = filled_walk [OF Suc.prems(1-4) f]
  have wr: "vwrite (d + of_nat k * 4) ?v s = Inr ?s"
    using walk_word [OF Suc.prems(5,6) k] by (simp add: vwrite_def)
  have "\<exists>s'. memcpy_words n (d + of_nat (Suc k) * 4) (0xfffff000 + of_nat (Suc k) * 4) ?s = Inr s' \<and>
      filled ?s s' F {Suc k..<Suc k + n} (\<lambda>i. pmem ?s (frame_of (cr3 ?s) + of_nat i * 4))"
    using Suc.prems w by (intro Suc.IH) auto
  then obtain s' where s': "memcpy_words n (d + of_nat (Suc k) * 4) (0xfffff000 + of_nat (Suc k) * 4) ?s = Inr s'"
    "filled ?s s' F {Suc k..<Suc k + n} (\<lambda>i. pmem ?s (frame_of (cr3 ?s) + of_nat i * 4))" by blast
  have e: "pmem ?s (?D + of_nat i * 4) = pmem s (?D + of_nat i * 4)" if "i < 1024" for i
  proof -
    have "unat (of_nat i :: u32) < 1024" using that by (simp add: unat_of_nat_lt)
    then have "?D + of_nat i * 4 \<notin> words F" using words_iff [of ?D F] Suc.prems(2,4) by auto
    then show ?thesis using filled_sel(2) [OF f] by blast
  qed
  have "filled s s' F ({k} \<union> {Suc k..<Suc k + n}) (\<lambda>i. if i \<in> {Suc k..<Suc k + n} then pmem ?s (?D + of_nat i * 4) else ?v)"
    using filled_trans [OF f s'(2)] unfolding pwr_sel(2) .
  moreover have "{k} \<union> {Suc k..<Suc k + n} = {k..<k + Suc n}" by auto
  ultimately have g: "filled s s' F {k..<k + Suc n} (\<lambda>i. if i \<in> {Suc k..<Suc k + n} then pmem ?s (?D + of_nat i * 4) else ?v)"
    by simp
  have "filled s s' F {k..<k + Suc n} (\<lambda>i. pmem s (?D + of_nat i * 4))"
  proof -
    have h: "(if i \<in> {Suc k..<Suc k + n} then pmem ?s (?D + of_nat i * 4) else ?v) = pmem s (?D + of_nat i * 4)"
      if "i < 1024" "i \<in> {k..<k + Suc n}" for i
      using e [OF that(1)] that(2) by (cases "i = k") auto
    show ?thesis using g h unfolding filled_def by (elim exE conjE, intro exI conjI) (assumption, assumption, simp)
  qed
  moreover have "memcpy_words (Suc n) (d + of_nat k * 4) (0xfffff000 + of_nat k * 4) s = Inr s'"
    using vread_dir [OF Suc.prems(1) k] wr s'(1) by (simp add: algebra_simps)
  ultimately show ?case by blast
qed

section \<open>The new directory\<close>

lemma PDE_half: "768 \<le> unat (PDE_IDX va) \<longleftrightarrow> 0xc0000000 \<le> unat va"
proof -
  have "768 * 4194304 \<le> unat va \<longleftrightarrow> 768 \<le> unat va div 4194304" by (simp add: less_eq_div_iff_mult_less_eq)
  then show ?thesis by (simp add: unat_PDE_IDX)
qed

text \<open>A directory at \<open>F\<close> whose user half is empty, whose kernel half is that of \<open>s\<close> and whose last entry is itself.\<close>

lemma new_dir_walk:
  fixes s :: "'z pgmachine_scheme"
  assumes sm: "selfmap s" and F: "frame_of F = F" "F \<notin> tables s" "F \<noteq> frame_of (cr3 s)"
    and s': "filled s s' F {..<1024} (\<lambda>i. if i = 1023 then e else if 768 \<le> i then pmem s (frame_of (cr3 s) + of_nat i * 4) else 0)"
    and e: "frame_of e = F" "present e"
  shows "selfmap (s'\<lparr>cr3 := F\<rparr>)"
    "unat va < 0xc0000000 \<Longrightarrow> page_walk (s'\<lparr>cr3 := F\<rparr>) va = None"
    "0xc0000000 \<le> unat va \<Longrightarrow> lower va \<Longrightarrow> page_walk (s'\<lparr>cr3 := F\<rparr>) va = page_walk s va"
proof -
  let ?t = "s'\<lparr>cr3 := F\<rparr>"
  have w: "pmem s' (F + PDE_IDX v * 4) = (if PDE_IDX v = 1023 then e
      else if 768 \<le> unat (PDE_IDX v) then pmem s (frame_of (cr3 s) + PDE_IDX v * 4) else 0)" for v
  proof -
    have c: "of_nat (unat (PDE_IDX v)) = PDE_IDX v" by simp
    have "unat (PDE_IDX v) = 1023 \<longleftrightarrow> PDE_IDX v = 1023" using unat_eqI [of "PDE_IDX v" 1023] by auto
    then show ?thesis using filled_sel(3) [OF s' PDE_IDX_lt [of v]] PDE_IDX_lt [of v] unfolding c by simp
  qed
  have "pmem s' (F + 4092) = e" using filled_sel(3) [OF s', of 1023] by simp
  then show "selfmap ?t" using e F(1) by (simp add: selfmap_def)
  show "page_walk ?t va = None" if "unat va < 0xc0000000"
  proof -
    have h: "\<not> 768 \<le> unat (PDE_IDX va)" using that by (simp add: PDE_half)
    then have "PDE_IDX va \<noteq> 1023" by auto
    then show ?thesis using w [of va] h F(1) by (simp add: page_walk_def present_def Let_def)
  qed
  show "page_walk ?t va = page_walk s va" if va: "0xc0000000 \<le> unat va" "lower va"
  proof -
    have d: "pmem s' (F + PDE_IDX va * 4) = pmem s (pde_pa s va)"
      using w [of va] va PDE_half [of va] by (simp add: lower_def pde_pa_def)
    have "pmem s' (frame_of (pmem s (pde_pa s va)) + PTE_IDX va * 4) = pmem s (frame_of (pmem s (pde_pa s va)) + PTE_IDX va * 4)"
      if "present (pmem s (pde_pa s va))"
    proof -
      have "frame_of (pmem s (pde_pa s va)) \<noteq> F" using F(2) va(2) that by (auto simp: tables_def table_of_def)
      then show ?thesis using filled_sel(2) [OF s'] words_iff [OF _ F(1) PTE_IDX_lt] by auto
    qed
    then show ?thesis using d F(1)
      by (cases "present (pmem s (pde_pa s va))") (simp_all add: page_walk_pa pde_pa_def pte_pa_def)
  qed
qed

lemma page_dir_built:
  fixes s :: "'z pgmachine_scheme"
  assumes "selfmap s" "frame_of F = F" "F \<notin> tables s" "F \<noteq> frame_of (cr3 s)" "page_walk s d = Some F" "frame_of d = d" "d \<noteq> NULL"
  shows "\<exists>s1 s2 s3. memset_mem d 0 4096 s = Inr s1 \<and>
    memcpy_words 256 (d + 0x300 * 4) (0xfffff000 + 0x300 * 4) s1 = Inr s2 \<and> addr_v2p d s2 = Inr F \<and>
    vwrite (d + 1023 * 4) e s2 = Inr s3 \<and> (\<forall>v. page_walk s3 v = page_walk s v) \<and> selfmap s3 \<and>
    filled s s3 F {..<1024} (\<lambda>i. if i = 1023 then e else if 768 \<le> i then pmem s (frame_of (cr3 s) + of_nat i * 4) else 0)"
proof -
  obtain s1 where s1: "memset_mem d 0 4096 s = Inr s1" "filled s s1 F {..<1024} (\<lambda>_. 0)"
    using memset_page [OF assms(5,6,2,7)] by blast
  note w1 = filled_walk [OF assms(1-4) s1(2)] and c1 = filled_sel(1) [OF s1(2)]
  have "\<exists>s2. memcpy_words 256 (d + of_nat 768 * 4) (0xfffff000 + of_nat 768 * 4) s1 = Inr s2 \<and>
      filled s1 s2 F {768..<768 + 256} (\<lambda>i. pmem s1 (frame_of (cr3 s1) + of_nat i * 4))"
    using assms w1 c1 by (intro memcpy_dir) simp_all
  then obtain s2 where s2: "memcpy_words 256 (d + 0x300 * 4) (0xfffff000 + 0x300 * 4) s1 = Inr s2"
    "filled s1 s2 F {768..<768 + 256} (\<lambda>i. pmem s1 (frame_of (cr3 s1) + of_nat i * 4))" by auto
  have F1: "F \<notin> tables s1" "F \<noteq> frame_of (cr3 s1)" using assms(3,4) w1 c1 by simp_all
  note w2 = filled_walk [OF w1(3) assms(2) F1 s2(2)] and c2 = filled_sel(1) [OF s2(2)]
  have v2: "addr_v2p d s2 = Inr F" using addr_v2p_walk [OF w2(3)] w2(1) w1(1) assms(5) by simp
  let ?s3 = "pwr (F + of_nat 1023 * 4) e s2"
  have wk: "page_walk s2 (d + of_nat 1023 * 4) = Some (F + of_nat 1023 * 4)"
    using walk_word [of s2 d F 1023] assms(5,6) w1(1) w2(1) by simp
  have f3: "filled s2 ?s3 F {1023} (\<lambda>_. e)" by (rule filled_pwr [OF assms(2)]) simp
  have F2: "F \<notin> tables s2" "F \<noteq> frame_of (cr3 s2)" using F1 w2 c2 by simp_all
  note w3 = filled_walk [OF w2(3) assms(2) F2 f3]
  have e: "pmem s1 (frame_of (cr3 s1) + of_nat i * 4) = pmem s (frame_of (cr3 s) + of_nat i * 4)" if "i < 1024" for i
  proof -
    have "unat (of_nat i :: u32) < 1024" using that by (simp add: unat_of_nat_lt)
    then have "frame_of (cr3 s) + of_nat i * 4 \<notin> words F" using words_iff [of "frame_of (cr3 s)" F] assms(2,4) by auto
    then show ?thesis using filled_sel(2) [OF s1(2)] c1 by simp
  qed
  have "filled s ?s3 F {..<1024} (\<lambda>i. if i = 1023 then e else if 768 \<le> i then pmem s (frame_of (cr3 s) + of_nat i * 4) else 0)"
  proof -
    note g = filled_trans [OF filled_trans [OF s1(2) s2(2)] f3]
    have u: "{..<1024} \<union> {768..<768 + 256} \<union> {1023} = {..<1024 :: nat}" by auto
    have h: "(if i \<in> {1023} then e else if i \<in> {768..<768 + 256} then pmem s1 (frame_of (cr3 s1) + of_nat i * 4) else 0) =
        (if i = 1023 then e else if 768 \<le> i then pmem s (frame_of (cr3 s) + of_nat i * 4) else 0)" if "i < 1024" for i
      using e [OF that] that by auto
    show ?thesis using g h unfolding u filled_def by (elim exE conjE, intro exI conjI) (assumption, assumption, simp)
  qed
  moreover have "vwrite (d + 1023 * 4) e s2 = Inr ?s3" using wk by (simp add: vwrite_def)
  moreover have "page_walk ?s3 v = page_walk s v" for v using w3(1) w2(1) w1(1) by simp
  ultimately show ?thesis using s1(1) s2(1) v2 w3(3) by blast
qed

section \<open>Properties\<close>

text \<open>C23. The page directory of a new process.  With a free page of kernel address space and two free frames,
  \<open>create_page_dir\<close> returns a directory such that, once \<open>page_dir_activate\<close> has loaded it for a process, every kernel
  address (3 GB up to the page-table window) is translated exactly as in the directory that was active
  before, no user address is mapped, and the new directory maps itself through its last entry, so
  that \<open>pte_ptr\<close> and \<open>pde_ptr\<close> work in it.  In the old directory nothing but the page of the new directory
  changes its translation.\<close>

theorem create_page_dir_shares_kernel:
  fixes s :: "'z kmem_scheme"
  assumes "mm_inv s" and "vspace_ok s (kernel_vaddr s)" and "j < vbits (kernel_vaddr s)"
    and "\<not> used s (vaddr_bitmap (kernel_vaddr s)) j" and "2 \<le> card (free_frames s (kernel_pool s))"
  shows "\<exists>dir F s'. create_page_dir s = Inr (dir, s') \<and> dir \<noteq> NULL \<and> F \<in> free_frames s (kernel_pool s) \<and>
    (\<forall>p. pgdir (tasks s' p) = dir \<longrightarrow> page_dir_activate p s' = Inr (s'\<lparr>cr3 := F\<rparr>)) \<and>
    selfmap (s'\<lparr>cr3 := F\<rparr>) \<and>
    (\<forall>va. unat va < 0xc0000000 \<longrightarrow> page_walk (s'\<lparr>cr3 := F\<rparr>) va = None) \<and>
    (\<forall>va. 0xc0000000 \<le> unat va \<and> lower va \<longrightarrow> page_walk (s'\<lparr>cr3 := F\<rparr>) va = page_walk s' va) \<and>
    (\<forall>va. lower va \<and> slot s' va \<noteq> slot s' dir \<longrightarrow> page_walk s' va = page_walk s va)"
proof -
  obtain d F s1 where m: "malloc_pages PF_KERNEL 1 s = Inr (d, s1)" "mm_inv s1" and d: "page_walk s1 d = Some F" "frame_of d = d"
    "d \<noteq> NULL" "lower d" and F: "frame_of F = F" "F \<notin> tables s1" "F \<noteq> frame_of (cr3 s1)" "F \<in> free_frames s (kernel_pool s)"
    and o: "\<And>v. lower v \<Longrightarrow> slot s1 v \<noteq> slot s1 d \<Longrightarrow> page_walk s1 v = page_walk s v"
    using kernel_page [OF assms] by blast
  have sm: "selfmap s1" using m(2) by (simp add: mm_inv_def)
  let ?e = "F OR PG_US_U OR PG_RW_W OR PG_P_1"
  from page_dir_built [OF sm F(1-3) d(1-3), of ?e] obtain s2 s3 s4 where
    s2: "memset_mem d 0 4096 s1 = Inr s2" and s3: "memcpy_words 256 (d + 0x300 * 4) (0xfffff000 + 0x300 * 4) s2 = Inr s3"
    "addr_v2p d s3 = Inr F" and s4: "vwrite (d + 1023 * 4) ?e s3 = Inr s4" "\<forall>v. page_walk s4 v = page_walk s1 v" "selfmap s4"
    and f: "filled s1 s4 F {..<1024} (\<lambda>i. if i = 1023 then ?e else if 768 \<le> i then pmem s1 (frame_of (cr3 s1) + of_nat i * 4) else 0)"
    by blast
  have run: "create_page_dir s = Inr (d, s4)"
    using m(1) d(3) s2 s3 s4(1) by (simp add: create_page_dir_def get_kernel_pages_def PG_SIZE_def)
  note W = new_dir_walk [OF sm F(1-3) f pte_entry [OF F(1)]]
  have sl: "slot s4 v = slot s1 v" for v using filled_walk(2) [OF sm F(1-3) f] by (simp add: slot_def)
  have act: "page_dir_activate p s4 = Inr (s4\<lparr>cr3 := F\<rparr>)" if "pgdir (tasks s4 p) = d" for p
    using that d(1,3) addr_v2p_walk [OF s4(3), of d F] s4(2) by (simp add: page_dir_activate_def)
  have k: "page_walk (s4\<lparr>cr3 := F\<rparr>) va = page_walk s4 va" if "0xc0000000 \<le> unat va" "lower va" for va
    using W(3) [OF that] s4(2) by simp
  have l: "page_walk s4 va = page_walk s va" if "lower va" "slot s4 va \<noteq> slot s4 d" for va
    using o [of va] that s4(2) sl by simp
  show ?thesis
    by (rule exI [of _ d], rule exI [of _ F], rule exI [of _ s4])
      (use run d(3) F(4) act W(1,2) k l in simp)
qed

theorem create_page_dir_shares_kernel_witness:
  "\<exists>dir F s'. create_page_dir boot_kmem = Inr (dir, s') \<and> dir \<noteq> NULL \<and> selfmap (s'\<lparr>cr3 := F\<rparr>)"
proof -
  have v: "vspace PF_KERNEL boot_kmem = kernel_vaddr boot_kmem" by (simp add: vspace_def)
  have u: "\<not> used boot_kmem (vaddr_bitmap (kernel_vaddr boot_kmem)) 0"
    using boot_free_run [of "vaddr_bitmap (kernel_vaddr boot_kmem)" 1 0] by (simp add: free_run_def)
  have r: "2 \<le> card (free_frames boot_kmem (kernel_pool boot_kmem))" using boot_room [of 1] by (simp add: room_def)
  have b: "0 < vbits (kernel_vaddr boot_kmem)" using boot_vbits unfolding v by simp
  from create_page_dir_shares_kernel [OF boot_kmem_inv boot_vspace_ok [unfolded v] b u r] show ?thesis by blast
qed

end
