(* ===== verification/Kmath.thy ===== *)
theory Kmath
  imports Kernel_Base
begin

text \<open>
  \<^verbatim>\<open>lib/math.c\<close>: the exponent of a power of two and the integer power, on 64-bit words.  The division loop
  of \<open>find_power_of_2\<close> would not end on zero, so it is a partial function; the guard in front of it is what
  makes the function total.
\<close>

section \<open>Operations\<close>

definition is_power_of_2 :: "u64 \<Rightarrow> bool" where
  "is_power_of_2 x = (x \<noteq> 0 \<and> x AND (x - 1) = 0)"

partial_function (option) halve_loop :: "u64 \<Rightarrow> u64 \<Rightarrow> u64 option" where
  "halve_loop x res = (if x \<noteq> 1 then halve_loop (x div 2) (res + 1) else Some res)"

definition find_power_of_2 :: "u64 \<Rightarrow> u64 option" where
  "find_power_of_2 x = (if \<not> is_power_of_2 x then Some (-1) else halve_loop x 0)"

function powi_loop :: "u64 \<Rightarrow> u64 \<Rightarrow> u64 \<Rightarrow> u64" where
  "powi_loop x n res = (if n > 0 then powi_loop x (n - 1) (res * x) else res)"
  by auto
termination
  by (relation "measure (\<lambda>(_, n, _). unat n)") (auto simp: word_gt_0 measure_unat)

declare powi_loop.simps [simp del]

definition powi_fn :: "u64 \<Rightarrow> u64 \<Rightarrow> u64" where
  "powi_fn x n = (if n = 0 then 1 else powi_loop x n 1)"

text \<open>The macros of \<^verbatim>\<open>lib/math.h\<close>; \<open>DIV_ROUND_UP\<close> is in \<open>Kernel_Base\<close>.\<close>

definition math_MAX :: "int \<Rightarrow> int \<Rightarrow> int" where "math_MAX a b = (if a > b then a else b)"
definition math_MIN :: "int \<Rightarrow> int \<Rightarrow> int" where "math_MIN a b = (if a < b then a else b)"
definition math_ABS :: "int \<Rightarrow> int" where "math_ABS x = (if x > 0 then x else - x)"
definition DIV_ROUND_DOWN :: "u32 \<Rightarrow> u32 \<Rightarrow> u32" where "DIV_ROUND_DOWN X STEP = X div STEP"

text \<open>The two roundings enclose the quotient, when the sum does not wrap.\<close>

lemma div_round_encloses:
  assumes "unat X + unat STEP \<le> 2 ^ 32" "0 < STEP"
  shows "unat (DIV_ROUND_DOWN X STEP) * unat STEP \<le> unat X" "unat X \<le> unat (DIV_ROUND_UP X STEP) * unat STEP"
proof -
  have p: "0 < unat STEP" using assms(2) by (simp add: word_less_nat_alt)
  have "unat (X + (STEP - 1)) = unat X + (unat STEP - 1)"
    using assms(1) p by (subst unat_add_lt) (simp_all add: unat_minus_one word_neq_0_conv assms(2))
  moreover have "X + STEP - 1 = X + (STEP - 1)" by (simp add: add_diff_eq)
  ultimately have u: "unat (DIV_ROUND_UP X STEP) = (unat X + (unat STEP - 1)) div unat STEP"
    unfolding DIV_ROUND_UP_def unat_div by (simp only:)
  have "unat X + (unat STEP - 1) = unat (DIV_ROUND_UP X STEP) * unat STEP + (unat X + (unat STEP - 1)) mod unat STEP"
    unfolding u by (simp add: div_mult_mod_eq)
  moreover have "(unat X + (unat STEP - 1)) mod unat STEP \<le> unat STEP - 1" using p by (simp add: less_Suc_eq_le flip: less_Suc_eq_le)
  ultimately show "unat X \<le> unat (DIV_ROUND_UP X STEP) * unat STEP" by linarith
  show "unat (DIV_ROUND_DOWN X STEP) * unat STEP \<le> unat X" by (simp add: DIV_ROUND_DOWN_def unat_div)
qed

section \<open>Powers of two\<close>

lemma and_pred_nat: "0 < n \<Longrightarrow> and n (n - 1) = (0 :: nat) \<Longrightarrow> \<exists>k. n = 2 ^ k"
proof (induction n rule: less_induct)
  case (less n)
  show ?case
  proof (cases "even n")
    case True
    then obtain m where m: "n = 2 * m" by blast
    have "and n (n - 1) = 2 * and m (m - 1)"
      unfolding and_nat_rec [of n "n - 1"] using m less.prems(1) by (cases m) auto
    then have "and m (m - 1) = 0" using less.prems(2) by simp
    moreover have "m < n" "0 < m" using m less.prems(1) by simp_all
    ultimately obtain k where "m = 2 ^ k" using less.IH [of m] by blast
    then have "n = 2 ^ Suc k" using m by simp
    then show ?thesis by blast
  next
    case False
    then obtain m where m: "n = 2 * m + 1" by (auto elim: oddE)
    have "and n (n - 1) = 2 * m"
      unfolding and_nat_rec [of n "n - 1"] using m by simp
    then have "n = 2 ^ 0" using less.prems(2) m by simp
    then show ?thesis by blast
  qed
qed

lemma is_power_of_2_iff: "is_power_of_2 x \<longleftrightarrow> (\<exists>k<64. x = 2 ^ k)"
proof
  assume p: "is_power_of_2 x"
  then have "x \<noteq> 0" by (simp add: is_power_of_2_def)
  then have u: "unat (x - 1) = unat x - 1" "0 < unat x" by (simp_all add: unat_minus_one unat_gt_0)
  have "unat (x AND (x - 1)) = 0" using p by (simp add: is_power_of_2_def)
  then have "and (unat x) (unat x - 1) = 0" by (simp add: unsigned_and_eq u(1))
  from and_pred_nat [OF u(2) this] obtain k where k: "unat x = 2 ^ k" by blast
  have "unat x < 2 ^ LENGTH(64)" by (rule unsigned_less)
  then have "(2 :: nat) ^ k < 2 ^ 64" using k by simp
  then have k64: "k < 64" by (rule power_less_imp_less_exp [rotated]) simp
  have "x = of_nat (2 ^ k)" using k by (metis of_nat_unat ucast_id)
  then show "\<exists>k<64. x = 2 ^ k" using k64 by auto
next
  assume "\<exists>k<64. x = 2 ^ k"
  then obtain k where k: "k < 64" "x = 2 ^ k" by blast
  have "x - 1 = mask k" using k by (simp add: mask_eq_exp_minus_1)
  moreover have "x \<noteq> 0" using k by simp
  moreover have "x AND mask k = 0" unfolding k(2) by (rule bit_word_eqI) (auto simp: bit_simps)
  ultimately show "is_power_of_2 x" by (simp add: is_power_of_2_def)
qed

lemma unat_exp: "k < 64 \<Longrightarrow> unat (2 ^ k :: u64) = 2 ^ k"
proof -
  assume "k < 64"
  then have "(2 :: nat) ^ k < 2 ^ 64" by (rule power_strict_increasing) simp
  then have "unat (of_nat (2 ^ k) :: u64) = 2 ^ k" by (intro unat_of_nat_lt) simp
  then show ?thesis by simp
qed

lemma halve_loop_power: "k < 64 \<Longrightarrow> halve_loop (2 ^ k) r = Some (r + of_nat k)"
proof (induction k arbitrary: r)
  case (Suc k)
  have u: "unat (2 ^ Suc k :: u64) = 2 ^ Suc k" using Suc.prems by (rule unat_exp)
  have "unat (2 ^ Suc k div 2 :: u64) = unat (2 ^ k :: u64)"
    using Suc.prems unat_exp [of k] unfolding unat_div u by simp
  then have "(2 ^ Suc k div 2 :: u64) = 2 ^ k" by (simp only: unsigned_word_eqI)
  moreover have "(2 ^ Suc k :: u64) \<noteq> 1"
  proof
    assume "(2 ^ Suc k :: u64) = 1"
    then have "unat (2 ^ Suc k :: u64) = 1" by simp
    then show False using u by simp
  qed
  ultimately show ?case using Suc by (subst halve_loop.simps) (simp add: algebra_simps)
qed (simp add: halve_loop.simps)

lemma powi_loop_power: "powi_loop x n r = r * x ^ unat n"
proof (induction x n r rule: powi_loop.induct)
  case (1 x n r)
  show ?case
  proof (cases "n > 0")
    case True
    then have "unat n = Suc (unat (n - 1))" by (simp add: unat_minus_one word_gt_0 unat_gt_0)
    then show ?thesis using 1 True by (subst powi_loop.simps) (simp add: mult.assoc)
  next
    case False
    then have "n = 0" by (simp add: word_gt_0)
    then show ?thesis by (subst powi_loop.simps) simp
  qed
qed

section \<open>Properties\<close>

text \<open>\<open>find_power_of_2\<close> returns on every 64-bit argument, with the exponent of a power of two and -1
  for every other number, zero included.\<close>

theorem find_power_of_2_total:
  "(k < 64 \<longrightarrow> find_power_of_2 (2 ^ k) = Some (of_nat k)) \<and>
   ((\<forall>k<64. x \<noteq> 2 ^ k) \<longrightarrow> find_power_of_2 x = Some (-1))"
  using halve_loop_power [of k 0] is_power_of_2_iff by (auto simp: find_power_of_2_def)

theorem find_power_of_2_total_witness: "find_power_of_2 4096 = Some 12 \<and> find_power_of_2 0 = Some (-1)"
proof -
  have "\<forall>k<64. (0 :: u64) \<noteq> 2 ^ k" by simp
  then show ?thesis using find_power_of_2_total [of 12 0] by simp
qed

text \<open>\<open>powi\<close> computes the power modulo 2 to the 64, for every base and exponent.\<close>

theorem powi_power: "powi_fn x n = x ^ unat n"
  by (simp add: powi_fn_def powi_loop_power)

end
