(* ===== verification/Fmt_Props.thy ===== *)
theory Fmt_Props
  imports Stdio
begin

text \<open>
  Correctness of formatted output: \<open>itoa\<close> ends and writes the digits of its number, and \<open>vsprintf\<close> ends and leaves in
  its buffer the string that \<open>render\<close> gives, which is how the model of \<open>printk\<close> computes what it prints.
\<close>

section \<open>Writing at the end of a buffer\<close>

text \<open>From \<open>s\<close> to \<open>s'\<close> the characters \<open>xs\<close> are written from position \<open>k\<close> on into the buffer at \<open>b\<close>, whose last position is
  \<open>n\<close>: what comes before stays, a terminator at \<open>n\<close> stays, and nothing outside the buffer changes.\<close>

definition wrote :: "addr \<Rightarrow> nat \<Rightarrow> nat \<Rightarrow> u8 list \<Rightarrow> 'z machine_scheme \<Rightarrow> 'z machine_scheme \<Rightarrow> bool" where
  "wrote b n k xs s s' =
     ((\<forall>i<length xs. bytes s' (b + of_nat (k + i)) = xs ! i) \<and> (bytes s (b + of_nat n) = 0 \<longrightarrow> bytes s' (b + of_nat n) = 0) \<and>
      (\<forall>i<k. bytes s' (b + of_nat i) = bytes s (b + of_nat i)) \<and> (\<forall>x. \<not> in_block b (Suc n) x \<longrightarrow> bytes s' x = bytes s x) \<and>
      mem s' = mem s \<and> eflags s' = eflags s \<and> machine.more s' = machine.more s)"

lemma wrote_refl: "wrote b n k [] s s"
  by (simp add: wrote_def)

lemma wrote_trans:
  assumes "wrote b n k xs s s1" "wrote b n (k + length xs) ys s1 s2"
  shows "wrote b n k (xs @ ys) s s2"
proof -
  have "bytes s2 (b + of_nat (k + i)) = (xs @ ys) ! i" if i: "i < length (xs @ ys)" for i
  proof (cases "i < length xs")
    case True
    then show ?thesis using assms by (simp add: wrote_def nth_append del: of_nat_add)
  next
    case False
    then have "k + i = k + length xs + (i - length xs)" "i - length xs < length ys" using i by simp_all
    then show ?thesis using assms(2) False unfolding wrote_def by (metis nth_append)
  qed
  then show ?thesis using assms by (auto simp: wrote_def)
qed

lemma buf_distinct:
  assumes "i < 2 ^ 32" "j < 2 ^ 32" "i \<noteq> j"
  shows "(b :: addr) + of_nat i \<noteq> b + of_nat j"
proof
  assume "b + of_nat i = b + of_nat j"
  then have "unat (of_nat i :: addr) = unat (of_nat j :: addr)" by simp
  then show False using assms by (simp add: unat_of_nat_lt)
qed

lemma wrote_char:
  assumes "k < n" "n < 2 ^ 32 - 1"
  shows "wrote b n k [c] s (wrb (b + of_nat k) c s)"
proof -
  have "in_block b (Suc n) (b + of_nat k)" by (rule in_block_offset) (use assms in simp_all)
  moreover have "b + of_nat i \<noteq> b + of_nat k" if "i < k \<or> i = n" for i by (rule buf_distinct) (use that assms in auto)
  ultimately show ?thesis by (auto simp: wrote_def wrb_def)
qed

lemma wrote_outside:
  assumes "wrote b n k xs s s'" "cstr (bytes s) a ys" "\<And>i. i \<le> length ys \<Longrightarrow> \<not> in_block b (Suc n) (a + of_nat i)"
  shows "cstr (bytes s') a ys"
  using assms(2,3)
proof (induction ys arbitrary: a)
  case Nil
  then show ?case using assms(1) Nil(2) [of 0] by (simp add: wrote_def)
next
  case (Cons y ys)
  have "\<not> in_block b (Suc n) (a + 1 + of_nat i)" if "i \<le> length ys" for i using Cons.prems(2) [of "Suc i"] that by (simp add: add.assoc)
  then show ?case using Cons.IH [of "a + 1"] Cons.prems(1) Cons.prems(2) [of 0] assms(1) by (simp add: wrote_def)
qed

lemma strcpy_loop_wrote:
  assumes "cstr (bytes s) a ys" "\<And>i. i \<le> length ys \<Longrightarrow> \<not> in_block b (Suc n) (a + of_nat i)" "k + length ys \<le> n" "n < 2 ^ 32 - 1"
  shows "\<exists>s'. strcpy_loop (b + of_nat k) a s = Some s' \<and> wrote b n k ys s s'"
  using assms(1-3)
proof (induction ys arbitrary: a k s)
  case Nil
  have "in_block b (Suc n) (b + of_nat k)" by (rule in_block_offset) (use Nil assms(4) in simp_all)
  moreover have "b + of_nat i \<noteq> b + of_nat k" if "i < k" for i by (rule buf_distinct) (use that Nil assms(4) in auto)
  ultimately have "wrote b n k [] s (wrb (b + of_nat k) 0 s)" by (auto simp: wrote_def wrb_def)
  then show ?case using Nil by (simp add: strcpy_loop.simps Let_def)
next
  case (Cons y ys)
  let ?s = "wrb (b + of_nat k) y s"
  have out: "\<not> in_block b (Suc n) (a + 1 + of_nat i)" if "i \<le> length ys" for i using Cons.prems(2) [of "Suc i"] that by (simp add: add.assoc)
  have w: "wrote b n k [y] s ?s" by (rule wrote_char) (use Cons.prems(3) assms(4) in simp_all)
  have c: "cstr (bytes ?s) (a + 1) ys" by (rule wrote_outside [OF w]) (use Cons.prems(1) out in simp_all)
  have l: "Suc k + length ys \<le> n" using Cons.prems(3) by simp
  obtain s' where s': "strcpy_loop (b + of_nat (Suc k)) (a + 1) ?s = Some s'" "wrote b n (Suc k) ys ?s s'"
    using Cons.IH [OF c out l] by blast
  then show ?case using Cons.prems(1) wrote_trans [OF w, of ys s'] by (simp add: strcpy_loop.simps [of _ a] Let_def algebra_simps)
qed

section \<open>Numbers\<close>

definition digit_char :: "nat \<Rightarrow> u8" where
  "digit_char d = (if d < 10 then of_nat (d + 48) else of_nat (d + 55))"

lemma digits_char: "digits base n = (if base < 2 \<or> n < base then [digit_char n] else digits base (n div base) @ [digit_char (n mod base)])"
  by (subst digits.simps) (simp add: digit_char_def)

lemma itoa_char:
  assumes "unat (m :: u32) < 256"
  shows "(if m < 10 then ucast (m + 48) else ucast (m - 10 + 65)) = digit_char (unat m)"
proof -
  have e: "m - 10 + 65 = m + 55" by simp
  have u: "(ucast (m + c) :: u8) = of_nat (unat m + unat c)" if "unat c < 256" for c
  proof -
    have "unat (m + c) = unat m + unat c" using assms that by (intro unat_add_lt) simp
    then show ?thesis by (metis of_nat_unat)
  qed
  show ?thesis unfolding e using u [of 48] u [of 55] by (simp add: digit_char_def word_less_nat_alt)
qed

lemma itoa_digits:
  assumes "2 \<le> unat base" "k + length (digits (unat base) (unat v)) \<le> n" "n < 2 ^ 32 - 1"
  shows "\<exists>s'. itoa v (b + of_nat k) base s = Some (b + of_nat (k + length (digits (unat base) (unat v))), s') \<and>
    wrote b n k (digits (unat base) (unat v)) s s'"
  using assms(2)
proof (induction "unat v" arbitrary: v rule: less_induct)
  case less
  let ?B = "unat base" and ?m = "v mod ucast base" and ?i = "v div ucast base"
  have lt: "?B < 256" using unsigned_less [where 'a = nat and w = base] by simp
  have ub: "unat (ucast base :: u32) = ?B" using lt by (simp add: unsigned_ucast_eq take_bit_nat_eq_self)
  have um: "unat ?m = unat v mod ?B" "unat ?i = unat v div ?B" using ub by (simp_all add: unat_mod unat_div)
  have b0: "base \<noteq> 0" using assms(1) by auto
  have i0: "?i = 0 \<longleftrightarrow> unat v < ?B" using um(2) assms(1) by (metis div_eq_0_iff le_zero_eq not_numeral_le_zero unat_eq_0)
  have m: "unat ?m < 256" using um(1) lt assms(1) by (simp add: order.strict_trans [OF mod_less_divisor])
  note run = itoa.simps [of v "b + of_nat k" base s] itoa_char [OF m]
  show ?case
  proof (cases "unat v < ?B")
    case True
    have d: "digits ?B (unat v) = [digit_char (unat v)]" using True by (simp add: digits_char)
    then have "wrote b n k (digits ?B (unat v)) s (wrb (b + of_nat k) (digit_char (unat v)) s)"
      using wrote_char [of k n b] less.prems assms(3) by simp
    then show ?thesis using True i0 b0 um(1) d by (simp add: run Let_def algebra_simps)
  next
    case False
    let ?ds = "digits ?B (unat ?i)" and ?c = "digit_char (unat ?m)"
    have d: "digits ?B (unat v) = ?ds @ [?c]" using False assms(1) um by (simp add: digits_char [of ?B "unat v"])
    have "unat ?i < unat v" using um(2) False assms(1) by (simp add: div_less_dividend)
    then obtain s1 where s1: "itoa ?i (b + of_nat k) base s = Some (b + of_nat (k + length ?ds), s1)" "wrote b n k ?ds s s1"
      using less.hyps [of ?i] less.prems d by auto
    have "wrote b n (k + length ?ds) [?c] s1 (wrb (b + of_nat (k + length ?ds)) ?c s1)"
      by (rule wrote_char) (use less.prems d assms(3) in simp_all)
    from wrote_trans [OF s1(2) this] show ?thesis using s1(1) i0 False b0 d by (simp add: run Let_def algebra_simps)
  qed
qed

section \<open>The format loop\<close>

fun args_at :: "(addr \<Rightarrow> u32) \<Rightarrow> addr \<Rightarrow> u32 list \<Rightarrow> bool" where
  "args_at m ap [] = True"
| "args_at m ap (a # as) = (m (ap + 4) = a \<and> args_at m (ap + 4) as)"

text \<open>The arguments that \<open>%s\<close> conversions consume.\<close>

fun str_args :: "u8 list \<Rightarrow> u32 list \<Rightarrow> addr list" where
  "str_args [] args = []"
| "str_args (c # fmt) args =
     (if c \<noteq> 37 then str_args fmt args
      else case fmt of
             [] \<Rightarrow> []
           | d # fmt' \<Rightarrow>
               if d = 115 \<or> d = 99 \<or> d = 100 \<or> d = 117 \<or> d = 120 then
                 (case args of
                    [] \<Rightarrow> []
                  | a # args' \<Rightarrow> (if d = 115 then [a] else []) @ str_args fmt' args')
               else if d = 111 \<or> d = 102 then []
               else str_args fmt args)"

text \<open>A string that stands outside the buffer.\<close>

definition clear_of :: "addr \<Rightarrow> nat \<Rightarrow> (addr \<Rightarrow> u8) \<Rightarrow> addr \<Rightarrow> u8 list \<Rightarrow> bool" where
  "clear_of b n m a xs = (cstr m a xs \<and> (\<forall>i\<le>length xs. \<not> in_block b (Suc n) (a + of_nat i)))"

lemma clear_of_wrote: "wrote b n k ys s s' \<Longrightarrow> clear_of b n (bytes s) a xs \<Longrightarrow> clear_of b n (bytes s') a xs"
  using wrote_outside [of b n k ys s s' a xs] by (simp add: clear_of_def)

lemma clear_of_Cons: "clear_of b n m a (x # xs) \<Longrightarrow> x \<noteq> 0 \<and> m a = x \<and> clear_of b n m (a + 1) xs"
proof -
  assume c: "clear_of b n m a (x # xs)"
  have "\<not> in_block b (Suc n) (a + 1 + of_nat i)" if "i \<le> length xs" for i
    using c that unfolding clear_of_def by (metis (no_types, lifting) Suc_le_mono add.assoc length_Cons of_nat_Suc)
  then show ?thesis using c by (simp add: clear_of_def)
qed

text \<open>One conversion.\<close>

definition conv_step :: "u8 \<Rightarrow> u32 \<Rightarrow> addr \<Rightarrow> 'z machine_scheme \<Rightarrow> (addr \<times> 'z machine_scheme) result option" where
  "conv_step c a buf_ptr s =
     (if c = 115 then Some (bind_r (strcpy buf_ptr a s) (\<lambda>(_, s). bind_r (strlen a s) (\<lambda>n. Inr (buf_ptr + n, s))))
      else if c = 99 then Some (Inr (buf_ptr + 1, wrb buf_ptr (ucast a) s))
      else map_option Inr (fmt_int c a buf_ptr s))"

lemma fmt_int_wrote:
  assumes "c = 100 \<or> c = 117 \<or> c = 120" "k + length (conv strs c a) \<le> n" "n < 2 ^ 32 - 1"
  shows "\<exists>s'. fmt_int c a (b + of_nat k) s = Some (b + of_nat (k + length (conv strs c a)), s') \<and> wrote b n k (conv strs c a) s s'"
proof (cases "c = 100 \<and> sint a < 0")
  case True
  let ?ds = "digits 10 (unat (- a))"
  have cv: "conv strs c a = 45 # ?ds" using True by (simp add: conv_def)
  have w: "wrote b n k [45] s (wrb (b + of_nat k) 45 s)" by (rule wrote_char) (use cv assms in simp_all)
  have "unat (10 :: u8) = 10" by simp
  then obtain s' where s': "itoa (- a) (b + of_nat (Suc k)) 10 (wrb (b + of_nat k) 45 s) = Some (b + of_nat (Suc k + length ?ds), s')"
    "wrote b n (Suc k) ?ds (wrb (b + of_nat k) 45 s) s'"
    using itoa_digits [of 10 "Suc k" "- a" n b "wrb (b + of_nat k) 45 s"] cv assms(2,3) by auto
  have "wrote b n k ([45] @ ?ds) s s'" by (rule wrote_trans [OF w]) (use s'(2) in simp)
  then show ?thesis using s'(1) True cv by (simp add: fmt_int_def algebra_simps)
next
  case False
  have "unat (10 :: u8) = 10" "unat (16 :: u8) = 16" by simp_all
  then show ?thesis
    using assms False itoa_digits [of 10 k a n b s] itoa_digits [of 16 k a n b s] by (auto simp: fmt_int_def conv_def)
qed

definition convs :: "u8 list" where
  "convs = [115, 99, 100, 117, 120]"

lemma conv_step_wrote:
  assumes c: "c \<in> set convs" and n: "k + length (conv strs c a) \<le> n" "n < 2 ^ 32 - 1" and b: "\<And>i. i \<le> n \<Longrightarrow> b + of_nat i \<noteq> NULL"
    and str: "c = 115 \<Longrightarrow> a \<noteq> NULL \<and> clear_of b n (bytes s) a (strs a)"
  shows "\<exists>s'. conv_step c a (b + of_nat k) s = Some (Inr (b + of_nat (k + length (conv strs c a)), s')) \<and> wrote b n k (conv strs c a) s s'"
proof -
  consider "c = 115" | "c = 99" | "c = 100 \<or> c = 117 \<or> c = 120" using c by (auto simp: convs_def)
  then show ?thesis
  proof cases
    case 1
    have cv: "conv strs c a = strs a" using 1 by (simp add: conv_def)
    have cl: "clear_of b n (bytes s) a (strs a)" "a \<noteq> NULL" using str 1 by simp_all
    have "k + length (strs a) \<le> n" using n(1) unfolding cv .
    then obtain s' where s': "strcpy_loop (b + of_nat k) a s = Some s'" "wrote b n k (strs a) s s'"
      using strcpy_loop_wrote [of s a "strs a" b n k] cl(1) n(2) by (auto simp: clear_of_def)
    have "cstr (bytes s') a (strs a)" using clear_of_wrote [OF s'(2) cl(1)] by (simp add: clear_of_def)
    then have "strlen a s' = Inr (of_nat (length (strs a)))" using cl(2) by (rule strlen_cstr)
    then show ?thesis using s' 1 cv cl(2) b [of k] n(1) by (simp add: conv_step_def strcpy_def algebra_simps)
  next
    case 2
    then have "conv strs c a = [ucast a]" by (simp add: conv_def)
    moreover have "(99 :: u8) \<noteq> 115" by simp
    ultimately show ?thesis using 2 wrote_char [of k n b "ucast a" s] n by (simp add: conv_step_def add.assoc add.commute [of 1] del: numeral_eq_iff)
  next
    case 3
    then show ?thesis using fmt_int_wrote [OF 3 n] by (auto simp: conv_step_def)
  qed
qed

lemma vsprintf_loop_conv:
  assumes "bytes s p = 37" "bytes s (p + 1) = c" "c \<in> set convs" "conv_step c (mem s (ap + 4)) buf s = Some (Inr (buf', s'))"
  shows "vsprintf_loop buf p ap s = vsprintf_loop buf' (p + 2) (ap + 4) s'"
proof (cases "c = 115")
  case True
  obtain r s1 where r: "strcpy buf (mem s (ap + 4)) s = Inr (r, s1)"
    using assms(4) True by (cases "strcpy buf (mem s (ap + 4)) s") (auto simp: conv_step_def)
  then obtain n where "strlen (mem s (ap + 4)) s1 = Inr n"
    using assms(4) True by (cases "strlen (mem s (ap + 4)) s1") (auto simp: conv_step_def)
  then show ?thesis using r assms True by (subst vsprintf_loop.simps) (simp add: va_arg_def conv_step_def Let_def add.assoc)
next
  case False
  then show ?thesis using assms
    by (subst vsprintf_loop.simps) (auto simp: va_arg_def conv_step_def convs_def Let_def add.assoc)
qed

lemma vsprintf_loop_skip:
  assumes "bytes s p = 37" "bytes s (p + 1) \<notin> set convs" "bytes s (p + 1) \<noteq> 111" "bytes s (p + 1) \<noteq> 102"
  shows "vsprintf_loop buf p ap s = vsprintf_loop buf (p + 1) ap s"
  using assms by (subst vsprintf_loop.simps) (simp add: Let_def convs_def)

lemma render_conv:
  assumes "d \<in> set convs" "render strs (37 # d # fmt) args = Some out"
  shows "\<exists>a args' out'. args = a # args' \<and> render strs fmt args' = Some out' \<and> out = conv strs d a @ out' \<and>
    str_args (37 # d # fmt) args = (if d = 115 then [a] else []) @ str_args fmt args'"
  using assms by (cases args) (auto simp: convs_def)

lemma vsprintf_loop_render:
  assumes n: "n < 2 ^ 32 - 1" and b: "\<And>i. i \<le> n \<Longrightarrow> b + of_nat i \<noteq> NULL"
  shows "render strs fs args = Some out \<Longrightarrow> k + length out = n \<Longrightarrow> clear_of b n (bytes s) p fs \<Longrightarrow> args_at (mem s) ap args \<Longrightarrow>
    (\<And>a. a \<in> set (str_args fs args) \<Longrightarrow> a \<noteq> NULL \<and> clear_of b n (bytes s) a (strs a)) \<Longrightarrow>
    \<exists>s'. vsprintf_loop (b + of_nat k) p ap s = Some (Inr (b + of_nat n, s')) \<and> wrote b n k out s s'"
proof (induction strs fs args arbitrary: k p ap s out rule: render.induct)
  case (1 strs args)
  then show ?case using wrote_refl [of b n k s] by (subst vsprintf_loop.simps) (simp add: clear_of_def)
next
  case (2 strs c fmt args)
  note pc = clear_of_Cons [OF 2(6)]
  show ?case
  proof (cases "c = 37")
    case False
    obtain out' where r: "render strs fmt args = Some out'" "out = c # out'" using 2(4) False by auto
    let ?s = "wrb (b + of_nat k) c s"
    have w: "wrote b n k [c] s ?s" by (rule wrote_char) (use 2(5) r(2) n in simp_all)
    have cl: "clear_of b n (bytes ?s) (p + 1) fmt" "\<And>a. a \<in> set (str_args fmt args) \<Longrightarrow> a \<noteq> NULL \<and> clear_of b n (bytes ?s) a (strs a)"
      using 2(8) False pc clear_of_wrote [OF w] by simp_all
    have "\<exists>s'. vsprintf_loop (b + of_nat (Suc k)) (p + 1) ap ?s = Some (Inr (b + of_nat n, s')) \<and> wrote b n (Suc k) out' ?s s'"
      by (rule 2(1) [OF False r(1) _ cl(1) _ cl(2)]) (use 2(5,7) r(2) in \<open>simp_all add: wrb_def\<close>)
    then obtain s' where s': "vsprintf_loop (b + of_nat (Suc k)) (p + 1) ap ?s = Some (Inr (b + of_nat n, s'))" "wrote b n (Suc k) out' ?s s'" by blast
    have "wrote b n k ([c] @ out') s s'" by (rule wrote_trans [OF w]) (use s'(2) in simp)
    then show ?thesis using s'(1) r(2) pc False by (subst vsprintf_loop.simps) (simp add: Let_def algebra_simps)
  next
    case True
    then have p0: "bytes s p = 37" using pc by simp
    show ?thesis
    proof (cases fmt)
      case Nil
      then have z: "bytes s (p + 1) = 0" using pc by (simp add: clear_of_def)
      then have "vsprintf_loop (b + of_nat k) p ap s = vsprintf_loop (b + of_nat k) (p + 1) ap s"
        using p0 by (intro vsprintf_loop_skip) (simp_all add: convs_def)
      moreover have "vsprintf_loop (b + of_nat k) (p + 1) ap s = Some (Inr (b + of_nat k, s))" using z by (subst vsprintf_loop.simps) simp
      ultimately show ?thesis using 2(4,5) True Nil wrote_refl [of b n k s] by simp
    next
      case (Cons d fmt')
      have p1: "bytes s (p + 1) = d" "clear_of b n (bytes s) (p + 1 + 1) fmt'" using pc clear_of_Cons [of b n "bytes s" "p + 1" d fmt'] Cons by simp_all
      show ?thesis
      proof (cases "d \<in> set convs")
        case False
        then have skip: "vsprintf_loop (b + of_nat k) p ap s = vsprintf_loop (b + of_nat k) (p + 1) ap s"
          using p0 p1(1) 2(4) True Cons by (intro vsprintf_loop_skip) (auto simp: convs_def)
        have nd: "\<not> (d = 115 \<or> d = 99 \<or> d = 100 \<or> d = 117 \<or> d = 120)" "\<not> (d = 111 \<or> d = 102)"
          using False 2(4) True Cons by (auto simp: convs_def)
        have "render strs fmt args = Some out" "str_args (c # fmt) args = str_args fmt args" using 2(4) True Cons nd by simp_all
        then show ?thesis unfolding skip using 2(3) [OF _ Cons nd, of out k s "p + 1" ap] 2(5,7,8) True pc by simp
      next
        case d: True
        obtain a args' out' where r: "args = a # args'" "render strs fmt' args' = Some out'" "out = conv strs d a @ out'"
          "str_args (c # fmt) args = (if d = 115 then [a] else []) @ str_args fmt' args'"
          using render_conv [OF d] 2(4) unfolding True Cons by blast
        have a: "mem s (ap + 4) = a" "args_at (mem s) (ap + 4) args'" using 2(7) r(1) by simp_all
        obtain s1 where s1: "conv_step d a (b + of_nat k) s = Some (Inr (b + of_nat (k + length (conv strs d a)), s1))" "wrote b n k (conv strs d a) s s1"
          using conv_step_wrote [OF d _ n b, of k strs a s] 2(5,8) r(3,4) by auto
        have loop: "vsprintf_loop (b + of_nat k) p ap s = vsprintf_loop (b + of_nat (k + length (conv strs d a))) (p + 1 + 1) (ap + 4) s1"
          using vsprintf_loop_conv [OF p0 p1(1) d] s1(1) a(1) by (simp add: add.assoc)
        have st: "x \<noteq> NULL \<and> clear_of b n (bytes s1) x (strs x)" if "x \<in> set (str_args fmt' args')" for x
        proof -
          have "x \<in> set (str_args (c # fmt) args)" unfolding r(4) using that by simp
          then show ?thesis using 2(8) clear_of_wrote [OF s1(2)] by blast
        qed
        have dd: "d = 115 \<or> d = 99 \<or> d = 100 \<or> d = 117 \<or> d = 120" using d by (auto simp: convs_def)
        have "\<exists>s'. vsprintf_loop (b + of_nat (k + length (conv strs d a))) (p + 1 + 1) (ap + 4) s1 = Some (Inr (b + of_nat n, s')) \<and>
            wrote b n (k + length (conv strs d a)) out' s1 s'"
          by (rule 2(2) [OF _ Cons dd r(1,2) _ clear_of_wrote [OF s1(2) p1(2)] _ st])
            (use True 2(5) r(3) a(2) s1(2) in \<open>simp_all add: wrote_def\<close>)
        then show ?thesis unfolding loop r(3) using wrote_trans [OF s1(2)] by blast
      qed
    qed
  qed
qed

section \<open>vsprintf\<close>

lemma wrote_cstr:
  assumes "wrote b n k out s s'" "k + length out = n" "bytes s (b + of_nat n) = 0" "0 \<notin> set out"
  shows "cstr (bytes s') (b + of_nat k) out"
proof -
  have "cstr (bytes s') (b + of_nat (k + j)) (drop j out)" if "j \<le> length out" for j
    using that
  proof (induction "length out - j" arbitrary: j)
    case 0
    then show ?case using assms(1-3) by (simp add: wrote_def)
  next
    case (Suc m)
    then have j: "j < length out" by simp
    then have "bytes s' (b + of_nat (k + j)) = out ! j" using assms(1) unfolding wrote_def by blast
    moreover have "out ! j \<noteq> 0" using assms(4) j by (metis nth_mem)
    moreover have "cstr (bytes s') (b + of_nat (k + Suc j)) (drop (Suc j) out)"
      by (rule Suc.hyps(1)) (use Suc.hyps(2) j in simp_all)
    ultimately show ?case using j by (simp add: Cons_nth_drop_Suc [symmetric] algebra_simps)
  qed
  from this [of 0] show ?thesis by simp
qed

text \<open>C28. Formatting ends and is right.  When \<open>render\<close> gives the characters \<open>out\<close> for the format and the arguments, the
  format and the string arguments stand outside the buffer, the arguments stand where \<open>va_arg\<close> looks, and the byte after
  the output is zero beforehand, as in the buffer of \<open>printk\<close>, then \<open>vsprintf\<close> returns the length of \<open>out\<close>, leaves
  \<open>out\<close> in the buffer as a string, and writes nothing else.\<close>

theorem vsprintf_renders:
  fixes s :: "'z machine_scheme"
  assumes "render strs fs args = Some out" "0 \<notin> set out" "str \<noteq> NULL" "unat str + length out < 2 ^ 32 - 1"
    and "clear_of str (length out) (bytes s) format fs" "args_at (mem s) ap args" "bytes s (str + of_nat (length out)) = 0"
    and "\<And>a. a \<in> set (str_args fs args) \<Longrightarrow> a \<noteq> NULL \<and> clear_of str (length out) (bytes s) a (strs a)"
  shows "\<exists>s'. vsprintf str format ap s = Inr (of_nat (length out), s') \<and> cstr (bytes s') str out \<and>
    (\<forall>x. \<not> in_block str (Suc (length out)) x \<longrightarrow> bytes s' x = bytes s x) \<and> s' = s\<lparr>bytes := bytes s'\<rparr>"
proof -
  let ?n = "length out"
  have nz: "str + of_nat i \<noteq> NULL" if "i \<le> ?n" for i
  proof -
    have "unat (str + of_nat i) = unat str + i" using that assms(4) by (subst unat_add_lt) (simp_all add: unat_of_nat_lt)
    moreover have "0 < unat str" using assms(3) by (simp add: unat_gt_0)
    ultimately show ?thesis by auto
  qed
  have n: "?n < 2 ^ 32 - 1" using assms(4) by simp
  obtain s' where s': "vsprintf_loop str format ap s = Some (Inr (str + of_nat ?n, s'))" "wrote str ?n 0 out s s'"
    using vsprintf_loop_render [OF n nz assms(1) _ assms(5,6,8), of 0] by auto
  have c: "cstr (bytes s') str out" using wrote_cstr [OF s'(2) _ assms(7,2)] by simp
  have "s' = s\<lparr>bytes := bytes s'\<rparr>" using s'(2) by (intro machine.equality) (simp_all add: wrote_def)
  then show ?thesis using s' c strlen_cstr [OF c assms(3)] by (auto simp: vsprintf_def wrote_def)
qed

text \<open>The format \<^verbatim>\<open>%d:%s\<close> with the arguments -5 and \<^verbatim>\<open>ok\<close>.\<close>

definition fmt_machine :: machine where
  "fmt_machine = wr 0x4004 0xfffffffb (wr 0x4008 0x2000 (wrb 0x2001 107 (wrb 0x2000 111
     (wrb 0x1004 115 (wrb 0x1003 37 (wrb 0x1002 58 (wrb 0x1001 100 (wrb 0x1000 37 zero_machine))))))))"

theorem vsprintf_renders_witness:
  "\<exists>s'. vsprintf 0x3000 0x1000 0x4000 fmt_machine = Inr (5, s') \<and> cstr (bytes s') 0x3000 [45, 53, 58, 111, 107]"
proof -
  let ?fs = "[37, 100, 58, 37, 115] :: u8 list" and ?strs = "(\<lambda>_. [111, 107]) :: addr \<Rightarrow> u8 list"
    and ?out = "[45, 53, 58, 111, 107] :: u8 list"
  have r: "render ?strs ?fs [0xfffffffb, 0x2000] = Some ?out"
    by (simp add: conv_def digits_char digit_char_def)
  have le5: "i \<le> length ?out \<longleftrightarrow> i \<in> {0, 1, 2, 3, 4, 5}" "i \<le> length [111, 107 :: u8] \<longleftrightarrow> i \<in> {0, 1, 2}" for i by auto
  have len: "length ?fs = length ?out" by simp
  have f: "clear_of 0x3000 (length ?out) (bytes fmt_machine) 0x1000 ?fs"
    unfolding clear_of_def len le5 by (auto simp: fmt_machine_def zero_machine_def in_block_def)
  have g: "clear_of 0x3000 (length ?out) (bytes fmt_machine) 0x2000 [111, 107]"
    unfolding clear_of_def le5 by (auto simp: fmt_machine_def zero_machine_def in_block_def)
  have "\<exists>s'. vsprintf 0x3000 0x1000 0x4000 fmt_machine = Inr (of_nat (length ?out), s') \<and> cstr (bytes s') 0x3000 ?out \<and>
      (\<forall>x. \<not> in_block 0x3000 (Suc (length ?out)) x \<longrightarrow> bytes s' x = bytes fmt_machine x) \<and> s' = fmt_machine\<lparr>bytes := bytes s'\<rparr>"
    by (rule vsprintf_renders [OF r _ _ _ f])
      (use g in \<open>auto simp: fmt_machine_def zero_machine_def wr_def wrb_def\<close>)
  then show ?thesis by auto
qed

end
