(* ===== verification/Ide.thy ===== *)
theory Ide
  imports Timer Rtc
begin

text \<open>
  The disk driver of \<^verbatim>\<open>device/ide.c\<close>: selecting sectors, commands, the interrupt handler, reading and writing.
  What the drive answers is an argument: \<open>st i\<close> is what the \<open>i\<close>-th read of the status register gives and \<open>dat i\<close> the
  \<open>i\<close>-th byte of the data register.  The thread waits for the drive with \<open>sema_down(&disk_done)\<close>; here the
  interrupt that ends the wait comes before the thread tests the semaphore.  The sleeps between two looks at the
  status register only let time pass.  The text of a panic is its format.

  The scalars of a partition are a record in the typed heap \<open>parts\<close>, its list node \<open>part_tag\<close> and its list
  \<open>open_inodes\<close> are in word memory; a disk is named by its channel and its number on it, and \<open>prim_parts\<close> and
  \<open>logic_parts\<close> are the addresses of its two arrays of partitions.  The start-up of the driver is in \<open>Disk_Init\<close>.
\<close>

section \<open>State and constants\<close>

record partition =
  part_start_lba :: u32
  part_sec_cnt :: u32
  my_disk :: "nat \<times> u8"
  part_name :: "u8 list"
  part_sb :: addr
  block_bitmap :: bitmap
  inode_bitmap :: bitmap

record disk =
  disk_name :: "u8 list"
  my_channel :: nat
  dev_no :: u8
  prim_parts :: addr
  logic_parts :: addr

record ide_channel =
  chan_name :: "u8 list"
  port_base :: u16
  irq_no :: u8
  chan_lock :: addr
  expecting_intr :: bool
  disk_done :: addr
  devices :: "nat \<Rightarrow> disk"

record ides = dtables +
  channels :: "nat \<Rightarrow> ide_channel"
  channel_cnt :: u8
  cur_dev_no :: u8
  extension_lba_base :: u32
  primary_partition :: u8
  logic_partition :: u8
  partition_list :: addr
  parts :: "addr \<Rightarrow> partition"

definition sizeof_partition :: u32 where "sizeof_partition = 64"

text \<open>Member addresses of a partition.\<close>

definition part_tag :: "addr \<Rightarrow> addr" where "part_tag part = part + 12"
definition open_inodes :: "addr \<Rightarrow> addr" where "open_inodes part = part + 48"

definition reg_data :: "ide_channel \<Rightarrow> u16" where "reg_data channel = port_base channel + 0"
definition reg_error :: "ide_channel \<Rightarrow> u16" where "reg_error channel = port_base channel + 1"
definition reg_sect_cnt :: "ide_channel \<Rightarrow> u16" where "reg_sect_cnt channel = port_base channel + 2"
definition reg_lba_l :: "ide_channel \<Rightarrow> u16" where "reg_lba_l channel = port_base channel + 3"
definition reg_lba_m :: "ide_channel \<Rightarrow> u16" where "reg_lba_m channel = port_base channel + 4"
definition reg_lba_h :: "ide_channel \<Rightarrow> u16" where "reg_lba_h channel = port_base channel + 5"
definition reg_dev :: "ide_channel \<Rightarrow> u16" where "reg_dev channel = port_base channel + 6"
definition reg_status :: "ide_channel \<Rightarrow> u16" where "reg_status channel = port_base channel + 7"
definition reg_cmd :: "ide_channel \<Rightarrow> u16" where "reg_cmd channel = reg_status channel"
definition reg_alt_status :: "ide_channel \<Rightarrow> u16" where "reg_alt_status channel = port_base channel + 0x206"
definition reg_ctl :: "ide_channel \<Rightarrow> u16" where "reg_ctl channel = reg_alt_status channel"
definition BIT_ALT_STAT_BSY :: u8 where "BIT_ALT_STAT_BSY = 0x80"
definition BIT_ALT_STAT_DRDY :: u8 where "BIT_ALT_STAT_DRDY = 0x40"
definition BIT_ALT_STAT_DRQ :: u8 where "BIT_ALT_STAT_DRQ = 0x08"
definition BIT_DEV_MBS :: u8 where "BIT_DEV_MBS = 0xa0"
definition BIT_DEV_LBA :: u8 where "BIT_DEV_LBA = 0x40"
definition BIT_DEV_DEV :: u8 where "BIT_DEV_DEV = 0x10"
definition CMD_IDENTIFY :: u8 where "CMD_IDENTIFY = 0xec"
definition CMD_READ_SECTOR :: u8 where "CMD_READ_SECTOR = 0x20"
definition CMD_WRITE_SECTOR :: u8 where "CMD_WRITE_SECTOR = 0x30"
definition max_lba :: u32 where "max_lba = 512 * 1024 * 1024 div 512 - 1"

section \<open>Commands\<close>

definition select_disk :: "disk \<Rightarrow> 'z ides_scheme \<Rightarrow> 'z ides_scheme" where
  "select_disk hdd s =
     (let reg_device = BIT_DEV_MBS OR BIT_DEV_LBA;
          reg_device = (if dev_no hdd = 1 then reg_device OR BIT_DEV_DEV else reg_device)
      in outb (reg_dev (channels s (my_channel hdd))) reg_device s)"

definition select_sector :: "disk \<Rightarrow> u32 \<Rightarrow> u8 \<Rightarrow> 'z ides_scheme \<Rightarrow> 'z ides_scheme result" where
  "select_sector hdd lba sec_cnt s =
     ASSERT (lba < max_lba) ''lba < max_lba''
       (let channel = channels s (my_channel hdd);
            s = outb (reg_sect_cnt channel) sec_cnt s;
            s = outb (reg_lba_l channel) (ucast lba) s;
            s = outb (reg_lba_m channel) (ucast (drop_bit 8 lba)) s;
            s = outb (reg_lba_h channel) (ucast (drop_bit 16 lba)) s
        in Inr (outb (reg_dev channel)
             (BIT_DEV_MBS OR BIT_DEV_LBA OR (if dev_no hdd = 1 then BIT_DEV_DEV else 0) OR ucast (drop_bit 24 lba)) s))"

definition cmd_out :: "nat \<Rightarrow> u8 \<Rightarrow> 'z ides_scheme \<Rightarrow> 'z ides_scheme" where
  "cmd_out n cmd s =
     (let s = s\<lparr>channels := (channels s)(n := channels s n\<lparr>expecting_intr := True\<rparr>)\<rparr>
      in outb (reg_cmd (channels s n)) cmd s)"

definition get_word_size :: "u8 \<Rightarrow> u32" where
  "get_word_size sector_number = (if sector_number = 0 then 256 * 512 div 2 else ucast sector_number * 512 div 2)"

definition get_sector_number :: "u32 \<Rightarrow> u32 \<Rightarrow> u32" where
  "get_sector_number done_secs all_secs = (if done_secs + 256 < all_secs then 256 else all_secs - done_secs)"

text \<open>\<open>insw\<close> and \<open>outsw\<close>: the bytes of the data register from position \<open>j\<close> on go to the buffer, and the bytes of the buffer to
  the port.\<close>

definition insw :: "(nat \<Rightarrow> u8) \<Rightarrow> nat \<Rightarrow> addr \<Rightarrow> u32 \<Rightarrow> 'z machine_scheme \<Rightarrow> 'z machine_scheme" where
  "insw dat j buf word_cnt s =
     s\<lparr>bytes := (\<lambda>x. if in_block buf (2 * unat word_cnt) x then dat (j + unat (x - buf)) else bytes s x)\<rparr>"

definition outsw :: "u16 \<Rightarrow> addr \<Rightarrow> u32 \<Rightarrow> 'z dtables_scheme \<Rightarrow> 'z dtables_scheme" where
  "outsw port buf word_cnt s =
     s\<lparr>out_log := out_log s @ map (\<lambda>k. (port, bytes s (buf + of_nat k))) [0..<2 * unat word_cnt]\<rparr>"

definition read_from_sector :: "(nat \<Rightarrow> u8) \<Rightarrow> nat \<Rightarrow> addr \<Rightarrow> u8 \<Rightarrow> 'z ides_scheme \<Rightarrow> 'z ides_scheme" where
  "read_from_sector dat j buf sec_cnt s = insw dat j buf (get_word_size sec_cnt) s"

definition write2sector :: "disk \<Rightarrow> addr \<Rightarrow> u8 \<Rightarrow> 'z ides_scheme \<Rightarrow> 'z ides_scheme" where
  "write2sector hdd buf sec_cnt s = outsw (reg_data (channels s (my_channel hdd))) buf (get_word_size sec_cnt) s"

section \<open>Waiting for the drive\<close>

text \<open>\<open>time_limit -= 10 >= 0\<close> subtracts \<open>10 >= 0\<close>, that is 1.  The result is what is returned and the number of the next read of the
  status register.\<close>

fun busy_wait_loop :: "nat \<Rightarrow> (nat \<Rightarrow> u8) \<Rightarrow> nat \<Rightarrow> bool \<times> nat" where
  "busy_wait_loop 0 st i = (False, i)"
| "busy_wait_loop (Suc time_limit) st i =
     (if time_limit = 0 then (False, i)
      else if st i AND BIT_ALT_STAT_BSY = 0 then (st (Suc i) AND BIT_ALT_STAT_BSY \<noteq> 0, i + 2)
      else busy_wait_loop time_limit st (Suc i))"

definition busy_wait :: "(nat \<Rightarrow> u8) \<Rightarrow> nat \<Rightarrow> bool \<times> nat" where
  "busy_wait st i = busy_wait_loop (30 * 1000) st i"

definition intr_hd_handler :: "u8 \<Rightarrow> 'z ides_scheme \<Rightarrow> 'z ides_scheme result" where
  "intr_hd_handler irq s =
     ASSERT (irq = 0x2e \<or> irq = 0x2f) ''irq_no == 0x2e || irq_no == 0x2f''
       (let n = unat (irq - 0x2e); channel = channels s n
        in ASSERT (irq_no channel = irq) ''channel->irq_no == irq_no''
          (if expecting_intr channel
           then sema_up (disk_done channel) (s\<lparr>channels := (channels s)(n := channel\<lparr>expecting_intr := False\<rparr>)\<rparr>)
           else Inr s))"

definition await_disk :: "nat \<Rightarrow> 'z ides_scheme \<Rightarrow> 'z ides_scheme result" where
  "await_disk n s =
     bind_r (intr_hd_handler (irq_no (channels s n)) s) (\<lambda>s. sema_down_now (disk_done (channels s n)) s)"

section \<open>Reading and writing\<close>

partial_function (option) ide_read_loop ::
  "(nat \<Rightarrow> u8) \<Rightarrow> (nat \<Rightarrow> u8) \<Rightarrow> disk \<Rightarrow> u32 \<Rightarrow> addr \<Rightarrow> u8 \<Rightarrow> u32 \<Rightarrow> nat \<Rightarrow> nat \<Rightarrow> 'z ides_scheme \<Rightarrow> 'z ides_scheme result option" where
  "ide_read_loop st dat hdd lba buf sec_cnt secs_done i j s =
     (if \<not> secs_done < ucast sec_cnt then Some (Inr s)
      else
        let secs_op = get_sector_number secs_done (ucast sec_cnt); n = my_channel hdd
        in case bind_r (select_sector hdd (lba + secs_done) (ucast secs_op) s) (\<lambda>s. await_disk n (cmd_out n CMD_READ_SECTOR s)) of
             Inl e \<Rightarrow> Some (Inl e)
           | Inr s \<Rightarrow>
               let (ok, i) = busy_wait st i
               in if \<not> ok then Some (Inl (Panic ''%s read sector %d failed!!!''))
                  else ide_read_loop st dat hdd lba buf sec_cnt (secs_done + secs_op) i (j + 2 * unat (get_word_size (ucast secs_op)))
                         (read_from_sector dat j (buf + secs_done) (ucast secs_op) s))"

definition ide_read ::
  "(nat \<Rightarrow> u8) \<Rightarrow> (nat \<Rightarrow> u8) \<Rightarrow> disk \<Rightarrow> u32 \<Rightarrow> addr \<Rightarrow> u8 \<Rightarrow> 'z ides_scheme \<Rightarrow> 'z ides_scheme result" where
  "ide_read st dat hdd lba buf sec_cnt s =
     ASSERT (lba < max_lba \<and> sec_cnt > 0) ''lba < max_lba && sec_cnt > 0''
       (bind_r (lock_acquire_now (chan_lock (channels s (my_channel hdd))) s) (\<lambda>s.
        bind_r (bind_r (loop_r (ide_read_loop st dat hdd lba buf sec_cnt 0 0 0 (select_disk hdd s))) (\<lambda>r. r)) (\<lambda>s.
        lock_release (chan_lock (channels s (my_channel hdd))) s)))"

partial_function (option) ide_write_loop ::
  "(nat \<Rightarrow> u8) \<Rightarrow> disk \<Rightarrow> u32 \<Rightarrow> addr \<Rightarrow> u32 \<Rightarrow> u32 \<Rightarrow> nat \<Rightarrow> 'z ides_scheme \<Rightarrow> 'z ides_scheme result option" where
  "ide_write_loop st hdd lba buf sec_cnt secs_done i s =
     (if \<not> secs_done < sec_cnt then Some (Inr s)
      else
        let secs_op = get_sector_number secs_done sec_cnt; n = my_channel hdd
        in case select_sector hdd (lba + secs_done) (ucast secs_op) s of
             Inl e \<Rightarrow> Some (Inl e)
           | Inr s \<Rightarrow>
               let s = cmd_out n CMD_WRITE_SECTOR s; (ok, i) = busy_wait st i
               in if \<not> ok then Some (Inl (Panic ''%s write sector %d failed!!!''))
                  else case await_disk n (write2sector hdd (buf + secs_done) (ucast secs_op) s) of
                         Inl e \<Rightarrow> Some (Inl e)
                       | Inr s \<Rightarrow> ide_write_loop st hdd lba buf sec_cnt (secs_done + secs_op) i s)"

definition ide_write ::
  "(nat \<Rightarrow> u8) \<Rightarrow> disk \<Rightarrow> u32 \<Rightarrow> addr \<Rightarrow> u32 \<Rightarrow> 'z ides_scheme \<Rightarrow> 'z ides_scheme result" where
  "ide_write st hdd lba buf sec_cnt s =
     bind_r (lock_acquire_now (chan_lock (channels s (my_channel hdd))) s) (\<lambda>s.
     bind_r (bind_r (loop_r (ide_write_loop st hdd lba buf sec_cnt 0 0 (select_disk hdd s))) (\<lambda>r. r)) (\<lambda>s.
     lock_release (chan_lock (channels s (my_channel hdd))) s))"

end
