(* ===== verification/Disk_Init.thy ===== *)
theory Disk_Init
  imports Ide Heap
begin

text \<open>
  The start-up of the disk driver of \<^verbatim>\<open>device/ide.c\<close>: \<open>identify_disk\<close>, the scan of the partition tables and
  \<open>ide_init\<close>.  (The call of \<open>ide_init\<close> in \<^verbatim>\<open>kernel/init.c\<close> is commented out.)  What the drives answer is an argument:
  \<open>idn hd\<close> to the identify command, \<open>rd hd lba\<close> to the command that reads sector \<open>lba\<close>, each as the values of the status
  register and the bytes of the data register, as in \<open>Ide\<close>.  The local arrays of \<open>identify_disk\<close> are at the
  addresses \<open>id_info\<close> and \<open>buf\<close>; \<open>hd_handler\<close> is the address of \<open>intr_hd_handler\<close>.  A write behind the end of \<open>logic_parts\<close> or of \<open>channels\<close> is the error \<open>Overrun\<close>.
\<close>

section \<open>Reading structures from bytes\<close>

definition le32 :: "addr \<Rightarrow> 'z machine_scheme \<Rightarrow> u32" where
  "le32 x s = ucast (bytes s x) OR push_bit 8 (ucast (bytes s (x + 1))) OR push_bit 16 (ucast (bytes s (x + 2))) OR
     push_bit 24 (ucast (bytes s (x + 3)))"

definition pte_fs_type :: "addr \<Rightarrow> 'z machine_scheme \<Rightarrow> u8" where "pte_fs_type p s = bytes s (p + 4)"
definition pte_start_lba :: "addr \<Rightarrow> 'z machine_scheme \<Rightarrow> u32" where "pte_start_lba p s = le32 (p + 8) s"
definition pte_sector_cnt :: "addr \<Rightarrow> 'z machine_scheme \<Rightarrow> u32" where "pte_sector_cnt p s = le32 (p + 12) s"
definition sizeof_pte :: u32 where "sizeof_pte = 16"
definition bs_partition_table :: "addr \<Rightarrow> addr" where "bs_partition_table bs = bs + 446"
definition sizeof_boot_sector :: u32 where "sizeof_boot_sector = 512"

text \<open>The characters of the string at \<open>str\<close>.\<close>

definition chars_at :: "addr \<Rightarrow> 'z machine_scheme \<Rightarrow> u8 list result" where
  "chars_at str s = bind_r (strlen str s) (\<lambda>n. Inr (map (\<lambda>i. bytes s (str + of_nat i)) [0..<unat n]))"

definition render_r :: "string \<Rightarrow> (addr \<Rightarrow> u8 list) \<Rightarrow> u32 list \<Rightarrow> u8 list result" where
  "render_r format strs args =
     (case render strs (bytes_of format) args of
        None \<Rightarrow> Inl (Panic ''kernel can't print float number'') | Some cs \<Rightarrow> Inr cs)"

section \<open>identify\_disk\<close>

text \<open>The drive sends the two characters of a word the other way round.\<close>

fun swap_copy :: "nat \<Rightarrow> addr \<Rightarrow> addr \<Rightarrow> 'z machine_scheme \<Rightarrow> 'z machine_scheme" where
  "swap_copy 0 ptr buf s = s"
| "swap_copy (Suc n) ptr buf s =
     (let s = wrb (buf + 1) (bytes s ptr) s; s = wrb buf (bytes s (ptr + 1)) s
      in swap_copy n (ptr + 2) (buf + 2) s)"

definition identify_disk ::
  "addr \<Rightarrow> addr \<Rightarrow> (disk \<Rightarrow> (nat \<Rightarrow> u8) \<times> (nat \<Rightarrow> u8)) \<Rightarrow> disk \<Rightarrow> 'z ides_scheme \<Rightarrow> 'z ides_scheme result" where
  "identify_disk id_info buf idn hdd s =
     (let (st, dat) = idn hdd; n = my_channel hdd;
          s = cmd_out n CMD_IDENTIFY (select_disk hdd s)
      in bind_r (await_disk n s) (\<lambda>s.
         if \<not> fst (busy_wait st 0) then Inl (Panic (''%s identify failed !'' @ newline))
         else
           let s = read_from_sector dat 0 id_info 1 s; s = swap_copy 10 (id_info + 20) buf s
           in bind_r (chars_at buf s) (\<lambda>sn.
              bind_r (printk (''    disk %s info:'' @ newline @ ''    SN: %s'' @ newline) (\<lambda>p. if p = buf then sn else disk_name hdd) [0, buf] s) (\<lambda>s.
              bind_r (memset buf 0 (64 - 1) s) (\<lambda>s.
              let s = swap_copy 20 (id_info + 54) buf s
              in bind_r (chars_at buf s) (\<lambda>module.
                 bind_r (printk (''    MODULE: %s'' @ newline) (\<lambda>_. module) [buf] s) (\<lambda>s.
                 bind_r (printk (''    SECTORS: %d'' @ newline) (\<lambda>_. []) [le32 (id_info + 120) s] s) (\<lambda>s.
                 printk (''    capacity: %d'' @ newline) (\<lambda>_. []) [le32 (id_info + 120) s * 512 div 1024 div 1024] s))))))))"

section \<open>The partition table\<close>

text \<open>A valid entry of the main boot record, and one of a record inside the extended partition.\<close>

definition add_primary :: "disk \<Rightarrow> u32 \<Rightarrow> addr \<Rightarrow> 'z ides_scheme \<Rightarrow> 'z ides_scheme result" where
  "add_primary hdd extension_lba p s =
     (let part = prim_parts hdd + ucast (primary_partition s) * sizeof_partition;
          upd = (\<lambda>f s. s\<lparr>parts := (parts s)(part := f (parts s part))\<rparr>);
          s = upd (part_start_lba_update (\<lambda>_. extension_lba + pte_start_lba p s)) s;
          s = upd (part_sec_cnt_update (\<lambda>_. pte_sector_cnt p s)) s;
          s = upd (my_disk_update (\<lambda>_. (my_channel hdd, dev_no hdd))) s;
          s = list_append (partition_list s) (part_tag part) s
      in bind_r (render_r ''%s%d'' (\<lambda>_. disk_name hdd) [0, ucast (primary_partition s) + 1]) (\<lambda>name.
         let s = upd (part_name_update (\<lambda>_. name)) s;
             s = s\<lparr>primary_partition := primary_partition s + 1\<rparr>
         in ASSERT (primary_partition s < 4) ''primary_partition < 4'' (Inr s)))"

definition add_logic :: "disk \<Rightarrow> u32 \<Rightarrow> addr \<Rightarrow> 'z ides_scheme \<Rightarrow> (bool \<times> 'z ides_scheme) result" where
  "add_logic hdd extension_lba p s =
     (let part = logic_parts hdd + ucast (logic_partition s) * sizeof_partition;
          upd = (\<lambda>f s. s\<lparr>parts := (parts s)(part := f (parts s part))\<rparr>)
      in if \<not> logic_partition s < 8 then Inl (Overrun part)
         else
           let s = upd (part_start_lba_update (\<lambda>_. extension_lba + pte_start_lba p s)) s;
               s = upd (part_sec_cnt_update (\<lambda>_. pte_sector_cnt p s)) s;
               s = upd (my_disk_update (\<lambda>_. (my_channel hdd, dev_no hdd))) s;
               s = list_append (partition_list s) (part_tag part) s
           in bind_r (render_r ''%s%d'' (\<lambda>_. disk_name hdd) [0, ucast (logic_partition s) + 5]) (\<lambda>name.
              let s = upd (part_name_update (\<lambda>_. name)) s
              in Inr (logic_partition s \<ge> 8, s\<lparr>logic_partition := logic_partition s + 1\<rparr>)))"

text \<open>The buffer for a sector and the sector read into it.\<close>

definition scan_read ::
  "(disk \<Rightarrow> u32 \<Rightarrow> (nat \<Rightarrow> u8) \<times> (nat \<Rightarrow> u8)) \<Rightarrow> disk \<Rightarrow> u32 \<Rightarrow> 'z ides_scheme \<Rightarrow> (addr \<times> 'z ides_scheme) result" where
  "scan_read rd hdd extension_lba s =
     bind_r (sys_malloc sizeof_boot_sector s) (\<lambda>(bs, s).
     let (st, dat) = rd hdd extension_lba
     in bind_r (ide_read st dat hdd extension_lba bs 1 s) (\<lambda>s. Inr (bs, s)))"

partial_function (option) partition_scan_loop ::
  "(disk \<Rightarrow> u32 \<Rightarrow> (nat \<Rightarrow> u8) \<times> (nat \<Rightarrow> u8)) \<Rightarrow> disk \<Rightarrow> u32 \<Rightarrow> addr \<Rightarrow> addr \<Rightarrow> u8 \<Rightarrow> 'z ides_scheme \<Rightarrow> 'z ides_scheme result option" where
  "partition_scan_loop rd hdd extension_lba bs p part_idx s =
     (if \<not> part_idx < 4 then Some (sys_free bs s)
      else if pte_fs_type p s = 0x5 then
        (let (lba, s) = (if extension_lba_base s \<noteq> 0 then (pte_start_lba p s + extension_lba_base s, s)
                         else (pte_start_lba p s, s\<lparr>extension_lba_base := pte_start_lba p s\<rparr>))
         in case scan_read rd hdd lba s of
              Inl e \<Rightarrow> Some (Inl e)
            | Inr (bs', s) \<Rightarrow>
                Option.bind (partition_scan_loop rd hdd lba bs' (bs_partition_table bs') 0 s) (\<lambda>r.
                  case r of Inl e \<Rightarrow> Some (Inl e)
                  | Inr s \<Rightarrow> partition_scan_loop rd hdd extension_lba bs (p + sizeof_pte) (part_idx + 1) s))
      else if pte_fs_type p s \<noteq> 0 then
        (if extension_lba = 0 then
           (case add_primary hdd extension_lba p s of
              Inl e \<Rightarrow> Some (Inl e)
            | Inr s \<Rightarrow> partition_scan_loop rd hdd extension_lba bs (p + sizeof_pte) (part_idx + 1) s)
         else
           (case add_logic hdd extension_lba p s of
              Inl e \<Rightarrow> Some (Inl e)
            | Inr (full, s) \<Rightarrow>
                if full then Some (Inr s)
                else partition_scan_loop rd hdd extension_lba bs (p + sizeof_pte) (part_idx + 1) s))
      else partition_scan_loop rd hdd extension_lba bs (p + sizeof_pte) (part_idx + 1) s)"

definition partition_scan ::
  "(disk \<Rightarrow> u32 \<Rightarrow> (nat \<Rightarrow> u8) \<times> (nat \<Rightarrow> u8)) \<Rightarrow> disk \<Rightarrow> u32 \<Rightarrow> 'z ides_scheme \<Rightarrow> 'z ides_scheme result" where
  "partition_scan rd hdd extension_lba s =
     bind_r (scan_read rd hdd extension_lba s) (\<lambda>(bs, s).
     bind_r (loop_r (partition_scan_loop rd hdd extension_lba bs (bs_partition_table bs) 0 s)) (\<lambda>r. r))"

text \<open>The format has no conversion for the third argument.\<close>

definition partition_info :: "addr \<Rightarrow> 'z ides_scheme \<Rightarrow> 'z ides_scheme result" where
  "partition_info pelem s =
     (let part = elem2entry 12 pelem
      in printk (''    %s start_lba:0x%x, sector_cnt:0x'' @ newline) (\<lambda>_. part_name (parts s part))
           [0, part_start_lba (parts s part), part_sec_cnt (parts s part)] s)"

text \<open>\<open>list_traversal\<close> with a callback that may fail and never returns true.\<close>

partial_function (option) info_loop :: "addr \<Rightarrow> addr \<Rightarrow> 'z ides_scheme \<Rightarrow> 'z ides_scheme result option" where
  "info_loop tail elem s =
     (if elem = tail then Some (Inr s)
      else case partition_info elem s of
             Inl e \<Rightarrow> Some (Inl e)
           | Inr s \<Rightarrow> info_loop tail (le_next s elem) s)"

definition all_partition_info :: "'z ides_scheme \<Rightarrow> 'z ides_scheme result" where
  "all_partition_info s =
     (if list_empty (partition_list s) s then Inr s
      else bind_r (loop_r (info_loop (list_tail (partition_list s)) (le_next s (list_head (partition_list s))) s)) (\<lambda>r. r))"

section \<open>ide\_init\<close>

definition upd_channel :: "nat \<Rightarrow> (ide_channel \<Rightarrow> ide_channel) \<Rightarrow> 'z ides_scheme \<Rightarrow> 'z ides_scheme" where
  "upd_channel n f s = s\<lparr>channels := (channels s)(n := f (channels s n))\<rparr>"

partial_function (option) device_loop ::
  "addr \<Rightarrow> addr \<Rightarrow> (disk \<Rightarrow> (nat \<Rightarrow> u8) \<times> (nat \<Rightarrow> u8)) \<Rightarrow> (disk \<Rightarrow> u32 \<Rightarrow> (nat \<Rightarrow> u8) \<times> (nat \<Rightarrow> u8)) \<Rightarrow> nat \<Rightarrow>
     'z ides_scheme \<Rightarrow> 'z ides_scheme result option" where
  "device_loop id_info buf idn rd n s =
     (if \<not> cur_dev_no s < 2 then Some (Inr s)
      else
        let d = unat (cur_dev_no s);
            upd = (\<lambda>f. upd_channel n (\<lambda>c. c\<lparr>devices := (devices c)(d := f (devices c d))\<rparr>));
            s = upd (my_channel_update (\<lambda>_. n)) s;
            s = upd (dev_no_update (\<lambda>_. cur_dev_no s)) s
        in case bind_r (render_r ''sd%c'' (\<lambda>_. []) [97 + of_nat n * 2 + ucast (cur_dev_no s)]) (\<lambda>name.
                let s = upd (disk_name_update (\<lambda>_. name)) s; hdd = devices (channels s n) d
                in bind_r (identify_disk id_info buf idn hdd s) (\<lambda>s.
                   if cur_dev_no s \<noteq> 0 then partition_scan rd hdd 0 s else Inr s)) of
             Inl e \<Rightarrow> Some (Inl e)
           | Inr s \<Rightarrow> device_loop id_info buf idn rd n
                (s\<lparr>primary_partition := 0, logic_partition := 0, cur_dev_no := cur_dev_no s + 1\<rparr>))"

definition channel_setup :: "nat \<Rightarrow> 'z ides_scheme \<Rightarrow> 'z ides_scheme result" where
  "channel_setup n s =
     bind_r (render_r ''ide%d'' (\<lambda>_. []) [of_nat n]) (\<lambda>name.
       let s = upd_channel n (chan_name_update (\<lambda>_. name)) s;
           s = (if n = 0 then upd_channel n (\<lambda>c. c\<lparr>port_base := 0x1f0, irq_no := 0x20 + 14\<rparr>) s
                else if n = 1 then upd_channel n (\<lambda>c. c\<lparr>port_base := 0x170, irq_no := 0x20 + 15\<rparr>) s
                else s);
           s = upd_channel n (expecting_intr_update (\<lambda>_. False)) s;
           s = lock_init (chan_lock (channels s n)) s
       in Inr (sema_init (disk_done (channels s n)) 0 s))"

partial_function (option) channel_loop ::
  "addr \<Rightarrow> addr \<Rightarrow> (disk \<Rightarrow> (nat \<Rightarrow> u8) \<times> (nat \<Rightarrow> u8)) \<Rightarrow> (disk \<Rightarrow> u32 \<Rightarrow> (nat \<Rightarrow> u8) \<times> (nat \<Rightarrow> u8)) \<Rightarrow> u8 \<Rightarrow>
     'z ides_scheme \<Rightarrow> 'z ides_scheme result option" where
  "channel_loop id_info buf idn rd channel_no s =
     (if \<not> channel_no < channel_cnt s then Some (Inr s)
      else if \<not> channel_no < 2 then Some (Inl (Overrun (ucast channel_no)))
      else
        let n = unat channel_no
        in case channel_setup n s of
             Inl e \<Rightarrow> Some (Inl e)
           | Inr s \<Rightarrow>
               Option.bind (device_loop id_info buf idn rd n s) (\<lambda>r.
                 case r of Inl e \<Rightarrow> Some (Inl e)
                 | Inr s \<Rightarrow> channel_loop id_info buf idn rd (channel_no + 1) (s\<lparr>cur_dev_no := 0\<rparr>)))"

definition ide_init ::
  "addr \<Rightarrow> addr \<Rightarrow> addr \<Rightarrow> (disk \<Rightarrow> (nat \<Rightarrow> u8) \<times> (nat \<Rightarrow> u8)) \<Rightarrow> (disk \<Rightarrow> u32 \<Rightarrow> (nat \<Rightarrow> u8) \<times> (nat \<Rightarrow> u8)) \<Rightarrow>
     'z ides_scheme \<Rightarrow> 'z ides_scheme result" where
  "ide_init hd_handler id_info buf idn rd s =
     bind_r (printk (''ide_init start'' @ newline) (\<lambda>_. []) [] s) (\<lambda>s.
     let s = register_handler 0x2e (Handler hd_handler) s;
         s = register_handler 0x2f (Handler hd_handler) s;
         hd_cnt = bytes s 0x475
     in ASSERT (hd_cnt > 0) ''hd_cnt > 0''
       (let s = s\<lparr>channel_cnt := ucast (DIV_ROUND_UP (ucast hd_cnt) 2)\<rparr>
        in bind_r (bind_r (loop_r (channel_loop id_info buf idn rd 0 s)) (\<lambda>r. r)) (\<lambda>s.
           bind_r (printk (newline @ '' all partition info'' @ newline) (\<lambda>_. []) [] s) (\<lambda>s.
           bind_r (all_partition_info s) (\<lambda>s.
           printk (''ide_init done'' @ newline) (\<lambda>_. []) [] s)))))"

end
