(* ===== verification/Ide_Props.thy ===== *)
theory Ide_Props
  imports Disk_Init Heap_Props
begin

text \<open>
  Properties of the disk driver: the registers \<open>select_sector\<close> writes name the sector, reading and the start-up of the
  driver cannot succeed on a drive that stays ready once it is ready, and the scan of the main boot record records
  its primary partitions.
\<close>

section \<open>Waiting\<close>

lemma busy_wait_false:
  assumes "\<And>i. st i AND BIT_ALT_STAT_BSY = 0 \<Longrightarrow> st (Suc i) AND BIT_ALT_STAT_BSY = 0"
  shows "\<not> fst (busy_wait_loop k st i)"
  using assms by (induction k arbitrary: i) auto

lemma await_disk_ready:
  fixes s :: "'z ides_scheme"
  assumes c: "n < 2" "irq_no (channels s n) = 0x2e + of_nat n" "expecting_intr (channels s n)" "disk_done (channels s n) = p"
    and p: "sema_value s p = 0" "list_empty (waiters p) s"
  shows "\<exists>s'. await_disk n s = Inr s'"
proof -
  have irq: "(0x2e + of_nat n :: u8) = 0x2e \<or> (0x2e + of_nat n :: u8) = 0x2f" using c(1) by (auto simp: less_2_cases_iff)
  have n: "unat (of_nat n :: u8) = n" using c(1) by (intro unat_of_nat_lt) simp
  have e: "mem s (waiters p + 4) = waiters p + 8" using p(2) by (simp add: list_empty_def le_next_def list_head_def list_tail_def)
  show ?thesis
    using irq c p(1) e n by (auto simp: await_disk_def intr_hd_handler_def Let_def sema_up_def sema_wake_def sema_down_now_def
        sema_take_def set_value_def intr_norm list_empty_def le_next_def list_head_def list_tail_def)
qed

section \<open>Reading\<close>

text \<open>C36. Reading cannot succeed.  Once the busy bit of the drive's status is clear it stays clear until the next command;
  but \<open>busy_wait\<close> returns the busy bit it reads after it has seen the drive ready, that is false, and false again when the
  time is up.  So \<open>ide_read\<close> panics in its first round for every valid request on an idle channel, whatever the drive
  answers.\<close>

theorem ide_read_panics:
  fixes s :: "'z ides_scheme"
  assumes "my_channel d = n" "channels s n = c" "n < 2" "irq_no c = 0x2e + of_nat n" "lba < max_lba" "0 < sec_cnt"
    and "sema_value s (chan_lock c + 4) = 1" "lock_holder s (chan_lock c) \<noteq> running_thread s" "lock_repeat s (chan_lock c) = 0"
    and "sema_value s (disk_done c) = 0" "list_empty (waiters (disk_done c)) s"
    and "\<And>i. st i AND BIT_ALT_STAT_BSY = 0 \<Longrightarrow> st (Suc i) AND BIT_ALT_STAT_BSY = 0"
  shows "ide_read st dat d lba buf sec_cnt s = Inl (Panic ''%s read sector %d failed!!!'')"
proof -
  let ?t = "select_disk d (locked (chan_lock c) s)"
  let ?k = "ucast (get_sector_number 0 (ucast sec_cnt)) :: u8"
  have acq: "lock_acquire_now (chan_lock c) s = Inr (locked (chan_lock c) s)" by (rule lock_acquire_free [OF assms(7-9)])
  obtain w where w: "select_sector d lba ?k ?t = Inr w" "channels w = channels s" "sema_value w = (sema_value s)(chan_lock c + 4 := 0)" "mem w = mem s"
    using assms(5) by (simp add: select_sector_def select_disk_def outb_def locked_def Let_def)
  define u where "u = cmd_out n CMD_READ_SECTOR w"
  have u: "channels u n = c\<lparr>expecting_intr := True\<rparr>" "sema_value u = (sema_value s)(chan_lock c + 4 := 0)" "mem u = mem s"
    using assms(2) w by (simp_all add: u_def cmd_out_def outb_def Let_def)
  have "sema_value u (disk_done c) = 0" using assms(10) u(2) by simp
  moreover have "list_empty (waiters (disk_done c)) u" using assms(11) u(3) by (simp add: list_empty_def le_next_def)
  ultimately obtain v where v: "await_disk n u = Inr v"
    using await_disk_ready [of n u "disk_done c"] assms(3,4) u(1) by auto
  have "unat sec_cnt < 256" using unsigned_less [where 'a = nat and w = sec_cnt] by simp
  then have pos: "(0 :: u32) < ucast sec_cnt" using assms(6) by (simp add: word_less_nat_alt unsigned_ucast_eq take_bit_nat_eq_self)
  have "\<not> fst (busy_wait st 0)" unfolding busy_wait_def by (rule busy_wait_false) (rule assms(12))
  then have "ide_read_loop st dat d lba buf sec_cnt 0 0 0 ?t = Some (Inl (Panic ''%s read sector %d failed!!!''))"
    using pos v w(1) by (subst ide_read_loop.simps) (simp add: Let_def assms(1) u_def split_beta)
  then show ?thesis using acq assms(1,2,5,6) by (simp add: ide_read_def)
qed

text \<open>The first channel, idle, with a drive that is ready at once.\<close>

definition idle_channel :: "ides \<Rightarrow> ides" where
  "idle_channel s = s\<lparr>esp := 0xc009f000, mem := (mem s)(0xc000a048 := 0xc000a04c), sema_value := (\<lambda>_. 1)(0xc000a040 := 0),
     lock_holder := (\<lambda>_. NULL), lock_repeat := (\<lambda>_. 0),
     channels := (\<lambda>n. (channels s n)\<lparr>port_base := 0x1f0, irq_no := 0x2e + of_nat n, chan_lock := 0xc000a000, expecting_intr := False, disk_done := 0xc000a040\<rparr>)\<rparr>"

theorem ide_read_panics_witness:
  "\<forall>s d. ide_read (\<lambda>_. 0x40) (\<lambda>_. 0) (d\<lparr>my_channel := 0, dev_no := 0\<rparr>) 7 0x5000 1 (idle_channel s) = Inl (Panic ''%s read sector %d failed!!!'')"
  by (intro allI, rule ide_read_panics [OF _ refl, where n = 0])
    (simp_all add: idle_channel_def max_lba_def running_thread_def BIT_ALT_STAT_BSY_def list_empty_def le_next_def list_head_def list_tail_def
      waiters_def)


section \<open>Selecting a sector\<close>

text \<open>The address a drive takes from the three address registers and the low half of the device register.\<close>

definition lba_of :: "u8 \<Rightarrow> u8 \<Rightarrow> u8 \<Rightarrow> u8 \<Rightarrow> u32" where
  "lba_of l m h dv = ucast l OR push_bit 8 (ucast m) OR push_bit 16 (ucast h) OR push_bit 24 (ucast (dv AND 0x0f))"

lemma max_lba_bits: "lba < max_lba \<Longrightarrow> 28 \<le> n \<Longrightarrow> \<not> bit lba n"
proof -
  assume l: "lba < max_lba" and n: "28 \<le> n"
  have "unat lba < 2 ^ 28" using l by (simp add: max_lba_def word_less_nat_alt)
  then have "take_bit 28 (unat lba) = unat lba" by (simp add: take_bit_nat_eq_self_iff)
  then have "bit (unat lba) n = bit (take_bit 28 (unat lba)) n" by simp
  then show ?thesis using n by (simp add: bit_simps)
qed

lemma dev_byte:
  assumes "\<And>n. 28 \<le> n \<Longrightarrow> \<not> bit (lba :: u32) n"
  shows "(BIT_DEV_MBS OR BIT_DEV_LBA OR (if d then BIT_DEV_DEV else 0) OR ucast (drop_bit 24 lba)) AND 0x0f = (ucast (drop_bit 24 lba) :: u8)"
    "bit (BIT_DEV_MBS OR BIT_DEV_LBA OR (if d then BIT_DEV_DEV else 0) OR (ucast (drop_bit 24 lba) :: u8)) 4 = d"
    "bit (BIT_DEV_MBS OR BIT_DEV_LBA OR (if d then BIT_DEV_DEV else 0) OR (ucast (drop_bit 24 lba) :: u8)) 6"
proof -
  let ?w = "ucast (drop_bit 24 lba) :: u8"
  have h: "\<not> bit ?w n" if "4 \<le> n" for n using assms [of "24 + n"] that by (auto simp: bit_simps add.commute)
  have m: "(0x0f :: u8) = mask 4" by (simp add: mask_eq_exp_minus_1)
  have w: "?w AND 0x0f = ?w" using h
    by (intro bit_word_eqI) (auto simp: m bit_and_iff bit_mask_iff, use not_le in blast)
  have c: "BIT_DEV_MBS OR BIT_DEV_LBA OR (if d then BIT_DEV_DEV else 0) = (if d then 0xf0 else 0xe0)"
    by (simp add: BIT_DEV_MBS_def BIT_DEV_LBA_def BIT_DEV_DEV_def)
  have e: "BIT_DEV_MBS OR BIT_DEV_LBA OR (if d then BIT_DEV_DEV else 0) OR ?w = (if d then 0xf0 else 0xe0) OR ?w"
    unfolding c [symmetric] by (simp only: or.assoc)
  show "(BIT_DEV_MBS OR BIT_DEV_LBA OR (if d then BIT_DEV_DEV else 0) OR ?w) AND 0x0f = ?w"
    unfolding e by (simp add: bit.conj_disj_distrib2 w)
  show "bit (BIT_DEV_MBS OR BIT_DEV_LBA OR (if d then BIT_DEV_DEV else 0) OR ?w) 4 = d"
    unfolding e bit_or_iff using h [of 4] by (simp add: bit_numeral_rec)
  show "bit (BIT_DEV_MBS OR BIT_DEV_LBA OR (if d then BIT_DEV_DEV else 0) OR ?w) 6"
    unfolding e bit_or_iff by (simp add: bit_numeral_rec)
qed

lemma lba_of_split:
  assumes "\<And>n. 28 \<le> n \<Longrightarrow> \<not> bit (lba :: u32) n"
  shows "lba_of (ucast lba) (ucast (drop_bit 8 lba)) (ucast (drop_bit 16 lba))
    (BIT_DEV_MBS OR BIT_DEV_LBA OR (if d then BIT_DEV_DEV else 0) OR ucast (drop_bit 24 lba)) = lba"
proof -
  have "ucast (ucast lba :: u8) OR push_bit 8 (ucast (ucast (drop_bit 8 lba) :: u8)) OR
      push_bit 16 (ucast (ucast (drop_bit 16 lba) :: u8)) OR push_bit 24 (ucast (ucast (drop_bit 24 lba) :: u8)) = (lba :: u32)"
  proof (rule bit_word_eqI)
    fix n assume "n < LENGTH(32)"
    then consider "n < 8" | "8 \<le> n" "n < 16" | "16 \<le> n" "n < 24" | "24 \<le> n" "n < 32" by fastforce
    then show "bit (ucast (ucast lba :: u8) OR push_bit 8 (ucast (ucast (drop_bit 8 lba) :: u8)) OR
      push_bit 16 (ucast (ucast (drop_bit 16 lba) :: u8)) OR push_bit 24 (ucast (ucast (drop_bit 24 lba) :: u8)) :: u32) n = bit lba n"
      by cases (auto simp: bit_simps)
  qed
  moreover have "(BIT_DEV_MBS OR BIT_DEV_LBA OR (if d then BIT_DEV_DEV else 0) OR ucast (drop_bit 24 lba)) AND 0x0f = (ucast (drop_bit 24 lba) :: u8)"
    by (rule dev_byte(1)) (rule assms)
  ultimately show ?thesis by (simp only: lba_of_def)
qed

text \<open>C33. \<open>select_sector\<close> for an address below the limit writes the count and then the address and the device to
  the registers of the disk's channel, and the drive takes back from them the address that was asked for.\<close>

theorem select_sector_roundtrip:
  fixes s :: "'z ides_scheme"
  assumes "lba < max_lba"
  shows "\<exists>s' l m h dv. select_sector hdd lba n s = Inr s' \<and>
    (let p = port_base (channels s (my_channel hdd)) in
       out_log s' = out_log s @ [(p + 2, n), (p + 3, l), (p + 4, m), (p + 5, h), (p + 6, dv)]) \<and>
    lba_of l m h dv = lba \<and> (bit dv 4 \<longleftrightarrow> dev_no hdd = 1) \<and> bit dv 6"
proof -
  let ?dv = "BIT_DEV_MBS OR BIT_DEV_LBA OR (if dev_no hdd = 1 then BIT_DEV_DEV else 0) OR ucast (drop_bit 24 lba)"
  have b: "\<And>n. 28 \<le> n \<Longrightarrow> \<not> bit lba n" using max_lba_bits [OF assms] .
  let ?p = "port_base (channels s (my_channel hdd))"
  let ?s = "s\<lparr>out_log := out_log s @ [(?p + 2, n), (?p + 3, ucast lba), (?p + 4, ucast (drop_bit 8 lba)),
      (?p + 5, ucast (drop_bit 16 lba)), (?p + 6, ?dv)]\<rparr>"
  have "select_sector hdd lba n s = Inr ?s"
    using assms by (simp add: select_sector_def outb_def Let_def reg_sect_cnt_def reg_lba_l_def reg_lba_m_def reg_lba_h_def reg_dev_def)
  moreover have "lba_of (ucast lba) (ucast (drop_bit 8 lba)) (ucast (drop_bit 16 lba)) ?dv = lba" by (rule lba_of_split [OF b])
  moreover have "bit ?dv 4 \<longleftrightarrow> dev_no hdd = 1" "bit ?dv 6"
    by (rule dev_byte(2), rule b, assumption) (rule dev_byte(3), rule b, assumption)
  moreover have "out_log ?s = out_log s @ [(?p + 2, n), (?p + 3, ucast lba), (?p + 4, ucast (drop_bit 8 lba)),
      (?p + 5, ucast (drop_bit 16 lba)), (?p + 6, ?dv)]" by simp
  ultimately show ?thesis unfolding Let_def by blast
qed

theorem select_sector_roundtrip_witness:
  "\<forall>(s :: ides) d. \<exists>s' l m h dv. select_sector d 0x12345 8 s = Inr s' \<and> lba_of l m h dv = 0x12345 \<and> bit dv 6"
proof (intro allI)
  fix s :: ides and d
  have "(0x12345 :: u32) < max_lba" by (simp add: max_lba_def)
  from select_sector_roundtrip [OF this, of d 8 s]
  show "\<exists>s' l m h dv. select_sector d 0x12345 8 s = Inr s' \<and> lba_of l m h dv = 0x12345 \<and> bit dv 6" by blast
qed


section \<open>Starting the driver\<close>

lemma identify_disk_panics:
  fixes s :: "'z ides_scheme"
  assumes "my_channel d = n" "channels s n = c" "n < 2" "irq_no c = 0x2e + of_nat n"
    and "sema_value s (disk_done c) = 0" "list_empty (waiters (disk_done c)) s"
    and "\<And>i. fst (idn d) i AND BIT_ALT_STAT_BSY = 0 \<Longrightarrow> fst (idn d) (Suc i) AND BIT_ALT_STAT_BSY = 0"
  shows "identify_disk id_info buf idn d s = Inl (Panic (''%s identify failed !'' @ newline))"
proof -
  let ?u = "cmd_out n CMD_IDENTIFY (select_disk d s)"
  have u: "channels ?u n = c\<lparr>expecting_intr := True\<rparr>" "sema_value ?u = sema_value s" "mem ?u = mem s"
    using assms(2) by (simp_all add: cmd_out_def select_disk_def outb_def Let_def)
  have "list_empty (waiters (disk_done c)) ?u" using assms(6) u(3) by (simp add: list_empty_def le_next_def)
  then obtain v where v: "await_disk n ?u = Inr v"
    using await_disk_ready [of n ?u "disk_done c"] assms(3-5) u by auto
  have "\<not> fst (busy_wait (fst (idn d)) 0)" unfolding busy_wait_def by (rule busy_wait_false) (rule assms(7))
  then show ?thesis using v by (cases "idn d") (simp add: identify_disk_def Let_def assms(1))
qed

lemma channel_setup_ready:
  fixes s :: "'z ides_scheme"
  shows "\<exists>s'. channel_setup 0 s = Inr s' \<and> irq_no (channels s' 0) = 0x2e \<and> sema_value s' (disk_done (channels s' 0)) = 0 \<and>
    list_empty (waiters (disk_done (channels s' 0))) s' \<and> cur_dev_no s' = cur_dev_no s"
proof -
  obtain name where "render_r ''ide%d'' (\<lambda>_. []) [of_nat 0] = Inr name"
    by (simp add: render_r_def bytes_of_def newline_def)
  then show ?thesis
    by (simp add: channel_setup_def Let_def lock_init_eq sema_init_def set_value_def list_init_eq upd_channel_def list_empty_def le_next_def
        list_head_def list_tail_def waiters_def add.assoc)
qed

lemma device_loop_panics:
  fixes s :: "'z ides_scheme"
  assumes "irq_no (channels s 0) = 0x2e" "sema_value s (disk_done (channels s 0)) = 0"
    "list_empty (waiters (disk_done (channels s 0))) s" "cur_dev_no s = 0"
    and "\<And>d i. fst (idn d) i AND BIT_ALT_STAT_BSY = 0 \<Longrightarrow> fst (idn d) (Suc i) AND BIT_ALT_STAT_BSY = 0"
  shows "device_loop id_info buf idn rd 0 s = Some (Inl (Panic (''%s identify failed !'' @ newline)))"
proof -
  obtain name where n: "render_r ''sd%c'' (\<lambda>_. []) [97] = Inr name" by (simp add: render_r_def bytes_of_def)
  define t where "t = upd_channel 0 (\<lambda>c. c\<lparr>devices := (devices c)(0 := disk_name_update (\<lambda>_. name)
      (dev_no_update (\<lambda>_. 0) (my_channel_update (\<lambda>_. 0) (devices c 0))))\<rparr>) s"
  have t: "identify_disk id_info buf idn (devices (channels t 0) 0) t = Inl (Panic (''%s identify failed !'' @ newline))"
    by (rule identify_disk_panics [OF _ refl, where n = 0])
      (use assms in \<open>simp_all add: t_def upd_channel_def list_empty_def le_next_def\<close>)
  show ?thesis using n t assms(4) by (subst device_loop.simps) (simp add: Let_def upd_channel_def t_def)
qed

text \<open>C38. Starting the driver cannot succeed either: with at least one disk and drives whose busy bit stays clear once it is clear,
  \<open>ide_init\<close> panics when it identifies the first disk, because \<open>busy_wait\<close> reports a time-out for a drive that is ready.\<close>

theorem ide_init_panics:
  fixes s :: "'z ides_scheme"
  assumes "free_lock (console_lock s) s" "running_thread s \<noteq> NULL" "0 < bytes s 0x475" "cur_dev_no s = 0"
    and "\<And>d i. fst (idn d) i AND BIT_ALT_STAT_BSY = 0 \<Longrightarrow> fst (idn d) (Suc i) AND BIT_ALT_STAT_BSY = 0"
  shows "ide_init hd_handler id_info buf idn rd s = Inl (Panic (''%s identify failed !'' @ newline))"
proof -
  obtain cs where "render (\<lambda>_. []) (bytes_of (''ide_init start'' @ newline)) [] = Some cs"
    by (simp add: bytes_of_def newline_def)
  then have p: "printk (''ide_init start'' @ newline) (\<lambda>_. []) [] s = Inr (put_str cs s)" by (rule printk_free [OF assms(1,2)])
  define c where "c = (ucast (DIV_ROUND_UP (ucast (bytes s 0x475)) 2) :: u8)"
  define t where "t = register_handler 0x2f (Handler hd_handler) (register_handler 0x2e (Handler hd_handler) (put_str cs s))\<lparr>channel_cnt := c\<rparr>"
  have "unat (bytes s 0x475) < 256" "0 < unat (bytes s 0x475)"
    using unsigned_less [where 'a = nat and w = "bytes s 0x475"] assms(3) by (simp_all add: word_less_nat_alt)
  then have "unat (DIV_ROUND_UP (ucast (bytes s 0x475)) 2) = (unat (bytes s 0x475) + 1) div 2"
    by (simp add: DIV_ROUND_UP_def unat_div unat_word_ariths unsigned_ucast_eq take_bit_nat_eq_self)
  then have "unat c = (unat (bytes s 0x475) + 1) div 2"
    using \<open>unat (bytes s 0x475) < 256\<close> unfolding c_def by (subst unsigned_ucast_eq) (simp add: take_bit_nat_eq_self)
  then have c: "0 < c" using \<open>0 < unat (bytes s 0x475)\<close> by (simp add: word_less_nat_alt)
  have tc: "channel_cnt t = c" "cur_dev_no t = 0" using assms(4) by (simp_all add: t_def put_str_def register_handler_def)
  obtain u where u: "channel_setup 0 t = Inr u" "irq_no (channels u 0) = 0x2e" "sema_value u (disk_done (channels u 0)) = 0"
    "list_empty (waiters (disk_done (channels u 0))) u" "cur_dev_no u = 0"
    using channel_setup_ready [of t] tc(2) by auto
  have "device_loop id_info buf idn rd 0 u = Some (Inl (Panic (''%s identify failed !'' @ newline)))"
    by (rule device_loop_panics [OF u(2-5)]) (rule assms(5))
  then have "channel_loop id_info buf idn rd 0 t = Some (Inl (Panic (''%s identify failed !'' @ newline)))"
    using u(1) c tc(1) by (subst channel_loop.simps) simp
  then show ?thesis using assms(3) unfolding ide_init_def p by (simp add: t_def c_def Let_def put_str_def register_handler_def)
qed

theorem ide_init_panics_witness:
  "\<forall>(s :: ides) d. ide_init 0 0x5000 0x6000 (\<lambda>_. (\<lambda>_. 0x50, \<lambda>_. 0)) (\<lambda>_ _. (\<lambda>_. 0, \<lambda>_. 0))
     (s\<lparr>esp := 0xc009f000, console_lock := 0xc000a100, mem := (mem s)(0xc000a10c := 0xc000a110), sema_value := \<lambda>_. 1,
        lock_holder := \<lambda>_. NULL, lock_repeat := \<lambda>_. 0, bytes := \<lambda>_. 1, cur_dev_no := 0\<rparr>) =
     Inl (Panic (''%s identify failed !'' @ newline))"
  by (intro allI, rule ide_init_panics) (simp_all add: free_lock_def running_thread_def BIT_ALT_STAT_BSY_def)


section \<open>The main boot record\<close>

text \<open>What the scan records of an entry, and the entries from number \<open>k\<close> on that are not empty.\<close>

definition recorded :: "disk \<Rightarrow> addr \<Rightarrow> nat \<Rightarrow> 'y machine_scheme \<Rightarrow> partition \<Rightarrow> bool" where
  "recorded d p j s part = (part_start_lba part = pte_start_lba p s \<and> part_sec_cnt part = pte_sector_cnt p s \<and>
     my_disk part = (my_channel d, dev_no d) \<and> part_name part = disk_name d @ digits 10 (j + 1))"

definition entry_at :: "addr \<Rightarrow> nat \<Rightarrow> addr" where "entry_at p i = p + of_nat i * sizeof_pte"

definition valid_entries :: "addr \<Rightarrow> 'y machine_scheme \<Rightarrow> nat \<Rightarrow> nat list" where
  "valid_entries p s k = filter (\<lambda>i. pte_fs_type (entry_at p i) s \<noteq> 0) [k..<4]"

lemma entry_bytes:
  assumes "bytes s' = bytes s"
  shows "pte_fs_type p s' = pte_fs_type p s" "pte_start_lba p s' = pte_start_lba p s" "pte_sector_cnt p s' = pte_sector_cnt p s"
  using assms by (simp_all add: pte_fs_type_def pte_start_lba_def pte_sector_cnt_def le32_def)

lemma entry_parts:
  "pte_start_lba p (s\<lparr>parts := x\<rparr>) = pte_start_lba p s" "pte_sector_cnt p (s\<lparr>parts := x\<rparr>) = pte_sector_cnt p s"
  by (rule entry_bytes; simp)+

lemma list_append_eq: "\<exists>m. list_append p e s = s\<lparr>mem := m\<rparr>"
  by (rule exI, rule machine_mem_eq) simp_all

lemma add_primary_run:
  fixes s :: "'z ides_scheme"
  assumes "primary_partition s = of_nat m" "m < 4"
  shows "\<exists>s1 part. add_primary d 0 p s = (if m = 3 then Inl (Panic ''primary_partition < 4'') else Inr s1) \<and>
    bytes s1 = bytes s \<and> primary_partition s1 = of_nat (Suc m) \<and> recorded d p m s part \<and>
    parts s1 = (parts s)(prim_parts d + of_nat m * sizeof_partition := part)"
proof -
  let ?a = "prim_parts d + of_nat m * sizeof_partition"
  have u: "(ucast (of_nat m :: u8) :: u32) = of_nat m" using assms(2)
    by (intro unat_eqI) (simp add: unsigned_ucast_eq unat_of_nat_lt take_bit_nat_eq_self)
  have m: "m = 0 \<or> m = 1 \<or> m = 2 \<or> m = 3" using assms(2) by auto
  then have r: "render_r ''%s%d'' (\<lambda>_. disk_name d) [0, of_nat m + 1] = Inr (disk_name d @ digits 10 (m + 1))"
    by (elim disjE) (simp_all add: render_r_def bytes_of_def conv_def flip: numeral_2_eq_2)
  have four: "(of_nat m :: u8) + 1 < 4 \<longleftrightarrow> m \<noteq> 3" using m by auto
  define q where "q = my_disk_update (\<lambda>_. (my_channel d, dev_no d))
    (part_sec_cnt_update (\<lambda>_. pte_sector_cnt p s) (part_start_lba_update (\<lambda>_. 0 + pte_start_lba p s) (parts s ?a)))"
  let ?t = "s\<lparr>parts := (parts s)(?a := q)\<rparr>"
  obtain mm where mm: "list_append (partition_list s) (part_tag ?a) ?t = ?t\<lparr>mem := mm\<rparr>"
    using list_append_eq by blast
  let ?part = "part_name_update (\<lambda>_. disk_name d @ digits 10 (m + 1)) q"
  let ?s1 = "?t\<lparr>mem := mm, parts := (parts s)(?a := ?part), primary_partition := of_nat (Suc m)\<rparr>"
  have u0: "add_primary d 0 p s = bind_r (render_r ''%s%d'' (\<lambda>_. disk_name d) [0, of_nat m + 1]) (\<lambda>name.
      ASSERT ((of_nat m :: u8) + 1 < 4) ''primary_partition < 4''
        (Inr (?t\<lparr>mem := mm, parts := (parts s)(?a := part_name_update (\<lambda>_. name) q), primary_partition := of_nat m + 1\<rparr>)))"
    using mm unfolding q_def by (simp add: add_primary_def assms(1) u Let_def entry_parts)
  have "(of_nat m :: u8) + 1 = of_nat (Suc m)" by simp
  then have "add_primary d 0 p s = (if m = 3 then Inl (Panic ''primary_partition < 4'') else Inr ?s1)"
    unfolding u0 r using four by (simp add: ASSERT_def)
  moreover have "recorded d p m s ?part" by (simp add: recorded_def q_def)
  ultimately show ?thesis by (intro exI [of _ ?s1] exI [of _ ?part]) simp
qed

lemma parts_apart:
  assumes "i < 4" "j < 4" "i \<noteq> j"
  shows "a + of_nat i * sizeof_partition \<noteq> a + of_nat j * sizeof_partition"
proof -
  have "i = 0 \<or> i = 1 \<or> i = 2 \<or> i = 3" "j = 0 \<or> j = 1 \<or> j = 2 \<or> j = 3" using assms by auto
  then show ?thesis using assms(3) by (elim disjE) (simp_all add: sizeof_partition_def)
qed

text \<open>The outcome of a scan of the entries \<open>es\<close> of the record at \<open>p\<close> when \<open>m\<close> partitions were recorded before.\<close>

definition scanned ::
  "disk \<Rightarrow> addr \<Rightarrow> addr \<Rightarrow> nat \<Rightarrow> nat list \<Rightarrow> 'z ides_scheme \<Rightarrow> 'z ides_scheme result option \<Rightarrow> bool" where
  "scanned d p bs m es s r =
     (if m + length es < 4
      then \<exists>s'. r = Some (sys_free bs s') \<and> bytes s' = bytes s \<and> primary_partition s' = of_nat (m + length es) \<and>
        (\<forall>j<length es. recorded d (entry_at p (es ! j)) (m + j) s (parts s' (prim_parts d + of_nat (m + j) * sizeof_partition))) \<and>
        (\<forall>j<m. parts s' (prim_parts d + of_nat j * sizeof_partition) = parts s (prim_parts d + of_nat j * sizeof_partition))
      else r = Some (Inl (Panic ''primary_partition < 4'')))"

lemma scanned_Cons:
  assumes "scanned d p bs (Suc m) es s1 r" "bytes s1 = bytes s" "recorded d (entry_at p k) m s part" "m < 3"
    "parts s1 = (parts s)(prim_parts d + of_nat m * sizeof_partition := part)"
  shows "scanned d p bs m (k # es) s r"
proof (cases "Suc m + length es < 4")
  case True
  then obtain s' where s': "r = Some (sys_free bs s')" "bytes s' = bytes s1" "primary_partition s' = of_nat (Suc m + length es)"
    "\<forall>j<length es. recorded d (entry_at p (es ! j)) (Suc m + j) s1 (parts s' (prim_parts d + of_nat (Suc m + j) * sizeof_partition))"
    "\<forall>j<Suc m. parts s' (prim_parts d + of_nat j * sizeof_partition) = parts s1 (prim_parts d + of_nat j * sizeof_partition)"
    using assms(1) unfolding scanned_def by auto
  have rec: "recorded d x j s1 = recorded d x j s" for x j
    using entry_bytes [OF assms(2)] by (intro ext) (simp add: recorded_def)
  have at: "recorded d (entry_at p ((k # es) ! j)) (m + j) s (parts s' (prim_parts d + of_nat (m + j) * sizeof_partition))"
    if "j < length (k # es)" for j
  proof (cases j)
    case 0
    then show ?thesis using s'(5) assms(3,5) by simp
  next
    case (Suc i)
    then show ?thesis using s'(4) rec that by (simp del: of_nat_Suc of_nat_add)
  qed
  have "parts s' (prim_parts d + of_nat j * sizeof_partition) = parts s (prim_parts d + of_nat j * sizeof_partition)" if "j < m" for j
    using s'(5) assms(4,5) parts_apart [of j m "prim_parts d"] that by simp
  moreover have "primary_partition s' = of_nat (m + length (k # es))" using s'(3) by simp
  moreover have "m + length (k # es) < 4" using True by simp
  ultimately show ?thesis using s'(1,2) assms(2) at unfolding scanned_def by (metis (no_types, lifting))
qed (use assms(1) in \<open>auto simp: scanned_def\<close>)

lemma primary_scan_run:
  fixes s :: "'z ides_scheme"
  assumes "\<And>i. i < 4 \<Longrightarrow> pte_fs_type (entry_at p i) s \<noteq> 5" and "primary_partition s = of_nat m" "m < 4" "k \<le> 4"
  shows "scanned d p bs m (valid_entries p s k) s (partition_scan_loop rd d 0 bs (entry_at p k) (of_nat k) s)"
  using assms
proof (induction "4 - k" arbitrary: k m s)
  case 0
  then have "k = 4" "valid_entries p s k = []" by (simp_all add: valid_entries_def)
  then show ?case using 0 by (subst partition_scan_loop.simps) (auto simp: scanned_def intro!: exI [of _ s])
next
  case (Suc n)
  have k: "k < 4" "[k..<4] = k # [Suc k..<4]" using Suc by (simp_all add: upt_conv_Cons)
  have k8: "(of_nat k :: u8) < 4" "(of_nat k :: u8) + 1 = of_nat (Suc k)"
  proof -
    have "k = 0 \<or> k = 1 \<or> k = 2 \<or> k = 3" using k(1) by auto
    then show "(of_nat k :: u8) < 4" "(of_nat k :: u8) + 1 = of_nat (Suc k)" by (elim disjE; simp)+
  qed
  have nx: "entry_at p k + sizeof_pte = entry_at p (Suc k)" by (simp add: entry_at_def algebra_simps)
  note ty = Suc.prems(1) [OF k(1)] and IH = Suc.hyps(1) [of "Suc k"]
  show ?case
  proof (cases "pte_fs_type (entry_at p k) s = 0")
    case True
    then have es: "valid_entries p s k = valid_entries p s (Suc k)" using k(2) by (simp add: valid_entries_def)
    have "partition_scan_loop rd d 0 bs (entry_at p k) (of_nat k) s =
        partition_scan_loop rd d 0 bs (entry_at p (Suc k)) (of_nat (Suc k)) s"
      using True k8 nx by (subst partition_scan_loop.simps) (simp del: of_nat_Suc)
    then show ?thesis unfolding es using IH [of s m] Suc.hyps(2) Suc.prems k(1) by simp
  next
    case False
    let ?es = "valid_entries p s (Suc k)"
    have es: "valid_entries p s k = k # ?es" using False k(2) by (simp add: valid_entries_def)
    obtain s1 part where a: "add_primary d 0 (entry_at p k) s = (if m = 3 then Inl (Panic ''primary_partition < 4'') else Inr s1)"
      "bytes s1 = bytes s" "primary_partition s1 = of_nat (Suc m)" "recorded d (entry_at p k) m s part"
      "parts s1 = (parts s)(prim_parts d + of_nat m * sizeof_partition := part)"
      using add_primary_run [OF Suc.prems(2,3)] by blast
    have step: "partition_scan_loop rd d 0 bs (entry_at p k) (of_nat k) s = (if m = 3 then Some (Inl (Panic ''primary_partition < 4''))
        else partition_scan_loop rd d 0 bs (entry_at p (Suc k)) (of_nat (Suc k)) s1)"
      using False ty k8 nx a(1) by (subst partition_scan_loop.simps) (simp del: of_nat_Suc)
    show ?thesis
    proof (cases "m = 3")
      case True
      then show ?thesis unfolding es step by (simp add: scanned_def)
    next
      case m: False
      have es1: "valid_entries p s1 (Suc k) = ?es" using entry_bytes(1) [OF a(2)] by (simp add: valid_entries_def)
      have "scanned d p bs (Suc m) ?es s1 (partition_scan_loop rd d 0 bs (entry_at p (Suc k)) (of_nat (Suc k)) s1)"
        using IH [of s1 "Suc m"] Suc.hyps(2) Suc.prems(1,3) k(1) m a(3) entry_bytes(1) [OF a(2)] unfolding es1 by simp
      then show ?thesis unfolding es step using scanned_Cons [OF _ a(2,4) _ a(5)] m Suc.prems(3) by simp
    qed
  qed
qed


text \<open>C34. The scan of a main boot record without an extended partition records its valid entries in order: each gets the start,
  the size, the disk and the name of its number, and the sector's buffer is freed.  That is so for up to three
  entries; with four, as many as the table has room for, the assertion after the count fails.\<close>

theorem primary_scan:
  fixes s :: "'z ides_scheme"
  assumes "\<And>i. i < 4 \<Longrightarrow> pte_fs_type (entry_at p i) s \<noteq> 5" and "primary_partition s = 0" and "es = valid_entries p s 0"
  shows "if length es < 4
    then \<exists>s'. partition_scan_loop rd d 0 bs p 0 s = Some (sys_free bs s') \<and> bytes s' = bytes s \<and> primary_partition s' = of_nat (length es) \<and>
      (\<forall>j<length es. recorded d (entry_at p (es ! j)) j s (parts s' (prim_parts d + of_nat j * sizeof_partition)))
    else partition_scan_loop rd d 0 bs p 0 s = Some (Inl (Panic ''primary_partition < 4''))"
proof -
  have "scanned d p bs 0 (valid_entries p s 0) s (partition_scan_loop rd d 0 bs (entry_at p 0) (of_nat 0) s)"
    by (rule primary_scan_run) (use assms in simp_all)
  moreover have "entry_at p 0 = p" by (simp add: entry_at_def)
  ultimately show ?thesis unfolding assms(3) scanned_def by (auto split: if_splits)
qed

theorem primary_scan_witness:
  "\<forall>(s :: ides) d rd. partition_scan_loop rd d 0 0x5000 0x51be 0 (s\<lparr>bytes := \<lambda>_. 0x83, primary_partition := 0\<rparr>) =
       Some (Inl (Panic ''primary_partition < 4''))"
proof (intro allI)
  fix s :: ides and d rd
  let ?s = "s\<lparr>bytes := \<lambda>_. 0x83, primary_partition := 0\<rparr>"
  have e: "valid_entries 0x51be ?s 0 = [0, 1, 2, 3]" by (simp add: valid_entries_def pte_fs_type_def upt_rec)
  have "if length [0, 1, 2, 3 :: nat] < 4
    then \<exists>s'. partition_scan_loop rd d 0 0x5000 0x51be 0 ?s = Some (sys_free 0x5000 s') \<and> bytes s' = bytes ?s \<and>
      primary_partition s' = of_nat (length [0, 1, 2, 3 :: nat]) \<and>
      (\<forall>j<length [0, 1, 2, 3 :: nat]. recorded d (entry_at 0x51be ([0, 1, 2, 3] ! j)) j ?s (parts s' (prim_parts d + of_nat j * sizeof_partition)))
    else partition_scan_loop rd d 0 0x5000 0x51be 0 ?s = Some (Inl (Panic ''primary_partition < 4''))"
    by (rule primary_scan) (simp_all add: e pte_fs_type_def)
  then show "partition_scan_loop rd d 0 0x5000 0x51be 0 ?s = Some (Inl (Panic ''primary_partition < 4''))" by simp
qed

end
