(* ===== verification/Screen_Props.thy ===== *)
theory Screen_Props
  imports Screen
begin

text \<open>
  The code of the screen refines the terminal: every character has on the screen the effect it has on the terminal,
  so the cursor never leaves the screen; a backspace at the first cell is the exception and faults.
\<close>

section \<open>The loops\<close>

lemma movsd_vmem:
  "vmem (movsd n (k + 160) k v) x = (if k \<le> x \<and> x < k + 4 * n then vmem v (x + 160) else vmem v x)"
  "cursor (movsd n e k v) = cursor v"
proof -
  show "cursor (movsd n e k v) = cursor v" by (induction n arbitrary: e k v) simp_all
  show "vmem (movsd n (k + 160) k v) x = (if k \<le> x \<and> x < k + 4 * n then vmem v (x + 160) else vmem v x)"
  proof (induction n arbitrary: k v)
    case (Suc n)
    let ?v = "v\<lparr>vmem := (vmem v)(k := vmem v (k + 160), k + 1 := vmem v (k + 160 + 1), k + 2 := vmem v (k + 160 + 2),
       k + 3 := vmem v (k + 160 + 3))\<rparr>"
    have "movsd (Suc n) (k + 160) k v = movsd n ((k + 4) + 160) (k + 4) ?v" by (simp add: add.commute add.left_commute)
    moreover consider "x = k \<or> x = k + 1 \<or> x = k + 2 \<or> x = k + 3" | "x < k" | "k + 4 \<le> x" by linarith
    ultimately show ?case using Suc.IH [of "k + 4" ?v] by cases (auto simp: add.commute add.left_commute)
  qed auto
qed

lemma cls_vmem:
  "vmem (cls n k v) x = (if k \<le> x \<and> x < k + 2 * n then (if even (x - k) then 0x20 else 0x07) else vmem v x)"
proof (induction n arbitrary: k v)
  case (Suc n)
  consider "x = k" | "x = k + 1" | "x < k" | "k + 2 \<le> x" by linarith
  then show ?case
  proof cases
    case 4
    then have "even (x - (k + 2)) = even (x - k)" by (metis add_2_eq_Suc' add_leD1 diff_Suc_Suc even_Suc_Suc_iff le_Suc_ex add_diff_cancel_left' diff_diff_left even_add even_numeral le_add_diff_inverse2)
    then show ?thesis using 4 Suc.IH [of "k + 2"] by simp
  qed (use Suc.IH [of "k + 2"] in simp_all)
qed auto

lemma roll_screen_vmem:
  "vmem (roll_screen v) x = (if x < 3840 then vmem v (x + 160) else if x < 4000 then (if even x then 0x20 else 0x07) else vmem v x)"
  "cursor (roll_screen v) = 1920"
proof -
  have "even (x - 3840) = even x" if "3840 \<le> x" using that by (simp add: even_diff_nat)
  then show "vmem (roll_screen v) x = (if x < 3840 then vmem v (x + 160) else if x < 4000 then (if even x then 0x20 else 0x07) else vmem v x)"
    using movsd_vmem(1) [of 960 0 v x] by (simp add: roll_screen_def set_cursor_bx_def cls_vmem)
qed (simp add: roll_screen_def set_cursor_bx_def)

section \<open>The register\<close>

lemma sint_small: "n < 2 ^ 15 \<Longrightarrow> sint (of_nat n :: u16) = int n"
  by (simp add: signed_of_nat signed_take_bit_int_eq_self)

lemma line_feed_at:
  assumes "n \<le> 2000"
  shows "line_feed (of_nat n) v = (if n < 1920 then set_cursor_bx (of_nat (n div 80 * 80 + 80)) v else roll_screen v)"
proof -
  have n: "unat (of_nat n :: u16) = n" using assms by (intro unat_of_nat_lt) simp
  have "of_nat n mod 80 = (of_nat (n mod 80) :: u16)" by (rule unat_eqI) (use assms in \<open>simp add: unat_mod n unat_of_nat_lt\<close>)
  moreover have "of_nat (n - n mod 80) = (of_nat n - of_nat (n mod 80) :: u16)" by (simp add: of_nat_diff)
  ultimately have e: "(of_nat n - of_nat n mod 80 + 80 :: u16) = of_nat (n div 80 * 80 + 80)"
    by (simp add: minus_mod_eq_div_mult [symmetric])
  have "sint (of_nat (n div 80 * 80 + 80) :: u16) < 2000 \<longleftrightarrow> n < 1920"
  proof -
    have "n div 80 * 80 + 80 < 2 ^ 15" using assms by simp
    then have "sint (of_nat (n div 80 * 80 + 80) :: u16) = int (n div 80 * 80 + 80)" by (rule sint_small)
    then show ?thesis by simp linarith
  qed
  then show ?thesis unfolding line_feed_def Let_def e by simp
qed

lemma write_cell_at:
  assumes "n < 2000"
  shows "write_cell (of_nat n) c a v = Inr (of_nat n, v\<lparr>vmem := (vmem v)(2 * n := c, 2 * n + 1 := a)\<rparr>)"
proof -
  have p: "push_bit 1 (of_nat n :: u16) = of_nat (2 * n)" by (simp add: push_bit_eq_mult)
  have u: "unat (of_nat (2 * n) :: u16) = 2 * n" "unat (of_nat (2 * n + 1) :: u16) = 2 * n + 1"
    using assms by (intro unat_of_nat_lt; simp)+
  have s: "of_nat (2 * n) + 1 = (of_nat (2 * n + 1) :: u16)" by simp
  have d: "drop_bit 1 (of_nat (2 * n + 1) :: u16) = of_nat n"
  proof (rule unat_eqI)
    have "unat (drop_bit 1 (of_nat (2 * n + 1) :: u16)) = drop_bit 1 (unat (of_nat (2 * n + 1) :: u16))" by (simp only: unat_drop_bit_eq)
    then show "unat (drop_bit 1 (of_nat (2 * n + 1) :: u16)) = unat (of_nat n :: u16)"
      unfolding u(2) using assms by (simp add: drop_bit_eq_div unat_of_nat_lt)
  qed
  have g: "gs_write (of_nat (2 * n)) x w = Inr (w\<lparr>vmem := (vmem w)(2 * n := x)\<rparr>)"
    "gs_write (of_nat (2 * n + 1)) x w = Inr (w\<lparr>vmem := (vmem w)(2 * n + 1 := x)\<rparr>)" for x w
    using assms u by (simp_all add: gs_write_def word_le_nat_alt del: of_nat_Suc of_nat_add of_nat_mult)
  show ?thesis unfolding write_cell_def Let_def p g bind_r.simps s d by simp
qed


section \<open>The terminal\<close>

text \<open>The cells alone.\<close>

definition cells :: "vga \<Rightarrow> (u8 \<times> u8) list list \<Rightarrow> bool" where
  "cells v rs = (length rs = 25 \<and> (\<forall>r\<in>set rs. length r = 80) \<and>
     (\<forall>i<25. \<forall>j<80. rs ! i ! j = (vmem v (2 * (i * 80 + j)), vmem v (2 * (i * 80 + j) + 1))))"

lemma displays_cells:
  "displays v t \<longleftrightarrow> cells v (rows t) \<and> row t < 25 \<and> col t < 80 \<and> cursor v = of_nat (row t * 80 + col t)"
  by (auto simp: displays_def cells_def)

lemma cell_inj:
  fixes i j k l :: nat
  assumes "j < 80" "l < 80" "i * 80 + j = k * 80 + l"
  shows "i = k \<and> j = l"
proof -
  have "(i * 80 + j) div 80 = i" "(k * 80 + l) div 80 = k" using assms(1,2) by simp_all
  then show ?thesis using assms(3) by simp
qed

lemma cells_set:
  assumes "cells v rs" "i < 25" "j < 80"
  shows "cells (v\<lparr>vmem := (vmem v)(2 * (i * 80 + j) := c, 2 * (i * 80 + j) + 1 := a)\<rparr>) (rs[i := (rs ! i)[j := (c, a)]])"
proof -
  have odd: "2 * (x :: nat) \<noteq> 2 * y + 1" for x y by presburger
  have len: "length rs = 25" "length (rs ! k) = 80" if "k < 25" for k using assms(1) that by (auto simp: cells_def)
  have at: "rs[i := (rs ! i)[j := (c, a)]] ! k ! l =
      (((vmem v)(2 * (i * 80 + j) := c, 2 * (i * 80 + j) + 1 := a)) (2 * (k * 80 + l)),
       ((vmem v)(2 * (i * 80 + j) := c, 2 * (i * 80 + j) + 1 := a)) (2 * (k * 80 + l) + 1))" if "k < 25" "l < 80" for k l
  proof (cases "i = k \<and> j = l")
    case True
    then show ?thesis using len that by (simp add: nth_list_update)
  next
    case False
    then have "k * 80 + l \<noteq> i * 80 + j" using cell_inj [of j l i k] assms(3) that by auto
    then have "2 * (k * 80 + l) \<noteq> 2 * (i * 80 + j)" "2 * (k * 80 + l) + 1 \<noteq> 2 * (i * 80 + j) + 1" by simp_all
    moreover have "2 * (k * 80 + l) \<noteq> 2 * (i * 80 + j) + 1" "2 * (k * 80 + l) + 1 \<noteq> 2 * (i * 80 + j)" by (rule odd, rule odd [symmetric])
    moreover have "rs ! k ! l = (vmem v (2 * (k * 80 + l)), vmem v (2 * (k * 80 + l) + 1))" using assms(1) that by (simp add: cells_def)
    moreover have "i < length rs" "k < length rs" using len(1) [OF that(1)] assms(2) that(1) by simp_all
    ultimately show ?thesis using False by (cases "i = k") (auto simp: nth_list_update)
  qed
  have sz: "\<forall>r\<in>set (rs[i := (rs ! i)[j := (c, a)]]). length r = 80"
    using len(2) assms(1,2) by (auto simp: cells_def dest!: set_update_subset_insert [THEN subsetD])
  show ?thesis
    unfolding cells_def by (intro conjI allI impI) (use len(1) [of 0] sz at in \<open>simp_all only: length_list_update vga.simps simp_thms\<close>, simp)
qed

lemma cells_roll:
  assumes "cells v rs"
  shows "cells (roll_screen v) (tl rs @ [replicate 80 blank])"
proof -
  have len: "length rs = 25" "\<And>r. r \<in> set rs \<Longrightarrow> length r = 80" using assms by (auto simp: cells_def)
  have "(tl rs @ [replicate 80 blank]) ! i ! j = (vmem (roll_screen v) (2 * (i * 80 + j)), vmem (roll_screen v) (2 * (i * 80 + j) + 1))"
    if ij: "i < 25" "j < 80" for i j
  proof (cases "i = 24")
    case True
    then show ?thesis using ij len(1) by (simp add: nth_append roll_screen_vmem blank_def)
  next
    case False
    then have i: "i < 24" using ij by simp
    have e: "2 * (i * 80 + j) + 160 = 2 * (Suc i * 80 + j)" "2 * (i * 80 + j) + 1 + 160 = 2 * (Suc i * 80 + j) + 1" by simp_all
    have "i * 80 + j < 1920" using i ij by linarith
    then have lt: "2 * (i * 80 + j) < 3840" "2 * (i * 80 + j) + 1 < 3840" by simp_all
    have "rs ! Suc i ! j = (vmem v (2 * (Suc i * 80 + j)), vmem v (2 * (Suc i * 80 + j) + 1))"
      using assms i ij(2) unfolding cells_def by (metis Suc_less_eq eval_nat_numeral(3) semiring_norm(27,28))
    moreover have "(tl rs @ [replicate 80 blank]) ! i = rs ! Suc i" using i len(1) by (simp add: nth_append nth_tl)
    ultimately show ?thesis unfolding roll_screen_vmem(1) if_P [OF lt(1)] if_P [OF lt(2)] e by simp
  qed
  moreover have "\<forall>r\<in>set (tl rs @ [replicate 80 blank]). length r = 80" using len(2) by (cases rs) auto
  ultimately show ?thesis using len(1) unfolding cells_def by simp
qed

lemma line_feed_refines:
  assumes "cells v (rows t)" "n div 80 = row t \<or> n = 2000 \<and> row t = 24" "row t < 25" "n \<le> 2000"
  shows "displays (line_feed (of_nat n) v) (term_feed t)"
proof (cases "row t < 24")
  case True
  then have "n div 80 = row t" using assms(2) by auto
  moreover have "n < 1920" using True calculation by linarith
  ultimately show ?thesis using assms(1,4) True
    by (simp add: line_feed_at displays_cells term_feed_def set_cursor_bx_def cells_def)
next
  case False
  then have "\<not> n < 1920" "row t = 24" using assms(2,3) by auto
  then show ?thesis using assms cells_roll [OF assms(1)] by (simp add: line_feed_at displays_cells term_feed_def roll_screen_vmem(2))
qed

lemma put_char_refines:
  assumes d: "displays v t" and ok: "cl \<noteq> 8 \<or> row t \<noteq> 0 \<or> col t \<noteq> 0"
  shows "\<exists>v'. put_char_color cl color v = Inr v' \<and> displays v' (term_put (cl, color) t)"
proof -
  let ?n = "row t * 80 + col t"
  have D: "cells v (rows t)" "row t < 25" "col t < 80" "cursor v = of_nat ?n" using d by (simp_all add: displays_cells)
  have n: "?n < 2000" "?n div 80 = row t" using D(2,3) by simp_all
  consider (lf) "cl = 13 \<or> cl = 10" | (bs) "cl = 8" | (other) "cl \<noteq> 13" "cl \<noteq> 10" "cl \<noteq> 8" by blast
  then show ?thesis
  proof cases
    case lf
    have "displays (line_feed (of_nat ?n) v) (term_feed t)" by (rule line_feed_refines) (use D n in simp_all)
    then show ?thesis using lf D(4) by (auto simp: put_char_color_def term_put_def)
  next
    case bs
    let ?t = "if col t > 0 then t\<lparr>col := col t - 1\<rparr> else t\<lparr>row := row t - 1, col := 79\<rparr>"
    have pos: "0 < ?n" using ok bs by auto
    have t: "rows ?t = rows t" "row ?t < 25" "col ?t < 80" "row ?t * 80 + col ?t = ?n - 1"
      using D(2,3) pos by (auto simp: diff_mult_distrib)
    have "(of_nat ?n - 1 :: u16) = of_nat (?n - 1)" using pos by (cases ?n) simp_all
    then have "put_char_color 8 color v = Inr (v\<lparr>vmem := (vmem v)(2 * (?n - 1) := 0x20, 2 * (?n - 1) + 1 := 0x07), cursor := of_nat (?n - 1)\<rparr>)"
      using n(1) write_cell_at [of "?n - 1" "0x20" "0x07" v]
      by (simp add: put_char_color_def D(4) set_cursor_bx_def Let_def del: of_nat_add of_nat_mult)
    moreover have "cells (v\<lparr>vmem := (vmem v)(2 * (?n - 1) := 0x20, 2 * (?n - 1) + 1 := 0x07)\<rparr>) ((rows t)[row ?t := (rows t ! row ?t)[col ?t := blank]])"
      using cells_set [OF D(1) t(2,3), of "0x20" "0x07"] unfolding t(4) blank_def .
    moreover have "term_put (8, color) t = term_set (row ?t) (col ?t) blank ?t" by (simp add: term_put_def Let_def)
    ultimately show ?thesis using t unfolding bs by (simp add: displays_cells cells_def term_set_def)
  next
    case other
    let ?v = "v\<lparr>vmem := (vmem v)(2 * ?n := cl, 2 * ?n + 1 := color)\<rparr>" and ?t = "term_set (row t) (col t) (cl, color) t"
    have c: "cells ?v (rows ?t)" using cells_set [OF D(1-3)] by (simp add: term_set_def)
    have s: "sint (of_nat (?n + 1) :: u16) < 2000 \<longleftrightarrow> ?n + 1 < 2000" using n(1) by (subst sint_small) (simp, linarith)
    have a: "(of_nat ?n + 1 :: u16) = of_nat (?n + 1)" by simp
    have put: "put_char_color cl color v = Inr (if ?n + 1 < 2000 then ?v\<lparr>cursor := of_nat (?n + 1)\<rparr> else line_feed (of_nat (?n + 1)) ?v)"
      using other write_cell_at [OF n(1), of cl color v] a s
      by (simp add: put_char_color_def D(4) set_cursor_bx_def Let_def del: of_nat_Suc of_nat_add of_nat_mult)
    have tput: "term_put (cl, color) t = (if col t < 79 then ?t\<lparr>col := col t + 1\<rparr> else term_feed ?t)"
      using other by (simp add: term_put_def Let_def term_set_def)
    show ?thesis
    proof (cases "?n + 1 < 2000")
      case True
      have "displays (?v\<lparr>cursor := of_nat (?n + 1)\<rparr>) (term_put (cl, color) t)"
      proof (cases "col t < 79")
        case False
        then have e: "col t = 79" "row t < 24" using D(2,3) True by auto
        then show ?thesis using c unfolding tput by (simp add: displays_cells cells_def term_feed_def term_set_def del: of_nat_add of_nat_mult)
      qed (use c D(2) tput in \<open>simp add: displays_cells cells_def term_set_def\<close>)
      then show ?thesis unfolding put using True by simp
    next
      case False
      then have e: "?n + 1 = 2000" "row t = 24" "col t = 79" using n(1) D(2,3) by auto
      have "displays (line_feed (of_nat (?n + 1)) ?v) (term_feed ?t)"
        by (rule line_feed_refines [OF c]) (use e in \<open>simp_all add: term_set_def\<close>)
      then show ?thesis unfolding put tput using e by simp
    qed
  qed
qed

lemma backspace_faults:
  assumes "displays v t" "row t = 0" "col t = 0"
  shows "put_char_color 8 color v = Inl (Overrun 0xfffe)"
  using assms by (simp add: displays_def put_char_color_def write_cell_def gs_write_def Let_def)

text \<open>No backspace comes when the cursor is at the first cell.\<close>

fun stays :: "u8 \<Rightarrow> u8 list \<Rightarrow> terminal \<Rightarrow> bool" where
  "stays color [] t = True"
| "stays color (c # cs) t = ((c \<noteq> 8 \<or> row t \<noteq> 0 \<or> col t \<noteq> 0) \<and> stays color cs (term_put (c, color) t))"

section \<open>Properties\<close>

text \<open>C22. Printing a string refines the terminal: from a screen that displays a terminal, the code ends on a screen that
  displays the terminal after the same characters, line feeds and scrolling included, so the cursor stays on the
  screen.  The exception is a backspace at the first cell: the code steps back to cell 0xffff, and the write behind
  the video segment faults.\<close>

theorem put_str_refines_terminal:
  assumes "displays v t"
  shows "if stays color cs t then \<exists>v'. put_str_color cs color v = Inr v' \<and> displays v' (fold (\<lambda>c. term_put (c, color)) cs t)
    else put_str_color cs color v = Inl (Overrun 0xfffe)"
  using assms
proof (induction cs arbitrary: v t)
  case (Cons c cs)
  show ?case
  proof (cases "c \<noteq> 8 \<or> row t \<noteq> 0 \<or> col t \<noteq> 0")
    case True
    then obtain v1 where "put_char_color c color v = Inr v1" "displays v1 (term_put (c, color) t)"
      using put_char_refines [OF Cons.prems] by blast
    then show ?thesis using Cons.IH [of v1 "term_put (c, color) t"] True by simp
  next
    case False
    then show ?thesis using backspace_faults [OF Cons.prems] by auto
  qed
qed simp

text \<open>The screen cleared, with the cursor at the first cell.\<close>

definition clear_screen :: vga where "clear_screen = \<lparr>vmem = (\<lambda>x. if even x then 0x20 else 0x07), cursor = 0\<rparr>"
definition clear_term :: terminal where "clear_term = \<lparr>rows = replicate 25 (replicate 80 blank), row = 0, col = 0\<rparr>"

lemma clear_displays: "displays clear_screen clear_term"
  by (auto simp: displays_def clear_screen_def clear_term_def blank_def)

theorem put_str_refines_terminal_witness:
  "(\<exists>v'. put_str_color [72, 105, 8, 10] 7 clear_screen = Inr v' \<and>
      displays v' (fold (\<lambda>c. term_put (c, 7)) [72, 105, 8, 10] clear_term)) \<and>
   put_str_color [72, 8, 8] 7 clear_screen = Inl (Overrun 0xfffe)"
proof -
  have "stays 7 [72, 105, 8, 10] clear_term" "\<not> stays 7 [72, 8, 8] clear_term"
    by (simp_all add: clear_term_def term_put_def term_set_def Let_def)
  then show ?thesis
    using put_str_refines_terminal [OF clear_displays, of 7 "[72, 105, 8, 10]"] put_str_refines_terminal [OF clear_displays, of 7 "[72, 8, 8]"]
    by (simp only: if_True if_False simp_thms)
qed

lemma put_str_vga_color: "put_str_vga cs v = put_str_color cs 7 v"
proof (induction cs arbitrary: v)
  case (Cons c cs)
  have "put_str_vga cs = put_str_color cs 7" by (rule ext) (rule Cons.IH)
  then show ?case by (simp add: put_char_vga_def)
qed simp

text \<open>\<open>createColor\<close> puts its arguments side by side in the attribute byte: bit 7 blinks, and the three bits above
  the highlight bit, which are those of the background, come from the argument called \<open>foreground\<close>, the lowest three, those
  of the character, from the one called \<open>background\<close>.\<close>

theorem createColor_fields:
  assumes "foreground < 8" "background < 8"
  shows "let c = createColor flash foreground highlight background in
    (bit c 7 \<longleftrightarrow> flash) \<and> drop_bit 4 c AND 7 = foreground \<and> (bit c 3 \<longleftrightarrow> highlight) \<and> c AND 7 = background"
proof -
  let ?c = "createColor flash foreground highlight background"
  have m: "(7 :: u8) = mask 3" by (simp add: mask_eq_exp_minus_1)
  have small: "\<not> bit x n" if "x < 8" "3 \<le> n" for x :: u8 and n
  proof -
    have "unat x < 2 ^ 3" using that(1) by (simp add: word_less_nat_alt)
    then have "take_bit 3 (unat x) = unat x" by (simp add: take_bit_nat_eq_self_iff)
    then have "bit (unat x) n = bit (take_bit 3 (unat x)) n" by simp
    then show ?thesis using that(2) by (simp add: bit_simps)
  qed
  have c: "bit ?c n \<longleftrightarrow> (n = 7 \<and> flash) \<or> (4 \<le> n \<and> bit foreground (n - 4)) \<or> (n = 3 \<and> highlight) \<or> bit background n" if "n < 8" for n
    using that by (auto simp: createColor_def bit_simps)
  have "drop_bit 4 ?c AND 7 = foreground"
  proof (rule bit_word_eqI)
    fix n assume n: "n < LENGTH(8)"
    consider "n < 3" | "3 \<le> n" by linarith
    then show "bit (drop_bit 4 ?c AND 7) n = bit foreground n"
      using c [of "4 + n"] small [OF assms(1), of n] small [OF assms(2), of "4 + n"] n by cases (auto simp: m bit_simps)
  qed
  moreover have "?c AND 7 = background"
  proof (rule bit_word_eqI)
    fix n assume n: "n < LENGTH(8)"
    consider "n < 3" | "3 \<le> n" by linarith
    then show "bit (?c AND 7) n = bit background n"
      using c [of n] small [OF assms(2), of n] n by cases (auto simp: m bit_simps)
  qed
  moreover have "bit ?c 7 \<longleftrightarrow> flash" "bit ?c 3 \<longleftrightarrow> highlight"
    using c [of 7] c [of 3] small [OF assms(1), of 3] small [OF assms(2), of 7] small [OF assms(2), of 3] by simp_all
  ultimately show ?thesis by (simp add: Let_def)
qed

theorem createColor_fields_witness:
  "createColor False 1 True 2 = color_code blue_light_green \<and> drop_bit 4 (color_code blue_light_green) AND 7 = 1"
proof -
  have "createColor False 1 True 2 = color_code blue_light_green" by (simp add: createColor_def)
  then show ?thesis using createColor_fields [of 1 2 False True] by (simp add: Let_def)
qed

end
