(* ===== verification/Spec2Isabelle.thy ===== *)
theory Spec2Isabelle
  imports Start Kbd_Props Proc_Props Kmath Fmt_Props Ide_Props Screen_Props
begin

text \<open>
  Flying\_kernel, a 32-bit x86 teaching kernel: a verification development.

  \<^bold>\<open>The program.\<close>  The loader enters \<^verbatim>\<open>main\<close>, which calls \<^verbatim>\<open>init_all\<close>: interrupt
  descriptors and the 8259A, timer, memory pools and kernel heap, the main thread, console, keyboard, TSS,
  real-time clock and system calls.  Threads and processes are pages with a PCB at the bottom and a kernel
  stack above it.  The timer interrupt and blocking primitives switch between them; semaphores and locks queue
  waiting threads on the same list nodes as the ready list.  Memory is two pools of frames and one pool of
  virtual addresses per address space, all bitmaps; a heap of size classes is built on pages.  The keyboard
  handler queues characters in a ring buffer.  User code enters the kernel with interrupt 0x80.

  \<^bold>\<open>Theories and sources\<close> (paths under \<^verbatim>\<open>src/\<close>).

  \<^item> \<open>Kernel_Base\<close>: machine integers, errors, word and byte memory, device output; the shared lemmas and the
    collections \<open>err_simps\<close>, \<open>mem_simps\<close>, \<open>word_facts\<close>.
  \<^item> \<open>Interrupt\<close>: the interrupt flag (\<^verbatim>\<open>kernel/interrupt.c\<close>).  \<open>Linked_List\<close>: \<^verbatim>\<open>lib/kernel/list.c\<close> as
    pointer writes, with refinement to sequences; \<open>Queues\<close>: several lists in one memory.
  \<^item> \<open>Kstring\<close>: \<^verbatim>\<open>lib/string.c\<close>; \<open>Bitmap\<close>: \<^verbatim>\<open>lib/kernel/bitmap.c\<close>; \<open>Stdio\<close>, \<open>Fmt_Props\<close>:
    \<^verbatim>\<open>lib/stdio.c\<close>; \<open>Kmath\<close>: \<^verbatim>\<open>lib/math.c\<close>.
  \<^item> \<open>Task\<close>, \<open>Sync\<close>, \<open>Scheduler\<close>: the PCB and the switch of address spaces (\<^verbatim>\<open>thread/thread.h\<close>,
    \<^verbatim>\<open>userprog/process.c\<close>, \<^verbatim>\<open>userprog/tss.c\<close>), \<^verbatim>\<open>thread/sync.c\<close>, \<^verbatim>\<open>device/console.c\<close>, the scheduler of
    \<^verbatim>\<open>thread/thread.c\<close> and the timer interrupt, as a step relation \<open>kstep\<close> over all interleavings.
    \<open>Sched_Inv\<close>, \<open>Sched_Safety\<close>, \<open>Sched_Progress\<close>, \<open>Sched_Props\<close> hold the invariant and the theorems;
    \<open>Lock_Facts\<close> is about locks nobody waits for.
  \<^item> \<open>Paging\<close>, \<open>Memory\<close>, \<open>Heap\<close>: \<^verbatim>\<open>kernel/memory.c\<close>, over physical memory and the walk the CPU does.
    \<open>Mem_Inv\<close>, \<open>Mem_Alloc\<close>, \<open>Mem_Props\<close> are about pages, \<open>Page_Fill\<close> about writing a mapped page,
    \<open>Heap_Props\<close> about the arenas of the heap.  \<open>Mem_Bytes\<close> shows which bytes the allocator writes; \<open>Heap_Place\<close> and
    \<open>Heap_Rep\<close> say when memory represents a set of arenas, \<open>Heap_Alloc\<close>, \<open>Heap_Large\<close>, \<open>Heap_Free\<close> and
    \<open>Heap_Release\<close> follow the branches of \<^verbatim>\<open>sys_malloc\<close> and \<^verbatim>\<open>sys_free\<close>, and \<open>Heap_Spec\<close> is the abstract heap.
  \<^item> \<open>Thread\<close>: creation of threads and \<open>thread_init\<close>; \<open>Process\<close>: \<^verbatim>\<open>userprog/process.c\<close>, with
    \<open>Proc_Props\<close>; \<open>Syscalls\<close>: \<^verbatim>\<open>userprog/syscall-init.c\<close>, \<^verbatim>\<open>lib/user/syscall.c\<close> and the entry of
    \<^verbatim>\<open>kernel/kernel.S\<close>.
  \<^item> \<open>Descriptors\<close>: the rest of \<^verbatim>\<open>kernel/interrupt.c\<close> and \<open>tss_init\<close>; \<open>Ioqueue\<close>, \<open>Keyboard\<close>,
    \<open>Kbd_Props\<close>: \<^verbatim>\<open>device/ioqueue.c\<close> and \<^verbatim>\<open>device/keyboard.c\<close>; \<open>Timer\<close>: \<^verbatim>\<open>device/timer.c\<close>; \<open>Rtc\<close>:
    \<^verbatim>\<open>lib/user/time.c\<close>; \<open>Ide\<close>, \<open>Disk_Init\<close>, \<open>Ide_Props\<close>:
    \<^verbatim>\<open>device/ide.c\<close>; \<open>Screen\<close>, \<open>Screen_Props\<close>: \<^verbatim>\<open>lib/kernel/print.S\<close> and \<^verbatim>\<open>print.h\<close>.
  \<^item> \<open>Boot\<close>: \<^verbatim>\<open>kernel/init.c\<close>; \<open>Kmain\<close>: \<^verbatim>\<open>kernel/main.c\<close> with its demonstration threads, and the idle thread.
  \<^item> \<open>Loader\<close>: the page tables of \<^verbatim>\<open>boot/loader.S\<close>.  The composition of the parts: \<open>Boot_Heap\<close> takes those tables to the
    invariants of memory, \<open>Layout\<close> says where the kernel's data lies, \<open>Thread_Init\<close> follows the making of a PCB, \<open>Boot_Run\<close>
    and \<open>Boot_Props\<close> the run of \<^verbatim>\<open>init_all\<close>, \<open>Thread_Start\<close> that of \<^verbatim>\<open>thread_start\<close>, and \<open>Start\<close> that of \<^verbatim>\<open>main\<close> up to the
    first switch.

  \<^bold>\<open>State.\<close>  One record per layer, each extending the one below: \<open>machine\<close> (flags, word memory, byte
  memory), \<open>pgmachine\<close> (physical memory and CR3), \<open>kernel\<close> (tasks, semaphores, locks, lists, stack pointer),
  \<open>kmem\<close> (pools), descriptor tables and ports, ring buffers, keyboard, system call table.  An operation is
  polymorphic in the extension, so that it applies to every later state and leaves the extension alone.  List
  links are words of memory; PCB members and semaphore values are fields indexed by address.  A failed
  assertion, a page fault, an endless loop and a wait are values of the error type.

  \<^bold>\<open>What is shown.\<close>  Start: the loader's tables map the first megabyte twice; from the loader's jump, for any size of memory,
  \<^verbatim>\<open>init_all\<close> returns in a state where the invariants of scheduler, paging and heap hold (\<open>kernel_state\<close>); \<^verbatim>\<open>thread_start\<close>
  keeps them and adds one ready thread; after \<^verbatim>\<open>main\<close> the clock runs the first thread that was made.  The theorems on the
  scheduler and on the heap below start from such states.  Thread system: in every reachable state the ready and waiter lists hold exactly the
  threads whose status says so, locks exclude each other and no wakeup is lost; \<open>thread_yield\<close> is round robin
  and the timer preempts exactly at the end of a slice.  Memory: pages are mapped to distinct free frames and
  freeing restores pools and mappings; the pools lie where they should; \<open>addr_v2p\<close> agrees with the CPU; the
  geometry of arenas; a new page directory shares the kernel half.  Heap: \<open>sys_malloc\<close> and \<open>sys_free\<close> of kernel
  threads, on every branch, refine a map from live blocks to their sizes: a block is fresh, large enough, clear, mapped and
  apart from the others, and an operation on one block keeps the contents of the rest.
  Devices: ring buffer and keyboard refine a bounded queue and an abstract keyboard; the gates of the interrupt
  table; sleeping; why reading a disk cannot succeed, and why \<open>ide_init\<close> cannot return;
  printing on the screen refines a terminal of rows.  Library: lists refine sequences, bitmap scans return the lowest free run, strings round
  trip, \<open>vsprintf\<close> writes what its format means.  Several theorems state what the code does on the paths where it errs.

  \<^bold>\<open>Interfaces\<close> are locales: \<open>sequence_list\<close> (interpreted by the linked list), \<open>slot_row\<close> (by bitmaps, and
  used by the page allocator), \<open>bounded_queue\<close> (by the ring buffer), \<open>allocator\<close> (by the kernel heap).

  \<^bold>\<open>Bounds and fuel.\<close>  Loops over a count are structural in the count.  Loops with no bound in the code
  (list traversal, string loops, the format loop) are partial functions with value \<open>None\<close> when they do not
  end, and the theorems about them prove that they do.  Words keep their width.

  \<^bold>\<open>Not modelled.\<close>  The boot loader other than its page tables (its reads of the disk and the BIOS calls; \<open>kernel_init\<close>,
  which copies the image, so that the contents of the image at the jump are a hypothesis, \<open>entered\<close>) and the interrupt stubs of \<^verbatim>\<open>kernel/kernel.S\<close> other than the entry of
  system calls; \<open>_syscall3\<close>, which does not assemble as written; the empty file system, shell, fork, exec
  and pipe files; the TLB (a mapping takes effect at once).  Device output elsewhere than in \<open>Screen\<close> is the sequence
  of characters printed.  Pool and channel locks are taken straight through: a contended lock is the error value
  for a wait.  The demonstration threads are modelled up to the endless loops they end in.
\<close>

end
